(* ===== verification/Prelude.thy ===== *)
theory Prelude
  imports Main "HOL-Library.Word"
begin

text \<open>
  Shared vocabulary of the development: the C integer types at their width, the outcome of a
  kernel function (it returns, it switches to the scheduler, it panics, it spins on a lock that
  another hart holds, or its behaviour is undefined in C), sequencing of outcomes, and generic
  lemmas on machine words that several components use.
\<close>

unbundle bit_operations_syntax

section \<open>C integer types\<close>

type_synonym uchar = "8 word"
type_synonym ushort = "16 word"
type_synonym uint = "32 word"
type_synonym uint64 = "64 word"
type_synonym int32 = "32 word"
type_synonym mem = "64 word \<Rightarrow> 8 word"

section \<open>Outcomes of kernel code\<close>

text \<open>
  \<^item> \<open>Ok a s\<close>: the function returns \<open>a\<close> in state \<open>s\<close>;
  \<^item> \<open>Swtch s\<close>: control leaves the function through \<open>swtch()\<close> with the kernel in state \<open>s\<close>
    (a process that called \<open>sched()\<close>, or the scheduler that starts a process);
  \<^item> \<open>Panic msg\<close>: the kernel called \<open>panic(msg)\<close> and stops;
  \<^item> \<open>Spin\<close>: the function waits in \<open>acquire()\<close> for a lock that another hart holds;
  \<^item> \<open>Undef\<close>: C gives the execution no meaning (a null pointer is dereferenced, an array
    is indexed out of its range).
\<close>

datatype ('a, 's) res = Ok 'a 's | Swtch 's | Panic string | Spin | Undef

primrec bind :: "('a, 's) res \<Rightarrow> ('a \<Rightarrow> 's \<Rightarrow> ('b, 's) res) \<Rightarrow> ('b, 's) res" where
  "bind (Ok a s) f = f a s"
| "bind (Swtch s) f = Swtch s"
| "bind (Panic e) f = Panic e"
| "bind Spin f = Spin"
| "bind Undef f = Undef"

named_theorems frame \<open>what an operation leaves unchanged\<close>
named_theorems step_eqs \<open>equations that run an operation under its precondition\<close>

lemma bind_cong [fundef_cong]:
  "m = m' \<Longrightarrow> (\<And>a s. m' = Ok a s \<Longrightarrow> f a s = g a s) \<Longrightarrow> bind m f = bind m' g"
  by (cases m') auto

lemma bind_eq_Ok_conv:
  "bind m f = Ok b t \<longleftrightarrow> (\<exists>a s. m = Ok a s \<and> f a s = Ok b t)"
  by (cases m) auto

lemma bind_eq_OkE [elim]:
  assumes "bind m f = Ok b t"
  obtains a s where "m = Ok a s" and "f a s = Ok b t"
  using assms by (auto simp: bind_eq_Ok_conv)

lemma bind_eq_Panic_conv:
  "bind m f = Panic e \<longleftrightarrow> m = Panic e \<or> (\<exists>a s. m = Ok a s \<and> f a s = Panic e)"
  by (cases m) auto

lemma bind_eq_Swtch_conv:
  "bind m f = Swtch t \<longleftrightarrow> m = Swtch t \<or> (\<exists>a s. m = Ok a s \<and> f a s = Swtch t)"
  by (cases m) auto

lemma bind_assoc: "bind (bind m f) g = bind m (\<lambda>a s. bind (f a s) g)"
  by (cases m) auto

lemma bind_Ok [simp]: "bind m Ok = m"
  by (cases m) auto

text \<open>Whether an outcome is a normal return.\<close>

definition returns :: "('a, 's) res \<Rightarrow> bool" where
  "returns r \<longleftrightarrow> (\<exists>a s. r = Ok a s)"

lemma returns_simps [simp]:
  "returns (Ok a s)" "\<not> returns (Swtch s)" "\<not> returns (Panic e)" "\<not> returns Spin"
  "\<not> returns Undef"
  by (auto simp: returns_def)

section \<open>Word lemmas\<close>

lemma unat_add_lt:
  fixes a :: "'a::len word"
  assumes "unat a + n < 2 ^ LENGTH('a)"
  shows "unat (a + of_nat n) = unat a + n"
proof -
  have "n < 2 ^ LENGTH('a)" using assms by simp
  then have "unat (of_nat n :: 'a word) = n"
    by (simp add: unat_of_nat)
  with assms show ?thesis by (simp add: unat_word_ariths)
qed

lemma add_of_nat_inj:
  fixes a :: "'a::len word"
  assumes "a + of_nat i = a + of_nat j" "i < 2 ^ LENGTH('a)" "j < 2 ^ LENGTH('a)"
  shows "i = j"
proof -
  from assms(1) have "(of_nat i :: 'a word) = of_nat j" by simp
  then have "unat (of_nat i :: 'a word) = unat (of_nat j :: 'a word)" by simp
  with assms(2,3) show ?thesis by (simp add: unat_of_nat)
qed

lemma and_not_mask_zero_iff:
  fixes w :: "'a::len word"
  shows "w AND NOT (mask n) = w \<longleftrightarrow> take_bit n w = 0"
proof
  assume *: "w AND NOT (mask n) = w"
  have "take_bit n w = take_bit n (w AND NOT (mask n))" by (simp only: *)
  also have "\<dots> = 0" by (simp add: take_bit_eq_mask and.assoc)
  finally show "take_bit n w = 0" .
next
  assume "take_bit n w = 0"
  then show "w AND NOT (mask n) = w"
    by (auto simp: bit_eq_iff bit_simps)
qed

lemma unat_and_not_mask:
  fixes w :: "'a::len word"
  shows "unat (w AND NOT (mask n)) = unat w div 2 ^ n * 2 ^ n"
proof -
  have "w AND NOT (mask n) = push_bit n (drop_bit n w)"
    by (rule bit_word_eqI) (auto simp: bit_simps)
  moreover have "unat w div 2 ^ n * 2 ^ n < 2 ^ LENGTH('a)"
    using unsigned_less [of w, where ?'a = nat] div_times_less_eq_dividend [of "unat w" "2 ^ n"]
    by linarith
  moreover have "unat (push_bit n (drop_bit n w)) = (unat w div 2 ^ n * 2 ^ n) mod 2 ^ LENGTH('a)"
    by (simp only: unsigned_push_bit_eq unsigned_drop_bit_eq)
       (simp add: drop_bit_eq_div push_bit_eq_mult take_bit_eq_mod)
  ultimately show ?thesis by simp
qed

end
