(* ===== verification/Machine.thy ===== *)
theory Machine
  imports Prelude
begin

text \<open>
  Harts, interrupt enabling and spin locks: \<open>kernel/spinlock.c\<close>, the hart registers of
  \<open>kernel/riscv.h\<close> that it uses, and \<open>cpuid\<close>/\<open>mycpu\<close> of \<open>kernel/proc.c\<close>.
  The record \<open>machine\<close> is the base of the kernel state; every component extends it with its
  own globals. A spin lock is named by its variable in the source (\<open>lockid\<close>).
  The second half of the theory runs \<open>acquire()\<close> and \<open>release()\<close> on any number of harts, one
  memory access at a time, and shows mutual exclusion.
\<close>

section \<open>State\<close>

datatype lockid =
    kmem_lock | pid_lock | wait_lock | tickets_lock | proc_lock nat | tickslock
  | bcache_lock | buf_lock nat | itable_lock | inode_lock nat | log_lock
  | ftable_lock | pipe_lock uint64 | cons_lock | uart_tx_lock | vdisk_lock | pr_lock

record spinlock =
  lk_locked :: bool
  lk_name :: string
  lk_cpu :: "nat option"

record cpu =
  cpu_proc :: "nat option"
  noff :: int
  intena :: bool

record machine =
  tp :: nat
  cpus :: "nat \<Rightarrow> cpu"
  sie :: "nat \<Rightarrow> bool"
  locks :: "lockid \<Rightarrow> spinlock"

section \<open>Operations\<close>

definition cpuid :: "'a machine_scheme \<Rightarrow> nat" where
  "cpuid s = tp s"

definition mycpu :: "'a machine_scheme \<Rightarrow> cpu" where
  "mycpu s = cpus s (cpuid s)"

definition set_mycpu :: "cpu \<Rightarrow> 'a machine_scheme \<Rightarrow> 'a machine_scheme" where
  "set_mycpu c s = s\<lparr>cpus := (cpus s)(cpuid s := c)\<rparr>"

definition intr_on :: "'a machine_scheme \<Rightarrow> 'a machine_scheme" where
  "intr_on s = s\<lparr>sie := (sie s)(tp s := True)\<rparr>"

definition intr_off :: "'a machine_scheme \<Rightarrow> 'a machine_scheme" where
  "intr_off s = s\<lparr>sie := (sie s)(tp s := False)\<rparr>"

definition intr_get :: "'a machine_scheme \<Rightarrow> bool" where
  "intr_get s = sie s (tp s)"

definition initlock :: "lockid \<Rightarrow> string \<Rightarrow> 'a machine_scheme \<Rightarrow> 'a machine_scheme" where
  "initlock l name s =
     s\<lparr>locks := (locks s)(l := \<lparr>lk_locked = False, lk_name = name, lk_cpu = None\<rparr>)\<rparr>"

definition holding :: "lockid \<Rightarrow> 'a machine_scheme \<Rightarrow> bool" where
  "holding l s \<longleftrightarrow> lk_locked (locks s l) \<and> lk_cpu (locks s l) = Some (cpuid s)"

definition push_off :: "'a machine_scheme \<Rightarrow> 'a machine_scheme" where
  "push_off s =
    (let old = intr_get s;
         s = intr_off s;
         s = (if noff (mycpu s) = 0 then set_mycpu ((mycpu s)\<lparr>intena := old\<rparr>) s else s)
     in set_mycpu ((mycpu s)\<lparr>noff := noff (mycpu s) + 1\<rparr>) s)"

definition pop_off :: "'a machine_scheme \<Rightarrow> (unit, 'a machine_scheme) res" where
  "pop_off s =
    (if intr_get s then Panic ''pop_off - interruptible''
     else if noff (mycpu s) < 1 then Panic ''pop_off''
     else
       let s = set_mycpu ((mycpu s)\<lparr>noff := noff (mycpu s) - 1\<rparr>) s
       in Ok () (if noff (mycpu s) = 0 \<and> intena (mycpu s) then intr_on s else s))"

definition acquire :: "lockid \<Rightarrow> 'a machine_scheme \<Rightarrow> (unit, 'a machine_scheme) res" where
  "acquire l s =
    (let s = push_off s in
     if holding l s then Panic ''acquire''
     else if lk_locked (locks s l) then Spin
     else
       let s = s\<lparr>locks := (locks s)(l := (locks s l)\<lparr>lk_locked := True\<rparr>)\<rparr>
       in Ok () (s\<lparr>locks := (locks s)(l := (locks s l)\<lparr>lk_cpu := Some (cpuid s)\<rparr>)\<rparr>))"

definition release :: "lockid \<Rightarrow> 'a machine_scheme \<Rightarrow> (unit, 'a machine_scheme) res" where
  "release l s =
    (if \<not> holding l s then Panic ''release''
     else
       let s = s\<lparr>locks := (locks s)(l := (locks s l)\<lparr>lk_cpu := None\<rparr>)\<rparr>;
           s = s\<lparr>locks := (locks s)(l := (locks s l)\<lparr>lk_locked := False\<rparr>)\<rparr>
       in pop_off s)"

section \<open>Running a critical section\<close>

text \<open>
  \<open>unlocked l s\<close>: nobody holds the lock. \<open>quiet s\<close>: the nesting depth of \<open>push_off\<close> agrees with
  the interrupt flag. \<open>touch s\<close> is all that an \<open>acquire\<close> followed by the matching \<open>release\<close>
  leaves behind: at depth 0 the hart's \<open>intena\<close> was overwritten with the interrupt flag.
\<close>

definition unlocked :: "lockid \<Rightarrow> 'a machine_scheme \<Rightarrow> bool" where
  "unlocked l s \<longleftrightarrow> \<not> lk_locked (locks s l) \<and> lk_cpu (locks s l) = None"

definition quiet :: "'a machine_scheme \<Rightarrow> bool" where
  "quiet s \<longleftrightarrow> 0 \<le> noff (mycpu s) \<and> (0 < noff (mycpu s) \<longrightarrow> \<not> intr_get s)"

definition touch :: "'a machine_scheme \<Rightarrow> 'a machine_scheme" where
  "touch s =
     (if noff (mycpu s) = 0 then set_mycpu ((mycpu s)\<lparr>intena := intr_get s\<rparr>) s else s)"

definition acquired :: "lockid \<Rightarrow> 'a machine_scheme \<Rightarrow> 'a machine_scheme" where
  "acquired l s =
    (push_off s)\<lparr>locks := (locks s)(l := (locks s l)\<lparr>lk_locked := True, lk_cpu := Some (tp s)\<rparr>)\<rparr>"

lemmas machine_defs =
  cpuid_def mycpu_def set_mycpu_def intr_on_def intr_off_def intr_get_def holding_def
  push_off_def pop_off_def unlocked_def quiet_def touch_def acquired_def Let_def

lemma acquire_eq [step_eqs]:
  "unlocked l s \<Longrightarrow> acquire l s = Ok () (acquired l s)"
  by (simp add: acquire_def machine_defs)

lemma acquire_held_panics: "holding l s \<Longrightarrow> acquire l s = Panic ''acquire''"
  by (simp add: acquire_def machine_defs)

lemma acquire_Ok_iff: "acquire l s = Ok u t \<longleftrightarrow> \<not> lk_locked (locks s l) \<and> t = acquired l s"
  by (auto simp: acquire_def machine_defs)

lemma release_acquired:
  assumes "unlocked l s" "quiet s"
  shows "release l (acquired l s) = Ok () (touch s)"
  using assms
  by (cases s, cases "locks s l")
     (auto simp: release_def machine_defs fun_upd_idem_iff)

lemma unlocked_acquired [simp]: "l \<noteq> k \<Longrightarrow> unlocked l (acquired k s) = unlocked l s"
  by (simp add: machine_defs)

lemma holding_acquired [simp]: "holding l (acquired k s) \<longleftrightarrow> l = k \<or> holding l s"
  by (auto simp: machine_defs)

lemma quiet_acquired [simp]: "quiet s \<Longrightarrow> quiet (acquired l s)"
  by (auto simp: machine_defs)

lemma touch_acquired [simp]: "quiet s \<Longrightarrow> touch (acquired l s) = acquired l s"
  by (auto simp: machine_defs)

lemma touch_simps [simp]:
  "unlocked l (touch s) = unlocked l s" "holding l (touch s) = holding l s"
  "quiet (touch s) = quiet s" "touch (touch s) = touch s" "intr_get (touch s) = intr_get s"
  "tp (touch s) = tp s" "sie (touch s) = sie s" "locks (touch s) = locks s"
  "noff (mycpu (touch s)) = noff (mycpu s)" "cpu_proc (mycpu (touch s)) = cpu_proc (mycpu s)"
  by (auto simp: machine_defs)

lemma touch_noop: "noff (mycpu s) \<noteq> 0 \<Longrightarrow> touch s = s"
  by (simp add: touch_def)

lemma acquired_simps [simp]:
  "tp (acquired l s) = tp s" "cpu_proc (mycpu (acquired l s)) = cpu_proc (mycpu s)"
  "noff (mycpu (acquired l s)) = noff (mycpu s) + 1" "\<not> intr_get (acquired l s)"
  by (auto simp: machine_defs)

lemma acquired_touch [simp]: "quiet s \<Longrightarrow> acquired l (touch s) = acquired l s"
  by (cases s) (auto simp: machine_defs)

lemma acquired_commute: "quiet s \<Longrightarrow> l \<noteq> k \<Longrightarrow> acquired l (acquired k s) = acquired k (acquired l s)"
  by (cases s) (auto simp: machine_defs fun_upd_twist)

lemmas lock_eqs = acquire_eq release_acquired

section \<open>Spin locks on several harts\<close>

text \<open>
  One lock word and the code of \<open>acquire()\<close>/\<open>release()\<close> on every hart, one access to the lock
  per step. \<open>Outside\<close>: not holding; \<open>Checked\<close>: \<open>acquire\<close> has read \<open>lk->locked\<close> in \<open>holding()\<close>;
  \<open>Trying\<close>: in the loop on \<open>__sync_lock_test_and_set\<close>; \<open>Swapped\<close>: the swap returned 0 and
  \<open>lk->cpu\<close> is not written yet; \<open>Critical\<close>: \<open>acquire\<close> returned; \<open>Releasing\<close>: \<open>release\<close> has read
  \<open>lk->locked\<close> in \<open>holding()\<close>; \<open>Cleared\<close>: \<open>lk->cpu\<close> is 0 and \<open>lk->locked\<close> is not yet released;
  \<open>Panicked\<close>: \<open>panic("acquire")\<close> or \<open>panic("release")\<close>.
\<close>

datatype lockpc =
  Outside | Checked bool | Trying | Swapped | Critical | Releasing bool | Cleared | Panicked

record smp =
  word_locked :: bool
  word_cpu :: "nat option"
  pc :: "nat \<Rightarrow> lockpc"

definition smp_init :: smp where
  "smp_init = \<lparr>word_locked = False, word_cpu = None, pc = (\<lambda>_. Outside)\<rparr>"

inductive smp_step :: "smp \<Rightarrow> smp \<Rightarrow> bool" where
  acq_read: "pc s h = Outside \<Longrightarrow> smp_step s (s\<lparr>pc := (pc s)(h := Checked (word_locked s))\<rparr>)"
| acq_panic: "pc s h = Checked b \<Longrightarrow> b \<Longrightarrow> word_cpu s = Some h \<Longrightarrow>
    smp_step s (s\<lparr>pc := (pc s)(h := Panicked)\<rparr>)"
| acq_loop: "pc s h = Checked b \<Longrightarrow> \<not> b \<or> word_cpu s \<noteq> Some h \<Longrightarrow>
    smp_step s (s\<lparr>pc := (pc s)(h := Trying)\<rparr>)"
| acq_swap_lost: "pc s h = Trying \<Longrightarrow> word_locked s \<Longrightarrow> smp_step s (s\<lparr>word_locked := True\<rparr>)"
| acq_swap_won: "pc s h = Trying \<Longrightarrow> \<not> word_locked s \<Longrightarrow>
    smp_step s (s\<lparr>word_locked := True, pc := (pc s)(h := Swapped)\<rparr>)"
| acq_record: "pc s h = Swapped \<Longrightarrow>
    smp_step s (s\<lparr>word_cpu := Some h, pc := (pc s)(h := Critical)\<rparr>)"
| rel_read: "pc s h = Critical \<Longrightarrow>
    smp_step s (s\<lparr>pc := (pc s)(h := Releasing (word_locked s))\<rparr>)"
| rel_panic: "pc s h = Releasing b \<Longrightarrow> \<not> b \<or> word_cpu s \<noteq> Some h \<Longrightarrow>
    smp_step s (s\<lparr>pc := (pc s)(h := Panicked)\<rparr>)"
| rel_clear: "pc s h = Releasing b \<Longrightarrow> b \<Longrightarrow> word_cpu s = Some h \<Longrightarrow>
    smp_step s (s\<lparr>word_cpu := None, pc := (pc s)(h := Cleared)\<rparr>)"
| rel_unlock: "pc s h = Cleared \<Longrightarrow>
    smp_step s (s\<lparr>word_locked := False, pc := (pc s)(h := Outside)\<rparr>)"

inductive smp_reachable :: "smp \<Rightarrow> bool" where
  smp_start: "smp_reachable smp_init"
| smp_next: "smp_reachable s \<Longrightarrow> smp_step s t \<Longrightarrow> smp_reachable t"

text \<open>A hart owns the lock from the successful swap to the release of the lock word.\<close>

definition owns :: "lockpc \<Rightarrow> bool" where
  "owns p \<longleftrightarrow> p = Swapped \<or> p = Critical \<or> (\<exists>b. p = Releasing b) \<or> p = Cleared"

lemma owns_simps [simp]:
  "\<not> owns Outside" "\<not> owns (Checked b)" "\<not> owns Trying" "owns Swapped" "owns Critical"
  "owns (Releasing b)" "owns Cleared" "\<not> owns Panicked"
  by (auto simp: owns_def)

definition smp_inv :: "smp \<Rightarrow> bool" where
  "smp_inv s \<longleftrightarrow>
     (word_locked s \<longleftrightarrow> (\<exists>h. owns (pc s h))) \<and>
     (\<forall>h k. owns (pc s h) \<longrightarrow> owns (pc s k) \<longrightarrow> h = k) \<and>
     (\<forall>h. word_cpu s = Some h \<longleftrightarrow> pc s h = Critical \<or> pc s h = Releasing True) \<and>
     (\<forall>h. pc s h \<noteq> Releasing False \<and> pc s h \<noteq> Panicked)"

lemma smp_inv_init: "smp_inv smp_init"
  by (simp add: smp_inv_def smp_init_def)

lemma smp_inv_step:
  assumes "smp_step s t" "smp_inv s" shows "smp_inv t"
  using assms
proof (induction rule: smp_step.induct)
  case (acq_read s h)
  then show ?case unfolding smp_inv_def by (auto split: if_splits; metis owns_simps)
next
  case (acq_panic s h b)
  then show ?case unfolding smp_inv_def by (metis lockpc.distinct)
next
  case (acq_loop s h b)
  then show ?case unfolding smp_inv_def by (auto split: if_splits; metis owns_simps)
next
  case (acq_swap_lost s h)
  then show ?case unfolding smp_inv_def by auto
next
  case (acq_swap_won s h)
  then show ?case unfolding smp_inv_def by (auto split: if_splits; metis owns_simps)
next
  case (acq_record s h)
  then show ?case unfolding smp_inv_def by (auto split: if_splits; metis owns_simps)
next
  case (rel_read s h)
  then show ?case unfolding smp_inv_def by (auto split: if_splits; metis owns_simps)
next
  case (rel_panic s h b)
  then show ?case unfolding smp_inv_def by (metis (full_types))
next
  case (rel_clear s h b)
  then show ?case unfolding smp_inv_def by (auto split: if_splits; metis owns_simps)
next
  case (rel_unlock s h)
  then show ?case unfolding smp_inv_def by (auto split: if_splits; metis owns_simps)
qed

lemma smp_reachable_inv: "smp_reachable s \<Longrightarrow> smp_inv s"
  by (induction rule: smp_reachable.induct) (auto intro: smp_inv_init smp_inv_step)

section \<open>Refinement: the atomic acquire and release are runs of the interleaved ones\<close>

text \<open>
  \<open>lock_view l s m\<close>: the lock word of the interleaved model is the lock \<open>l\<close> of the kernel state.
\<close>

definition lock_view :: "lockid \<Rightarrow> 'a machine_scheme \<Rightarrow> smp \<Rightarrow> bool" where
  "lock_view l s m \<longleftrightarrow>
     word_locked m = lk_locked (locks s l) \<and> word_cpu m = lk_cpu (locks s l)"

lemma smp_acquire_run:
  assumes "pc m h = Outside" "\<not> word_locked m"
  shows "smp_step\<^sup>*\<^sup>* m (m\<lparr>word_locked := True, word_cpu := Some h, pc := (pc m)(h := Critical)\<rparr>)"
proof -
  let ?a = "m\<lparr>pc := (pc m)(h := Checked False)\<rparr>"
  let ?b = "m\<lparr>pc := (pc m)(h := Trying)\<rparr>"
  let ?c = "m\<lparr>word_locked := True, pc := (pc m)(h := Swapped)\<rparr>"
  have "smp_step m ?a" using acq_read [of m h] assms by simp
  moreover have "smp_step ?a ?b" using acq_loop [of ?a h False] by simp
  moreover have "smp_step ?b ?c" using acq_swap_won [of ?b h] assms by simp
  moreover have "smp_step ?c (m\<lparr>word_locked := True, word_cpu := Some h, pc := (pc m)(h := Critical)\<rparr>)"
    using acq_record [of ?c h] by simp
  ultimately show ?thesis by (meson r_into_rtranclp rtranclp_trans)
qed

lemma smp_release_run:
  assumes "pc m h = Critical" "word_locked m" "word_cpu m = Some h"
  shows "smp_step\<^sup>*\<^sup>* m (m\<lparr>word_locked := False, word_cpu := None, pc := (pc m)(h := Outside)\<rparr>)"
proof -
  let ?a = "m\<lparr>pc := (pc m)(h := Releasing True)\<rparr>"
  let ?b = "m\<lparr>word_cpu := None, pc := (pc m)(h := Cleared)\<rparr>"
  have "smp_step m ?a" using rel_read [of m h] assms by simp
  moreover have "smp_step ?a ?b" using rel_clear [of ?a h True] assms by simp
  moreover have "smp_step ?b (m\<lparr>word_locked := False, word_cpu := None, pc := (pc m)(h := Outside)\<rparr>)"
    using rel_unlock [of ?b h] by (cases m) simp
  ultimately show ?thesis by (meson r_into_rtranclp rtranclp_trans)
qed

lemma smp_reachable_rtranclp: "smp_step\<^sup>*\<^sup>* s t \<Longrightarrow> smp_reachable s \<Longrightarrow> smp_reachable t"
  by (induction rule: rtranclp_induct) (auto intro: smp_next)

fun pop_offs :: "nat \<Rightarrow> 'a machine_scheme \<Rightarrow> (unit, 'a machine_scheme) res" where
  "pop_offs 0 s = Ok () s"
| "pop_offs (Suc n) s = bind (pop_off s) (\<lambda>_. pop_offs n)"

lemma pop_off_push_off: "quiet s \<Longrightarrow> pop_off (push_off s) = Ok () (touch s)"
  by (cases s) (auto simp: machine_defs fun_upd_idem_iff)

lemma quiet_push_off [simp]: "quiet s \<Longrightarrow> quiet (push_off s)"
  by (auto simp: machine_defs)

lemma touch_push_off [simp]: "quiet s \<Longrightarrow> touch (push_off s) = push_off s"
  by (auto simp: machine_defs)

lemma push_off_depth:
  "quiet s \<Longrightarrow> noff (mycpu ((push_off ^^ n) s)) = noff (mycpu s) + int n \<and> quiet ((push_off ^^ n) s)"
  by (induction n) (auto simp: machine_defs)

lemma pop_offs_push_offs:
  "quiet s \<Longrightarrow> pop_offs m ((push_off ^^ (m + Suc n)) s) = Ok () ((push_off ^^ Suc n) s)"
proof (induction m)
  case (Suc m)
  have "pop_off ((push_off ^^ (Suc m + Suc n)) s) = Ok () ((push_off ^^ (m + Suc n)) s)"
    using pop_off_push_off [of "(push_off ^^ (m + Suc n)) s"] push_off_depth [OF Suc.prems, of "m + n"]
    by simp
  then show ?case using Suc by simp
qed simp

lemma pop_offs_append: "pop_offs (m + k) s = bind (pop_offs m s) (\<lambda>_. pop_offs k)"
  by (induction m arbitrary: s) (simp_all add: bind_assoc cong: bind_cong)

lemma intr_get_push_off [simp]: "\<not> intr_get (push_off s)"
  by (simp add: machine_defs)

section \<open>Properties\<close>

text \<open>C30: Spin locks exclude each other on any number of harts: in every state that interleaved
  runs of \<open>acquire()\<close> and \<open>release()\<close> can reach, at most one hart is inside its critical section,
  that hart is the one recorded in the lock, the lock word is set, and neither function has
  panicked.\<close>

theorem spinlock_mutual_exclusion:
  assumes "smp_reachable s"
  shows "(pc s h = Critical \<longrightarrow> pc s k = Critical \<longrightarrow> h = k) \<and>
    (pc s h = Critical \<longrightarrow> word_locked s \<and> word_cpu s = Some h) \<and> pc s h \<noteq> Panicked"
  using smp_reachable_inv [OF assms] unfolding smp_inv_def by (metis owns_simps(5))

theorem spinlock_mutual_exclusion_witness:
  "smp_reachable \<lparr>word_locked = True, word_cpu = Some 1, pc = (\<lambda>_. Outside)(1 := Critical)\<rparr>
   \<and> ((\<lambda>_. Outside)(1 := Critical)) (2 :: nat) \<noteq> Panicked"
proof -
  let ?s = "\<lparr>word_locked = True, word_cpu = Some 1, pc = (\<lambda>_. Outside)(1 := Critical)\<rparr> :: smp"
  have "smp_reachable ?s"
    using smp_reachable_rtranclp [OF smp_acquire_run [of smp_init 1] smp_start]
    by (simp add: smp_init_def)
  then show ?thesis using spinlock_mutual_exclusion [of ?s 1 2] by simp
qed

text \<open>C34: The atomic \<open>acquire()\<close> and \<open>release()\<close> that the rest of the kernel model uses are runs of
  the interleaved lock: when the hart's \<open>acquire\<close> returns, the interleaved model can step from any
  view of the lock with this hart outside to a view of the new state with this hart in its critical
  section; the following \<open>release\<close> steps back; and no other hart moved.\<close>

theorem acquire_release_refine_smp:
  assumes "quiet s" "acquire l s = Ok () t" "lock_view l s m" "pc m (cpuid s) = Outside"
  shows "\<exists>m'. smp_step\<^sup>*\<^sup>* m m' \<and> lock_view l t m' \<and> pc m' = (pc m)(cpuid s := Critical) \<and>
    (\<exists>u m''. release l t = Ok () u \<and> smp_step\<^sup>*\<^sup>* m' m'' \<and> lock_view l u m'' \<and> pc m'' = pc m)"
proof -
  let ?h = "cpuid s"
  let ?m = "m\<lparr>word_locked := True, word_cpu := Some ?h, pc := (pc m)(?h := Critical)\<rparr>"
  let ?n = "?m\<lparr>word_locked := False, word_cpu := None, pc := (pc ?m)(?h := Outside)\<rparr>"
  have t: "\<not> lk_locked (locks s l)" "t = acquired l s" using assms(2) by (auto simp: acquire_Ok_iff)
  have a: "smp_step\<^sup>*\<^sup>* m ?m" using smp_acquire_run [of m ?h] assms t by (simp add: lock_view_def)
  have v: "lock_view l t ?m" using t by (simp add: lock_view_def machine_defs)
  have r: "smp_step\<^sup>*\<^sup>* ?m ?n" by (rule smp_release_run) simp_all
  have "\<exists>u. release l t = Ok () u \<and> lock_view l u ?n"
    using t assms(1) by (auto simp: release_def lock_view_def machine_defs)
  moreover have "pc ?n = pc m" using assms(4) by (simp add: fun_upd_idem)
  ultimately have "\<exists>u m''. release l t = Ok () u \<and> smp_step\<^sup>*\<^sup>* ?m m'' \<and> lock_view l u m'' \<and> pc m'' = pc m"
    using r by blast
  moreover have "pc ?m = (pc m)(?h := Critical)" by simp
  ultimately show ?thesis using a v by blast
qed

definition boot_machine :: machine where
  "boot_machine = \<lparr>tp = 0, cpus = (\<lambda>_. \<lparr>cpu_proc = None, noff = 0, intena = False\<rparr>),
     sie = (\<lambda>_. True), locks = (\<lambda>_. \<lparr>lk_locked = False, lk_name = [], lk_cpu = None\<rparr>)\<rparr>"

theorem acquire_release_refine_smp_witness:
  "acquire kmem_lock boot_machine = Ok () (acquired kmem_lock boot_machine) \<and>
   (\<exists>m'. smp_step\<^sup>*\<^sup>* smp_init m' \<and> lock_view kmem_lock (acquired kmem_lock boot_machine) m' \<and>
      pc m' 0 = Critical)"
proof -
  have a: "acquire kmem_lock boot_machine = Ok () (acquired kmem_lock boot_machine)"
    by (intro acquire_eq) (simp add: boot_machine_def unlocked_def)
  have "quiet boot_machine" "lock_view kmem_lock boot_machine smp_init"
    "pc smp_init (cpuid boot_machine) = Outside" "cpuid boot_machine = 0"
    by (simp_all add: boot_machine_def smp_init_def lock_view_def machine_defs)
  then show ?thesis using acquire_release_refine_smp [OF _ a, of smp_init] a by fastforce
qed



end
