(* ===== verification/Kprintf.thy ===== *)
theory Kprintf
  imports Machine
begin

text \<open>
  Formatted console output: \<open>kernel/printf.c\<close>. The characters handed to \<open>consputc()\<close> are
  collected in the field \<open>console\<close>, oldest first. The result of formatting is \<open>None\<close> where the
  C code has undefined behaviour (the local array of \<open>printint\<close> overflows, an argument is
  missing or of another type).
\<close>

section \<open>State and operations\<close>

record kcons = machine +
  console :: string
  pr_locking :: bool
  panicked :: bool

datatype prarg = ArgInt int32 | ArgPtr uint64 | ArgStr "string option"

definition digits :: string where
  "digits = ''0123456789abcdef'' @ [CHR 0x00]"

definition consputs :: "string \<Rightarrow> 'a kcons_scheme \<Rightarrow> 'a kcons_scheme" where
  "consputs cs s = s\<lparr>console := console s @ cs\<rparr>"

text \<open>
  The loop of \<open>printint\<close>: \<open>i\<close> is the next free index of \<open>buf[16]\<close>. The result is the content
  of \<open>buf\<close> from index \<open>i\<close> on, least significant digit first.
\<close>

function printint_loop :: "nat \<Rightarrow> uint \<Rightarrow> uint \<Rightarrow> string option" where
  "printint_loop i x base =
    (if 16 \<le> i \<or> base = 0 \<or> length digits \<le> unat (x mod base) then None
     else
       let c = digits ! unat (x mod base); x' = x div base in
       if x' \<noteq> 0 then map_option (\<lambda>cs. c # cs) (printint_loop (Suc i) x' base)
       else Some [c])"
  by pat_completeness auto
termination
  by (relation "measure (\<lambda>(i, x, base). 16 - i)") auto

declare printint_loop.simps [simp del]

definition printint :: "int32 \<Rightarrow> uint \<Rightarrow> bool \<Rightarrow> string option" where
  "printint xx base sign =
    (let sign = (sign \<and> xx <s 0);
         x = (if sign then - xx else xx)
     in case printint_loop 0 x base of
          None \<Rightarrow> None
        | Some buf \<Rightarrow>
            if sign then (if 16 \<le> length buf then None else Some (rev (buf @ ''-'')))
            else Some (rev buf))"

fun printptr_loop :: "nat \<Rightarrow> uint64 \<Rightarrow> string" where
  "printptr_loop 0 x = []"
| "printptr_loop (Suc n) x =
     digits ! unat (drop_bit 60 x) # printptr_loop n (push_bit 4 x)"

definition printptr :: "uint64 \<Rightarrow> string" where
  "printptr x = ''0x'' @ printptr_loop 16 x"

text \<open>The loop of \<open>printf\<close> over the format; \<open>ap\<close> are the arguments not fetched yet.\<close>

fun vformat :: "string \<Rightarrow> prarg list \<Rightarrow> string option" where
  "vformat [] ap = Some []"
| "vformat [c] ap = (if c \<noteq> CHR ''%'' then Some [c] else Some [])"
| "vformat (c # d # fmt) ap =
    (if c \<noteq> CHR ''%'' then map_option (\<lambda>r. c # r) (vformat (d # fmt) ap)
     else if d = CHR ''d'' then
       (case ap of ArgInt v # ap' \<Rightarrow>
          (case (printint v 10 True, vformat fmt ap') of
             (Some a, Some r) \<Rightarrow> Some (a @ r) | _ \<Rightarrow> None) | _ \<Rightarrow> None)
     else if d = CHR ''x'' then
       (case ap of ArgInt v # ap' \<Rightarrow>
          (case (printint v 16 True, vformat fmt ap') of
             (Some a, Some r) \<Rightarrow> Some (a @ r) | _ \<Rightarrow> None) | _ \<Rightarrow> None)
     else if d = CHR ''p'' then
       (case ap of ArgPtr v # ap' \<Rightarrow> map_option (\<lambda>r. printptr v @ r) (vformat fmt ap')
        | _ \<Rightarrow> None)
     else if d = CHR ''s'' then
       (case ap of ArgStr v # ap' \<Rightarrow>
          map_option (\<lambda>r. (case v of None \<Rightarrow> ''(null)'' | Some t \<Rightarrow> t) @ r) (vformat fmt ap')
        | _ \<Rightarrow> None)
     else if d = CHR ''%'' then map_option (\<lambda>r. CHR ''%'' # r) (vformat fmt ap)
     else map_option (\<lambda>r. CHR ''%'' # d # r) (vformat fmt ap))"

definition printf :: "string option \<Rightarrow> prarg list \<Rightarrow> 'a kcons_scheme \<Rightarrow> (unit, 'a kcons_scheme) res" where
  "printf fmt ap s =
    (let locking = pr_locking s in
     bind (if locking then acquire pr_lock s else Ok () s) (\<lambda>_ s.
     case fmt of
       None \<Rightarrow> Panic ''null fmt''
     | Some f \<Rightarrow>
       (case vformat f ap of
          None \<Rightarrow> Undef
        | Some out \<Rightarrow>
            let s = consputs out s in
            if locking then release pr_lock s else Ok () s)))"

definition printfinit :: "'a kcons_scheme \<Rightarrow> 'a kcons_scheme" where
  "printfinit s = (initlock pr_lock ''pr'' s)\<lparr>pr_locking := True\<rparr>"

section \<open>Lemmas\<close>

lemma kcons_lock_simps [simp]:
  "console (acquired l s) = console s" "console (touch s) = console s"
  "pr_locking (acquired l s) = pr_locking s" "pr_locking (touch s) = pr_locking s"
  "panicked (acquired l s) = panicked s" "panicked (touch s) = panicked s"
  "unlocked l (s\<lparr>console := c\<rparr>) = unlocked l s" "quiet (s\<lparr>console := c\<rparr>) = quiet s"
  by (simp_all add: machine_defs)

lemma kcons_lock_upd [step_eqs]:
  "(acquired l s)\<lparr>console := c\<rparr> = acquired l (s\<lparr>console := c\<rparr>)"
  "(touch s)\<lparr>console := c\<rparr> = touch (s\<lparr>console := c\<rparr>)"
  by (simp_all add: machine_defs)

lemma printf_eq [step_eqs]:
  assumes "unlocked pr_lock s" "quiet s" "vformat f ap = Some out"
  shows "printf (Some f) ap s =
    Ok () ((if pr_locking s then touch s else s)\<lparr>console := console s @ out\<rparr>)"
  using assms by (simp add: printf_def consputs_def lock_eqs kcons_lock_upd)

text \<open>Reading a decimal numeral back.\<close>

fun numeral_value :: "nat \<Rightarrow> string \<Rightarrow> nat" where
  "numeral_value base [] = 0"
| "numeral_value base (c # cs) =
     (of_char c - (if of_char c < (58::nat) then 48 else 87)) + base * numeral_value base cs"

lemma digits_value:
  assumes "n < 16"
  shows "(of_char (digits ! n) :: nat) - (if (of_char (digits ! n) :: nat) < 58 then 48 else 87) = n"
proof -
  have "\<forall>n < 16. (of_char (digits ! n) :: nat) - (if (of_char (digits ! n) :: nat) < 58 then 48 else 87) = n"
    by code_simp
  with assms show ?thesis by blast
qed

lemma printint_loop_correct:
  assumes "2 \<le> base" "base \<le> 16" "unat x < unat base ^ (16 - i)" "i < 16"
  shows "\<exists>cs. printint_loop i x base = Some cs \<and> numeral_value (unat base) cs = unat x
              \<and> length cs + i \<le> 16 \<and> cs \<noteq> [] \<and> (\<forall>k. unat x < unat base ^ k \<longrightarrow> 0 < k \<longrightarrow> length cs \<le> k)"
  using assms
proof (induction i x base rule: printint_loop.induct)
  case (1 i x base)
  let ?b = "unat base" and ?x' = "x div base"
  have b2: "2 \<le> ?b" "?b \<le> 16" using 1(2,3) by (simp_all add: word_le_nat_alt)
  have base0: "base \<noteq> 0" using b2 by auto
  have md: "unat (x mod base) = unat x mod ?b" "unat ?x' = unat x div ?b"
    by (simp_all add: unat_mod unat_div)
  have small: "unat x mod ?b < 16" 
    using b2 mod_less_divisor [of ?b "unat x"] by linarith
  have nb: "\<not> (16 \<le> i \<or> base = 0 \<or> length digits \<le> unat (x mod base))"
    using 1(5) base0 small md(1) by (simp add: digits_def)
  show ?case
  proof (cases "?x' = 0")
    case True
    then have "unat x div ?b = 0" using md(2) by simp
    then have xs: "unat x mod ?b = unat x" using b2 by (auto simp: div_eq_0_iff)
    have "printint_loop i x base = Some [digits ! unat (x mod base)]"
      using nb True by (subst printint_loop.simps) (simp add: Let_def)
    then show ?thesis using xs small 1(5) by (auto simp: md(1) digits_value)
  next
    case False
    have ge: "?b \<le> unat x" using False md(2) b2
      by (metis div_less not_le unat_eq_zero)
    have i15: "Suc i < 16"
    proof (rule ccontr)
      assume "\<not> Suc i < 16"
      with 1(5) have "16 - i = 1" by simp
      with 1(4) ge show False by simp
    qed
    have pw: "?b ^ (16 - i) = ?b * ?b ^ (16 - Suc i)"
      using i15 by (metis Suc_diff_Suc Suc_lessD power_Suc)
    have lt: "unat ?x' < ?b ^ (16 - Suc i)"
      using 1(4) b2 by (simp add: md(2) pw div_less_iff_less_mult mult.commute)
    obtain cs where cs: "printint_loop (Suc i) ?x' base = Some cs"
      "numeral_value ?b cs = unat ?x'" "length cs + Suc i \<le> 16" "cs \<noteq> []"
      "\<forall>k. unat ?x' < ?b ^ k \<longrightarrow> 0 < k \<longrightarrow> length cs \<le> k"
      using 1(1)[OF nb refl refl False 1(2,3) lt i15] by blast
    have eq: "printint_loop i x base = Some (digits ! unat (x mod base) # cs)"
      using nb False cs(1) by (subst printint_loop.simps) (simp add: Let_def)
    have len: "Suc (length cs) \<le> k" if "unat x < ?b ^ k" "0 < k" for k
    proof (cases k)
      case (Suc j)
      with that ge have "0 < j" by (cases j) auto
      moreover have "unat ?x' < ?b ^ j"
        using that b2 by (simp add: Suc md(2) div_less_iff_less_mult mult.commute)
      ultimately show ?thesis using cs(5) Suc by auto
    qed (use that in simp)
    show ?thesis using eq cs small len by (auto simp: md digits_value)
  qed
qed

section \<open>Properties\<close>

text \<open>Reading back what \<open>printint\<close> printed, most significant digit first with an optional sign.\<close>

definition read_int :: "nat \<Rightarrow> string \<Rightarrow> int" where
  "read_int base out =
     (case out of c # cs \<Rightarrow> if c = CHR ''-'' then - int (numeral_value base (rev cs))
                           else int (numeral_value base (rev out))
      | [] \<Rightarrow> 0)"

lemma digits_not_minus: "d < 16 \<Longrightarrow> digits ! d \<noteq> CHR ''-''"
proof -
  have "\<forall>d < 16. digits ! d \<noteq> CHR ''-''" by code_simp
  then show "d < 16 \<Longrightarrow> digits ! d \<noteq> CHR ''-''" by blast
qed

lemma printint_loop_no_minus:
  assumes "printint_loop i x base = Some cs" "2 \<le> base" "base \<le> 16"
  shows "CHR ''-'' \<notin> set cs"
  using assms
proof (induction i x base arbitrary: cs rule: printint_loop.induct)
  case (1 i x base)
  have "x mod base < base" using 1(3) by (intro word_mod_less_divisor) (auto simp: word_less_nat_alt word_le_nat_alt)
  then have "unat (x mod base) < 16" using 1(4) by (simp add: word_less_nat_alt word_le_nat_alt)
  then have "digits ! unat (x mod base) \<noteq> CHR ''-''" by (rule digits_not_minus)
  then show ?case using 1
    by (auto simp: printint_loop.simps [of i] Let_def split: if_splits)
qed

lemma sint_as_uint: "sint (x :: int32) = (if uint x < 2 ^ 31 then uint x else uint x - 2 ^ 32)"
proof -
  have b: "0 \<le> uint x" "uint x < 2 ^ 32" using unsigned_less [of x] by auto
  have "sint x = signed_take_bit 31 (uint x)" by (simp add: sint_uint)
  also have "\<dots> = (uint x + 2 ^ 31) mod 2 ^ 32 - 2 ^ 31"
    by (simp add: signed_take_bit_eq_take_bit_shift take_bit_eq_mod)
  also have "\<dots> = (if uint x < 2 ^ 31 then uint x else uint x - 2 ^ 32)"
  proof (cases "uint x < 2 ^ 31")
    case False
    have "(uint x + 2 ^ 31) mod 2 ^ 32 = (uint x + 2 ^ 31 - 2 ^ 32) mod 2 ^ 32"
      by (rule minus_mod_self2 [symmetric])
    also have "\<dots> = uint x + 2 ^ 31 - 2 ^ 32" using b False by (intro mod_pos_pos_trivial) auto
    finally show ?thesis using False by simp
  qed (use b in simp)
  finally show ?thesis .
qed

lemma sint_small: "0 \<le> sint (a :: int32) \<Longrightarrow> uint a = sint a \<and> sint a < 2 ^ 31"
proof -
  have "uint a < 2 ^ 32" using unsigned_less [of a] by simp
  then show "0 \<le> sint a \<Longrightarrow> uint a = sint a \<and> sint a < 2 ^ 31"
    by (auto simp: sint_as_uint split: if_splits)
qed

lemma sint_add_small:
  assumes "0 \<le> sint a" "0 \<le> sint b" "sint a + sint b < 2 ^ 31"
  shows "sint (a + b :: int32) = sint a + sint b"
proof -
  have "uint (a + b) = (uint a + uint b) mod 2 ^ 32" by (simp add: uint_word_ariths)
  also have "\<dots> = sint a + sint b" using assms sint_small [of a] sint_small [of b] by simp
  finally show ?thesis using assms by (simp add: sint_as_uint)
qed

lemma unat_minus_sint: "x <s 0 \<Longrightarrow> int (unat (- x :: int32)) = - sint x"
proof -
  assume "x <s 0"
  then have "sint x < 0" by (simp add: word_sless_alt)
  moreover have "0 \<le> uint x" "uint x < 2 ^ 32" using unsigned_less [of x] by auto
  ultimately show ?thesis
    by (auto simp: sint_as_uint uint_word_ariths(4) zmod_zminus1_eq_if split: if_splits)
qed

lemma unat_sint_pos: "\<not> x <s 0 \<Longrightarrow> int (unat (x :: int32)) = sint x"
proof -
  assume "\<not> x <s 0"
  then have "\<not> sint x < 0" by (simp add: word_sless_alt)
  moreover have "0 \<le> uint x" "uint x < 2 ^ 32" using unsigned_less [of x] by auto
  ultimately show ?thesis by (auto simp: sint_as_uint split: if_splits)
qed

lemma printint_signed:
  assumes "base = 10 \<or> base = 16" "(2::nat) ^ 32 \<le> unat base ^ k" "0 < k" "k < 16"
  shows "\<exists>out. printint xx base True = Some out \<and> read_int (unat base) out = sint xx \<and> length out \<le> k + 1"
proof -
  let ?x = "if xx <s 0 then - xx else xx"
  have b: "2 \<le> base" "base \<le> 16" using assms(1) by auto
  have x: "unat ?x < 2 ^ 32" using unsigned_less [of ?x] by simp
  then have xk: "unat ?x < unat base ^ k" using assms(2) by linarith
  have "(2::nat) ^ 32 \<le> unat base ^ 16" using assms(1) by auto
  then have "unat ?x < unat base ^ (16 - 0)" using x by simp
  from printint_loop_correct [OF b this] obtain cs where
    cs: "printint_loop 0 ?x base = Some cs" "numeral_value (unat base) cs = unat ?x" "cs \<noteq> []"
      "length cs \<le> k" using xk assms(3) by auto
  have nm: "CHR ''-'' \<notin> set cs" using printint_loop_no_minus [OF cs(1) b] .
  show ?thesis
  proof (cases "xx <s 0")
    case True
    have "printint xx base True = Some (CHR ''-'' # rev cs)"
      using True cs assms(4) by (simp add: printint_def)
    moreover have "int (unat (- xx)) = - sint xx"
      using True by (rule unat_minus_sint)
    ultimately show ?thesis using True cs by (auto simp: read_int_def)
  next
    case False
    obtain c ds where r: "rev cs = c # ds" using cs(3) by (cases "rev cs") auto
    then have "c \<noteq> CHR ''-''" using nm by (metis list.set_intros(1) set_rev)
    moreover have "printint xx base True = Some (rev cs)" using False cs by (simp add: printint_def)
    moreover have "int (unat xx) = sint xx" using False by (rule unat_sint_pos)
    moreover have "cs = rev ds @ [c]" using r by (metis rev.simps(2) rev_rev_ident)
    ultimately show ?thesis using False cs r by (auto simp: read_int_def)
  qed
qed

text \<open>C39: \<open>%d\<close> and \<open>%x\<close> print every 32-bit integer exactly: \<open>printint\<close> never overruns its
  16-byte buffer, the printed numeral reads back as the signed value of the argument (the
  smallest integer, whose negation wraps, included), in at most 11 resp. 9 characters.\<close>

theorem printint_exact:
  "(\<exists>out. printint xx 10 True = Some out \<and> read_int 10 out = sint xx \<and> length out \<le> 11) \<and>
   (\<exists>out. printint xx 16 True = Some out \<and> read_int 16 out = sint xx \<and> length out \<le> 9)"
  using printint_signed [of 10 10 xx] printint_signed [of 16 8 xx] by simp

end
