(* ===== verification/Cstring.thy ===== *)
theory Cstring
  imports Prelude
begin

text \<open>
  Physical memory and \<open>kernel/string.c\<close>. Memory is a function from 64-bit addresses to bytes.
  \<open>memset\<close> and \<open>memmove\<close> work on it. The functions on C strings work on the list of the bytes
  from the pointer to the end of the object it points into; \<open>None\<close> is an access past that end.
\<close>

section \<open>Memory access\<close>

definition ld64 :: "mem \<Rightarrow> uint64 \<Rightarrow> uint64" where
  "ld64 m a =
     ucast (m a) OR push_bit 8 (ucast (m (a + 1))) OR push_bit 16 (ucast (m (a + 2)))
     OR push_bit 24 (ucast (m (a + 3))) OR push_bit 32 (ucast (m (a + 4)))
     OR push_bit 40 (ucast (m (a + 5))) OR push_bit 48 (ucast (m (a + 6)))
     OR push_bit 56 (ucast (m (a + 7)))"

definition st64 :: "uint64 \<Rightarrow> uint64 \<Rightarrow> mem \<Rightarrow> mem" where
  "st64 a v m = m(a := ucast v, a + 1 := ucast (drop_bit 8 v), a + 2 := ucast (drop_bit 16 v),
     a + 3 := ucast (drop_bit 24 v), a + 4 := ucast (drop_bit 32 v), a + 5 := ucast (drop_bit 40 v),
     a + 6 := ucast (drop_bit 48 v), a + 7 := ucast (drop_bit 56 v))"

definition rdbytes :: "mem \<Rightarrow> uint64 \<Rightarrow> nat \<Rightarrow> uchar list" where
  "rdbytes m a n = map (\<lambda>i. m (a + of_nat i)) [0..<n]"

fun wrbytes :: "uint64 \<Rightarrow> uchar list \<Rightarrow> mem \<Rightarrow> mem" where
  "wrbytes a [] m = m"
| "wrbytes a (b # bs) m = wrbytes (a + 1) bs (m(a := b))"

section \<open>Operations of string.c\<close>

function memset_loop :: "nat \<Rightarrow> nat \<Rightarrow> uint64 \<Rightarrow> uchar \<Rightarrow> mem \<Rightarrow> mem" where
  "memset_loop i n cdst c m =
    (if i < n then memset_loop (Suc i) n cdst c (m(cdst + of_nat i := c)) else m)"
  by pat_completeness auto
termination by (relation "measure (\<lambda>(i, n, _). n - i)") auto

declare memset_loop.simps [simp del]

definition memset :: "uint64 \<Rightarrow> int32 \<Rightarrow> uint \<Rightarrow> mem \<Rightarrow> mem" where
  "memset dst c n m = memset_loop 0 (unat n) dst (ucast c) m"

fun memmove_down :: "uint64 \<Rightarrow> uint64 \<Rightarrow> nat \<Rightarrow> mem \<Rightarrow> mem" where
  "memmove_down d s 0 m = m"
| "memmove_down d s (Suc n) m = memmove_down (d - 1) (s - 1) n (m(d - 1 := m (s - 1)))"

fun memmove_up :: "uint64 \<Rightarrow> uint64 \<Rightarrow> nat \<Rightarrow> mem \<Rightarrow> mem" where
  "memmove_up d s 0 m = m"
| "memmove_up d s (Suc n) m = memmove_up (d + 1) (s + 1) n (m(d := m s))"

definition memmove :: "uint64 \<Rightarrow> uint64 \<Rightarrow> uint \<Rightarrow> mem \<Rightarrow> mem" where
  "memmove dst src n m =
    (if n = 0 then m
     else if src < dst \<and> dst < src + ucast n
     then memmove_down (dst + ucast n) (src + ucast n) (unat n) m
     else memmove_up dst src (unat n) m)"

definition memcpy :: "uint64 \<Rightarrow> uint64 \<Rightarrow> uint \<Rightarrow> mem \<Rightarrow> mem" where
  "memcpy dst src n m = memmove dst src n m"

fun memcmp :: "uchar list \<Rightarrow> uchar list \<Rightarrow> nat \<Rightarrow> int option" where
  "memcmp s1 s2 0 = Some 0"
| "memcmp (a # s1) (b # s2) (Suc n) =
     (if a \<noteq> b then Some (uint a - uint b) else memcmp s1 s2 n)"
| "memcmp _ _ (Suc n) = None"

fun strncmp :: "uchar list \<Rightarrow> uchar list \<Rightarrow> nat \<Rightarrow> int option" where
  "strncmp p q 0 = Some 0"
| "strncmp [] q (Suc n) = None"
| "strncmp (a # p) [] (Suc n) = None"
| "strncmp (a # p) (b # q) (Suc n) =
     (if a \<noteq> 0 \<and> a = b then strncmp p q n else Some (uint a - uint b))"

fun strncpy_pad :: "uchar list \<Rightarrow> nat \<Rightarrow> uchar list option" where
  "strncpy_pad s 0 = Some s"
| "strncpy_pad [] (Suc n) = None"
| "strncpy_pad (x # s) (Suc n) = map_option (\<lambda>r. 0 # r) (strncpy_pad s n)"

fun strncpy :: "uchar list \<Rightarrow> uchar list \<Rightarrow> nat \<Rightarrow> uchar list option" where
  "strncpy s t 0 = Some s"
| "strncpy (x # s) (c # t) (Suc n) =
     (if c \<noteq> 0 then map_option (\<lambda>r. c # r) (strncpy s t n)
      else map_option (\<lambda>r. c # r) (strncpy_pad s n))"
| "strncpy _ _ (Suc n) = None"

fun put0 :: "uchar list \<Rightarrow> uchar list option" where
  "put0 [] = None"
| "put0 (x # s) = Some (0 # s)"

fun safestrcpy :: "uchar list \<Rightarrow> uchar list \<Rightarrow> nat \<Rightarrow> uchar list option" where
  "safestrcpy s t 0 = Some s"
| "safestrcpy s t (Suc 0) = put0 s"
| "safestrcpy (x # s) (c # t) (Suc (Suc n)) =
     (if c \<noteq> 0 then map_option (\<lambda>r. c # r) (safestrcpy s t (Suc n))
      else map_option (\<lambda>r. c # r) (put0 s))"
| "safestrcpy _ _ (Suc (Suc n)) = None"

fun strlen :: "uchar list \<Rightarrow> nat option" where
  "strlen [] = None"
| "strlen (c # s) = (if c = 0 then Some 0 else map_option Suc (strlen s))"

section \<open>Memory lemmas\<close>

lemma memset_loop_eq:
  "memset_loop i n d c m = (\<lambda>a. if \<exists>j. i \<le> j \<and> j < n \<and> a = d + of_nat j then c else m a)"
proof (induction i n d c m rule: memset_loop.induct)
  case (1 i n d c m)
  show ?case
  proof (cases "i < n")
    case True
    have "memset_loop i n d c m = memset_loop (Suc i) n d c (m(d + of_nat i := c))"
      using True by (simp add: memset_loop.simps[of i])
    also have "\<dots> = (\<lambda>a. if \<exists>j. i \<le> j \<and> j < n \<and> a = d + of_nat j then c else m a)"
      unfolding 1[OF True] using True
      by (auto simp: fun_eq_iff) (metis Suc_leI le_neq_implies_less)+
    finally show ?thesis .
  next
    case False
    then show ?thesis by (auto simp: memset_loop.simps[of i] fun_eq_iff)
  qed
qed

text \<open>\<open>a\<close> is one of the \<open>n\<close> addresses from \<open>d\<close> on.\<close>

definition in_range :: "uint64 \<Rightarrow> nat \<Rightarrow> uint64 \<Rightarrow> bool" where
  "in_range d n a \<longleftrightarrow> unat (a - d) < n"

lemma in_range_iff:
  assumes "n \<le> 2 ^ 64"
  shows "in_range d n a \<longleftrightarrow> (\<exists>j < n. a = d + of_nat j)"
proof
  assume "in_range d n a"
  then have "unat (a - d) < n" by (simp add: in_range_def)
  moreover have "a = d + of_nat (unat (a - d))" by simp
  ultimately show "\<exists>j < n. a = d + of_nat j" by blast
next
  assume "\<exists>j < n. a = d + of_nat j"
  then obtain j where "j < n" "a = d + of_nat j" by blast
  then show "in_range d n a" using assms by (simp add: in_range_def unat_of_nat)
qed

lemma memset_apply:
  "memset d c n m a = (if in_range d (unat n) a then ucast c else m a)"
proof -
  have "unat n < 2 ^ LENGTH(32)" by (rule unsigned_less)
  then have "unat n \<le> 2 ^ 64" by simp
  then show ?thesis by (auto simp: memset_def memset_loop_eq in_range_iff)
qed

lemma take_bit_step:
  fixes v :: "'a::len word"
  shows "take_bit k v OR push_bit k (take_bit n (drop_bit k v)) = take_bit (k + n) v"
  by (rule bit_word_eqI) (auto simp: bit_simps)

lemma byte_of_word: "(ucast (ucast v :: uchar) :: uint64) = take_bit 8 v"
  by (rule bit_word_eqI) (auto simp: bit_simps)

lemma ld64_st64_same: "ld64 (st64 a v m) a = v"
proof -
  have "ld64 (st64 a v m) a =
     take_bit 8 v OR push_bit 8 (take_bit 8 (drop_bit 8 v))
     OR push_bit 16 (take_bit 8 (drop_bit 16 v)) OR push_bit 24 (take_bit 8 (drop_bit 24 v))
     OR push_bit 32 (take_bit 8 (drop_bit 32 v)) OR push_bit 40 (take_bit 8 (drop_bit 40 v))
     OR push_bit 48 (take_bit 8 (drop_bit 48 v)) OR push_bit 56 (take_bit 8 (drop_bit 56 v))"
    by (simp add: ld64_def st64_def byte_of_word)
  also have "\<dots> = take_bit 64 v"
    by (simp only: or.assoc [symmetric] take_bit_step semiring_norm numeral_plus_numeral)
  finally show ?thesis by (simp add: take_bit_word_eq_self)
qed

lemma st64_apply:
  "st64 a v m b = (if in_range a 8 b then ucast (drop_bit (8 * unat (b - a)) v) else m b)"
proof (cases "in_range a 8 b")
  case True
  then have "unat (b - a) \<in> {0, 1, 2, 3, 4, 5, 6, 7}" by (auto simp: in_range_def)
  moreover have "b = a + of_nat (unat (b - a))" by simp
  ultimately have "\<exists>k \<in> {0, 1, 2, 3, 4, 5, 6, 7}. b = a + of_nat k" by metis
  then show ?thesis using True by (auto simp: st64_def)
next
  case False
  then have "b - a \<noteq> 0" "b - a \<noteq> 1" "b - a \<noteq> 2" "b - a \<noteq> 3" "b - a \<noteq> 4" "b - a \<noteq> 5"
    "b - a \<noteq> 6" "b - a \<noteq> 7"
    by (auto simp: in_range_def)
  then have "b \<noteq> a" "b \<noteq> a + 1" "b \<noteq> a + 2" "b \<noteq> a + 3" "b \<noteq> a + 4" "b \<noteq> a + 5"
    "b \<noteq> a + 6" "b \<noteq> a + 7"
    by auto
  then show ?thesis using False by (simp add: st64_def)
qed

lemma ld64_cong:
  assumes "\<And>b. in_range a 8 b \<Longrightarrow> m b = m' b"
  shows "ld64 m a = ld64 m' a"
proof -
  have "m (a + k) = m' (a + k)" if "unat k < 8" for k
    using assms that by (simp add: in_range_def)
  from this[of 0] this[of 1] this[of 2] this[of 3] this[of 4] this[of 5] this[of 6] this[of 7]
  show ?thesis by (simp add: ld64_def)
qed

lemma ld64_const: "(\<And>b. in_range a 8 b \<Longrightarrow> m b = 0) \<Longrightarrow> ld64 m a = 0"
  using ld64_cong [of a m "\<lambda>_. 0"] by (simp add: ld64_def)

section \<open>memmove copies as if through a temporary\<close>

lemma unat_suc_addr: "unat (d :: uint64) + Suc n < 2 ^ 64 \<Longrightarrow> unat (d + 1) = unat d + 1"
  using unat_add_lt [of d 1] by simp

lemma addr_neq:
  fixes s d :: uint64
  assumes "unat s + j < 2 ^ 64" "unat d + i < 2 ^ 64" "unat s + j \<noteq> unat d + i"
  shows "s + of_nat j \<noteq> d + of_nat i"
  using assms unat_add_lt [of s j] unat_add_lt [of d i] by auto

lemma memmove_up_spec:
  assumes "unat d + n < 2 ^ 64" "unat s + n < 2 ^ 64" "unat d \<le> unat s \<or> unat s + n \<le> unat d"
  shows "(\<forall>k<n. memmove_up d s n m (d + of_nat k) = m (s + of_nat k)) \<and>
         (\<forall>a. (\<forall>k<n. a \<noteq> d + of_nat k) \<longrightarrow> memmove_up d s n m a = m a)"
  using assms
proof (induction n arbitrary: d s m)
  case 0
  then show ?case by simp
next
  case (Suc n)
  let ?m = "m(d := m s)"
  have u: "unat (d + 1) = unat d + 1" "unat (s + 1) = unat s + 1"
    by (rule unat_suc_addr [OF Suc.prems(1)], rule unat_suc_addr [OF Suc.prems(2)])
  have IH: "(\<forall>k<n. memmove_up (d + 1) (s + 1) n ?m (d + 1 + of_nat k) = ?m (s + 1 + of_nat k)) \<and>
         (\<forall>a. (\<forall>k<n. a \<noteq> d + 1 + of_nat k) \<longrightarrow> memmove_up (d + 1) (s + 1) n ?m a = ?m a)"
    by (rule Suc.IH; use Suc.prems u in linarith)
  have sd: "s + of_nat (Suc k) \<noteq> d" if "k < n" for k
    using addr_neq [of s "Suc k" d 0] Suc.prems that by auto
  have dd: "d \<noteq> d + of_nat (Suc k)" if "k < n" for k
    using addr_neq [of d 0 d "Suc k"] Suc.prems that by auto
  show ?case
  proof (intro conjI allI impI)
    fix k assume k: "k < Suc n"
    show "memmove_up d s (Suc n) m (d + of_nat k) = m (s + of_nat k)"
    proof (cases k)
      case 0
      have "\<forall>k<n. d \<noteq> d + 1 + of_nat k" using dd by (auto simp: add.assoc)
      then show ?thesis using IH 0 by simp
    next
      case (Suc j)
      then have "memmove_up (d + 1) (s + 1) n ?m (d + 1 + of_nat j) = ?m (s + 1 + of_nat j)"
        using IH k by simp
      then show ?thesis using Suc sd[of j] k by (simp add: add.assoc)
    qed
  next
    fix a assume a: "\<forall>k<Suc n. a \<noteq> d + of_nat k"
    have "\<forall>k<n. a \<noteq> d + 1 + of_nat k"
    proof (intro allI impI)
      fix k assume "k < n"
      then have "a \<noteq> d + of_nat (Suc k)" using a by blast
      then show "a \<noteq> d + 1 + of_nat k" by (simp add: add.assoc)
    qed
    moreover have "a \<noteq> d" using a [rule_format, of 0] by simp
    ultimately show "memmove_up d s (Suc n) m a = m a" using IH by simp
  qed
qed

lemma memmove_down_spec:
  assumes "unat d + n < 2 ^ 64" "unat s + n < 2 ^ 64" "unat s \<le> unat d"
  shows "(\<forall>k<n. memmove_down (d + of_nat n) (s + of_nat n) n m (d + of_nat k) = m (s + of_nat k)) \<and>
         (\<forall>a. (\<forall>k<n. a \<noteq> d + of_nat k) \<longrightarrow>
              memmove_down (d + of_nat n) (s + of_nat n) n m a = m a)"
  using assms
proof (induction n arbitrary: m)
  case 0
  then show ?case by simp
next
  case (Suc n)
  let ?m = "m(d + of_nat n := m (s + of_nat n))"
  have step: "memmove_down (d + of_nat (Suc n)) (s + of_nat (Suc n)) (Suc n) m =
              memmove_down (d + of_nat n) (s + of_nat n) n ?m"
    by (simp add: add.assoc)
  have IH: "(\<forall>k<n. memmove_down (d + of_nat n) (s + of_nat n) n ?m (d + of_nat k) = ?m (s + of_nat k)) \<and>
         (\<forall>a. (\<forall>k<n. a \<noteq> d + of_nat k) \<longrightarrow>
              memmove_down (d + of_nat n) (s + of_nat n) n ?m a = ?m a)"
    by (rule Suc.IH) (use Suc.prems in auto)
  have sd: "s + of_nat k \<noteq> d + of_nat n" if "k < n" for k
    using addr_neq [of s k d n] Suc.prems that by auto
  have dd: "d + of_nat n \<noteq> d + of_nat k" if "k < n" for k
    using addr_neq [of d n d k] Suc.prems that by auto
  show ?case
    unfolding step
  proof (intro conjI allI impI)
    fix k assume "k < Suc n"
    then consider "k = n" | "k < n" by linarith
    then show "memmove_down (d + of_nat n) (s + of_nat n) n ?m (d + of_nat k) = m (s + of_nat k)"
    proof cases
      case 1
      have "\<forall>j<n. d + of_nat n \<noteq> d + of_nat j" using dd by simp
      then have "memmove_down (d + of_nat n) (s + of_nat n) n ?m (d + of_nat n) = ?m (d + of_nat n)"
        using IH by blast
      then show ?thesis using 1 by simp
    next
      case 2
      then have "memmove_down (d + of_nat n) (s + of_nat n) n ?m (d + of_nat k) = ?m (s + of_nat k)"
        using IH by blast
      then show ?thesis using sd[OF 2] by simp
    qed
  next
    fix a assume a: "\<forall>k<Suc n. a \<noteq> d + of_nat k"
    then have "memmove_down (d + of_nat n) (s + of_nat n) n ?m a = ?m a"
      using IH by (metis less_Suc_eq)
    then show "memmove_down (d + of_nat n) (s + of_nat n) n ?m a = m a"
      using a by simp
  qed
qed

lemma memmove_spec:
  assumes "unat d + unat n < 2 ^ 64" "unat s + unat n < 2 ^ 64"
  shows "(\<forall>k<unat n. memmove d s n m (d + of_nat k) = m (s + of_nat k)) \<and>
         (\<forall>a. (\<forall>k<unat n. a \<noteq> d + of_nat k) \<longrightarrow> memmove d s n m a = m a)"
proof (cases "n = 0")
  case True
  then show ?thesis by (simp add: memmove_def)
next
  case False
  have sn: "unat (s + ucast n) = unat s + unat n"
    using unat_add_lt [of s "unat n"] assms by simp
  show ?thesis
  proof (cases "s < d \<and> d < s + ucast n")
    case True
    then have "memmove d s n m = memmove_down (d + of_nat (unat n)) (s + of_nat (unat n)) (unat n) m"
      using False by (simp add: memmove_def)
    moreover have "unat s \<le> unat d" using True by (simp add: word_less_nat_alt)
    ultimately show ?thesis using memmove_down_spec [of d "unat n" s m] assms by simp
  next
    case F: False
    then have "memmove d s n m = memmove_up d s (unat n) m"
      using False by (auto simp: memmove_def)
    moreover have "unat d \<le> unat s \<or> unat s + unat n \<le> unat d"
      using F sn by (auto simp: word_less_nat_alt)
    ultimately show ?thesis using memmove_up_spec [of d "unat n" s m] assms by simp
  qed
qed

lemma memmove_apply:
  assumes "unat d + unat n < 2 ^ 64" "unat s + unat n < 2 ^ 64"
  shows "memmove d s n m a = (if in_range d (unat n) a then m (s + (a - d)) else m a)"
proof (cases "in_range d (unat n) a")
  case True
  then have "unat (a - d) < unat n" by (simp add: in_range_def)
  with memmove_spec [OF assms, of m] have "memmove d s n m (d + of_nat (unat (a - d))) = m (s + of_nat (unat (a - d)))"
    by blast
  then show ?thesis using True by simp
next
  case False
  have "unat n \<le> 2 ^ 64" using assms by simp
  then have "\<forall>k<unat n. a \<noteq> d + of_nat k" using False in_range_iff by blast
  then show ?thesis using memmove_spec [OF assms, of m] False by simp
qed

section \<open>C strings\<close>

text \<open>The characters of the C string in a buffer of which at most \<open>n\<close> bytes are looked at.\<close>

definition cstr :: "nat \<Rightarrow> uchar list \<Rightarrow> uchar list" where
  "cstr n xs = takeWhile (\<lambda>c. c \<noteq> 0) (take n xs)"

lemma cstr_simps [simp]:
  "cstr 0 xs = []" "cstr n [] = []"
  "cstr (Suc n) (c # xs) = (if c = 0 then [] else c # cstr n xs)"
  by (auto simp: cstr_def)

lemma strncmp_defined:
  assumes "n \<le> length p \<or> 0 \<in> set p" "n \<le> length q \<or> 0 \<in> set q"
  shows "\<exists>r. strncmp p q n = Some r \<and> (r = 0 \<longleftrightarrow> cstr n p = cstr n q)"
  using assms
  by (induction p q n rule: strncmp.induct) (auto simp: uint_0_iff dest: word_uint_eqI)

lemma strncpy_pad_eq: "n \<le> length s \<Longrightarrow> strncpy_pad s n = Some (replicate n 0 @ drop n s)"
  by (induction s n rule: strncpy_pad.induct) auto

lemma cstr_pad: "cstr n (replicate n 0 @ xs) = []"
  by (cases n) auto

lemma strncpy_correct:
  assumes "n \<le> length s" "n \<le> length t \<or> 0 \<in> set t"
  shows "\<exists>r. strncpy s t n = Some r \<and> length r = length s \<and> cstr n r = cstr n t
             \<and> drop n r = drop n s"
  using assms
  by (induction s t n rule: strncpy.induct) (auto simp: strncpy_pad_eq cstr_pad)

lemma put0_eq: "put0 s = Some r \<longleftrightarrow> s \<noteq> [] \<and> r = 0 # tl s"
  by (cases s) auto

lemma safestrcpy_correct:
  assumes "n \<le> length s" "n \<le> length t \<or> 0 \<in> set t" "0 < n"
  shows "\<exists>r. safestrcpy s t n = Some r \<and> length r = length s \<and>
             strlen r = Some (length (cstr (n - 1) t)) \<and> cstr n r = cstr (n - 1) t"
  using assms
proof (induction s t n rule: safestrcpy.induct)
  case (2 s t)
  then show ?case by (cases s) auto
next
  case (3 x s c t n)
  then show ?case by (cases s) auto
qed auto

lemma strlen_cstr: "0 \<in> set s \<Longrightarrow> strlen s = Some (length (cstr (length s) s))"
  by (induction s) auto

section \<open>Properties\<close>

text \<open>C36: \<open>memmove()\<close> copies as if through a temporary buffer, overlapping or not: afterwards each of
  the \<open>n\<close> destination bytes holds what the source byte held before, and every other byte of memory
  is unchanged. (The regions do not wrap around the address space.)\<close>

theorem memmove_copies:
  assumes "unat d + unat n < 2 ^ 64" "unat s + unat n < 2 ^ 64"
  shows "memmove d s n m a = (if in_range d (unat n) a then m (s + (a - d)) else m a)"
  by (rule memmove_apply [OF assms])

theorem memmove_copies_witness:
  "memmove 102 100 4 (\<lambda>a. ucast a) 105 = 103 \<and> memmove 100 102 4 (\<lambda>a. ucast a) 101 = 103"
  using memmove_copies [of 102 4 100 "\<lambda>a. ucast a" 105] memmove_copies [of 100 4 102 "\<lambda>a. ucast a" 101]
  by (simp add: in_range_def)

text \<open>C37: \<open>safestrcpy()\<close> always terminates its result: with a destination of at least \<open>n > 0\<close> bytes and a
  source that is either that long or NUL-terminated it stays inside both buffers, and the
  destination then holds the first \<open>n - 1\<close> characters of the source string at most, followed by a
  NUL.\<close>

theorem safestrcpy_terminates:
  assumes "n \<le> length s" "n \<le> length t \<or> 0 \<in> set t" "0 < n"
  shows "\<exists>r. safestrcpy s t n = Some r \<and> length r = length s \<and>
             strlen r = Some (length (cstr (n - 1) t)) \<and> cstr n r = cstr (n - 1) t"
  by (rule safestrcpy_correct [OF assms])

theorem safestrcpy_terminates_witness:
  "safestrcpy [9, 9, 9, 9] [1, 2, 3, 4, 0] 3 = Some [1, 2, 0, 9] \<and>
   (\<exists>r. safestrcpy [9, 9, 9, 9] [1, 2, 3, 4, 0] 3 = Some r \<and> strlen r = Some 2)"
  using safestrcpy_terminates [of 3 "[9, 9, 9, 9]" "[1, 2, 3, 4, 0]"]
  by (simp add: numeral_3_eq_3 cstr_def)

text \<open>C38: \<open>strncmp()\<close> returns 0 exactly when the two strings agree on their first \<open>n\<close> characters (or
  up to a common end), and reads no byte beyond the end of either string.\<close>

theorem strncmp_decides:
  assumes "n \<le> length p \<or> 0 \<in> set p" "n \<le> length q \<or> 0 \<in> set q"
  shows "\<exists>r. strncmp p q n = Some r \<and> (r = 0 \<longleftrightarrow> cstr n p = cstr n q)"
  by (rule strncmp_defined [OF assms])

theorem strncmp_decides_witness:
  "\<exists>r. strncmp [104, 105, 0] [104, 105, 106, 0] 14 = Some r \<and> r \<noteq> 0"
  using strncmp_decides [of 14 "[104, 105, 0]" "[104, 105, 106, 0]"]
  by (simp add: cstr_def)

end
