(* ===== verification/Kalloc.thy ===== *)
theory Kalloc
  imports Kprintf Cstring
begin

text \<open>
  The physical page allocator, \<open>kernel/kalloc.c\<close>, with the page macros of \<open>kernel/riscv.h\<close> and
  the memory layout of \<open>kernel/memlayout.h\<close> that it uses. The free list is threaded through the
  free pages themselves: the first eight bytes of a free page hold the address of the next one.
  The address \<open>end\<close> that \<open>kernel.ld\<close> defines is the constant field \<open>kend\<close>.
  The interface that the rest of the kernel relies on is the locale \<open>page_alloc\<close>.
\<close>

section \<open>State and operations\<close>

record kmem = kcons +
  mem :: mem
  freelist :: uint64
  kend :: uint64

definition PGSIZE :: uint64 where "PGSIZE = 4096"

definition KERNBASE :: uint64 where "KERNBASE = 0x80000000"

definition PHYSTOP :: uint64 where "PHYSTOP = KERNBASE + 128 * 1024 * 1024"

definition PGROUNDUP :: "uint64 \<Rightarrow> uint64" where
  "PGROUNDUP sz = (sz + PGSIZE - 1) AND NOT (PGSIZE - 1)"

definition PGROUNDDOWN :: "uint64 \<Rightarrow> uint64" where
  "PGROUNDDOWN a = a AND NOT (PGSIZE - 1)"

definition kfree :: "uint64 \<Rightarrow> 'a kmem_scheme \<Rightarrow> (unit, 'a kmem_scheme) res" where
  "kfree pa s =
    (if pa mod PGSIZE \<noteq> 0 \<or> pa < kend s \<or> PHYSTOP \<le> pa then Panic ''kfree''
     else
       let s = s\<lparr>mem := memset pa 1 4096 (mem s)\<rparr> in
       bind (acquire kmem_lock s) (\<lambda>_ s.
       let s = s\<lparr>mem := st64 pa (freelist s) (mem s)\<rparr>;
           s = s\<lparr>freelist := pa\<rparr>
       in release kmem_lock s))"

definition kalloc :: "'a kmem_scheme \<Rightarrow> (uint64, 'a kmem_scheme) res" where
  "kalloc s =
    bind (acquire kmem_lock s) (\<lambda>_ s.
    let r = freelist s;
        s = (if r \<noteq> 0 then s\<lparr>freelist := ld64 (mem s) r\<rparr> else s)
    in bind (release kmem_lock s) (\<lambda>_ s.
       Ok r (if r \<noteq> 0 then s\<lparr>mem := memset r 5 4096 (mem s)\<rparr> else s)))"

lemma kfree_Ok_bounds:
  "kfree pa s = Ok u t \<Longrightarrow> pa mod PGSIZE = 0 \<and> kend s \<le> pa \<and> pa < PHYSTOP"
  by (auto simp: kfree_def split: if_splits)

function freerange_loop ::
  "uint64 \<Rightarrow> uint64 \<Rightarrow> 'a kmem_scheme \<Rightarrow> (unit, 'a kmem_scheme) res" where
  "freerange_loop p pa_end s =
    (if p + PGSIZE \<le> pa_end
     then bind (kfree p s) (\<lambda>_ s. freerange_loop (p + PGSIZE) pa_end s)
     else Ok () s)"
  by pat_completeness auto
termination
proof (relation "measure (\<lambda>(p, pa_end, s). unat PHYSTOP - unat p)")
  fix p pa_end :: uint64 and s :: "'a kmem_scheme" and x t
  assume "kfree p s = Ok x t"
  then have "p < PHYSTOP" using kfree_Ok_bounds by blast
  then have "unat p < unat PHYSTOP" by (simp add: word_less_nat_alt)
  moreover from this have "unat (p + PGSIZE) = unat p + 4096"
    using unat_add_lt [of p 4096] by (simp add: PGSIZE_def PHYSTOP_def KERNBASE_def)
  ultimately show "((p + PGSIZE, pa_end, t), p, pa_end, s)
      \<in> measure (\<lambda>(p, pa_end, s). unat PHYSTOP - unat p)"
    by simp
qed simp

declare freerange_loop.simps [simp del]

definition freerange :: "uint64 \<Rightarrow> uint64 \<Rightarrow> 'a kmem_scheme \<Rightarrow> (unit, 'a kmem_scheme) res" where
  "freerange pa_start pa_end s = freerange_loop (PGROUNDUP pa_start) pa_end s"

definition kinit :: "'a kmem_scheme \<Rightarrow> (unit, 'a kmem_scheme) res" where
  "kinit s = (let s = initlock kmem_lock ''kmem'' s in freerange (kend s) PHYSTOP s)"

section \<open>The interface of a page allocator\<close>

text \<open>
  \<open>free_pages s ps\<close>: in state \<open>s\<close> exactly the pages \<open>ps\<close> are free, in the order they will be
  handed out; \<open>ready s\<close>: the allocator can be called; \<open>valid s p\<close>: \<open>p\<close> is a page the allocator
  manages. \<open>same s t\<close>: nothing of the state but memory inside the page and the allocator's own
  data differs.
\<close>

locale page_alloc =
  fixes alloc :: "'s \<Rightarrow> (uint64, 's) res"
    and free :: "uint64 \<Rightarrow> 's \<Rightarrow> (unit, 's) res"
    and free_pages :: "'s \<Rightarrow> uint64 list \<Rightarrow> bool"
    and ready :: "'s \<Rightarrow> bool"
    and valid :: "'s \<Rightarrow> uint64 \<Rightarrow> bool"
  assumes pages_valid: "free_pages s ps \<Longrightarrow> p \<in> set ps \<Longrightarrow> valid s p"
    and pages_distinct: "free_pages s ps \<Longrightarrow> distinct ps"
    and valid_nonnull: "valid s p \<Longrightarrow> ready s \<Longrightarrow> p \<noteq> 0"
    and alloc_none: "ready s \<Longrightarrow> free_pages s [] \<Longrightarrow>
      \<exists>t. alloc s = Ok 0 t \<and> ready t \<and> free_pages t [] \<and> valid t = valid s"
    and alloc_some: "ready s \<Longrightarrow> free_pages s (p # ps) \<Longrightarrow>
      \<exists>t. alloc s = Ok p t \<and> ready t \<and> free_pages t ps \<and> valid t = valid s"
    and free_back: "ready s \<Longrightarrow> free_pages s ps \<Longrightarrow> valid s p \<Longrightarrow> p \<notin> set ps \<Longrightarrow>
      \<exists>t. free p s = Ok () t \<and> ready t \<and> free_pages t (p # ps) \<and> valid t = valid s"
begin

text \<open>\<open>n\<close> calls of \<open>alloc\<close>, collecting the results.\<close>

fun alloc_many :: "nat \<Rightarrow> 's \<Rightarrow> (uint64 list, 's) res" where
  "alloc_many 0 s = Ok [] s"
| "alloc_many (Suc n) s =
     bind (alloc s) (\<lambda>p s. bind (alloc_many n s) (\<lambda>ps s. Ok (p # ps) s))"

lemma alloc_many_takes:
  assumes "ready s" "free_pages s ps" "n \<le> length ps"
  shows "\<exists>t. alloc_many n s = Ok (take n ps) t \<and> ready t \<and> free_pages t (drop n ps) \<and> valid t = valid s"
  using assms
proof (induction n arbitrary: s ps)
  case 0
  then show ?case by simp
next
  case (Suc n)
  then obtain p qs where ps: "ps = p # qs" by (cases ps) auto
  with Suc.prems alloc_some obtain t where
    t: "alloc s = Ok p t" "ready t" "free_pages t qs" "valid t = valid s" by blast
  with Suc.IH [of t qs] Suc.prems(3) ps obtain u where
    "alloc_many n t = Ok (take n qs) u" "ready u" "free_pages u (drop n qs)" "valid u = valid t"
    by auto
  with t ps show ?case by simp
qed

lemma alloc_many_distinct:
  assumes "ready s" "free_pages s ps" "n \<le> length ps" "alloc_many n s = Ok qs t"
  shows "length qs = n \<and> distinct qs \<and> 0 \<notin> set qs"
proof -
  from alloc_many_takes [OF assms(1-3)] assms(4) have qs: "qs = take n ps" by auto
  have "p \<noteq> 0" if "p \<in> set ps" for p
    using that assms(1,2) pages_valid valid_nonnull by blast
  then show ?thesis
    using qs assms(3) pages_distinct [OF assms(2)] by (auto dest: in_set_takeD)
qed

lemma free_then_alloc:
  assumes "ready s" "free_pages s ps" "valid s p" "p \<notin> set ps"
  shows "\<exists>t u. free p s = Ok () t \<and> alloc t = Ok p u \<and> free_pages u ps"
  using free_back [OF assms] alloc_some by blast

lemma alloc_zero_iff_exhausted:
  assumes "ready s" "free_pages s ps"
  shows "(\<exists>t. alloc s = Ok 0 t) \<longleftrightarrow> ps = []"
proof (cases ps)
  case Nil
  then show ?thesis using alloc_none assms by blast
next
  case (Cons p qs)
  then have "p \<noteq> 0" using assms pages_valid [of s ps p] valid_nonnull [of s p] by auto
  moreover obtain t where "alloc s = Ok p t" using alloc_some assms Cons by blast
  ultimately show ?thesis using Cons by auto
qed

end

section \<open>The free list\<close>

definition page_ok :: "'a kmem_scheme \<Rightarrow> uint64 \<Rightarrow> bool" where
  "page_ok s p \<longleftrightarrow> p mod PGSIZE = 0 \<and> kend s \<le> p \<and> p < PHYSTOP"

fun runs :: "mem \<Rightarrow> uint64 \<Rightarrow> uint64 list \<Rightarrow> bool" where
  "runs m p [] \<longleftrightarrow> p = 0"
| "runs m p (q # qs) \<longleftrightarrow> p = q \<and> q \<noteq> 0 \<and> runs m (ld64 m q) qs"

definition kmem_inv :: "'a kmem_scheme \<Rightarrow> uint64 list \<Rightarrow> bool" where
  "kmem_inv s ps \<longleftrightarrow>
     runs (mem s) (freelist s) ps \<and> distinct ps \<and> (\<forall>p \<in> set ps. page_ok s p)"

definition kmem_ready :: "'a kmem_scheme \<Rightarrow> bool" where
  "kmem_ready s \<longleftrightarrow> unlocked kmem_lock s \<and> quiet s \<and> 0 < kend s"

lemma unat_consts [simp]: "unat PGSIZE = 4096" "unat PHYSTOP = 2281701376"
  by (simp_all add: PGSIZE_def PHYSTOP_def KERNBASE_def)

lemma page_unat:
  "p mod PGSIZE = 0 \<longleftrightarrow> unat p mod 4096 = 0"
  by (simp add: unat_eq_zero [symmetric] unat_mod)

lemma page_ok_bounds:
  assumes "page_ok s p"
  shows "unat p mod 4096 = 0" "unat p + 4096 \<le> 2281701376"
proof -
  from assms have m: "unat p mod 4096 = 0" and "unat p < 2281701376"
    by (auto simp: page_ok_def page_unat word_less_nat_alt)
  then obtain k where k: "unat p = 4096 * k" by (auto simp: mod_eq_0_iff_dvd elim: dvdE)
  with \<open>unat p < 2281701376\<close> have "k < 557056" by simp
  with k m show "unat p mod 4096 = 0" "unat p + 4096 \<le> 2281701376" by simp_all
qed

text \<open>The addresses of a page, and disjointness of two pages.\<close>

lemma in_range_unat:
  assumes "unat p + n \<le> 2 ^ 64"
  shows "in_range p n a \<longleftrightarrow> unat p \<le> unat a \<and> unat a < unat p + n"
proof -
  have "unat (a - p) = (if unat p \<le> unat a then unat a - unat p else unat a + 2 ^ 64 - unat p)"
    by (simp add: unat_sub_if_size word_size)
  then show ?thesis using assms by (auto simp: in_range_def)
qed

lemma pages_disjoint:
  assumes "unat p mod 4096 = 0" "unat q mod 4096 = 0" "p \<noteq> q" "in_range p 4096 a"
    "unat p + 4096 \<le> 2 ^ 64" "unat q + 4096 \<le> 2 ^ 64"
  shows "\<not> in_range q 4096 a"
proof
  assume "in_range q 4096 a"
  with assms have "unat q \<le> unat a" "unat a < unat q + 4096" "unat p \<le> unat a"
    "unat a < unat p + 4096"
    by (simp_all add: in_range_unat)
  then have "unat p div 4096 = unat q div 4096"
    using assms(1,2) by (auto simp: mod_eq_0_iff_dvd elim!: dvdE)
  then have "unat p = unat q" using assms(1,2) by (metis div_mult_mod_eq)
  with assms(3) show False using unsigned_word_eqI [of p q] by simp
qed

lemma page_ok_disjoint:
  assumes "page_ok s p" "page_ok s q" "p \<noteq> q" "in_range p 4096 a"
  shows "\<not> in_range q 4096 a"
  using page_ok_bounds [OF assms(1)] page_ok_bounds [OF assms(2)] assms(3,4)
  by (intro pages_disjoint [of p q]) auto

lemma runs_cong:
  assumes "\<And>q a. q \<in> set ps \<Longrightarrow> in_range q 8 a \<Longrightarrow> m a = m' a"
  shows "runs m p ps = runs m' p ps"
  using assms
proof (induction ps arbitrary: p)
  case (Cons q qs)
  have "ld64 m q = ld64 m' q" using Cons.prems by (intro ld64_cong) auto
  moreover have "runs m r qs = runs m' r qs" for r
    using Cons.prems by (intro Cons.IH) auto
  ultimately show ?case by simp
qed simp

lemma kmem_lock_simps [simp]:
  "mem (acquired l s) = mem s" "mem (touch s) = mem s"
  "freelist (acquired l s) = freelist s" "freelist (touch s) = freelist s"
  "kend (acquired l s) = kend s" "kend (touch s) = kend s"
  "unlocked l (s\<lparr>mem := m\<rparr>) = unlocked l s" "quiet (s\<lparr>mem := m\<rparr>) = quiet s"
  "unlocked l (s\<lparr>freelist := p\<rparr>) = unlocked l s" "quiet (s\<lparr>freelist := p\<rparr>) = quiet s"
  by (simp_all add: machine_defs)

lemma kmem_lock_upd [step_eqs]:
  "(acquired l s)\<lparr>mem := m\<rparr> = acquired l (s\<lparr>mem := m\<rparr>)"
  "(touch s)\<lparr>mem := m\<rparr> = touch (s\<lparr>mem := m\<rparr>)"
  "(acquired l s)\<lparr>freelist := p\<rparr> = acquired l (s\<lparr>freelist := p\<rparr>)"
  "(touch s)\<lparr>freelist := p\<rparr> = touch (s\<lparr>freelist := p\<rparr>)"
  by (simp_all add: machine_defs)

lemma kalloc_eq [step_eqs]:
  assumes "unlocked kmem_lock s" "quiet s"
  shows "kalloc s =
    (if freelist s = 0 then Ok 0 (touch s)
     else Ok (freelist s)
       (touch (s\<lparr>freelist := ld64 (mem s) (freelist s), mem := memset (freelist s) 5 4096 (mem s)\<rparr>)))"
  using assms by (simp add: kalloc_def lock_eqs kmem_lock_upd Let_def)

lemma kfree_eq [step_eqs]:
  assumes "unlocked kmem_lock s" "quiet s" "page_ok s pa"
  shows "kfree pa s =
    Ok () (touch (s\<lparr>mem := st64 pa (freelist s) (memset pa 1 4096 (mem s)), freelist := pa\<rparr>))"
  using assms by (simp add: kfree_def page_ok_def lock_eqs kmem_lock_upd Let_def not_le not_less)

lemma kfree_panics: "\<not> page_ok s pa \<Longrightarrow> kfree pa s = Panic ''kfree''"
  by (simp add: kfree_def page_ok_def not_le not_less)

lemma in_range_mono: "in_range p n a \<Longrightarrow> n \<le> k \<Longrightarrow> in_range p k a"
  by (simp add: in_range_def)

lemma kmem_inv_alloc:
  assumes "kmem_inv s (p # ps)"
  shows "kmem_inv (s\<lparr>freelist := ld64 (mem s) p, mem := memset p c 4096 (mem s)\<rparr>) ps"
proof -
  have "runs (memset p c 4096 (mem s)) q ps = runs (mem s) q ps" for q
  proof (rule runs_cong)
    fix q a assume q: "q \<in> set ps" and a: "in_range q 8 a"
    have "page_ok s p" "page_ok s q" "p \<noteq> q" using assms q by (auto simp: kmem_inv_def)
    with a have "\<not> in_range p 4096 a"
      using page_ok_disjoint in_range_mono [of q 8 a 4096] by fastforce
    then show "memset p c 4096 (mem s) a = mem s a" by (simp add: memset_apply)
  qed
  then show ?thesis using assms by (auto simp: kmem_inv_def page_ok_def)
qed

lemma kmem_inv_free:
  assumes "kmem_inv s ps" "page_ok s p" "p \<notin> set ps" "0 < kend s"
  shows "kmem_inv (s\<lparr>mem := st64 p (freelist s) (memset p 1 4096 (mem s)), freelist := p\<rparr>) (p # ps)"
proof -
  let ?m = "st64 p (freelist s) (memset p 1 4096 (mem s))"
  have "runs ?m q ps = runs (mem s) q ps" for q
  proof (rule runs_cong)
    fix q a assume q: "q \<in> set ps" and a: "in_range q 8 a"
    have "page_ok s q" "p \<noteq> q" using assms q by (auto simp: kmem_inv_def)
    with a assms(2) have "\<not> in_range p 4096 a"
      using page_ok_disjoint in_range_mono [of q 8 a 4096] by fastforce
    then show "?m a = mem s a"
      using in_range_mono [of p 8 a 4096] by (auto simp: memset_apply st64_apply)
  qed
  moreover have "p \<noteq> 0" using assms(2,4) by (auto simp: page_ok_def word_le_nat_alt word_less_nat_alt)
  ultimately show ?thesis using assms by (auto simp: kmem_inv_def page_ok_def ld64_st64_same)
qed

lemma kmem_ready_simps [simp]:
  "kmem_ready (s\<lparr>mem := m\<rparr>) = kmem_ready s" "kmem_ready (s\<lparr>freelist := p\<rparr>) = kmem_ready s"
  "kmem_ready (touch s) = kmem_ready s" "page_ok (touch s) = page_ok s"
  "page_ok (s\<lparr>mem := m\<rparr>) = page_ok s" "page_ok (s\<lparr>freelist := p\<rparr>) = page_ok s"
  "kmem_inv (touch s) = kmem_inv s" "page_ok (acquired l s) = page_ok s"
  "kmem_inv (acquired l s) = kmem_inv s"
  by (auto simp: kmem_ready_def page_ok_def kmem_inv_def fun_eq_iff)

interpretation kp: page_alloc kalloc kfree kmem_inv kmem_ready page_ok
proof unfold_locales
  fix s :: "'a kmem_scheme" and ps p
  show "kmem_inv s ps \<Longrightarrow> p \<in> set ps \<Longrightarrow> page_ok s p" by (simp add: kmem_inv_def)
  show "kmem_inv s ps \<Longrightarrow> distinct ps" by (simp add: kmem_inv_def)
  show "page_ok s p \<Longrightarrow> kmem_ready s \<Longrightarrow> p \<noteq> 0"
    by (auto simp: page_ok_def kmem_ready_def word_le_nat_alt word_less_nat_alt)
  show "kmem_ready s \<Longrightarrow> kmem_inv s [] \<Longrightarrow>
      \<exists>t. kalloc s = Ok 0 t \<and> kmem_ready t \<and> kmem_inv t [] \<and> page_ok t = page_ok s"
    by (auto simp: kmem_ready_def kmem_inv_def kalloc_eq)
  show "\<exists>t. kalloc s = Ok p t \<and> kmem_ready t \<and> kmem_inv t ps \<and> page_ok t = page_ok s"
    if r: "kmem_ready s" and i: "kmem_inv s (p # ps)"
  proof -
    have "freelist s = p" "p \<noteq> 0" using i by (auto simp: kmem_inv_def)
    then show ?thesis using r kmem_inv_alloc [OF i] by (auto simp: kmem_ready_def kalloc_eq)
  qed
  show "\<exists>t. kfree p s = Ok () t \<and> kmem_ready t \<and> kmem_inv t (p # ps) \<and> page_ok t = page_ok s"
    if "kmem_ready s" "kmem_inv s ps" "page_ok s p" "p \<notin> set ps"
    using that kmem_inv_free by (auto simp: kmem_ready_def kfree_eq)
qed

section \<open>Booting the allocator\<close>

fun page_seq :: "uint64 \<Rightarrow> nat \<Rightarrow> uint64 list" where
  "page_seq p 0 = []"
| "page_seq p (Suc n) = p # page_seq (p + PGSIZE) n"

lemma page_seq_set: "set (page_seq p n) = (\<lambda>k. p + of_nat k * PGSIZE) ` {..<n}"
  by (induction n arbitrary: p)
     (auto simp: lessThan_Suc_eq_insert_0 image_image algebra_simps)

lemma freerange_loop_correct:
  assumes "kmem_ready s" "kmem_inv s ps" "p mod PGSIZE = 0" "kend s \<le> p"
    "unat p + n * 4096 = 2281701376" "\<forall>q \<in> set ps. q < p"
  shows "\<exists>t. freerange_loop p PHYSTOP s = Ok () t \<and> kmem_ready t \<and>
             kmem_inv t (rev (page_seq p n) @ ps)"
  using assms
proof (induction n arbitrary: s ps p)
  case 0
  then have u: "unat p = 2281701376" by simp
  then have "unat (p + PGSIZE) = 2281701376 + 4096"
    using unat_add_lt [of p 4096] by (simp add: PGSIZE_def)
  then have "\<not> p + PGSIZE \<le> PHYSTOP" by (simp add: word_le_nat_alt)
  then show ?case using 0 by (simp add: freerange_loop.simps [of p])
next
  case (Suc n)
  have up: "unat (p + PGSIZE) = unat p + 4096"
    using unat_add_lt [of p 4096] Suc.prems(5) by (simp add: PGSIZE_def)
  then have le: "p + PGSIZE \<le> PHYSTOP" using Suc.prems(5) by (simp add: word_le_nat_alt)
  have ok: "page_ok s p"
    using Suc.prems(3-5) by (simp add: page_ok_def word_less_nat_alt)
  have "p \<notin> set ps" using Suc.prems(6) by auto
  with Suc.prems ok obtain t where t: "kfree p s = Ok () t" "kmem_ready t" "kmem_inv t (p # ps)"
    "page_ok t = page_ok s"
    using kp.free_back by blast
  have "kend t \<le> p" using t(4) ok by (metis page_ok_def)
  then have ke: "kend t \<le> p + PGSIZE" using up by (simp add: word_le_nat_alt)
  have al: "(p + PGSIZE) mod PGSIZE = 0"
    using Suc.prems(3) up by (simp add: page_unat)
  have "\<forall>q \<in> set (p # ps). q < p + PGSIZE"
    using Suc.prems(6) up by (auto simp: word_less_nat_alt)
  with Suc.IH [OF t(2,3) al ke] up Suc.prems(5) obtain u where
    "freerange_loop (p + PGSIZE) PHYSTOP t = Ok () u" "kmem_ready u"
    "kmem_inv u (rev (page_seq (p + PGSIZE) n) @ p # ps)"
    by auto
  then show ?case using le t(1) by (simp add: freerange_loop.simps [of p])
qed

lemma PGMASK: "PGSIZE - 1 = mask 12"
  by (simp add: PGSIZE_def mask_eq_exp_minus_1)

lemma unat_PGROUNDDOWN: "unat (PGROUNDDOWN a) = unat a div 4096 * 4096"
  using unat_and_not_mask [of a 12] by (simp add: PGROUNDDOWN_def PGMASK)

lemma unat_PGROUNDUP:
  assumes "unat a + 4096 < 2 ^ 64"
  shows "unat (PGROUNDUP a) = (unat a + 4095) div 4096 * 4096"
proof -
  have "unat (a + of_nat 4095) = unat a + 4095"
    using assms by (intro unat_add_lt) simp
  then have "unat (a + PGSIZE - 1) = unat a + 4095" by (simp add: PGSIZE_def add.commute)
  then show ?thesis
    using unat_and_not_mask [of "a + PGSIZE - 1" 12] by (simp add: PGROUNDUP_def PGMASK)
qed

lemma PGROUNDUP_bounds:
  assumes "unat a + 4096 < 2 ^ 64"
  shows "PGROUNDUP a mod PGSIZE = 0" "a \<le> PGROUNDUP a" "unat (PGROUNDUP a) < unat a + 4096"
proof -
  have "(unat a + 4095) div 4096 * 4096 mod 4096 = 0" by simp
  then show "PGROUNDUP a mod PGSIZE = 0" by (simp add: page_unat unat_PGROUNDUP [OF assms])
  have "unat a + 4095 = (unat a + 4095) div 4096 * 4096 + (unat a + 4095) mod 4096" by simp
  moreover have "(unat a + 4095) mod 4096 < 4096" by simp
  ultimately show "a \<le> PGROUNDUP a" "unat (PGROUNDUP a) < unat a + 4096"
    unfolding word_le_nat_alt unat_PGROUNDUP [OF assms] by linarith+
qed

definition boot_pages :: "'a kmem_scheme \<Rightarrow> uint64 list" where
  "boot_pages s = rev (page_seq (PGROUNDUP (kend s)) ((unat PHYSTOP - unat (PGROUNDUP (kend s))) div 4096))"

lemma kinit_correct:
  assumes "quiet s" "freelist s = 0" "0 < kend s" "kend s \<le> PHYSTOP"
  shows "\<exists>t. kinit s = Ok () t \<and> kmem_ready t \<and> kmem_inv t (boot_pages s)"
proof -
  let ?s = "initlock kmem_lock ''kmem'' s" and ?p = "PGROUNDUP (kend s)"
  have ke: "unat (kend s) \<le> 2281701376" using assms(4) by (simp add: word_le_nat_alt)
  then have ov: "unat (kend s) + 4096 < 2 ^ 64" by simp
  note b = PGROUNDUP_bounds [OF ov] unat_PGROUNDUP [OF ov]
  obtain j where j: "unat ?p = 4096 * j" using b(4) by (metis mult.commute)
  have "(unat (kend s) + 4095) div 4096 \<le> 557056" using ke by linarith
  then have "unat ?p \<le> 2281701376" using b(4) by simp
  then have n: "unat ?p + (unat PHYSTOP - unat ?p) div 4096 * 4096 = 2281701376"
    using j by simp
  have r: "kmem_ready ?s" "kmem_inv ?s []" "kend ?s = kend s"
    using assms by (auto simp: kmem_ready_def kmem_inv_def initlock_def machine_defs)
  with freerange_loop_correct [OF r(1,2) b(1) _ n] b(2) show ?thesis
    by (simp add: kinit_def freerange_def boot_pages_def Let_def)
qed

lemma boot_pages_set:
  assumes "kend s \<le> PHYSTOP"
  shows "set (boot_pages s) = {p. page_ok s p}"
proof -
  let ?p = "PGROUNDUP (kend s)"
  have ke: "unat (kend s) \<le> 2281701376" using assms(1) by (simp add: word_le_nat_alt)
  then have ov: "unat (kend s) + 4096 < 2 ^ 64" by simp
  note b = PGROUNDUP_bounds [OF ov] unat_PGROUNDUP [OF ov]
  obtain j where j: "unat ?p = 4096 * j" using b(4) by (metis mult.commute)
  have eq: "p = ?p + of_nat k * PGSIZE \<longleftrightarrow> unat p = 4096 * (j + k)" if "j + k < 557056" for p k
  proof -
    have "unat (?p + of_nat (k * 4096)) = unat ?p + k * 4096"
      using j that by (intro unat_add_lt) simp
    then have "unat (?p + of_nat k * PGSIZE) = 4096 * (j + k)"
      by (simp add: j PGSIZE_def)
    then show ?thesis by (metis unsigned_word_eqI)
  qed
  have "j \<le> 557056" using ke j b(3) by linarith
  then have cnt: "(unat PHYSTOP - unat ?p) div 4096 = 557056 - j" using j by simp
  show ?thesis
  proof (rule set_eqI)
    fix p
    have "p \<in> set (boot_pages s) \<longleftrightarrow> (\<exists>k. j + k < 557056 \<and> unat p = 4096 * (j + k))"
      using eq cnt by (auto simp: boot_pages_def page_seq_set image_iff less_diff_conv add.commute)
    also have "\<dots> \<longleftrightarrow> (\<exists>i. j \<le> i \<and> i < 557056 \<and> unat p = 4096 * i)"
      by (metis le_add1 le_add_diff_inverse)
    also have "\<dots> \<longleftrightarrow> page_ok s p"
    proof
      assume "\<exists>i. j \<le> i \<and> i < 557056 \<and> unat p = 4096 * i"
      then show "page_ok s p" using j b(2)
        by (auto simp: page_ok_def page_unat word_less_nat_alt word_le_nat_alt)
    next
      assume ok: "page_ok s p"
      then obtain i where i: "unat p = 4096 * i" "i < 557056"
        by (auto simp: page_ok_def page_unat word_less_nat_alt mod_eq_0_iff_dvd elim!: dvdE)
      have "unat (kend s) \<le> 4096 * i" using ok i by (simp add: page_ok_def word_le_nat_alt)
      then have "j \<le> i" using b(3) j by linarith
      with i show "\<exists>i. j \<le> i \<and> i < 557056 \<and> unat p = 4096 * i" by blast
    qed
    finally show "p \<in> set (boot_pages s) \<longleftrightarrow> p \<in> {p. page_ok s p}" by simp
  qed
qed

section \<open>Properties\<close>

text \<open>C31: \<open>kinit()\<close> gives the allocator exactly the physical memory after the kernel: it returns
  without panicking, and the free list then holds every page-aligned page between the end of the
  kernel image and \<open>PHYSTOP\<close>, each once.\<close>

theorem kinit_frees_all_pages:
  assumes "quiet s" "freelist s = 0" "0 < kend s" "kend s \<le> PHYSTOP"
  shows "\<exists>t ps. kinit s = Ok () t \<and> kmem_inv t ps \<and> distinct ps \<and> set ps = {p. page_ok s p}"
  using kinit_correct [OF assms] kp.pages_distinct boot_pages_set [OF assms(4)] by metis

definition boot_kmem :: kmem where
  "boot_kmem = \<lparr>tp = 0, cpus = (\<lambda>_. \<lparr>cpu_proc = None, noff = 0, intena = False\<rparr>),
     sie = (\<lambda>_. False), locks = (\<lambda>_. \<lparr>lk_locked = False, lk_name = [], lk_cpu = None\<rparr>),
     console = [], pr_locking = False, panicked = False,
     mem = (\<lambda>_. 0), freelist = 0, kend = 0x80021000\<rparr>"

lemma boot_kmem_ok:
  "quiet boot_kmem" "freelist boot_kmem = 0" "0 < kend boot_kmem" "kend boot_kmem \<le> PHYSTOP"
  by (simp_all add: boot_kmem_def quiet_def mycpu_def cpuid_def PHYSTOP_def KERNBASE_def)

theorem kinit_frees_all_pages_witness:
  "\<exists>t ps. kinit boot_kmem = Ok () t \<and> kmem_inv t ps \<and> 0x80021000 \<in> set ps \<and> 0x80020000 \<notin> set ps"
proof -
  have "page_ok boot_kmem 0x80021000" "\<not> page_ok boot_kmem 0x80020000"
    by (simp_all add: page_ok_def boot_kmem_def PGSIZE_def PHYSTOP_def KERNBASE_def)
  then show ?thesis using kinit_frees_all_pages [OF boot_kmem_ok] by blast
qed

text \<open>C32: Pages are handed out once: with \<open>n\<close> or more free pages, \<open>n\<close> calls of \<open>kalloc()\<close> all succeed and
  return distinct, non-null, valid pages, which leave the free list; \<open>kalloc()\<close> returns 0 only when
  no page is left.\<close>

theorem kalloc_hands_out_once:
  assumes "kmem_ready s" "kmem_inv s ps" "n \<le> length ps"
  shows "(\<exists>qs t. kp.alloc_many n s = Ok qs t \<and> length qs = n \<and> distinct qs \<and> 0 \<notin> set qs \<and>
            set qs \<subseteq> {p. page_ok s p} \<and> kmem_inv t (drop n ps) \<and> set qs \<inter> set (drop n ps) = {}) \<and>
         ((\<exists>t. kalloc s = Ok 0 t) \<longleftrightarrow> ps = [])"
proof -
  obtain t where t: "kp.alloc_many n s = Ok (take n ps) t" "kmem_inv t (drop n ps)"
    using kp.alloc_many_takes [OF assms] by blast
  have "distinct (take n ps @ drop n ps)" using kp.pages_distinct [OF assms(2)] by simp
  then have "set (take n ps) \<inter> set (drop n ps) = {}" unfolding distinct_append by simp
  moreover have "set (take n ps) \<subseteq> {p. page_ok s p}"
    using kp.pages_valid [OF assms(2)] by (auto dest: in_set_takeD)
  ultimately show ?thesis
    using t kp.alloc_many_distinct [OF assms t(1)] kp.alloc_zero_iff_exhausted [OF assms(1,2)] by blast
qed

definition one_page_kmem :: kmem where
  "one_page_kmem = boot_kmem\<lparr>freelist := 0x80021000\<rparr>"

lemma one_page_kmem_ok: "kmem_ready one_page_kmem" "kmem_inv one_page_kmem [0x80021000]"
  by (simp_all add: one_page_kmem_def kmem_ready_def kmem_inv_def boot_kmem_def machine_defs
        page_ok_def PGSIZE_def PHYSTOP_def KERNBASE_def ld64_const)

theorem kalloc_hands_out_once_witness:
  "(\<exists>qs t. kp.alloc_many 1 one_page_kmem = Ok qs t \<and> length qs = 1 \<and> kmem_inv t []) \<and>
   \<not> (\<exists>t. kalloc one_page_kmem = Ok 0 t)"
  using kalloc_hands_out_once [OF one_page_kmem_ok, of 1] by fastforce

text \<open>C33: \<open>kfree()\<close> puts a page back: freeing a valid page that is not free already makes the next
  \<open>kalloc()\<close> return that very page, with the rest of the free list as before, and memory outside
  the page is untouched; an address that is misaligned, below the kernel's end or at or above
  \<open>PHYSTOP\<close> panics.\<close>

theorem kfree_kalloc_roundtrip:
  assumes "kmem_ready s" "kmem_inv s ps" "p \<notin> set ps"
  shows "(if page_ok s p
          then \<exists>t u. kfree p s = Ok () t \<and> kalloc t = Ok p u \<and> kmem_inv t (p # ps) \<and> kmem_inv u ps \<and>
               (\<forall>a. \<not> in_range p 4096 a \<longrightarrow> mem t a = mem s a \<and> mem u a = mem s a)
          else kfree p s = Panic ''kfree'')"
proof (cases "page_ok s p")
  case True
  let ?t = "s\<lparr>mem := st64 p (freelist s) (memset p 1 4096 (mem s)), freelist := p\<rparr>"
  have ke: "0 < kend s" "unlocked kmem_lock s" "quiet s" using assms(1) by (simp_all add: kmem_ready_def)
  have t: "kfree p s = Ok () (touch ?t)" using kfree_eq [OF ke(2,3) True] .
  have inv: "kmem_inv ?t (p # ps)" using kmem_inv_free [OF assms(2) True assms(3) ke(1)] .
  have fr: "\<not> in_range p 4096 a \<Longrightarrow> mem ?t a = mem s a" for a
    using in_range_mono [of p 8 a 4096] by (auto simp: memset_apply st64_apply)
  have "p \<noteq> 0" using inv by (auto simp: kmem_inv_def)
  then have u: "kalloc (touch ?t) = Ok p (touch (?t\<lparr>freelist := ld64 (mem ?t) p, mem := memset p 5 4096 (mem ?t)\<rparr>))"
    using ke by (simp add: kalloc_eq kmem_lock_upd)
  have "\<not> in_range p 4096 a \<Longrightarrow> memset p 5 4096 (mem ?t) a = mem s a" for a
    using fr [of a] by (simp add: memset_apply)
  then show ?thesis using True t u inv fr kmem_inv_alloc [OF inv, of 5] by simp
next
  case False
  then show ?thesis by (simp add: kfree_panics)
qed

theorem kfree_kalloc_roundtrip_witness:
  "(\<exists>t u. kfree 0x80022000 one_page_kmem = Ok () t \<and> kalloc t = Ok 0x80022000 u) \<and>
   kfree 0x80022004 one_page_kmem = Panic ''kfree''"
proof -
  have "page_ok one_page_kmem 0x80022000" "\<not> page_ok one_page_kmem 0x80022004"
    by (simp_all add: page_ok_def one_page_kmem_def boot_kmem_def PGSIZE_def PHYSTOP_def KERNBASE_def)
  then show ?thesis
    using kfree_kalloc_roundtrip [OF one_page_kmem_ok, where p = "0x80022000"]
      kfree_kalloc_roundtrip [OF one_page_kmem_ok, where p = "0x80022004"] by fastforce
qed

end
