(* ===== verification/Vm.thy ===== *)
theory Vm
  imports Kalloc
begin

text \<open>
  Sv39 page tables, \<open>kernel/vm.c\<close>. A page table is a tree of pages in physical memory; every
  operation reads and writes the 64-bit entries there. A pointer to an entry is its address, and
  0 is the null pointer. \<open>copyout\<close> takes the bytes to be copied, \<open>copyin\<close> and \<open>copyinstr\<close> return
  the bytes they stored at \<open>dst\<close> together with the result code.
\<close>

section \<open>State\<close>

record vm = kmem +
  kernel_pagetable :: uint64
  satp :: uint64
  etext :: uint64
  trampoline :: uint64

section \<open>Page table entries\<close>

definition PTE_V :: uint64 where "PTE_V = 1"
definition PTE_R :: uint64 where "PTE_R = 2"
definition PTE_W :: uint64 where "PTE_W = 4"
definition PTE_X :: uint64 where "PTE_X = 8"
definition PTE_U :: uint64 where "PTE_U = 16"

definition PA2PTE :: "uint64 \<Rightarrow> uint64" where
  "PA2PTE pa = push_bit 10 (drop_bit 12 pa)"

definition PTE2PA :: "uint64 \<Rightarrow> uint64" where
  "PTE2PA pte = push_bit 12 (drop_bit 10 pte)"

definition PTE_FLAGS :: "uint64 \<Rightarrow> uint64" where
  "PTE_FLAGS pte = pte AND 0x3FF"

definition PXSHIFT :: "nat \<Rightarrow> nat" where
  "PXSHIFT level = 12 + 9 * level"

definition PX :: "nat \<Rightarrow> uint64 \<Rightarrow> uint64" where
  "PX level va = drop_bit (PXSHIFT level) va AND 0x1FF"

definition MAXVA :: uint64 where
  "MAXVA = push_bit (9 + 9 + 9 + 12 - 1) 1"

definition TRAMPOLINE :: uint64 where "TRAMPOLINE = MAXVA - PGSIZE"

definition TRAPFRAME :: uint64 where "TRAPFRAME = TRAMPOLINE - PGSIZE"

definition KSTACK :: "uint64 \<Rightarrow> uint64" where
  "KSTACK p = TRAMPOLINE - (p + 1) * 2 * PGSIZE"

definition UART0 :: uint64 where "UART0 = 0x10000000"
definition VIRTIO0 :: uint64 where "VIRTIO0 = 0x10001000"
definition PLIC :: uint64 where "PLIC = 0x0c000000"

definition MAKE_SATP :: "uint64 \<Rightarrow> uint64" where
  "MAKE_SATP pagetable = push_bit 60 8 OR drop_bit 12 pagetable"

section \<open>Walking and mapping\<close>

primrec walk_level ::
  "nat \<Rightarrow> uint64 \<Rightarrow> uint64 \<Rightarrow> bool \<Rightarrow> 'a kmem_scheme \<Rightarrow> (uint64, 'a kmem_scheme) res" where
  "walk_level 0 pagetable va alloc s = Ok (pagetable + 8 * PX 0 va) s"
| "walk_level (Suc l) pagetable va alloc s =
    (let pte = pagetable + 8 * PX (Suc l) va in
     if ld64 (mem s) pte AND PTE_V \<noteq> 0
     then walk_level l (PTE2PA (ld64 (mem s) pte)) va alloc s
     else if \<not> alloc then Ok 0 s
     else bind (kalloc s) (\<lambda>pg s.
       if pg = 0 then Ok 0 s
       else
         let s = s\<lparr>mem := memset pg 0 4096 (mem s)\<rparr>;
             s = s\<lparr>mem := st64 pte (PA2PTE pg OR PTE_V) (mem s)\<rparr>
         in walk_level l pg va alloc s))"

definition walk ::
  "uint64 \<Rightarrow> uint64 \<Rightarrow> bool \<Rightarrow> 'a kmem_scheme \<Rightarrow> (uint64, 'a kmem_scheme) res" where
  "walk pagetable va alloc s =
    (if MAXVA \<le> va then Panic ''walk'' else walk_level 2 pagetable va alloc s)"

lemma walk_Ok_bound: "walk pt va alloc s = Ok p t \<Longrightarrow> va < MAXVA"
  by (auto simp: walk_def split: if_splits)

lemma unat_MAXVA [simp]: "unat MAXVA = 274877906944"
  by (simp add: MAXVA_def push_bit_eq_mult)

lemma next_page_measure:
  assumes "a < MAXVA"
  shows "unat MAXVA - unat (a + PGSIZE) < unat MAXVA - unat a"
proof -
  have "unat a < 274877906944" using assms by (simp add: word_less_nat_alt)
  moreover from this have "unat (a + PGSIZE) = unat a + 4096"
    using unat_add_lt [of a 4096] by (simp add: PGSIZE_def)
  ultimately show ?thesis by simp
qed

definition walkaddr :: "uint64 \<Rightarrow> uint64 \<Rightarrow> 'a kmem_scheme \<Rightarrow> (uint64, 'a kmem_scheme) res" where
  "walkaddr pagetable va s =
    (if MAXVA \<le> va then Ok 0 s
     else bind (walk pagetable va False s) (\<lambda>pte s.
       if pte = 0 then Ok 0 s
       else if ld64 (mem s) pte AND PTE_V = 0 then Ok 0 s
       else if ld64 (mem s) pte AND PTE_U = 0 then Ok 0 s
       else Ok (PTE2PA (ld64 (mem s) pte)) s))"

function mappages_loop ::
  "uint64 \<Rightarrow> uint64 \<Rightarrow> uint64 \<Rightarrow> uint64 \<Rightarrow> uint64 \<Rightarrow> 'a kmem_scheme \<Rightarrow> (int32, 'a kmem_scheme) res" where
  "mappages_loop pagetable a lst pa perm s =
    bind (walk pagetable a True s) (\<lambda>pte s.
    if pte = 0 then Ok (-1) s
    else if ld64 (mem s) pte AND PTE_V \<noteq> 0 then Panic ''mappages: remap''
    else
      let s = s\<lparr>mem := st64 pte (PA2PTE pa OR perm OR PTE_V) (mem s)\<rparr> in
      if a = lst then Ok 0 s
      else mappages_loop pagetable (a + PGSIZE) lst (pa + PGSIZE) perm s)"
  by pat_completeness auto
termination
  by (relation "measure (\<lambda>(pt, a, lst, pa, perm, s). unat MAXVA - unat a)")
     (auto dest: walk_Ok_bound intro: next_page_measure simp del: unat_MAXVA)

declare mappages_loop.simps [simp del]

definition mappages ::
  "uint64 \<Rightarrow> uint64 \<Rightarrow> uint64 \<Rightarrow> uint64 \<Rightarrow> uint64 \<Rightarrow> 'a kmem_scheme \<Rightarrow> (int32, 'a kmem_scheme) res" where
  "mappages pagetable va sz pa perm s =
    (if sz = 0 then Panic ''mappages: size''
     else mappages_loop pagetable (PGROUNDDOWN va) (PGROUNDDOWN (va + sz - 1)) pa perm s)"

definition kvmmap ::
  "uint64 \<Rightarrow> uint64 \<Rightarrow> uint64 \<Rightarrow> uint64 \<Rightarrow> uint64 \<Rightarrow> 'a kmem_scheme \<Rightarrow> (unit, 'a kmem_scheme) res" where
  "kvmmap kpgtbl va pa sz perm s =
    bind (mappages kpgtbl va sz pa perm s) (\<lambda>r s.
    if r \<noteq> 0 then Panic ''kvmmap'' else Ok () s)"

function uvmunmap_loop ::
  "uint64 \<Rightarrow> uint64 \<Rightarrow> uint64 \<Rightarrow> bool \<Rightarrow> 'a kmem_scheme \<Rightarrow> (unit, 'a kmem_scheme) res" where
  "uvmunmap_loop pagetable a lim do_free s =
    (if a < lim then
       bind (walk pagetable a False s) (\<lambda>pte s.
       if pte = 0 then Panic ''uvmunmap: walk''
       else if ld64 (mem s) pte AND PTE_V = 0 then Panic ''uvmunmap: not mapped''
       else if PTE_FLAGS (ld64 (mem s) pte) = PTE_V then Panic ''uvmunmap: not a leaf''
       else
         bind (if do_free then kfree (PTE2PA (ld64 (mem s) pte)) s else Ok () s) (\<lambda>_ s.
         let s = s\<lparr>mem := st64 pte 0 (mem s)\<rparr>
         in uvmunmap_loop pagetable (a + PGSIZE) lim do_free s))
     else Ok () s)"
  by pat_completeness auto
termination
  by (relation "measure (\<lambda>(pt, a, lim, f, s). unat MAXVA - unat a)")
     (auto dest: walk_Ok_bound intro: next_page_measure simp del: unat_MAXVA)

declare uvmunmap_loop.simps [simp del]

definition uvmunmap ::
  "uint64 \<Rightarrow> uint64 \<Rightarrow> uint64 \<Rightarrow> bool \<Rightarrow> 'a kmem_scheme \<Rightarrow> (unit, 'a kmem_scheme) res" where
  "uvmunmap pagetable va npages do_free s =
    (if va mod PGSIZE \<noteq> 0 then Panic ''uvmunmap: not aligned''
     else uvmunmap_loop pagetable va (va + npages * PGSIZE) do_free s)"

section \<open>User memory\<close>

definition uvmcreate :: "'a kmem_scheme \<Rightarrow> (uint64, 'a kmem_scheme) res" where
  "uvmcreate s =
    bind (kalloc s) (\<lambda>pagetable s.
    if pagetable = 0 then Ok 0 s
    else Ok pagetable (s\<lparr>mem := memset pagetable 0 4096 (mem s)\<rparr>))"

definition uvminit :: "uint64 \<Rightarrow> uchar list \<Rightarrow> uint \<Rightarrow> 'a kmem_scheme \<Rightarrow> (unit, 'a kmem_scheme) res" where
  "uvminit pagetable src sz s =
    (if 4096 \<le> sz then Panic ''inituvm: more than a page''
     else
       bind (kalloc s) (\<lambda>mem_pg s.
       if mem_pg = 0 then Undef
       else
         let s = s\<lparr>mem := memset mem_pg 0 4096 (mem s)\<rparr> in
         bind (mappages pagetable 0 PGSIZE mem_pg (PTE_W OR PTE_R OR PTE_X OR PTE_U) s) (\<lambda>_ s.
         if length src < unat sz then Undef
         else Ok () (s\<lparr>mem := wrbytes mem_pg (take (unat sz) src) (mem s)\<rparr>))))"

definition uvmdealloc ::
  "uint64 \<Rightarrow> uint64 \<Rightarrow> uint64 \<Rightarrow> 'a kmem_scheme \<Rightarrow> (uint64, 'a kmem_scheme) res" where
  "uvmdealloc pagetable oldsz newsz s =
    (if oldsz \<le> newsz then Ok oldsz s
     else if PGROUNDUP newsz < PGROUNDUP oldsz then
       let npages = (ucast ((PGROUNDUP oldsz - PGROUNDUP newsz) div PGSIZE) :: int32)
       in bind (uvmunmap pagetable (PGROUNDUP newsz) (scast npages) True s) (\<lambda>_ s. Ok newsz s)
     else Ok newsz s)"

lemma mappages_Ok_bound:
  assumes "mappages pt a PGSIZE pa perm s = Ok r t"
  shows "a < MAXVA"
proof -
  have "PGROUNDDOWN a < MAXVA"
    using assms by (auto simp: mappages_def mappages_loop.simps [of _ "PGROUNDDOWN a"]
      bind_eq_Ok_conv dest: walk_Ok_bound split: if_splits)
  then have "unat a div 4096 < 67108864"
    by (simp add: word_less_nat_alt unat_PGROUNDDOWN)
  then show ?thesis by (simp add: word_less_nat_alt div_less_iff_less_mult)
qed

function uvmalloc_loop ::
  "uint64 \<Rightarrow> uint64 \<Rightarrow> uint64 \<Rightarrow> uint64 \<Rightarrow> 'a kmem_scheme \<Rightarrow> (uint64, 'a kmem_scheme) res" where
  "uvmalloc_loop pagetable a oldsz newsz s =
    (if a < newsz then
       bind (kalloc s) (\<lambda>mem_pg s.
       if mem_pg = 0 then bind (uvmdealloc pagetable a oldsz s) (\<lambda>_ s. Ok 0 s)
       else
         let s = s\<lparr>mem := memset mem_pg 0 4096 (mem s)\<rparr> in
         bind (mappages pagetable a PGSIZE mem_pg (PTE_W OR PTE_X OR PTE_R OR PTE_U) s) (\<lambda>r s.
         if r \<noteq> 0 then
           bind (kfree mem_pg s) (\<lambda>_ s. bind (uvmdealloc pagetable a oldsz s) (\<lambda>_ s. Ok 0 s))
         else uvmalloc_loop pagetable (a + PGSIZE) oldsz newsz s))
     else Ok newsz s)"
  by pat_completeness auto
termination
  by (relation "measure (\<lambda>(pt, a, oldsz, newsz, s). unat MAXVA - unat a)")
     (auto dest: mappages_Ok_bound intro: next_page_measure simp del: unat_MAXVA)

declare uvmalloc_loop.simps [simp del]

definition uvmalloc ::
  "uint64 \<Rightarrow> uint64 \<Rightarrow> uint64 \<Rightarrow> 'a kmem_scheme \<Rightarrow> (uint64, 'a kmem_scheme) res" where
  "uvmalloc pagetable oldsz newsz s =
    (if newsz < oldsz then Ok oldsz s
     else
       let oldsz = PGROUNDUP oldsz
       in uvmalloc_loop pagetable oldsz oldsz newsz s)"

text \<open>
  \<open>freewalk\<close> recurses into every entry that is valid and not a leaf. A page table has three
  levels; \<open>d\<close> bounds the depth, and an entry below the last level that still points to a table
  (the code would go on reading whatever it points to) is \<open>Undef\<close>.
\<close>

function freewalk_at ::
  "nat \<Rightarrow> nat \<Rightarrow> uint64 \<Rightarrow> 'a kmem_scheme \<Rightarrow> (unit, 'a kmem_scheme) res" where
  "freewalk_at d i pagetable s =
    (if i < 512 then
       let pte = ld64 (mem s) (pagetable + 8 * of_nat i) in
       if pte AND PTE_V \<noteq> 0 \<and> pte AND (PTE_R OR PTE_W OR PTE_X) = 0 then
         (if d = 0 then Undef
          else bind (freewalk_at (d - 1) 0 (PTE2PA pte) s) (\<lambda>_ s.
            freewalk_at d (Suc i) pagetable
              (s\<lparr>mem := st64 (pagetable + 8 * of_nat i) 0 (mem s)\<rparr>)))
       else if pte AND PTE_V \<noteq> 0 then Panic ''freewalk: leaf''
       else freewalk_at d (Suc i) pagetable s
     else kfree pagetable s)"
  by pat_completeness auto
termination
  by (relation "measures [\<lambda>(d, i, pt, s). d, \<lambda>(d, i, pt, s). 512 - i]") auto

declare freewalk_at.simps [simp del]

definition freewalk :: "uint64 \<Rightarrow> 'a kmem_scheme \<Rightarrow> (unit, 'a kmem_scheme) res" where
  "freewalk pagetable s = freewalk_at 2 0 pagetable s"

definition uvmfree :: "uint64 \<Rightarrow> uint64 \<Rightarrow> 'a kmem_scheme \<Rightarrow> (unit, 'a kmem_scheme) res" where
  "uvmfree pagetable sz s =
    bind (if 0 < sz then uvmunmap pagetable 0 (PGROUNDUP sz div PGSIZE) True s else Ok () s) (\<lambda>_ s.
    freewalk pagetable s)"

function uvmcopy_loop ::
  "uint64 \<Rightarrow> uint64 \<Rightarrow> uint64 \<Rightarrow> uint64 \<Rightarrow> 'a kmem_scheme \<Rightarrow> (int32, 'a kmem_scheme) res" where
  "uvmcopy_loop old new i sz s =
    (if i < sz then
       bind (walk old i False s) (\<lambda>pte s.
       if pte = 0 then Panic ''uvmcopy: pte should exist''
       else if ld64 (mem s) pte AND PTE_V = 0 then Panic ''uvmcopy: page not present''
       else
         let pa = PTE2PA (ld64 (mem s) pte);
             flags = PTE_FLAGS (ld64 (mem s) pte)
         in bind (kalloc s) (\<lambda>mem_pg s.
            if mem_pg = 0 then
              bind (uvmunmap new 0 (i div PGSIZE) True s) (\<lambda>_ s. Ok (-1) s)
            else
              let s = s\<lparr>mem := memmove mem_pg pa 4096 (mem s)\<rparr> in
              bind (mappages new i PGSIZE mem_pg flags s) (\<lambda>r s.
              if r \<noteq> 0 then
                bind (kfree mem_pg s) (\<lambda>_ s.
                bind (uvmunmap new 0 (i div PGSIZE) True s) (\<lambda>_ s. Ok (-1) s))
              else uvmcopy_loop old new (i + PGSIZE) sz s)))
     else Ok 0 s)"
  by pat_completeness auto
termination
  by (relation "measure (\<lambda>(old, new, i, sz, s). unat MAXVA - unat i)")
     (auto dest: mappages_Ok_bound intro: next_page_measure simp del: unat_MAXVA)

declare uvmcopy_loop.simps [simp del]

definition uvmcopy :: "uint64 \<Rightarrow> uint64 \<Rightarrow> uint64 \<Rightarrow> 'a kmem_scheme \<Rightarrow> (int32, 'a kmem_scheme) res" where
  "uvmcopy old new sz s = uvmcopy_loop old new 0 sz s"

definition uvmclear :: "uint64 \<Rightarrow> uint64 \<Rightarrow> 'a kmem_scheme \<Rightarrow> (unit, 'a kmem_scheme) res" where
  "uvmclear pagetable va s =
    bind (walk pagetable va False s) (\<lambda>pte s.
    if pte = 0 then Panic ''uvmclear''
    else Ok () (s\<lparr>mem := st64 pte (ld64 (mem s) pte AND NOT PTE_U) (mem s)\<rparr>))"

section \<open>Copying between user and kernel\<close>

definition page_room :: "uint64 \<Rightarrow> nat \<Rightarrow> nat" where
  "page_room va len =
    (let n = unat (PGSIZE - (va - PGROUNDDOWN va)) in if len < n then len else n)"

lemma page_room_pos: "0 < len \<Longrightarrow> 0 < page_room va len"
proof -
  have "unat (va - PGROUNDDOWN va) = unat va mod 4096"
  proof -
    have "unat (PGROUNDDOWN va) \<le> unat va" by (simp add: unat_PGROUNDDOWN)
    then have "unat (va - PGROUNDDOWN va) = unat va - unat va div 4096 * 4096"
      by (simp add: unat_sub_if_size unat_PGROUNDDOWN)
    also have "\<dots> = unat va mod 4096" by (metis minus_div_mult_eq_mod)
    finally show ?thesis .
  qed
  moreover have "unat va mod 4096 < 4096" by simp
  ultimately have "unat (PGSIZE - (va - PGROUNDDOWN va)) = 4096 - unat va mod 4096"
    by (simp add: unat_sub_if_size)
  moreover have "0 < 4096 - unat va mod 4096" by simp
  ultimately show "0 < len \<Longrightarrow> 0 < page_room va len"
    by (simp add: page_room_def Let_def)
qed

function copyout ::
  "uint64 \<Rightarrow> uint64 \<Rightarrow> uchar list \<Rightarrow> 'a kmem_scheme \<Rightarrow> (int32, 'a kmem_scheme) res" where
  "copyout pagetable dstva src s =
    (if 0 < length src then
       let va0 = PGROUNDDOWN dstva in
       bind (walkaddr pagetable va0 s) (\<lambda>pa0 s.
       if pa0 = 0 then Ok (-1) s
       else
         let n = page_room dstva (length src);
             s = s\<lparr>mem := wrbytes (pa0 + (dstva - va0)) (take n src) (mem s)\<rparr>
         in copyout pagetable (va0 + PGSIZE) (drop n src) s)
     else Ok 0 s)"
  by pat_completeness auto
termination
  by (relation "measure (\<lambda>(pt, va, src, s). length src)") (auto intro!: diff_less page_room_pos)

declare copyout.simps [simp del]

function copyin ::
  "uint64 \<Rightarrow> uchar list \<Rightarrow> uint64 \<Rightarrow> nat \<Rightarrow> 'a kmem_scheme \<Rightarrow> (int32 \<times> uchar list, 'a kmem_scheme) res" where
  "copyin pagetable dst srcva len s =
    (if 0 < len then
       let va0 = PGROUNDDOWN srcva in
       bind (walkaddr pagetable va0 s) (\<lambda>pa0 s.
       if pa0 = 0 then Ok (-1, dst) s
       else
         let n = page_room srcva len
         in copyin pagetable (dst @ rdbytes (mem s) (pa0 + (srcva - va0)) n) (va0 + PGSIZE) (len - n) s)
     else Ok (0, dst) s)"
  by pat_completeness auto
termination
  by (relation "measure (\<lambda>(pt, dst, va, len, s). len)") (auto intro!: diff_less page_room_pos)

declare copyin.simps [simp del]

text \<open>The inner loop of \<open>copyinstr\<close>: the bytes stored and whether a NUL was found.\<close>

fun copyinstr_page :: "mem \<Rightarrow> uint64 \<Rightarrow> nat \<Rightarrow> uchar list \<times> bool" where
  "copyinstr_page m p 0 = ([], False)"
| "copyinstr_page m p (Suc n) =
    (if m p = 0 then ([0], True)
     else let (bs, got_null) = copyinstr_page m (p + 1) n in (m p # bs, got_null))"

function copyinstr ::
  "uint64 \<Rightarrow> uchar list \<Rightarrow> uint64 \<Rightarrow> nat \<Rightarrow> 'a kmem_scheme \<Rightarrow> (int32 \<times> uchar list, 'a kmem_scheme) res" where
  "copyinstr pagetable dst srcva max_len s =
    (if 0 < max_len then
       let va0 = PGROUNDDOWN srcva in
       bind (walkaddr pagetable va0 s) (\<lambda>pa0 s.
       if pa0 = 0 then Ok (-1, dst) s
       else
         let n = page_room srcva max_len;
             (bs, got_null) = copyinstr_page (mem s) (pa0 + (srcva - va0)) n
         in if got_null then Ok (0, dst @ bs) s
            else copyinstr pagetable (dst @ bs) (va0 + PGSIZE) (max_len - n) s)
     else Ok (-1, dst) s)"
  by pat_completeness auto
termination
  by (relation "measure (\<lambda>(pt, dst, va, max_len, s). max_len)") (auto intro!: diff_less page_room_pos)

declare copyinstr.simps [simp del]

section \<open>The kernel page table\<close>

definition NPROC :: nat where "NPROC = 64"

function proc_mapstacks_loop :: "nat \<Rightarrow> uint64 \<Rightarrow> 'a kmem_scheme \<Rightarrow> (unit, 'a kmem_scheme) res" where
  "proc_mapstacks_loop i kpgtbl s =
    (if i < NPROC then
       bind (kalloc s) (\<lambda>pa s.
       if pa = 0 then Panic ''kalloc''
       else bind (kvmmap kpgtbl (KSTACK (of_nat i)) pa PGSIZE (PTE_R OR PTE_W) s) (\<lambda>_ s.
            proc_mapstacks_loop (Suc i) kpgtbl s))
     else Ok () s)"
  by pat_completeness auto
termination by (relation "measure (\<lambda>(i, k, s). NPROC - i)") auto

declare proc_mapstacks_loop.simps [simp del]

definition proc_mapstacks :: "uint64 \<Rightarrow> 'a kmem_scheme \<Rightarrow> (unit, 'a kmem_scheme) res" where
  "proc_mapstacks kpgtbl s = proc_mapstacks_loop 0 kpgtbl s"

definition kvmmake :: "'a vm_scheme \<Rightarrow> (uint64, 'a vm_scheme) res" where
  "kvmmake s =
    bind (kalloc s) (\<lambda>kpgtbl s.
    if kpgtbl = 0 then Undef
    else
      let s = s\<lparr>mem := memset kpgtbl 0 4096 (mem s)\<rparr> in
      bind (kvmmap kpgtbl UART0 UART0 PGSIZE (PTE_R OR PTE_W) s) (\<lambda>_ s.
      bind (kvmmap kpgtbl VIRTIO0 VIRTIO0 PGSIZE (PTE_R OR PTE_W) s) (\<lambda>_ s.
      bind (kvmmap kpgtbl PLIC PLIC 0x400000 (PTE_R OR PTE_W) s) (\<lambda>_ s.
      bind (kvmmap kpgtbl KERNBASE KERNBASE (etext s - KERNBASE) (PTE_R OR PTE_X) s) (\<lambda>_ s.
      bind (kvmmap kpgtbl (etext s) (etext s) (PHYSTOP - etext s) (PTE_R OR PTE_W) s) (\<lambda>_ s.
      bind (kvmmap kpgtbl TRAMPOLINE (trampoline s) PGSIZE (PTE_R OR PTE_X) s) (\<lambda>_ s.
      bind (proc_mapstacks kpgtbl s) (\<lambda>_ s. Ok kpgtbl s))))))))"

definition kvminit :: "'a vm_scheme \<Rightarrow> (unit, 'a vm_scheme) res" where
  "kvminit s = bind (kvmmake s) (\<lambda>kpgtbl s. Ok () (s\<lparr>kernel_pagetable := kpgtbl\<rparr>))"

definition kvminithart :: "'a vm_scheme \<Rightarrow> 'a vm_scheme" where
  "kvminithart s = s\<lparr>satp := MAKE_SATP (kernel_pagetable s)\<rparr>"

end
