(* ===== verification/Vm_Map.thy ===== *)
theory Vm_Map
  imports Vm
begin

unbundle bit_operations_syntax

text \<open>
  Page tables as trees: what \<open>walk()\<close>, \<open>mappages()\<close> and \<open>uvmunmap()\<close> do to the mapping that a page
  table represents. \<open>tables\<close> is the set of pages a page table occupies, \<open>tree\<close> says that it is
  really a tree (no page is used twice), and \<open>leafval\<close> is the abstract view: the leaf entry for
  each virtual address.
\<close>

section \<open>Entries\<close>

lemma take_bit_small:
  fixes w :: uint64
  assumes "unat w < 2 ^ n"
  shows "take_bit n w = w"
proof -
  have "unat (take_bit n w) = take_bit n (unat w)" by (simp add: unsigned_take_bit_eq)
  also have "\<dots> = unat w" using assms by (simp add: take_bit_nat_eq_self)
  finally show ?thesis by (rule unsigned_word_eqI)
qed

lemma PTE2PA_PA2PTE:
  assumes "pa mod PGSIZE = 0" "pa < PHYSTOP" "f < 1024"
  shows "PTE2PA (PA2PTE pa OR f) = pa"
proof -
  have "take_bit 32 pa = pa" using assms(2) by (intro take_bit_small) (simp add: word_less_nat_alt)
  then have hi: "bit pa n \<Longrightarrow> n < 32" for n by (metis bit_take_bit_iff)
  have "take_bit 12 pa = 0" using assms(1) by (simp add: take_bit_eq_mod PGSIZE_def)
  then have lo: "bit pa n \<Longrightarrow> 12 \<le> n" for n by (metis bit_take_bit_iff bit_0_eq bot_apply bot_bool_def not_le)
  have "take_bit 10 f = f" using assms(3) by (intro take_bit_small) (simp add: word_less_nat_alt)
  then have ff: "bit f n \<Longrightarrow> n < 10" for n by (metis bit_take_bit_iff)
  show ?thesis
  proof (rule bit_word_eqI)
    fix n assume "n < LENGTH(64)"
    then show "bit (PTE2PA (PA2PTE pa OR f)) n = bit pa n"
      using hi [of n] lo [of n] ff [of "n - 2"]
      by (auto simp: PTE2PA_def PA2PTE_def bit_simps)
  qed
qed

lemma PTE_flags_PA2PTE: "f < 1024 \<Longrightarrow> (PA2PTE pa OR f) AND 0x3FF = f"
proof -
  assume "f < 1024"
  then have "take_bit 10 f = f" by (intro take_bit_small) (simp add: word_less_nat_alt)
  then have ff: "bit f n \<Longrightarrow> n < 10" for n by (metis bit_take_bit_iff)
  have m: "(0x3FF :: uint64) = mask 10" by (simp add: mask_eq_exp_minus_1)
  show ?thesis unfolding m
    by (rule bit_word_eqI) (auto simp: PA2PTE_def bit_simps dest: ff)
qed

lemma PTE_bit_PA2PTE: "f < 1024 \<Longrightarrow> g < 1024 \<Longrightarrow> (PA2PTE pa OR f) AND g = f AND g"
proof -
  assume f: "f < 1024" and g: "g < 1024"
  have "take_bit 10 g = g" using g by (intro take_bit_small) (simp add: word_less_nat_alt)
  then have "g AND 0x3FF = g" by (simp add: take_bit_eq_mask mask_eq_exp_minus_1)
  then have "(PA2PTE pa OR f) AND g = ((PA2PTE pa OR f) AND 0x3FF) AND g" by (metis and.assoc and.commute)
  then show ?thesis by (simp add: PTE_flags_PA2PTE [OF f])
qed

section \<open>Page tables as trees\<close>

definition entry :: "mem \<Rightarrow> uint64 \<Rightarrow> nat \<Rightarrow> uint64" where
  "entry m pt i = ld64 m (pt + 8 * of_nat i)"

definition valid :: "uint64 \<Rightarrow> bool" where
  "valid e \<longleftrightarrow> e AND PTE_V \<noteq> 0"

definition px :: "nat \<Rightarrow> uint64 \<Rightarrow> nat" where
  "px l va = unat (PX l va)"

lemma px_less [simp]: "px l va < 512"
proof -
  have "PX l va = take_bit 9 (drop_bit (PXSHIFT l) va)"
    by (simp add: PX_def take_bit_eq_mask mask_eq_exp_minus_1)
  then have "unat (PX l va) = take_bit 9 (unat (drop_bit (PXSHIFT l) va))"
    by (simp add: unsigned_take_bit_eq)
  then show ?thesis by (simp add: px_def take_bit_eq_mod)
qed

lemma PX_of_px: "PX l va = of_nat (px l va)"
  by (simp add: px_def)

primrec tables :: "nat \<Rightarrow> mem \<Rightarrow> uint64 \<Rightarrow> uint64 set" where
  "tables 0 m pt = {pt}"
| "tables (Suc l) m pt =
     insert pt (\<Union>i \<in> {i. i < 512 \<and> valid (entry m pt i)}. tables l m (PTE2PA (entry m pt i)))"

text \<open>
  In a tree every valid entry above the last level is a pointer (no permission bits), the table
  itself does not occur below it, and the subtrees share no page.
\<close>

primrec tree :: "nat \<Rightarrow> mem \<Rightarrow> uint64 \<Rightarrow> bool" where
  "tree 0 m pt \<longleftrightarrow> True"
| "tree (Suc l) m pt \<longleftrightarrow>
    (\<forall>i < 512. valid (entry m pt i) \<longrightarrow>
       entry m pt i AND (PTE_R OR PTE_W OR PTE_X) = 0 \<and>
       tree l m (PTE2PA (entry m pt i)) \<and> pt \<notin> tables l m (PTE2PA (entry m pt i)) \<and>
       (\<forall>j < 512. j \<noteq> i \<longrightarrow> valid (entry m pt j) \<longrightarrow>
          tables l m (PTE2PA (entry m pt i)) \<inter> tables l m (PTE2PA (entry m pt j)) = {}))"

primrec lookup :: "nat \<Rightarrow> mem \<Rightarrow> uint64 \<Rightarrow> uint64 \<Rightarrow> uint64 option" where
  "lookup 0 m pt va = Some (pt + 8 * PX 0 va)"
| "lookup (Suc l) m pt va =
    (if valid (entry m pt (px (Suc l) va))
     then lookup l m (PTE2PA (entry m pt (px (Suc l) va))) va else None)"

definition leafval :: "nat \<Rightarrow> mem \<Rightarrow> uint64 \<Rightarrow> uint64 \<Rightarrow> uint64" where
  "leafval l m pt va = (case lookup l m pt va of None \<Rightarrow> 0 | Some a \<Rightarrow> ld64 m a)"

lemma leafval_Suc: "leafval (Suc l) m pt va =
    (if valid (entry m pt (px (Suc l) va)) then leafval l m (PTE2PA (entry m pt (px (Suc l) va))) va else 0)"
  by (simp add: leafval_def)

lemma leafval_0: "leafval 0 m pt va = entry m pt (px 0 va)"
  by (simp add: leafval_def PX_of_px entry_def)

lemma root_in_tables [simp]: "pt \<in> tables l m pt"
  by (cases l) auto

lemma child_tables: "i < 512 \<Longrightarrow> valid (entry m pt i) \<Longrightarrow>
    tables l m (PTE2PA (entry m pt i)) \<subseteq> tables (Suc l) m pt"
  by auto

lemma walk_level_lookup:
  "walk_level l pt va False s = Ok (case lookup l (mem s) pt va of None \<Rightarrow> 0 | Some a \<Rightarrow> a) s"
  by (induction l arbitrary: pt) (simp_all add: Let_def entry_def valid_def px_def)

text \<open>\<open>agree m m' A\<close>: the two memories have the same bytes in the pages \<open>A\<close>.\<close>

definition agree :: "mem \<Rightarrow> mem \<Rightarrow> uint64 set \<Rightarrow> bool" where
  "agree m m' A \<longleftrightarrow> (\<forall>p \<in> A. \<forall>a. in_range p 4096 a \<longrightarrow> m' a = m a)"

lemma agree_subset: "agree m m' A \<Longrightarrow> B \<subseteq> A \<Longrightarrow> agree m m' B"
  by (auto simp: agree_def)

lemma agree_trans: "agree m m' A \<Longrightarrow> agree m' m'' A \<Longrightarrow> agree m m'' A"
  by (simp add: agree_def)

lemma entry_in_page:
  assumes "in_range (pt + 8 * of_nat i) 8 a" "i < 512"
  shows "in_range pt 4096 a"
proof -
  let ?d = "a - (pt + 8 * of_nat i)"
  have d: "unat ?d < 8" using assms(1) by (simp add: in_range_def)
  have "a - pt = ?d + of_nat (8 * i)" by simp
  moreover have "unat (?d + of_nat (8 * i)) = unat ?d + 8 * i"
    using d assms(2) by (intro unat_add_lt) simp
  ultimately show ?thesis using d assms(2) by (simp add: in_range_def)
qed

lemma entry_agree: "agree m m' {pt} \<Longrightarrow> i < 512 \<Longrightarrow> entry m' pt i = entry m pt i"
  unfolding entry_def agree_def by (rule ld64_cong) (auto dest: entry_in_page)

lemma agree_tables:
  assumes "agree m m' (tables l m pt)"
  shows "tables l m' pt = tables l m pt \<and> (tree l m pt \<longrightarrow> tree l m' pt) \<and>
    lookup l m' pt va = lookup l m pt va \<and> leafval l m' pt va = leafval l m pt va"
  using assms
proof (induction l arbitrary: pt)
  case 0
  then have "entry m' pt (px 0 va) = entry m pt (px 0 va)" by (intro entry_agree) auto
  then show ?case by (simp add: leafval_0)
next
  case (Suc l)
  have e: "entry m' pt i = entry m pt i" if "i < 512" for i
    using Suc.prems that by (intro entry_agree agree_subset [OF Suc.prems]) auto
  have sub: "agree m m' (tables l m (PTE2PA (entry m pt i)))" if "i < 512" "valid (entry m pt i)" for i
    using Suc.prems that by (auto intro: agree_subset)
  note ih = Suc.IH [OF sub]
  have t: "tables (Suc l) m' pt = tables (Suc l) m pt"
    using e ih by auto
  have "lookup (Suc l) m' pt va = lookup (Suc l) m pt va" "leafval (Suc l) m' pt va = leafval (Suc l) m pt va"
    using e [of "px (Suc l) va"] ih [of "px (Suc l) va"] by (simp_all add: leafval_Suc)
  moreover have "tree (Suc l) m pt \<longrightarrow> tree (Suc l) m' pt" using e ih by simp
  ultimately show ?case using t by blast
qed

section \<open>Adding an empty table\<close>

lemma entries_disjoint:
  assumes "i < 512" "j < 512" "i \<noteq> j" "in_range (pt + 8 * of_nat i) 8 a"
  shows "\<not> in_range (pt + 8 * of_nat j) 8 a"
proof -
  have d: "unat (a - pt) = unat (a - (pt + 8 * of_nat k)) + 8 * k"
    if "in_range (pt + 8 * of_nat k) 8 a" "k < 512" for k
  proof -
    have "a - pt = (a - (pt + 8 * of_nat k)) + of_nat (8 * k)" by simp
    moreover have "unat ((a - (pt + 8 * of_nat k)) + of_nat (8 * k)) = unat (a - (pt + 8 * of_nat k)) + 8 * k"
      using that by (intro unat_add_lt) (simp add: in_range_def)
    ultimately show ?thesis by simp
  qed
  show ?thesis
  proof
    assume "in_range (pt + 8 * of_nat j) 8 a"
    then have "unat (a - (pt + 8 * of_nat j)) < 8" "unat (a - (pt + 8 * of_nat i)) < 8"
      using assms(4) by (simp_all add: in_range_def)
    then show False using d [OF assms(4,1)] d [OF \<open>in_range (pt + 8 * of_nat j) 8 a\<close> assms(2)] assms(3) by linarith
  qed
qed

lemma entry_st64:
  assumes "i < 512" "j < 512"
  shows "entry (st64 (pt + 8 * of_nat i) v m) pt j = (if j = i then v else entry m pt j)"
proof (cases "j = i")
  case True
  then show ?thesis by (simp add: entry_def ld64_st64_same)
next
  case False
  have "ld64 (st64 (pt + 8 * of_nat i) v m) (pt + 8 * of_nat j) = ld64 m (pt + 8 * of_nat j)"
    by (rule ld64_cong) (use entries_disjoint [OF assms(2,1) False] in \<open>auto simp: st64_apply\<close>)
  then show ?thesis using False by (simp add: entry_def)
qed

text \<open>Pages of the allocator do not overlap.\<close>

definition page_set :: "uint64 set \<Rightarrow> bool" where
  "page_set A \<longleftrightarrow> (\<forall>p \<in> A. unat p mod 4096 = 0 \<and> unat p + 4096 \<le> 2 ^ 64)"

lemma page_set_disjoint:
  "page_set A \<Longrightarrow> p \<in> A \<Longrightarrow> q \<in> A \<Longrightarrow> p \<noteq> q \<Longrightarrow> in_range p 4096 a \<Longrightarrow> \<not> in_range q 4096 a"
  using pages_disjoint [of p q a] by (simp add: page_set_def)

lemma page_ok_page_set: "(\<And>p. p \<in> A \<Longrightarrow> page_ok s p) \<Longrightarrow> page_set A"
  using page_ok_bounds by (fastforce simp: page_set_def)

lemma agree_st64:
  assumes "page_set (insert p A)" "p \<notin> A" "i < 512"
  shows "agree m (st64 (p + 8 * of_nat i) v m) A"
  unfolding agree_def
proof (intro ballI allI impI)
  fix q a assume "q \<in> A" "in_range q 4096 a"
  then have "\<not> in_range p 4096 a" using page_set_disjoint [OF assms(1), of q p a] assms(2) by auto
  then have "\<not> in_range (p + 8 * of_nat i) 8 a" using entry_in_page assms(3) by blast
  then show "st64 (p + 8 * of_nat i) v m a = m a" by (simp add: st64_apply)
qed

lemma agree_memset:
  assumes "page_set (insert p A)" "p \<notin> A"
  shows "agree m (memset p c 4096 m) A"
  unfolding agree_def
proof (intro ballI allI impI)
  fix q a assume "q \<in> A" "in_range q 4096 a"
  then have "\<not> in_range p 4096 a" using page_set_disjoint [OF assms(1), of q p a] assms(2) by auto
  then show "memset p c 4096 m a = m a" by (simp add: memset_apply)
qed

lemma entry_zero_page:
  assumes "\<And>a. in_range pg 4096 a \<Longrightarrow> m a = 0" "i < 512"
  shows "entry m pg i = 0"
  unfolding entry_def using assms entry_in_page by (intro ld64_const) blast

lemma not_valid_0 [simp]: "\<not> valid 0"
  by (simp add: valid_def)

lemma zero_table:
  assumes "\<And>a. in_range pg 4096 a \<Longrightarrow> m a = 0"
  shows "tables l m pg = {pg}" "tree l m pg" "leafval l m pg va = 0"
proof -
  have "entry m pg i = 0" if "i < 512" for i using entry_zero_page [of pg m i] assms that by blast
  then show "tables l m pg = {pg}" "tree l m pg" "leafval l m pg va = 0"
    by (cases l; auto simp: leafval_Suc leafval_0)+
qed

lemma page_set_subset: "page_set A \<Longrightarrow> B \<subseteq> A \<Longrightarrow> page_set B"
  by (auto simp: page_set_def)

lemma new_entry:
  assumes "pg mod PGSIZE = 0" "pg < PHYSTOP"
  shows "valid (PA2PTE pg OR PTE_V)" "PTE2PA (PA2PTE pg OR PTE_V) = pg"
    "(PA2PTE pg OR PTE_V) AND (PTE_R OR PTE_W OR PTE_X) = 0"
  using PTE2PA_PA2PTE [OF assms, of PTE_V] PTE_bit_PA2PTE [of PTE_V PTE_V pg]
    PTE_bit_PA2PTE [of PTE_V "PTE_R OR PTE_W OR PTE_X" pg]
  by (simp_all add: valid_def PTE_V_def PTE_R_def PTE_W_def PTE_X_def)

lemma add_table:
  assumes tr: "tree (Suc l) m pt" and i: "i < 512" "\<not> valid (entry m pt i)"
    and pg: "pg mod PGSIZE = 0" "pg < PHYSTOP" "pg \<notin> tables (Suc l) m pt"
    and z: "\<forall>a. in_range pg 4096 a \<longrightarrow> m a = 0"
    and ps: "page_set (insert pg (tables (Suc l) m pt))"
    and m1: "m1 = st64 (pt + 8 * of_nat i) (PA2PTE pg OR PTE_V) m"
  shows "tree (Suc l) m1 pt" "tables (Suc l) m1 pt = insert pg (tables (Suc l) m pt)"
    "leafval (Suc l) m1 pt va = leafval (Suc l) m pt va" "entry m1 pt i = PA2PTE pg OR PTE_V"
proof -
  let ?c = "\<lambda>j. PTE2PA (entry m pt j)"
  have pgpt: "pg \<noteq> pt" using pg(3) by auto
  have e: "entry m1 pt j = (if j = i then PA2PTE pg OR PTE_V else entry m pt j)" if "j < 512" for j
    unfolding m1 using entry_st64 [OF i(1) that] .
  then show "entry m1 pt i = PA2PTE pg OR PTE_V" using i(1) by simp
  note ne = new_entry [OF pg(1,2)]
  have "agree m m1 {pg}" unfolding m1
    using pgpt i(1) by (intro agree_st64 page_set_subset [OF ps]) auto
  then have "m1 a = 0" if "in_range pg 4096 a" for a using z that by (simp add: agree_def)
  note zt = zero_table [of pg m1, OF this]
  have old: "pt \<notin> tables l m (?c j)" "tree l m (?c j)" "entry m pt j AND (PTE_R OR PTE_W OR PTE_X) = 0"
     "\<And>k. k < 512 \<Longrightarrow> k \<noteq> j \<Longrightarrow> valid (entry m pt k) \<Longrightarrow> tables l m (?c j) \<inter> tables l m (?c k) = {}"
     "tables l m (?c j) \<subseteq> tables (Suc l) m pt"
    if "j < 512" "valid (entry m pt j)" for j
    using tr that by auto
  have ag: "agree m m1 (tables l m (?c j))" if "j < 512" "valid (entry m pt j)" for j
    unfolding m1 using old(1,5) [OF that] i(1)
    by (intro agree_st64 page_set_subset [OF ps]) auto
  note at = agree_tables [OF ag]
  have tc: "tables l m1 (PTE2PA (entry m1 pt j)) = (if j = i then {pg} else tables l m (?c j))"
    if "j < 512" "j = i \<or> valid (entry m pt j)" for j
    using that e ne(2) zt(1) at [of j] by auto
  have va1: "valid (entry m1 pt j) \<longleftrightarrow> j = i \<or> valid (entry m pt j)" if "j < 512" for j
    using that e ne(1) by auto
  have "(\<Union>j\<in>{j. j < 512 \<and> valid (entry m1 pt j)}. tables l m1 (PTE2PA (entry m1 pt j))) =
        insert pg (\<Union>j\<in>{j. j < 512 \<and> valid (entry m pt j)}. tables l m (?c j))"
    using i by (auto simp: va1 tc split: if_splits)
  then show "tables (Suc l) m1 pt = insert pg (tables (Suc l) m pt)" by auto
  show "leafval (Suc l) m1 pt va = leafval (Suc l) m pt va"
    using i e [OF px_less] ne zt(3) at [OF px_less] by (auto simp: leafval_Suc)
  have "tree l m1 (PTE2PA (entry m1 pt j))" if "j < 512" "j = i \<or> valid (entry m pt j)" for j
    using that e [OF that(1)] ne(2) zt(2) at [of j] old(2) by (cases "j = i") auto
  moreover have "entry m1 pt j AND (PTE_R OR PTE_W OR PTE_X) = 0" if "j < 512" "j = i \<or> valid (entry m pt j)" for j
    using that e [OF that(1)] ne(3) old(3) by (cases "j = i") auto
  moreover have "pt \<notin> tables l m1 (PTE2PA (entry m1 pt j))" if "j < 512" "j = i \<or> valid (entry m pt j)" for j
    using that tc old(1) pgpt by auto
  moreover have "tables l m1 (PTE2PA (entry m1 pt j)) \<inter> tables l m1 (PTE2PA (entry m1 pt k)) = {}"
    if "j < 512" "j = i \<or> valid (entry m pt j)" "k < 512" "k = i \<or> valid (entry m pt k)" "k \<noteq> j" for j k
  proof -
    have "pg \<notin> tables l m (?c x)" if "x < 512" "valid (entry m pt x)" for x
      using old(5) [OF that] pg(3) by blast
    then show ?thesis using that tc old(4) [of j k] by auto
  qed
  ultimately show "tree (Suc l) m1 pt" by (simp add: va1)
qed

text \<open>Changing one subtree in place.\<close>

lemma change_subtree:
  assumes tr: "tree (Suc l) m pt" and i: "i < 512" "valid (entry m pt i)" and c: "c = PTE2PA (entry m pt i)"
    and new: "tree l m' c" "tables l m' c = tables l m c \<union> U"
    and U: "U \<inter> tables (Suc l) m pt = {}"
    and fr: "\<And>a. \<forall>p \<in> tables l m c \<union> U. \<not> in_range p 4096 a \<Longrightarrow> m' a = m a"
    and ps: "page_set (tables (Suc l) m pt \<union> U)"
  shows "tree (Suc l) m' pt" "tables (Suc l) m' pt = tables (Suc l) m pt \<union> U"
    "leafval (Suc l) m' pt va = (if px (Suc l) va = i then leafval l m' c va else leafval (Suc l) m pt va)"
    "entry m' pt i = entry m pt i"
proof -
  let ?c = "\<lambda>j. PTE2PA (entry m pt j)"
  have old: "pt \<notin> tables l m (?c j)" "tree l m (?c j)" "entry m pt j AND (PTE_R OR PTE_W OR PTE_X) = 0"
     "\<And>k. k < 512 \<Longrightarrow> k \<noteq> j \<Longrightarrow> valid (entry m pt k) \<Longrightarrow> tables l m (?c j) \<inter> tables l m (?c k) = {}"
     "tables l m (?c j) \<subseteq> tables (Suc l) m pt"
    if "j < 512" "valid (entry m pt j)" for j
    using tr that by auto
  have ag: "agree m m' A" if "A \<subseteq> tables (Suc l) m pt" "A \<inter> tables l m c = {}" for A
    unfolding agree_def
  proof (intro ballI allI impI)
    fix p a assume p: "p \<in> A" "in_range p 4096 a"
    have "\<not> in_range q 4096 a" if "q \<in> tables l m c \<union> U" for q
    proof -
      have "q \<noteq> p" "q \<in> tables (Suc l) m pt \<union> U" "p \<in> tables (Suc l) m pt \<union> U"
        using that p(1) \<open>A \<subseteq> tables (Suc l) m pt\<close> \<open>A \<inter> tables l m c = {}\<close> U old(5) [OF i] c by blast+
      then show ?thesis using page_set_disjoint [OF ps, of p q a] p(2) by blast
    qed
    then show "m' a = m a" using fr by blast
  qed
  have e: "entry m' pt j = entry m pt j" if "j < 512" for j
    using old(1) [OF i] c that by (intro entry_agree ag) auto
  then show "entry m' pt i = entry m pt i" using i(1) .
  have at: "tables l m' (?c j) = tables l m (?c j) \<and> (tree l m (?c j) \<longrightarrow> tree l m' (?c j)) \<and>
      leafval l m' (?c j) va = leafval l m (?c j) va"
    if "j < 512" "valid (entry m pt j)" "j \<noteq> i" for j va
    using agree_tables [OF ag [OF old(5)], of j va] that old(4) [of j i] i c by auto
  have tc: "tables l m' (?c j) = tables l m (?c j) \<union> (if j = i then U else {})"
    if "j < 512" "valid (entry m pt j)" for j
    using that at new(2) c by auto
  have "(\<Union>j\<in>{j. j < 512 \<and> valid (entry m' pt j)}. tables l m' (PTE2PA (entry m' pt j))) =
        (\<Union>j\<in>{j. j < 512 \<and> valid (entry m pt j)}. tables l m (?c j)) \<union> U"
    using i by (auto simp: e tc split: if_splits)
  then show "tables (Suc l) m' pt = tables (Suc l) m pt \<union> U" by auto
  show "leafval (Suc l) m' pt va = (if px (Suc l) va = i then leafval l m' c va else leafval (Suc l) m pt va)"
    using e [OF px_less] at [OF px_less] c i
    by (cases "px (Suc l) va = i") (auto simp: leafval_Suc)
  have "tree l m' (?c j)" if "j < 512" "valid (entry m pt j)" for j
    using that at [of j] old(2) new(1) c by (cases "j = i") auto
  moreover have "pt \<notin> tables l m' (?c j)" if "j < 512" "valid (entry m pt j)" for j
    using that tc old(1) U by auto
  moreover have "tables l m' (?c j) \<inter> tables l m' (?c k) = {}"
    if "j < 512" "valid (entry m pt j)" "k < 512" "valid (entry m pt k)" "k \<noteq> j" for j k
  proof -
    have "tables l m (?c j) \<inter> U = {}" "tables l m (?c k) \<inter> U = {}"
      using old(5) that U by blast+
    then show ?thesis using that tc old(4) [of j k] by auto
  qed
  ultimately show "tree (Suc l) m' pt" using old(3) by (simp add: e)
qed

section \<open>walk\<close>

text \<open>\<open>mem_only s t\<close>: \<open>t\<close> differs from \<open>s\<close> in memory and the free list alone (and \<open>intena\<close>, which an
  \<open>acquire\<close>/\<open>release\<close> pair may have set).\<close>

definition mem_only :: "'a kmem_scheme \<Rightarrow> 'a kmem_scheme \<Rightarrow> bool" where
  "mem_only s t \<longleftrightarrow> touch t = touch (s\<lparr>mem := mem t, freelist := freelist t\<rparr>)"

lemma mem_only_refl [simp]: "mem_only s s"
  by (simp add: mem_only_def)

lemma touch_mem_freelist:
  "touch (s\<lparr>mem := m, freelist := f\<rparr>) = (touch s)\<lparr>mem := m, freelist := f\<rparr>"
  by (simp add: kmem_lock_upd)

lemma mem_only_trans: "mem_only s t \<Longrightarrow> mem_only t u \<Longrightarrow> mem_only s u"
  unfolding mem_only_def touch_mem_freelist by simp

lemma mem_only_touch [simp]: "mem_only s (touch t) = mem_only s t"
  by (simp add: mem_only_def)

lemma upd_eq_iff:
  fixes x y :: "'a kmem_scheme"
  shows "x\<lparr>mem := m\<rparr> = y\<lparr>mem := m, freelist := f\<rparr> \<longleftrightarrow> x = y\<lparr>mem := mem x, freelist := f\<rparr>"
    "x\<lparr>freelist := f\<rparr> = y\<lparr>mem := m, freelist := f\<rparr> \<longleftrightarrow> x = y\<lparr>mem := m, freelist := freelist x\<rparr>"
  by (cases x, cases y, auto)+

lemma mem_only_upd [simp]:
  "mem_only s (t\<lparr>mem := m\<rparr>) = mem_only s t" "mem_only s (t\<lparr>freelist := f\<rparr>) = mem_only s t"
  using upd_eq_iff(1) [where x = "touch t" and m = m and y = "touch s" and f = "freelist t"]
    upd_eq_iff(2) [where x = "touch t" and f = f and y = "touch s" and m = "mem t"]
  by (simp_all add: mem_only_def kmem_lock_upd)

lemma kmem_inv_agree:
  assumes "kmem_inv s ps" "agree (mem s) m' (set ps)"
  shows "kmem_inv (s\<lparr>mem := m'\<rparr>) ps"
proof -
  have "runs m' q ps = runs (mem s) q ps" for q
    using assms(2) in_range_mono [of _ 8 _ 4096] by (intro runs_cong) (auto simp: agree_def)
  then show ?thesis using assms(1) by (simp add: kmem_inv_def page_ok_def)
qed

definition pt_inv :: "nat \<Rightarrow> uint64 \<Rightarrow> uint64 list \<Rightarrow> 'a kmem_scheme \<Rightarrow> bool" where
  "pt_inv l pt ps s \<longleftrightarrow>
     kmem_ready s \<and> kmem_inv s ps \<and> tree l (mem s) pt \<and> tables l (mem s) pt \<inter> set ps = {} \<and>
     (\<forall>p \<in> tables l (mem s) pt. page_ok s p)"

lemma pt_inv_page_set: "pt_inv l pt ps s \<Longrightarrow> page_set (tables l (mem s) pt \<union> set ps)"
  by (rule page_ok_page_set [of _ s]) (auto simp: pt_inv_def kmem_inv_def)

lemma entry_addr_nonzero:
  assumes "page_ok s pt" "0 < kend s" "i < 512"
  shows "pt + 8 * of_nat i \<noteq> 0"
proof -
  have "unat (pt + of_nat (8 * i)) = unat pt + 8 * i"
    using page_ok_bounds [OF assms(1)] assms(3) by (intro unat_add_lt) simp
  moreover have "0 < unat pt" using assms(1,2) by (auto simp: page_ok_def word_less_nat_alt word_le_nat_alt)
  ultimately show ?thesis by auto
qed

text \<open>
  The result of a walk with allocation: \<open>us\<close> are the pages it took from the free list for new
  tables, the mapping is unchanged, and nothing outside the page table was written. It returns 0
  only if the allocator has run out of pages.
\<close>

definition walk_post ::
  "nat \<Rightarrow> uint64 \<Rightarrow> uint64 \<Rightarrow> uint64 list \<Rightarrow> 'a kmem_scheme \<Rightarrow> uint64 \<Rightarrow> 'a kmem_scheme \<Rightarrow> uint64 list \<Rightarrow> uint64 list \<Rightarrow> bool" where
  "walk_post l pt va ps s a t us ps' \<longleftrightarrow>
     ps = us @ ps' \<and> pt_inv l pt ps' t \<and> mem_only s t \<and> page_ok t = page_ok s \<and>
     tables l (mem t) pt = tables l (mem s) pt \<union> set us \<and>
     (\<forall>va'. leafval l (mem t) pt va' = leafval l (mem s) pt va') \<and>
     (if a = 0 then ps' = [] \<and> length us < l else lookup l (mem t) pt va = Some a \<and> length us \<le> l) \<and>
     (\<forall>x. (\<forall>p \<in> tables l (mem s) pt \<union> set us. \<not> in_range p 4096 x) \<longrightarrow> mem t x = mem s x)"

lemma walk_valid_entry:
  assumes inv: "pt_inv (Suc l) pt ps s" and e: "valid (entry (mem s) pt (px (Suc l) va))"
    and c: "c = PTE2PA (entry (mem s) pt (px (Suc l) va))"
    and post: "walk_post l c va ps s a t us ps'"
  shows "walk_post (Suc l) pt va ps s a t us ps'"
proof -
  let ?i = "px (Suc l) va"
  have tr: "tree (Suc l) (mem s) pt" "tables (Suc l) (mem s) pt \<inter> set ps = {}"
    using inv by (auto simp: pt_inv_def)
  have p: "ps = us @ ps'" "tree l (mem t) c" "tables l (mem t) c = tables l (mem s) c \<union> set us"
    "\<And>va'. leafval l (mem t) c va' = leafval l (mem s) c va'"
    "\<And>x. \<forall>p \<in> tables l (mem s) c \<union> set us. \<not> in_range p 4096 x \<Longrightarrow> mem t x = mem s x"
    "kmem_ready t" "kmem_inv t ps'" "page_ok t = page_ok s" "mem_only s t"
    "if a = 0 then ps' = [] \<and> length us < l else lookup l (mem t) c va = Some a \<and> length us \<le> l"
    using post by (auto simp: walk_post_def pt_inv_def)
  have U: "set us \<inter> tables (Suc l) (mem s) pt = {}" using tr(2) p(1) by auto
  have psu: "page_set (tables (Suc l) (mem s) pt \<union> set us)"
    by (rule page_set_subset [OF pt_inv_page_set [OF inv]]) (use p(1) in auto)
  note ch = change_subtree [OF tr(1) px_less e c p(2,3) U p(5) psu]
  have lv: "leafval (Suc l) (mem t) pt va' = leafval (Suc l) (mem s) pt va'" for va'
    using ch(3) [of va'] p(4) [of va'] e c by (auto simp: leafval_Suc)
  have "distinct ps" using inv by (simp add: pt_inv_def kmem_inv_def)
  then have "set us \<inter> set ps' = {}" using p(1) by simp
  then have "(tables (Suc l) (mem s) pt \<union> set us) \<inter> set ps' = {}" using tr(2) p(1) by auto
  moreover have "\<forall>q \<in> tables (Suc l) (mem s) pt \<union> set us. page_ok t q"
    using inv p(1,8) by (auto simp: pt_inv_def kmem_inv_def)
  ultimately have "pt_inv (Suc l) pt ps' t"
    using ch(1,2) p(6,7) unfolding pt_inv_def by simp
  moreover have "if a = 0 then ps' = [] \<and> length us < Suc l else lookup (Suc l) (mem t) pt va = Some a \<and> length us \<le> Suc l"
    using p(10) e c ch(4) by auto
  moreover have "mem t x = mem s x" if "\<forall>q \<in> tables (Suc l) (mem s) pt \<union> set us. \<not> in_range q 4096 x" for x
    using p(5) [of x] that child_tables [OF px_less e, of l] c by blast
  ultimately show ?thesis
    using p(1,8,9) ch(2) lv unfolding walk_post_def by blast
qed

lemma pt_inv_child:
  assumes "pt_inv (Suc l) pt ps s" "i < 512" "valid (entry (mem s) pt i)"
  shows "pt_inv l (PTE2PA (entry (mem s) pt i)) ps s"
  using assms unfolding pt_inv_def by auto

lemma page_ok_facts: "page_ok s p \<Longrightarrow> p mod PGSIZE = 0 \<and> p < PHYSTOP"
  by (simp add: page_ok_def)

text \<open>The state after \<open>kalloc()\<close>, clearing the page and linking it.\<close>

lemma link_table:
  assumes inv: "pt_inv (Suc l) pt (pg # ps) s" and i: "i < 512" "\<not> valid (entry (mem s) pt i)"
    and t: "t = (touch (s\<lparr>freelist := ld64 (mem s) pg, mem := memset pg 5 4096 (mem s)\<rparr>))
              \<lparr>mem := st64 (pt + 8 * of_nat i) (PA2PTE pg OR PTE_V) (memset pg 0 4096 (memset pg 5 4096 (mem s)))\<rparr>"
  shows "pt_inv (Suc l) pt ps t" "tables (Suc l) (mem t) pt = insert pg (tables (Suc l) (mem s) pt)"
    "leafval (Suc l) (mem t) pt va = leafval (Suc l) (mem s) pt va" "entry (mem t) pt i = PA2PTE pg OR PTE_V"
    "mem_only s t" "page_ok t = page_ok s"
    "\<forall>p \<in> insert pg (tables (Suc l) (mem s) pt). \<not> in_range p 4096 x \<Longrightarrow> mem t x = mem s x"
proof -
  let ?T = "tables (Suc l) (mem s) pt"
  let ?m = "memset pg 0 4096 (memset pg 5 4096 (mem s))"
  have pgT: "pg \<notin> ?T" "set ps \<inter> ?T = {}" using inv by (auto simp: pt_inv_def)
  have ki: "kmem_inv s (pg # ps)" "kmem_ready s" and tr: "tree (Suc l) (mem s) pt"
    using inv by (auto simp: pt_inv_def)
  have pgk: "page_ok s pg" "pg \<notin> set ps" using ki by (auto simp: kmem_inv_def)
  have ps: "page_set (insert pg (?T \<union> set ps))"
    by (rule page_set_subset [OF pt_inv_page_set [OF inv]]) auto
  have a1: "agree (mem s) ?m (?T \<union> set ps)"
    using pgT pgk by (intro agree_trans [OF agree_memset agree_memset] ps) auto
  have aT: "agree (mem s) ?m ?T" using a1 by (rule agree_subset) blast
  note at = agree_tables [OF aT]
  have z: "\<forall>a. in_range pg 4096 a \<longrightarrow> ?m a = 0" by (simp add: memset_apply)
  have ei: "\<not> valid (entry ?m pt i)" using i entry_agree [OF agree_subset [OF aT]] by auto
  have mt: "mem t = st64 (pt + 8 * of_nat i) (PA2PTE pg OR PTE_V) ?m" by (simp add: t)
  have tabs: "tables (Suc l) ?m pt = ?T" "tree (Suc l) ?m pt" using at tr by blast+
  have ps1: "page_set (insert pg (tables (Suc l) ?m pt))"
    unfolding tabs(1) by (rule page_set_subset [OF ps]) blast
  have ok: "pg mod PGSIZE = 0" "pg < PHYSTOP" "pg \<notin> tables (Suc l) ?m pt"
    using page_ok_facts [OF pgk(1)] pgT(1) unfolding tabs(1) by blast+
  note ad = add_table [OF tabs(2) i(1) ei ok z ps1 mt]
  show T: "tables (Suc l) (mem t) pt = insert pg ?T" using ad(2) unfolding tabs(1) .
  show "leafval (Suc l) (mem t) pt va = leafval (Suc l) (mem s) pt va"
    using ad(3) at by simp
  show "entry (mem t) pt i = PA2PTE pg OR PTE_V" using ad(4) .
  show "mem_only s t" by (simp add: t)
  show pk: "page_ok t = page_ok s" by (simp add: t)
  have "agree ?m (mem t) (set ps)" unfolding mt
    using pgT(2) i(1) by (intro agree_st64 page_set_subset [OF ps]) auto
  then have "agree (mem s) (mem t) (set ps)" using agree_trans [OF agree_subset [OF a1]] by auto
  moreover have "page_set (insert pg (set ps))" by (rule page_set_subset [OF ps]) blast
  then have "agree (mem s) (memset pg 5 4096 (mem s)) (set ps)" using pgk(2) by (rule agree_memset)
  ultimately have "agree (memset pg 5 4096 (mem s)) (mem t) (set ps)" by (simp add: agree_def)
  then have "kmem_inv t ps"
    using kmem_inv_agree [OF kmem_inv_alloc [OF ki(1), of 5], of "mem t"]
    by (simp add: t kmem_lock_upd)
  moreover have "kmem_ready t" using ki(2) by (simp add: t)
  moreover have "insert pg ?T \<inter> set ps = {}" using pgT pgk by auto
  moreover have "\<forall>p \<in> insert pg ?T. page_ok t p" using inv pgk(1) pk by (auto simp: pt_inv_def)
  ultimately show "pt_inv (Suc l) pt ps t"
    unfolding pt_inv_def T using ad(1) by blast
  show "mem t x = mem s x" if "\<forall>p \<in> insert pg ?T. \<not> in_range p 4096 x"
  proof -
    have "\<not> in_range (pt + 8 * of_nat i) 8 x" using that entry_in_page [OF _ i(1)] root_in_tables by blast
    then show ?thesis using that by (simp add: mt st64_apply memset_apply)
  qed
qed

lemma walk_level_alloc:
  "pt_inv l pt ps s \<Longrightarrow>
   \<exists>a t us ps'. walk_level l pt va True s = Ok a t \<and> walk_post l pt va ps s a t us ps'"
proof (induction l arbitrary: pt ps s)
  case 0
  have "pt + 8 * of_nat (px 0 va) \<noteq> 0"
    using 0 by (intro entry_addr_nonzero [of s]) (auto simp: pt_inv_def kmem_ready_def)
  then have "walk_post 0 pt va ps s (pt + 8 * PX 0 va) s [] ps"
    using 0 by (simp add: walk_post_def PX_of_px)
  then show ?case by auto
next
  case (Suc l)
  let ?i = "px (Suc l) va"
  let ?e = "entry (mem s) pt ?i"
  have pte: "pt + 8 * PX (Suc l) va = pt + 8 * of_nat ?i" by (simp add: PX_of_px)
  show ?case
  proof (cases "valid ?e")
    case True
    obtain a t us ps' where w: "walk_level l (PTE2PA ?e) va True s = Ok a t"
      "walk_post l (PTE2PA ?e) va ps s a t us ps'"
      using Suc.IH [OF pt_inv_child [OF Suc.prems px_less True]] by blast
    moreover have "walk_level (Suc l) pt va True s = walk_level l (PTE2PA ?e) va True s"
      using True by (simp add: pte entry_def valid_def Let_def)
    ultimately show ?thesis using walk_valid_entry [OF Suc.prems True refl w(2)] by metis
  next
    case False
    have rdy: "unlocked kmem_lock s" "quiet s" "kmem_inv s ps"
      using Suc.prems by (auto simp: pt_inv_def kmem_ready_def)
    show ?thesis
    proof (cases ps)
      case Nil
      then have "freelist s = 0" using rdy(3) by (simp add: kmem_inv_def)
      then have "walk_level (Suc l) pt va True s = Ok 0 (touch s)"
        using False rdy by (simp add: pte entry_def valid_def Let_def kalloc_eq)
      moreover have "walk_post (Suc l) pt va ps s 0 (touch s) [] ps"
        using Suc.prems Nil by (simp add: walk_post_def pt_inv_def)
      ultimately show ?thesis by blast
    next
      case (Cons pg qs)
      let ?t = "(touch (s\<lparr>freelist := ld64 (mem s) pg, mem := memset pg 5 4096 (mem s)\<rparr>))
              \<lparr>mem := st64 (pt + 8 * of_nat ?i) (PA2PTE pg OR PTE_V) (memset pg 0 4096 (memset pg 5 4096 (mem s)))\<rparr>"
      have fl: "freelist s = pg" "pg \<noteq> 0" "page_ok s pg" using rdy(3) Cons by (auto simp: kmem_inv_def)
      note lt = link_table [OF Suc.prems [unfolded Cons] px_less False refl]
      note ne = new_entry [OF page_ok_facts [OF fl(3), THEN conjunct1] page_ok_facts [OF fl(3), THEN conjunct2]]
      have v: "valid (entry (mem ?t) pt ?i)" "PTE2PA (entry (mem ?t) pt ?i) = pg"
        unfolding lt(4) by (rule ne)+
      have run: "walk_level (Suc l) pt va True s = walk_level l pg va True ?t"
        using False rdy fl by (simp add: pte entry_def valid_def Let_def kalloc_eq)
      obtain a u us qs' where w: "walk_level l pg va True ?t = Ok a u" "walk_post l pg va qs ?t a u us qs'"
        using Suc.IH [OF pt_inv_child [OF lt(1) px_less v(1)]] unfolding v(2) by blast
      have wp: "walk_post (Suc l) pt va qs ?t a u us qs'"
        by (rule walk_valid_entry [OF lt(1) v(1) v(2) [symmetric] w(2)])
      have "walk_post (Suc l) pt va ps s a u (pg # us) qs'"
        unfolding walk_post_def Cons
      proof (intro conjI allI impI)
        show "mem u x = mem s x"
          if "\<forall>p \<in> tables (Suc l) (mem s) pt \<union> set (pg # us). \<not> in_range p 4096 x" for x
        proof -
          have "\<forall>p \<in> tables (Suc l) (mem ?t) pt \<union> set us. \<not> in_range p 4096 x"
            unfolding lt(2) using that by auto
          then have "mem u x = mem ?t x" using wp unfolding walk_post_def by blast
          moreover have "mem ?t x = mem s x" by (rule lt(7)) (use that in auto)
          ultimately show ?thesis by simp
        qed
        show "tables (Suc l) (mem u) pt = tables (Suc l) (mem s) pt \<union> set (pg # us)"
          using wp unfolding walk_post_def lt(2) by auto
        show "leafval (Suc l) (mem u) pt va' = leafval (Suc l) (mem s) pt va'" for va'
          using wp lt(3) [of va'] unfolding walk_post_def by metis
        show "mem_only s u" using wp mem_only_trans [OF lt(5)] unfolding walk_post_def by blast
        show "page_ok u = page_ok s" using wp lt(6) unfolding walk_post_def by metis
        show "pg # qs = (pg # us) @ qs'" using wp unfolding walk_post_def by simp
        show "pt_inv (Suc l) pt qs' u" using wp unfolding walk_post_def by blast
        show "if a = 0 then qs' = [] \<and> length (pg # us) < Suc l
          else lookup (Suc l) (mem u) pt va = Some a \<and> length (pg # us) \<le> Suc l"
        proof -
          have "if a = 0 then qs' = [] else lookup (Suc l) (mem u) pt va = Some a"
            using wp unfolding walk_post_def by presburger
          moreover have "if a = 0 then length us < l else length us \<le> l"
            using w(2) unfolding walk_post_def by presburger
          ultimately show ?thesis by (cases "a = 0") (simp_all del: lookup.simps)
        qed
      qed
      then show ?thesis unfolding run using w(1) by blast
    qed
  qed
qed

section \<open>Writing a leaf entry\<close>

definition same_px :: "nat \<Rightarrow> uint64 \<Rightarrow> uint64 \<Rightarrow> bool" where
  "same_px l va va' \<longleftrightarrow> (\<forall>k \<le> l. px k va = px k va')"

lemma same_px_simps [simp]:
  "same_px 0 va va' \<longleftrightarrow> px 0 va = px 0 va'"
  "same_px (Suc l) va va' \<longleftrightarrow> px (Suc l) va = px (Suc l) va' \<and> same_px l va va'"
  by (auto simp: same_px_def le_Suc_eq)

lemma set_leaf:
  assumes "tree l m pt" "page_set (tables l m pt)" "lookup l m pt va = Some a"
  shows "tree l (st64 a v m) pt \<and> tables l (st64 a v m) pt = tables l m pt \<and>
    leafval l (st64 a v m) pt va' = (if same_px l va va' then v else leafval l m pt va') \<and>
    lookup l (st64 a v m) pt va = Some a \<and>
    (\<forall>x. (\<forall>p \<in> tables l m pt. \<not> in_range p 4096 x) \<longrightarrow> st64 a v m x = m x)"
  using assms
proof (induction l arbitrary: pt va')
  case 0
  then have a: "a = pt + 8 * of_nat (px 0 va)" by (simp add: PX_of_px)
  have "entry (st64 a v m) pt (px 0 va') = (if px 0 va' = px 0 va then v else entry m pt (px 0 va'))"
    unfolding a by (rule entry_st64) simp_all
  moreover have "st64 a v m x = m x" if "\<not> in_range pt 4096 x" for x
    using entry_in_page [of pt "px 0 va" x] that by (auto simp: a st64_apply)
  ultimately show ?case by (simp add: leafval_0 PX_of_px a eq_commute [of "px 0 va'"])
next
  case (Suc l)
  let ?i = "px (Suc l) va"
  let ?c = "PTE2PA (entry m pt ?i)"
  let ?m = "st64 a v m"
  have v: "valid (entry m pt ?i)" "lookup l m ?c va = Some a" using Suc.prems(3) by (auto split: if_splits)
  have cs: "tree l m ?c" "tables l m ?c \<subseteq> tables (Suc l) m pt" using Suc.prems(1) v(1) px_less by auto
  have ih: "tree l ?m ?c" "tables l ?m ?c = tables l m ?c \<union> {}"
      "leafval l ?m ?c va' = (if same_px l va va' then v else leafval l m ?c va')"
      "lookup l ?m ?c va = Some a"
      "\<And>x. \<forall>p \<in> tables l m ?c \<union> {}. \<not> in_range p 4096 x \<Longrightarrow> ?m x = m x" for va'
    using Suc.IH [OF cs(1) page_set_subset [OF Suc.prems(2) cs(2)] v(2)] by auto
  have U: "{} \<inter> tables (Suc l) m pt = {}" "page_set (tables (Suc l) m pt \<union> {})" using Suc.prems(2) by simp_all
  note ch = change_subtree [OF Suc.prems(1) px_less v(1) refl ih(1,2) U(1) ih(5) U(2)]
  have "leafval (Suc l) ?m pt va' = (if same_px (Suc l) va va' then v else leafval (Suc l) m pt va')"
    using ch(3) [of va'] ih(3) [of va'] v(1) by (auto simp: leafval_Suc)
  moreover have "lookup (Suc l) ?m pt va = Some a" using ch(4) ih(4) v(1) by simp
  moreover have "?m x = m x" if "\<forall>p \<in> tables (Suc l) m pt. \<not> in_range p 4096 x" for x
    using ih(5) [of x] that cs(2) by blast
  ultimately show ?case using ch(1,2) by blast
qed

text \<open>Two addresses below \<open>MAXVA\<close> have the same indices exactly when they are on the same page.\<close>

lemma px_nat: "px l va = unat va div 2 ^ (12 + 9 * l) mod 512"
proof -
  have "PX l va = take_bit 9 (drop_bit (PXSHIFT l) va)"
    by (simp add: PX_def take_bit_eq_mask mask_eq_exp_minus_1)
  moreover have "unat va < 2 ^ 64" using unsigned_less [of va] by simp
  then have "take_bit 64 (unat va) = unat va" by (rule take_bit_nat_eq_self)
  ultimately have "unat (PX l va) = take_bit 9 (drop_bit (PXSHIFT l) (unat va))"
    by (simp add: unsigned_take_bit_eq unsigned_drop_bit_eq)
  then show ?thesis by (simp add: px_def take_bit_eq_mod PXSHIFT_def drop_bit_eq_div)
qed

lemma px_page: "px l va = unat va div 4096 div 2 ^ (9 * l) mod 512"
  by (simp add: px_nat power_add div_mult2_eq)

lemma same_px_page:
  assumes "va < MAXVA" "va' < MAXVA"
  shows "same_px 2 va va' \<longleftrightarrow> unat va div 4096 = unat va' div 4096"
proof
  have d: "px 0 w = unat w div 4096 mod 512" "px 1 w = unat w div 4096 div 512 mod 512"
    "px 2 w = unat w div 4096 div 512 div 512 mod 512" for w
    by (simp_all add: px_nat div_mult2_eq [symmetric])
  {
    assume "same_px 2 va va'"
    then have e: "px 0 va = px 0 va'" "px 1 va = px 1 va'" "px 2 va = px 2 va'"
      by (simp_all add: numeral_2_eq_2)
    have b: "unat w div 4096 div 512 div 512 < 512" if "w < MAXVA" for w
      using that by (simp add: word_less_nat_alt div_mult2_eq [symmetric] div_less_iff_less_mult)
    have "unat va div 4096 div 512 div 512 = unat va' div 4096 div 512 div 512"
      using e(3) b [OF assms(1)] b [OF assms(2)] by (simp add: d)
    then have "unat va div 4096 div 512 = unat va' div 4096 div 512"
      using e(2) unfolding d by (metis div_mult_mod_eq)
    then show "unat va div 4096 = unat va' div 4096"
      using e(1) unfolding d by (metis div_mult_mod_eq)
  }
  assume "unat va div 4096 = unat va' div 4096"
  then show "same_px 2 va va'" by (simp add: same_px_def px_page)
qed

section \<open>mappages\<close>

lemma walk_alloc:
  assumes "pt_inv 2 pt ps s" "va < MAXVA"
  shows "\<exists>a t us ps'. walk pt va True s = Ok a t \<and> walk_post 2 pt va ps s a t us ps'"
  using walk_level_alloc [OF assms(1), of va] assms(2) by (simp add: walk_def not_le [symmetric])

lemma leafval_lookup: "lookup l m pt va = Some a \<Longrightarrow> ld64 m a = leafval l m pt va"
  by (simp add: leafval_def)

definition vpage :: "uint64 \<Rightarrow> nat" where
  "vpage va = unat va div 4096"

lemma pt_inv_set_leaf:
  assumes "pt_inv 2 pt ps s" "lookup 2 (mem s) pt va = Some a" "va < MAXVA"
  shows "pt_inv 2 pt ps (s\<lparr>mem := st64 a v (mem s)\<rparr>)"
    "tables 2 (st64 a v (mem s)) pt = tables 2 (mem s) pt"
    "va' < MAXVA \<Longrightarrow> leafval 2 (st64 a v (mem s)) pt va' = (if vpage va' = vpage va then v else leafval 2 (mem s) pt va')"
    "\<forall>p \<in> tables 2 (mem s) pt. \<not> in_range p 4096 x \<Longrightarrow> st64 a v (mem s) x = mem s x"
proof -
  let ?m = "st64 a v (mem s)"
  have ps: "page_set (tables 2 (mem s) pt \<union> set ps)" by (rule pt_inv_page_set [OF assms(1)])
  have tr: "tree 2 (mem s) pt" using assms(1) by (simp add: pt_inv_def)
  note sl = set_leaf [OF tr page_set_subset [OF ps Un_upper1] assms(2), of v]
  show "tables 2 ?m pt = tables 2 (mem s) pt" using sl by blast
  show fr: "?m x = mem s x" if "\<forall>p \<in> tables 2 (mem s) pt. \<not> in_range p 4096 x" for x
    using sl that by blast
  show "leafval 2 ?m pt va' = (if vpage va' = vpage va then v else leafval 2 (mem s) pt va')" if "va' < MAXVA"
  proof -
    have "same_px 2 va va' \<longleftrightarrow> vpage va' = vpage va"
      using same_px_page [OF assms(3) that] by (auto simp: vpage_def)
    then show ?thesis using sl [of va'] by simp
  qed
  have "agree (mem s) ?m (set ps)"
    unfolding agree_def
  proof (intro ballI allI impI)
    fix p x assume p: "p \<in> set ps" "in_range p 4096 x"
    have "\<not> in_range q 4096 x" if "q \<in> tables 2 (mem s) pt" for q
      using page_set_disjoint [OF ps, of p q x] p that assms(1) by (auto simp: pt_inv_def)
    then show "?m x = mem s x" using fr by blast
  qed
  then have "kmem_inv (s\<lparr>mem := ?m\<rparr>) ps" using assms(1) kmem_inv_agree by (auto simp: pt_inv_def)
  then show "pt_inv 2 pt ps (s\<lparr>mem := ?m\<rparr>)"
    using assms(1) sl unfolding pt_inv_def by simp
qed

text \<open>
  The result of \<open>mappages\<close>: \<open>j\<close> pages from \<open>a\<close> on are mapped to consecutive physical pages, the
  mapping of every other page is as before.
\<close>

definition map_post ::
  "uint64 \<Rightarrow> uint64 \<Rightarrow> nat \<Rightarrow> uint64 \<Rightarrow> uint64 \<Rightarrow> uint64 list \<Rightarrow> 'a kmem_scheme \<Rightarrow> 'a kmem_scheme \<Rightarrow> uint64 list \<Rightarrow> uint64 list \<Rightarrow> bool" where
  "map_post pt a j pa perm ps s t us ps' \<longleftrightarrow>
     ps = us @ ps' \<and> pt_inv 2 pt ps' t \<and> mem_only s t \<and> page_ok t = page_ok s \<and>
     tables 2 (mem t) pt = tables 2 (mem s) pt \<union> set us \<and>
     (\<forall>va < MAXVA. leafval 2 (mem t) pt va =
        (if vpage a \<le> vpage va \<and> vpage va < vpage a + j
         then PA2PTE (pa + of_nat (vpage va - vpage a) * PGSIZE) OR perm OR PTE_V
         else leafval 2 (mem s) pt va)) \<and>
     (\<forall>x. (\<forall>p \<in> tables 2 (mem s) pt \<union> set us. \<not> in_range p 4096 x) \<longrightarrow> mem t x = mem s x)"

lemma map_post_one:
  assumes inv: "pt_inv 2 pt ps s" and a: "a < MAXVA"
    and inval: "\<not> valid (leafval 2 (mem s) pt a)"
    and w: "walk pt a True s = Ok e u" "walk_post 2 pt a ps s e u us ps'" "e \<noteq> 0"
  shows "map_post pt a 1 pa perm ps s (u\<lparr>mem := st64 e (PA2PTE pa OR perm OR PTE_V) (mem u)\<rparr>) us ps'"
    "\<not> valid (ld64 (mem u) e)"
proof -
  let ?v = "PA2PTE pa OR perm OR PTE_V"
  have p: "ps = us @ ps'" "pt_inv 2 pt ps' u" "mem_only s u" "page_ok u = page_ok s"
    "tables 2 (mem u) pt = tables 2 (mem s) pt \<union> set us" "\<And>va. leafval 2 (mem u) pt va = leafval 2 (mem s) pt va"
    "lookup 2 (mem u) pt a = Some e"
    "\<And>x. \<forall>p \<in> tables 2 (mem s) pt \<union> set us. \<not> in_range p 4096 x \<Longrightarrow> mem u x = mem s x"
    using w(2,3) unfolding walk_post_def by auto
  note sl = pt_inv_set_leaf [OF p(2,7) a, where v = ?v]
  show "\<not> valid (ld64 (mem u) e)" using inval p(6,7) by (simp add: leafval_lookup)
  have lv: "leafval 2 (st64 e ?v (mem u)) pt va =
       (if vpage a \<le> vpage va \<and> vpage va < vpage a + 1
         then PA2PTE (pa + of_nat (vpage va - vpage a) * PGSIZE) OR perm OR PTE_V
         else leafval 2 (mem s) pt va)" if "va < MAXVA" for va
    using sl(3) [OF that] p(6) by (cases "vpage va" "vpage a" rule: linorder_cases) auto
  have fr: "st64 e ?v (mem u) x = mem s x"
    if "\<forall>p \<in> tables 2 (mem s) pt \<union> set us. \<not> in_range p 4096 x" for x
    using sl(4) [of x] p(8) [OF that] that p(5) by auto
  show "map_post pt a 1 pa perm ps s (u\<lparr>mem := st64 e ?v (mem u)\<rparr>) us ps'"
    unfolding map_post_def using p(1,3,4,5) sl(1,2) lv fr by simp
qed

lemma map_post_trans:
  assumes "map_post pt a i pa perm ps s t us ps'"
    "map_post pt b j (pa + of_nat i * PGSIZE) perm ps' t u vs ps''" "vpage b = vpage a + i"
  shows "map_post pt a (i + j) pa perm ps s u (us @ vs) ps''"
proof -
  note d = assms(1,2) [unfolded map_post_def]
  have "leafval 2 (mem u) pt va =
       (if vpage a \<le> vpage va \<and> vpage va < vpage a + (i + j)
         then PA2PTE (pa + of_nat (vpage va - vpage a) * PGSIZE) OR perm OR PTE_V
         else leafval 2 (mem s) pt va)" if va: "va < MAXVA" for va
  proof (cases "vpage b \<le> vpage va \<and> vpage va < vpage b + j")
    case True
    then have "vpage va - vpage a = i + (vpage va - vpage b)" using assms(3) by simp
    then have "of_nat i * PGSIZE + of_nat (vpage va - vpage b) * PGSIZE = of_nat (vpage va - vpage a) * PGSIZE"
      by (simp add: algebra_simps)
    then have "PA2PTE (pa + of_nat i * PGSIZE + of_nat (vpage va - vpage b) * PGSIZE) OR perm OR PTE_V =
        PA2PTE (pa + of_nat (vpage va - vpage a) * PGSIZE) OR perm OR PTE_V"
      by (simp add: add.assoc)
    then show ?thesis using d(2) va True assms(3) by auto
  next
    case False
    then have "leafval 2 (mem u) pt va = leafval 2 (mem t) pt va" using d(2) va by auto
    then show ?thesis using d(1) va False assms(3) by auto
  qed
  moreover have "mem u x = mem s x" if "\<forall>p \<in> tables 2 (mem s) pt \<union> set (us @ vs). \<not> in_range p 4096 x" for x
  proof -
    have "\<forall>p \<in> tables 2 (mem t) pt \<union> set vs. \<not> in_range p 4096 x" using d(1) that by auto
    then have "mem u x = mem t x" using d(2) by blast
    moreover have "mem t x = mem s x" using d(1) that by auto
    ultimately show ?thesis by simp
  qed
  ultimately show ?thesis unfolding map_post_def using d mem_only_trans by auto
qed

lemma vpage_add:
  assumes "unat a mod 4096 = 0" "unat a + k * 4096 < 274877906944"
  shows "unat (a + of_nat k * PGSIZE) = unat a + k * 4096" "vpage (a + of_nat k * PGSIZE) = vpage a + k"
    "a + of_nat k * PGSIZE < MAXVA"
proof -
  have "unat (a + of_nat (k * 4096)) = unat a + k * 4096" using assms(2) by (intro unat_add_lt) simp
  then show u: "unat (a + of_nat k * PGSIZE) = unat a + k * 4096" by (simp add: PGSIZE_def)
  show "vpage (a + of_nat k * PGSIZE) = vpage a + k" by (simp add: vpage_def u)
  show "a + of_nat k * PGSIZE < MAXVA" using assms(2) by (simp add: word_less_nat_alt u)
qed

lemma map_post_refl: "pt_inv 2 pt ps s \<Longrightarrow> map_post pt a 0 pa perm ps s s [] ps"
  by (auto simp: map_post_def)

lemma mappages_loop_spec:
  assumes "pt_inv 2 pt ps s" "unat a mod 4096 = 0" "unat a + n * 4096 < 274877906944"
    "\<forall>va < MAXVA. vpage a \<le> vpage va \<and> vpage va \<le> vpage a + n \<longrightarrow> \<not> valid (leafval 2 (mem s) pt va)"
  shows "\<exists>r t us ps' j. mappages_loop pt a (a + of_nat n * PGSIZE) pa perm s = Ok r t \<and>
    map_post pt a j pa perm ps s t us ps' \<and>
    (r = 0 \<and> j = Suc n \<and> length us \<le> 2 * j \<or> r = -1 \<and> j \<le> n \<and> ps' = [] \<and> length us \<le> Suc (2 * j))"
  using assms
proof (induction n arbitrary: a pa s ps)
  case (0 a)
  then have a: "a < MAXVA" by (simp add: word_less_nat_alt)
  obtain e u us ps' where w: "walk pt a True s = Ok e u" "walk_post 2 pt a ps s e u us ps'"
    using walk_alloc [OF 0(1) a] by blast
  show ?case
  proof (cases "e = 0")
    case True
    then have "map_post pt a 0 pa perm ps s u us ps'" "ps' = []" "length us \<le> 1"
      using w(2) by (auto simp: walk_post_def map_post_def)
    moreover have "mappages_loop pt a b pa perm s = Ok (-1) u" for b
      using True w(1) by (subst mappages_loop.simps) auto
    ultimately show ?thesis
      by (intro exI [of _ "-1"] exI [of _ u] exI [of _ us] exI [of _ ps'] exI [of _ 0]) auto
  next
    case False
    have "\<not> valid (leafval 2 (mem s) pt a)" using 0(4) a by simp
    note one = map_post_one [OF 0(1) a this w False]
    have "mappages_loop pt a a pa perm s = Ok 0 (u\<lparr>mem := st64 e (PA2PTE pa OR perm OR PTE_V) (mem u)\<rparr>)"
      using w(1) False one(2) by (subst mappages_loop.simps) (simp add: valid_def Let_def)
    moreover have "length us \<le> 2" using w(2) False by (simp add: walk_post_def)
    ultimately show ?thesis using one(1) [of pa perm] by fastforce
  qed
next
  case (Suc n a)
  then have a: "a < MAXVA" by (simp add: word_less_nat_alt)
  note va = vpage_add [OF Suc.prems(2), of 1] 
  have b: "unat (a + PGSIZE) = unat a + 4096" "vpage (a + PGSIZE) = vpage a + 1"
    using va Suc.prems(3) by simp_all
  have lst: "a + of_nat (Suc n) * PGSIZE = (a + PGSIZE) + of_nat n * PGSIZE" by (simp add: algebra_simps)
  have ne: "a \<noteq> a + of_nat (Suc n) * PGSIZE"
    using vpage_add(1) [OF Suc.prems(2), of "Suc n"] Suc.prems(3) by auto
  obtain e u us ps' where w: "walk pt a True s = Ok e u" "walk_post 2 pt a ps s e u us ps'"
    using walk_alloc [OF Suc.prems(1) a] by blast
  show ?case
  proof (cases "e = 0")
    case True
    then have "map_post pt a 0 pa perm ps s u us ps'" "ps' = []" "length us \<le> 1"
      using w(2) by (auto simp: walk_post_def map_post_def)
    moreover have "mappages_loop pt a b pa perm s = Ok (-1) u" for b
      using True w(1) by (subst mappages_loop.simps) auto
    ultimately show ?thesis
      by (intro exI [of _ "-1"] exI [of _ u] exI [of _ us] exI [of _ ps'] exI [of _ 0]) auto
  next
    case False
    have "\<not> valid (leafval 2 (mem s) pt a)" using Suc.prems(4) a by simp
    note one = map_post_one [OF Suc.prems(1) a this w False]
    let ?u = "u\<lparr>mem := st64 e (PA2PTE pa OR perm OR PTE_V) (mem u)\<rparr>"
    have run: "mappages_loop pt a (a + of_nat (Suc n) * PGSIZE) pa perm s =
        mappages_loop pt (a + PGSIZE) ((a + PGSIZE) + of_nat n * PGSIZE) (pa + PGSIZE) perm ?u"
      using w(1) False one(2) ne
      by (subst mappages_loop.simps) (simp add: valid_def Let_def lst del: of_nat_Suc)
    have mp: "map_post pt a 1 pa perm ps s ?u us ps'" using one(1) .
    then have inv: "pt_inv 2 pt ps' ?u" by (simp add: map_post_def)
    have "\<forall>va < MAXVA. vpage (a + PGSIZE) \<le> vpage va \<and> vpage va \<le> vpage (a + PGSIZE) + n \<longrightarrow>
        \<not> valid (leafval 2 (mem ?u) pt va)"
      using mp Suc.prems(4) unfolding map_post_def b(2) by auto
    from Suc.IH [OF inv _ _ this, of "pa + PGSIZE"] b(1) Suc.prems(2,3) obtain r t vs ps'' j where
      ih: "mappages_loop pt (a + PGSIZE) ((a + PGSIZE) + of_nat n * PGSIZE) (pa + PGSIZE) perm ?u = Ok r t"
        "map_post pt (a + PGSIZE) j (pa + PGSIZE) perm ps' ?u t vs ps''"
        "r = 0 \<and> j = Suc n \<and> length vs \<le> 2 * j \<or> r = -1 \<and> j \<le> n \<and> ps'' = [] \<and> length vs \<le> Suc (2 * j)"
      by auto
    have "map_post pt a (1 + j) pa perm ps s t (us @ vs) ps''"
      using map_post_trans [OF mp _ b(2)] ih(2) by simp
    moreover have "length us \<le> 2" using w(2) False by (simp add: walk_post_def)
    ultimately show ?thesis unfolding run using ih(1,3)
      by (intro exI [of _ r] exI [of _ t] exI [of _ "us @ vs"] exI [of _ ps''] exI [of _ "1 + j"]) auto
  qed
qed

section \<open>uvmunmap\<close>

lemma walk_lookup:
  "va < MAXVA \<Longrightarrow> walk pt va False s = Ok (case lookup 2 (mem s) pt va of None \<Rightarrow> 0 | Some a \<Rightarrow> a) s"
  by (simp add: walk_def walk_level_lookup not_le [symmetric])

lemma lookup_in_tables: "lookup l m pt va = Some a \<Longrightarrow> \<exists>p \<in> tables l m pt. \<exists>i < 512. a = p + 8 * of_nat i"
proof (induction l arbitrary: pt)
  case 0
  then show ?case by (intro bexI [of _ pt] exI [of _ "px 0 va"]) (auto simp: PX_of_px)
next
  case (Suc l)
  then obtain p i where "p \<in> tables l m (PTE2PA (entry m pt (px (Suc l) va)))" "i < 512" "a = p + 8 * of_nat i"
    "valid (entry m pt (px (Suc l) va))"
    by (fastforce split: if_splits)
  moreover from this have "p \<in> tables (Suc l) m pt" using child_tables [OF px_less, of m pt "Suc l" va l] by blast
  ultimately show ?case by blast
qed

lemma lookup_nonzero:
  "pt_inv l pt ps s \<Longrightarrow> lookup l (mem s) pt va = Some a \<Longrightarrow> a \<noteq> 0"
  using lookup_in_tables [of l "mem s" pt va a] entry_addr_nonzero [of s]
  by (auto simp: pt_inv_def kmem_ready_def)

lemma leafval_valid_lookup: "valid (leafval l m pt va) \<Longrightarrow> \<exists>a. lookup l m pt va = Some a"
  by (auto simp: leafval_def split: option.splits)

lemma pt_inv_kfree:
  assumes inv: "pt_inv 2 pt ps s" and q: "page_ok s q" "q \<notin> tables 2 (mem s) pt" "q \<notin> set ps"
  shows "\<exists>t. kfree q s = Ok () t \<and> pt_inv 2 pt (q # ps) t \<and> mem_only s t \<and> page_ok t = page_ok s \<and>
    tables 2 (mem t) pt = tables 2 (mem s) pt \<and> (\<forall>va. lookup 2 (mem t) pt va = lookup 2 (mem s) pt va \<and>
      leafval 2 (mem t) pt va = leafval 2 (mem s) pt va) \<and> (\<forall>x. \<not> in_range q 4096 x \<longrightarrow> mem t x = mem s x)"
proof -
  let ?m = "st64 q (freelist s) (memset q 1 4096 (mem s))"
  let ?t = "s\<lparr>mem := ?m, freelist := q\<rparr>"
  have r: "unlocked kmem_lock s" "quiet s" "0 < kend s" "kmem_inv s ps" using inv by (auto simp: pt_inv_def kmem_ready_def)
  have run: "kfree q s = Ok () (touch ?t)" using kfree_eq [OF r(1,2) q(1)] .
  have fr: "?m x = mem s x" if "\<not> in_range q 4096 x" for x
    using that in_range_mono [of q 8 x 4096] by (auto simp: memset_apply st64_apply)
  have ag: "agree (mem s) ?m (tables 2 (mem s) pt)"
    unfolding agree_def
  proof (intro ballI allI impI)
    fix p x assume p: "p \<in> tables 2 (mem s) pt" "in_range p 4096 x"
    then have "page_ok s p" "p \<noteq> q" using inv q(2) by (auto simp: pt_inv_def)
    then show "?m x = mem s x" using fr page_ok_disjoint [OF _ q(1), of p x] p(2) by blast
  qed
  note at = agree_tables [OF ag]
  have "kmem_inv ?t (q # ps)" using kmem_inv_free [OF r(4) q(1,3) r(3)] .
  then have "pt_inv 2 pt (q # ps) (touch ?t)"
    using at inv q(2) by (simp add: pt_inv_def)
  moreover have "mem_only s (touch ?t)" "page_ok (touch ?t) = page_ok s" by simp_all
  ultimately show ?thesis using run at fr by (intro exI [of _ "touch ?t"]) simp
qed

text \<open>
  \<open>leafpg m pt v\<close>: the leaf entry of virtual page number \<open>v\<close>. \<open>unmap_post\<close>: the \<open>n\<close> pages from \<open>v\<close> on
  are unmapped and the pages \<open>qs\<close> went to the free list.
\<close>

definition leafpg :: "mem \<Rightarrow> uint64 \<Rightarrow> nat \<Rightarrow> uint64" where
  "leafpg m pt v = leafval 2 m pt (of_nat (v * 4096))"

lemma vpage_of_nat: "v < 67108864 \<Longrightarrow> of_nat (v * 4096) < MAXVA \<and> vpage (of_nat (v * 4096)) = v"
proof -
  assume "v < 67108864"
  then have "unat (of_nat (v * 4096) :: uint64) = v * 4096" by (subst unat_of_nat) simp
  then show ?thesis using \<open>v < 67108864\<close> by (simp only: vpage_def word_less_nat_alt) simp
qed

lemma vpage_less: "va < MAXVA \<Longrightarrow> vpage va < 67108864"
  by (simp add: word_less_nat_alt vpage_def div_less_iff_less_mult)

lemma lookup_same_px: "same_px l va va' \<Longrightarrow> lookup l m pt va = lookup l m pt va'"
  by (induction l arbitrary: pt) (auto simp: PX_of_px)

lemma leafval_leafpg: "va < MAXVA \<Longrightarrow> leafval 2 m pt va = leafpg m pt (vpage va)"
proof -
  assume va: "va < MAXVA"
  note v = vpage_of_nat [OF vpage_less [OF va]]
  have "same_px 2 va (of_nat (vpage va * 4096))"
    using same_px_page [OF va v [THEN conjunct1]] v by (simp add: vpage_def)
  then show ?thesis using lookup_same_px by (simp add: leafpg_def leafval_def)
qed

definition unmap_post ::
  "uint64 \<Rightarrow> nat \<Rightarrow> nat \<Rightarrow> uint64 list \<Rightarrow> 'a kmem_scheme \<Rightarrow> 'a kmem_scheme \<Rightarrow> uint64 list \<Rightarrow> bool" where
  "unmap_post pt v n ps s t qs \<longleftrightarrow>
     pt_inv 2 pt (qs @ ps) t \<and> mem_only s t \<and> page_ok t = page_ok s \<and>
     tables 2 (mem t) pt = tables 2 (mem s) pt \<and>
     (\<forall>w < 67108864. leafpg (mem t) pt w = (if v \<le> w \<and> w < v + n then 0 else leafpg (mem s) pt w)) \<and>
     (\<forall>x. (\<forall>p \<in> tables 2 (mem s) pt \<union> set qs. \<not> in_range p 4096 x) \<longrightarrow> mem t x = mem s x)"

lemma unmap_one:
  assumes inv: "pt_inv 2 pt ps s" and v: "v < 67108864" "valid (leafpg (mem s) pt v)"
    and q: "q = PTE2PA (leafpg (mem s) pt v)"
    and ok: "do_free \<Longrightarrow> page_ok s q \<and> q \<notin> tables 2 (mem s) pt \<and> q \<notin> set ps"
    and a: "a = of_nat (v * 4096)"
  shows "\<exists>e u t. walk pt a False s = Ok e s \<and> e \<noteq> 0 \<and> ld64 (mem s) e = leafpg (mem s) pt v \<and>
    (if do_free then kfree q s else Ok () s) = Ok () u \<and> t = u\<lparr>mem := st64 e 0 (mem u)\<rparr> \<and>
    unmap_post pt v 1 ps s t (if do_free then [q] else [])"
proof -
  have am: "a < MAXVA" "vpage a = v" using vpage_of_nat [OF v(1)] a by simp_all
  obtain e where e: "lookup 2 (mem s) pt a = Some e"
    using leafval_valid_lookup v(2) unfolding leafpg_def a by blast
  have w: "walk pt a False s = Ok e s" using walk_lookup [OF am(1), of pt s] e by simp
  have e0: "e \<noteq> 0" using lookup_nonzero [OF inv e] .
  have ld: "ld64 (mem s) e = leafpg (mem s) pt v" using e by (simp add: leafval_lookup leafpg_def a)
  let ?qs = "if do_free then [q] else []"
  have "\<exists>u. (if do_free then kfree q s else Ok () s) = Ok () u \<and> pt_inv 2 pt (?qs @ ps) u \<and> mem_only s u \<and>
      page_ok u = page_ok s \<and> tables 2 (mem u) pt = tables 2 (mem s) pt \<and>
      (\<forall>va. lookup 2 (mem u) pt va = lookup 2 (mem s) pt va \<and> leafval 2 (mem u) pt va = leafval 2 (mem s) pt va) \<and>
      (\<forall>x. (\<forall>p \<in> set ?qs. \<not> in_range p 4096 x) \<longrightarrow> mem u x = mem s x)"
  proof (cases do_free)
    case True
    then show ?thesis using pt_inv_kfree [OF inv, of q] ok by auto
  next
    case False
    then show ?thesis using inv by simp
  qed
  then obtain u where u: "(if do_free then kfree q s else Ok () s) = Ok () u" "pt_inv 2 pt (?qs @ ps) u" "mem_only s u"
      "page_ok u = page_ok s" "tables 2 (mem u) pt = tables 2 (mem s) pt" "lookup 2 (mem u) pt a = Some e"
      "\<And>va. leafval 2 (mem u) pt va = leafval 2 (mem s) pt va"
      "\<And>x. \<forall>p \<in> set ?qs. \<not> in_range p 4096 x \<Longrightarrow> mem u x = mem s x"
    using e by auto
  note sl = pt_inv_set_leaf [OF u(2,6) am(1), where v = 0]
  have "leafpg (st64 e 0 (mem u)) pt x = (if v \<le> x \<and> x < v + 1 then 0 else leafpg (mem s) pt x)"
    if "x < 67108864" for x
    using sl(3) [OF vpage_of_nat [OF that, THEN conjunct1]] vpage_of_nat [OF that] u(7) am(2)
    by (auto simp: leafpg_def)
  moreover have "st64 e 0 (mem u) x = mem s x"
    if "\<forall>p \<in> tables 2 (mem s) pt \<union> set ?qs. \<not> in_range p 4096 x" for x
    using sl(4) [of x] u(5) u(8) [of x] that by auto
  ultimately have "unmap_post pt v 1 ps s (u\<lparr>mem := st64 e 0 (mem u)\<rparr>) ?qs"
    unfolding unmap_post_def using sl(1,2) u(3,4,5) by simp
  then show ?thesis using w e0 ld u(1) by blast
qed

lemma unmap_post_trans:
  assumes "unmap_post pt v i ps s t qs" "unmap_post pt (v + i) j (qs @ ps) t u rs"
  shows "unmap_post pt v (i + j) ps s u (rs @ qs)"
proof -
  note d = assms [unfolded unmap_post_def]
  have "mem u x = mem s x" if "\<forall>p \<in> tables 2 (mem s) pt \<union> set (rs @ qs). \<not> in_range p 4096 x" for x
  proof -
    have "\<forall>p \<in> tables 2 (mem t) pt \<union> set rs. \<not> in_range p 4096 x" using d(1) that by auto
    then have "mem u x = mem t x" using d(2) by blast
    moreover have "mem t x = mem s x" using d(1) that by auto
    ultimately show ?thesis by simp
  qed
  moreover have "leafpg (mem u) pt w = (if v \<le> w \<and> w < v + (i + j) then 0 else leafpg (mem s) pt w)"
    if "w < 67108864" for w
    using d that by auto
  moreover have "tables 2 (mem u) pt = tables 2 (mem s) pt" "mem_only s u" "page_ok u = page_ok s"
    "pt_inv 2 pt ((rs @ qs) @ ps) u"
    using d mem_only_trans [of s t u] by auto
  ultimately show ?thesis unfolding unmap_post_def by blast
qed

definition unmap_pre ::
  "bool \<Rightarrow> uint64 \<Rightarrow> nat \<Rightarrow> nat \<Rightarrow> uint64 list \<Rightarrow> 'a kmem_scheme \<Rightarrow> bool" where
  "unmap_pre do_free pt v n ps s \<longleftrightarrow>
     (\<forall>w. v \<le> w \<and> w < v + n \<longrightarrow>
        valid (leafpg (mem s) pt w) \<and> PTE_FLAGS (leafpg (mem s) pt w) \<noteq> PTE_V) \<and>
     (do_free \<longrightarrow> inj_on (\<lambda>w. PTE2PA (leafpg (mem s) pt w)) {v..<v + n} \<and>
       (\<forall>w. v \<le> w \<and> w < v + n \<longrightarrow>
          page_ok s (PTE2PA (leafpg (mem s) pt w)) \<and> PTE2PA (leafpg (mem s) pt w) \<notin> tables 2 (mem s) pt \<and>
          PTE2PA (leafpg (mem s) pt w) \<notin> set ps))"

lemma uvmunmap_loop_step:
  assumes "a < lim" "walk pt a False s = Ok e s" "e \<noteq> 0" "valid (ld64 (mem s) e)" "PTE_FLAGS (ld64 (mem s) e) \<noteq> PTE_V"
    "(if do_free then kfree (PTE2PA (ld64 (mem s) e)) s else Ok () s) = Ok () u"
  shows "uvmunmap_loop pt a lim do_free s =
    uvmunmap_loop pt (a + PGSIZE) lim do_free (u\<lparr>mem := st64 e 0 (mem u)\<rparr>)"
  using assms by (subst uvmunmap_loop.simps) (simp add: valid_def split: if_splits)

lemma uvmunmap_loop_spec:
  assumes "pt_inv 2 pt ps s" "v + n \<le> 67108864" "unmap_pre do_free pt v n ps s"
  shows "\<exists>t. uvmunmap_loop pt (of_nat (v * 4096)) (of_nat ((v + n) * 4096)) do_free s = Ok () t \<and>
    unmap_post pt v n ps s t
      (if do_free then rev (map (\<lambda>w. PTE2PA (leafpg (mem s) pt w)) [v..<v + n]) else [])"
  using assms
proof (induction n arbitrary: v s ps)
  case 0
  then show ?case by (subst uvmunmap_loop.simps) (auto simp: unmap_post_def)
next
  case (Suc n)
  let ?a = "of_nat (v * 4096) :: uint64" and ?q = "PTE2PA (leafpg (mem s) pt v)"
  let ?qs = "if do_free then [?q] else []"
  let ?f = "\<lambda>w. PTE2PA (leafpg (mem s) pt w)"
  have v: "v < 67108864" "valid (leafpg (mem s) pt v)" "PTE_FLAGS (leafpg (mem s) pt v) \<noteq> PTE_V"
    using Suc.prems(2,3) by (auto simp: unmap_pre_def)
  have ok: "page_ok s ?q \<and> ?q \<notin> tables 2 (mem s) pt \<and> ?q \<notin> set ps" if do_free
    using that Suc.prems(3) unfolding unmap_pre_def by auto
  obtain e u t where one: "walk pt ?a False s = Ok e s" "e \<noteq> 0" "ld64 (mem s) e = leafpg (mem s) pt v"
    "(if do_free then kfree ?q s else Ok () s) = Ok () u" "t = u\<lparr>mem := st64 e 0 (mem u)\<rparr>"
    "unmap_post pt v 1 ps s t ?qs"
    using unmap_one [OF Suc.prems(1) v(1,2) refl ok refl] by blast
  have nx: "?a + PGSIZE = of_nat (Suc v * 4096)" by (simp add: PGSIZE_def algebra_simps)
  have lt: "?a < of_nat ((v + Suc n) * 4096)"
  proof -
    have "unat ?a = v * 4096" using v(1) by (subst unat_of_nat) simp
    moreover have "unat (of_nat ((v + Suc n) * 4096) :: uint64) = (v + Suc n) * 4096"
      using Suc.prems(2) by (subst unat_of_nat) simp
    ultimately show ?thesis by (simp only: word_less_nat_alt) simp
  qed
  have run: "uvmunmap_loop pt ?a (of_nat ((v + Suc n) * 4096)) do_free s =
      uvmunmap_loop pt (of_nat (Suc v * 4096)) (of_nat ((Suc v + n) * 4096)) do_free t"
    using uvmunmap_loop_step [OF lt one(1,2), of do_free u] one(3,4,5) v(2,3) unfolding nx by (simp cong: if_cong)
  have inv: "pt_inv 2 pt (?qs @ ps) t" and lf: "\<And>w. w < 67108864 \<Longrightarrow> w \<noteq> v \<Longrightarrow> leafpg (mem t) pt w = leafpg (mem s) pt w"
    and tb: "tables 2 (mem t) pt = tables 2 (mem s) pt" "page_ok t = page_ok s"
    using one(6) unfolding unmap_post_def by auto
  have lf': "leafpg (mem t) pt w = leafpg (mem s) pt w" if "Suc v \<le> w" "w < Suc v + n" for w
    using lf [of w] that Suc.prems(2) by simp
  have pre: "unmap_pre do_free pt (Suc v) n (?qs @ ps) t"
  proof -
    have inj: "inj_on ?f {v..<v + Suc n}" if do_free using Suc.prems(3) that unfolding unmap_pre_def by blast
    have ne: "?f w \<noteq> ?q" if do_free "Suc v \<le> w" "w < Suc v + n" for w
      using inj_onD [OF inj, of w v] that by auto
    have inj': "inj_on (\<lambda>w. PTE2PA (leafpg (mem t) pt w)) {Suc v..<Suc v + n}" if do_free
    proof (rule inj_onI)
      fix w x assume "w \<in> {Suc v..<Suc v + n}" "x \<in> {Suc v..<Suc v + n}"
        "PTE2PA (leafpg (mem t) pt w) = PTE2PA (leafpg (mem t) pt x)"
      then show "w = x" using lf' [of w] lf' [of x] by (intro inj_onD [OF inj [OF that]]) auto
    qed
    have old: "valid (leafpg (mem s) pt w) \<and> PTE_FLAGS (leafpg (mem s) pt w) \<noteq> PTE_V"
      "do_free \<Longrightarrow> page_ok s (?f w) \<and> ?f w \<notin> tables 2 (mem s) pt \<and> ?f w \<notin> set ps"
      if "Suc v \<le> w" "w < Suc v + n" for w
      using Suc.prems(3) that unfolding unmap_pre_def by auto
    show ?thesis
      unfolding unmap_pre_def using old ne inj' by (simp add: lf' tb)
  qed
  have "Suc v + n \<le> 67108864" using Suc.prems(2) by simp
  from Suc.IH [OF inv this pre] obtain z where
    z: "uvmunmap_loop pt (of_nat (Suc v * 4096)) (of_nat ((Suc v + n) * 4096)) do_free t = Ok () z"
      "unmap_post pt (Suc v) n (?qs @ ps) t z
        (if do_free then rev (map (\<lambda>w. PTE2PA (leafpg (mem t) pt w)) [Suc v..<Suc v + n]) else [])"
    by blast
  have mp: "map (\<lambda>w. PTE2PA (leafpg (mem t) pt w)) [Suc v..<Suc v + n] = map ?f [Suc v..<Suc v + n]"
    by (rule map_cong) (auto simp: lf' simp del: upt_Suc)
  have up: "[v..<v + Suc n] = v # [Suc v..<Suc v + n]" by (simp add: upt_conv_Cons)
  have "unmap_post pt v (1 + n) ps s z ((if do_free then rev (map ?f [Suc v..<Suc v + n]) else []) @ ?qs)"
    using unmap_post_trans [OF one(6)] z(2) unfolding mp by simp
  then have "unmap_post pt v (Suc n) ps s z (if do_free then rev (map ?f [v..<v + Suc n]) else [])"
    unfolding up by (simp split: if_splits)
  then show ?case unfolding run using z(1) by blast
qed

end
