(* ===== verification/Vm_User.thy ===== *)
theory Vm_User
  imports Vm_Map
begin

unbundle bit_operations_syntax

text \<open>
  User address spaces: \<open>uvmalloc\<close>, \<open>uvmdealloc\<close>, \<open>uvmcopy\<close>, \<open>uvmfree\<close> and the copying between user
  and kernel memory, on top of the page-table view of the theory \<open>Vm_Map\<close>.
\<close>

section \<open>Translation of user addresses\<close>

lemma walkaddr_eq:
  assumes "pt_inv 2 pt ps s"
  shows "walkaddr pt va s = Ok (let e = leafpg (mem s) pt (vpage va) in
    if va < MAXVA \<and> valid e \<and> e AND PTE_U \<noteq> 0 then PTE2PA e else 0) s"
proof (cases "va < MAXVA")
  case True
  let ?e = "leafpg (mem s) pt (vpage va)"
  have lv: "leafval 2 (mem s) pt va = ?e" by (rule leafval_leafpg [OF True])
  have nm: "\<not> MAXVA \<le> va" using True by (simp only: not_le)
  show ?thesis
  proof (cases "lookup 2 (mem s) pt va")
    case None
    then have "?e = 0" using lv by (simp add: leafval_def)
    then show ?thesis using True None walk_lookup [OF True, of pt s] by (simp add: walkaddr_def nm)
  next
    case (Some a)
    then have "ld64 (mem s) a = ?e" "a \<noteq> 0" using lv leafval_lookup lookup_nonzero [OF assms] by auto
    then show ?thesis using True Some walk_lookup [OF True, of pt s]
      by (simp add: walkaddr_def valid_def Let_def nm)
  qed
next
  case False
  then have "MAXVA \<le> va" by (simp only: not_less)
  then show ?thesis using False by (simp add: walkaddr_def Let_def)
qed

section \<open>The address space of a process\<close>

text \<open>
  \<open>uvm_inv pt n ps s\<close>: the page table \<open>pt\<close> maps exactly the user pages \<open>0 \<dots> n-1\<close> below the trapframe
  page, to distinct physical pages that are neither free nor part of the page table; \<open>ps\<close> is the
  free list.
\<close>

definition UPAGES :: nat where "UPAGES = 67108862"

definition upa :: "mem \<Rightarrow> uint64 \<Rightarrow> nat \<Rightarrow> uint64" where
  "upa m pt w = PTE2PA (leafpg m pt w)"

definition uvm_inv :: "uint64 \<Rightarrow> nat \<Rightarrow> uint64 list \<Rightarrow> 'a kmem_scheme \<Rightarrow> bool" where
  "uvm_inv pt n ps s \<longleftrightarrow>
     pt_inv 2 pt ps s \<and> n \<le> UPAGES \<and> unmap_pre True pt 0 n ps s \<and>
     (\<forall>w. n \<le> w \<and> w < UPAGES \<longrightarrow> \<not> valid (leafpg (mem s) pt w))"

definition data_pages :: "mem \<Rightarrow> uint64 \<Rightarrow> nat \<Rightarrow> uint64 set" where
  "data_pages m pt n = upa m pt ` {..<n}"

lemma uvm_inv_data:
  assumes "uvm_inv pt n ps s" "w < n"
  shows "valid (leafpg (mem s) pt w)" "PTE_FLAGS (leafpg (mem s) pt w) \<noteq> PTE_V"
    "page_ok s (upa (mem s) pt w)" "upa (mem s) pt w \<notin> tables 2 (mem s) pt" "upa (mem s) pt w \<notin> set ps"
    "w' < n \<Longrightarrow> upa (mem s) pt w = upa (mem s) pt w' \<Longrightarrow> w = w'"
  using assms unfolding uvm_inv_def unmap_pre_def upa_def inj_on_def by auto

lemma uvm_inv_intro:
  assumes "pt_inv 2 pt ps s" "n \<le> UPAGES"
    "\<And>w. w < n \<Longrightarrow> valid (leafpg (mem s) pt w) \<and> PTE_FLAGS (leafpg (mem s) pt w) \<noteq> PTE_V"
    "\<And>w. w < n \<Longrightarrow> page_ok s (upa (mem s) pt w) \<and> upa (mem s) pt w \<notin> tables 2 (mem s) pt \<and> upa (mem s) pt w \<notin> set ps"
    "\<And>w w'. w < n \<Longrightarrow> w' < n \<Longrightarrow> upa (mem s) pt w = upa (mem s) pt w' \<Longrightarrow> w = w'"
    "\<And>w. n \<le> w \<Longrightarrow> w < UPAGES \<Longrightarrow> \<not> valid (leafpg (mem s) pt w)"
  shows "uvm_inv pt n ps s"
  using assms unfolding uvm_inv_def unmap_pre_def upa_def inj_on_def by auto

lemma uvm_inv_page_set:
  assumes "uvm_inv pt n ps s"
  shows "page_set (tables 2 (mem s) pt \<union> set ps \<union> data_pages (mem s) pt n)"
proof (rule page_ok_page_set [of _ s])
  fix p assume "p \<in> tables 2 (mem s) pt \<union> set ps \<union> data_pages (mem s) pt n"
  then show "page_ok s p"
    using assms uvm_inv_data(3) [OF assms]
    by (auto simp: uvm_inv_def pt_inv_def kmem_inv_def data_pages_def)
qed

text \<open>Unmapping the last pages of an address space.\<close>

lemma uvm_inv_shrink:
  assumes "uvm_inv pt (v + n) ps s" 
  shows "\<exists>t. uvmunmap_loop pt (of_nat (v * 4096)) (of_nat ((v + n) * 4096)) True s = Ok () t \<and>
    uvm_inv pt v (rev (map (upa (mem s) pt) [v..<v + n]) @ ps) t \<and> mem_only s t \<and> page_ok t = page_ok s \<and>
    tables 2 (mem t) pt = tables 2 (mem s) pt \<and>
    (\<forall>w < 67108864. leafpg (mem t) pt w = (if v \<le> w \<and> w < v + n then 0 else leafpg (mem s) pt w)) \<and>
    agree (mem s) (mem t) (data_pages (mem s) pt v)"
proof -
  let ?qs = "rev (map (upa (mem s) pt) [v..<v + n])"
  have inv: "pt_inv 2 pt ps s" and n: "v + n \<le> UPAGES" using assms by (auto simp: uvm_inv_def)
  have pre: "unmap_pre True pt v n ps s"
  proof -
    have "inj_on (\<lambda>w. PTE2PA (leafpg (mem s) pt w)) {0..<0 + (v + n)}"
      using assms unfolding uvm_inv_def unmap_pre_def by blast
    then have "inj_on (\<lambda>w. PTE2PA (leafpg (mem s) pt w)) {v..<v + n}" by (rule inj_on_subset) auto
    then show ?thesis using uvm_inv_data(1-5) [OF assms] unfolding unmap_pre_def upa_def by simp
  qed
  have "v + n \<le> 67108864" using n by (simp add: UPAGES_def)
  from uvmunmap_loop_spec [OF inv this pre] obtain t where
    t: "uvmunmap_loop pt (of_nat (v * 4096)) (of_nat ((v + n) * 4096)) True s = Ok () t"
      "unmap_post pt v n ps s t ?qs"
    by (auto simp: upa_def [abs_def])
  have d: "pt_inv 2 pt (?qs @ ps) t" "mem_only s t" "page_ok t = page_ok s" "tables 2 (mem t) pt = tables 2 (mem s) pt"
    "\<And>w. w < 67108864 \<Longrightarrow> leafpg (mem t) pt w = (if v \<le> w \<and> w < v + n then 0 else leafpg (mem s) pt w)"
    "\<And>x. \<forall>p \<in> tables 2 (mem s) pt \<union> set ?qs. \<not> in_range p 4096 x \<Longrightarrow> mem t x = mem s x"
    using t(2) unfolding unmap_post_def by auto
  have lf: "leafpg (mem t) pt w = leafpg (mem s) pt w" if "w < v" for w
    using d(5) [of w] that n by (simp add: UPAGES_def)
  have qs: "upa (mem s) pt w \<notin> set ?qs" if "w < v" for w
    using uvm_inv_data(6) [OF assms, of w] that by fastforce
  have uv: "uvm_inv pt v (?qs @ ps) t"
  proof (rule uvm_inv_intro [OF d(1)])
    show "v \<le> UPAGES" using n by simp
    show "\<not> valid (leafpg (mem t) pt w)" if "v \<le> w" "w < UPAGES" for w
    proof (cases "w < v + n")
      case False
      then have "\<not> valid (leafpg (mem s) pt w)" using assms that unfolding uvm_inv_def by auto
      then show ?thesis using d(5) [of w] that False by (simp add: UPAGES_def)
    qed (use d(5) [of w] that in \<open>simp add: UPAGES_def\<close>)
  next
    fix w assume w: "w < v"
    then have w': "w < v + n" by simp
    show "valid (leafpg (mem t) pt w) \<and> PTE_FLAGS (leafpg (mem t) pt w) \<noteq> PTE_V"
      using uvm_inv_data(1,2) [OF assms w'] lf [OF w] by simp
    show "page_ok t (upa (mem t) pt w) \<and> upa (mem t) pt w \<notin> tables 2 (mem t) pt \<and> upa (mem t) pt w \<notin> set (?qs @ ps)"
      using uvm_inv_data(3-5) [OF assms w'] qs [OF w] by (simp add: upa_def lf [OF w] d(3,4))
  next
    fix w w' assume "w < v" "w' < v" "upa (mem t) pt w = upa (mem t) pt w'"
    then show "w = w'" using uvm_inv_data(6) [OF assms, of w w'] lf by (simp add: upa_def)
  qed
  have "agree (mem s) (mem t) (data_pages (mem s) pt v)"
    unfolding agree_def
  proof (intro ballI allI impI)
    fix p x assume "p \<in> data_pages (mem s) pt v" "in_range p 4096 x"
    then obtain w where w: "w < v" "p = upa (mem s) pt w" by (auto simp: data_pages_def)
    have "\<not> in_range q 4096 x" if "q \<in> tables 2 (mem s) pt \<union> set ?qs" for q
    proof -
      have "q \<noteq> p" using that qs [OF w(1)] uvm_inv_data(4) [OF assms, of w] w by auto
      moreover have "q \<in> tables 2 (mem s) pt \<union> set ps \<union> data_pages (mem s) pt (v + n)"
        "p \<in> tables 2 (mem s) pt \<union> set ps \<union> data_pages (mem s) pt (v + n)"
        using that w by (auto simp: data_pages_def)
      ultimately show ?thesis
        using page_set_disjoint [OF uvm_inv_page_set [OF assms], of p q x] \<open>in_range p 4096 x\<close> by blast
    qed
    then show "mem t x = mem s x" using d(6) by blast
  qed
  then show ?thesis using t(1) uv d by blast
qed

section \<open>Adding one page\<close>

lemma agree_pt:
  assumes "agree m m' (tables 2 m pt)"
  shows "tables 2 m' pt = tables 2 m pt" "leafpg m' pt w = leafpg m pt w" "upa m' pt w = upa m pt w"
    "tree 2 m pt \<Longrightarrow> tree 2 m' pt"
  using agree_tables [OF assms] by (auto simp: leafpg_def upa_def)

lemma uvm_inv_upd:
  assumes "uvm_inv pt n ps s" "agree (mem s) m' (tables 2 (mem s) pt \<union> set ps)"
  shows "uvm_inv pt n ps (s\<lparr>mem := m'\<rparr>)"
proof -
  have a: "agree (mem s) m' (tables 2 (mem s) pt)" "agree (mem s) m' (set ps)"
    using assms(2) agree_subset by blast+
  note ap = agree_pt [OF a(1)]
  have "kmem_inv (s\<lparr>mem := m'\<rparr>) ps" using assms(1) kmem_inv_agree [OF _ a(2)] by (auto simp: uvm_inv_def pt_inv_def)
  then have "pt_inv 2 pt ps (s\<lparr>mem := m'\<rparr>)"
    using assms(1) ap by (simp add: uvm_inv_def pt_inv_def)
  then show ?thesis using assms(1) ap by (simp add: uvm_inv_def unmap_pre_def)
qed

lemma uvm_inv_touch [simp]: "uvm_inv pt n ps (touch s) = uvm_inv pt n ps s"
  by (simp add: uvm_inv_def pt_inv_def unmap_pre_def)

text \<open>\<open>take_page s pg m\<close>: the state after \<open>kalloc()\<close> returned \<open>pg\<close> and the caller filled that page.\<close>

definition take_page :: "uint64 \<Rightarrow> mem \<Rightarrow> 'a kmem_scheme \<Rightarrow> 'a kmem_scheme" where
  "take_page pg m s = touch (s\<lparr>freelist := ld64 (mem s) pg, mem := m\<rparr>)"

lemma uvm_inv_take_page:
  assumes inv: "uvm_inv pt n (pg # ps) s" and m: "\<And>x. \<not> in_range pg 4096 x \<Longrightarrow> m x = mem s x"
  shows "uvm_inv pt n ps (take_page pg m s)" "mem_only s (take_page pg m s)" "page_ok (take_page pg m s) = page_ok s"
    "agree (mem s) m (tables 2 (mem s) pt \<union> data_pages (mem s) pt n)" "mem (take_page pg m s) = m"
    "pg \<notin> tables 2 m pt" "pg \<notin> data_pages m pt n" "pg \<notin> set ps" "page_ok s pg"
    "tables 2 m pt = tables 2 (mem s) pt" "leafpg m pt w = leafpg (mem s) pt w"
proof -
  show "mem (take_page pg m s) = m" by (simp add: take_page_def)
  have pg: "pg \<notin> tables 2 (mem s) pt" "pg \<notin> set ps" "page_ok s pg" "kmem_inv s (pg # ps)"
    using inv by (auto simp: uvm_inv_def pt_inv_def kmem_inv_def)
  have pd: "pg \<notin> data_pages (mem s) pt n"
    using uvm_inv_data(5) [OF inv] by (auto simp: data_pages_def)
  let ?A = "tables 2 (mem s) pt \<union> set ps \<union> data_pages (mem s) pt n"
  have psA: "page_set (insert pg ?A)"
    by (rule page_set_subset [OF uvm_inv_page_set [OF inv]]) auto
  have ag: "agree (mem s) m ?A"
    unfolding agree_def
  proof (intro ballI allI impI)
    fix p x assume "p \<in> ?A" "in_range p 4096 x"
    moreover from this have "p \<noteq> pg" using pg pd by auto
    ultimately have "\<not> in_range pg 4096 x" using page_set_disjoint [OF psA, of p pg x] by blast
    then show "m x = mem s x" by (rule m)
  qed
  then show "agree (mem s) m (tables 2 (mem s) pt \<union> data_pages (mem s) pt n)" by (rule agree_subset) auto
  have agt: "agree (mem s) m (tables 2 (mem s) pt)" using ag by (rule agree_subset) auto
  note ap = agree_pt [OF agt]
  show "pg \<notin> tables 2 m pt" "tables 2 m pt = tables 2 (mem s) pt" "leafpg m pt w = leafpg (mem s) pt w"
    using ap pg by simp_all
  show "pg \<notin> data_pages m pt n" using pd ap by (simp add: data_pages_def)
  show "pg \<notin> set ps" "page_ok s pg" by fact+
  show "mem_only s (take_page pg m s)" "page_ok (take_page pg m s) = page_ok s"
    by (simp_all add: take_page_def)
  let ?s = "s\<lparr>freelist := ld64 (mem s) pg, mem := memset pg 5 4096 (mem s)\<rparr>"
  have k: "kmem_inv ?s ps" using kmem_inv_alloc [OF pg(4)] .
  have "agree (mem s) (memset pg 5 4096 (mem s)) (set ps)"
    by (rule agree_memset [OF page_set_subset [OF psA] pg(2)]) blast
  moreover have "agree (mem s) m (set ps)" using ag by (rule agree_subset) auto
  ultimately have "agree (mem ?s) m (set ps)" by (simp add: agree_def)
  then have "kmem_inv (s\<lparr>freelist := ld64 (mem s) pg, mem := m\<rparr>) ps"
    using kmem_inv_agree [OF k] by simp
  then have "pt_inv 2 pt ps (s\<lparr>freelist := ld64 (mem s) pg, mem := m\<rparr>)"
    using inv ap by (auto simp: uvm_inv_def pt_inv_def)
  then show "uvm_inv pt n ps (take_page pg m s)"
    using inv ap unfolding take_page_def uvm_inv_touch
    by (simp add: uvm_inv_def unmap_pre_def)
qed

lemma mappages_one:
  assumes inv: "pt_inv 2 pt ps s" and v: "v < 67108864" "\<not> valid (leafpg (mem s) pt v)"
  shows "\<exists>r t us ps'. mappages pt (of_nat (v * 4096)) PGSIZE pa perm s = Ok r t \<and>
     ps = us @ ps' \<and> pt_inv 2 pt ps' t \<and> mem_only s t \<and> page_ok t = page_ok s \<and>
     tables 2 (mem t) pt = tables 2 (mem s) pt \<union> set us \<and>
     (r = 0 \<and> length us \<le> 2 \<or> r = -1 \<and> ps' = [] \<and> length us \<le> 1) \<and>
     (\<forall>w < 67108864. leafpg (mem t) pt w =
        (if r = 0 \<and> w = v then PA2PTE pa OR perm OR PTE_V else leafpg (mem s) pt w)) \<and>
     (\<forall>x. (\<forall>p \<in> tables 2 (mem s) pt \<union> set us. \<not> in_range p 4096 x) \<longrightarrow> mem t x = mem s x)"
proof -
  let ?a = "of_nat (v * 4096) :: uint64"
  have ua: "unat ?a = v * 4096" using v(1) by (subst unat_of_nat) simp
  have vp: "?a < MAXVA" "vpage ?a = v" using vpage_of_nat [OF v(1)] by simp_all
  have "unat (PGROUNDDOWN ?a) = unat ?a" by (simp add: unat_PGROUNDDOWN ua del: of_nat_mult)
  then have rd: "PGROUNDDOWN ?a = ?a" by (rule unsigned_word_eqI)
  have "unat (?a + PGSIZE - 1) = v * 4096 + 4095"
  proof -
    have "unat (?a + of_nat 4095) = unat ?a + 4095" using ua v(1) by (intro unat_add_lt) simp
    then show ?thesis using ua by (simp add: PGSIZE_def add.commute)
  qed
  then have "unat (PGROUNDDOWN (?a + PGSIZE - 1)) = unat ?a" by (simp add: unat_PGROUNDDOWN ua del: of_nat_mult)
  then have rd2: "PGROUNDDOWN (?a + PGSIZE - 1) = ?a" by (rule unsigned_word_eqI)
  have "PGSIZE \<noteq> 0" by (simp add: PGSIZE_def)
  then have run: "mappages pt ?a PGSIZE pa perm s = mappages_loop pt ?a (?a + of_nat 0 * PGSIZE) pa perm s"
    unfolding mappages_def rd rd2 by simp
  have pre: "\<forall>va < MAXVA. vpage ?a \<le> vpage va \<and> vpage va \<le> vpage ?a + 0 \<longrightarrow> \<not> valid (leafval 2 (mem s) pt va)"
    using v(2) vp(2) leafval_leafpg by auto
  have "unat ?a mod 4096 = 0" "unat ?a + 0 * 4096 < 274877906944" using ua v(1) by (simp_all only: ua) simp_all
  from mappages_loop_spec [OF inv this pre, of pa perm] obtain r t us ps' j where
    t: "mappages_loop pt ?a (?a + of_nat 0 * PGSIZE) pa perm s = Ok r t"
      "map_post pt ?a j pa perm ps s t us ps'" "r = 0 \<and> j = Suc 0 \<and> length us \<le> 2 \<or> r = -1 \<and> j = 0 \<and> ps' = [] \<and> length us \<le> 1"
    by fastforce
  have "leafpg (mem t) pt w = (if r = 0 \<and> w = v then PA2PTE pa OR perm OR PTE_V else leafpg (mem s) pt w)"
    if "w < 67108864" for w
    using t(2,3) vpage_of_nat [OF that] vp(2) unfolding map_post_def leafpg_def by auto
  then show ?thesis using t unfolding run map_post_def by blast
qed

section \<open>uvmdealloc and uvmalloc\<close>

definition pages_of :: "uint64 \<Rightarrow> nat" where
  "pages_of sz = (unat sz + 4095) div 4096"

lemma pages_of_bound:
  assumes "pages_of sz \<le> UPAGES"
  shows "unat sz \<le> UPAGES * 4096"
proof -
  have "unat sz + 4095 < (UPAGES + 1) * 4096"
    using assms unfolding pages_of_def by (simp add: div_less_iff_less_mult Suc_le_eq [symmetric] less_Suc_eq_le)
  then show ?thesis by (simp add: UPAGES_def)
qed

lemma PGROUNDUP_pages: "pages_of sz \<le> UPAGES \<Longrightarrow> PGROUNDUP sz = of_nat (pages_of sz * 4096)"
proof -
  assume p: "pages_of sz \<le> UPAGES"
  then have "unat sz + 4096 < 2 ^ 64" using pages_of_bound [OF p] by (simp add: UPAGES_def)
  then have "unat (PGROUNDUP sz) = pages_of sz * 4096" by (simp add: unat_PGROUNDUP pages_of_def)
  moreover have "unat (of_nat (pages_of sz * 4096) :: uint64) = pages_of sz * 4096"
    using p by (subst unat_of_nat) (simp add: UPAGES_def)
  ultimately show ?thesis by (metis unsigned_word_eqI)
qed

lemma unat_page_addr: "v \<le> UPAGES \<Longrightarrow> unat (of_nat (v * 4096) :: uint64) = v * 4096"
  by (subst unat_of_nat) (simp add: UPAGES_def)

lemma pages_of_page [simp]: "v \<le> UPAGES \<Longrightarrow> pages_of (of_nat (v * 4096)) = v"
  by (simp add: pages_of_def unat_page_addr del: of_nat_mult)

lemma scast_count:
  assumes "k \<le> UPAGES"
  shows "scast (ucast (of_nat k :: uint64) :: int32) = (of_nat k :: uint64)"
proof -
  have k: "k < 2 ^ 31" using assms by (simp add: UPAGES_def)
  have "unat (ucast (of_nat k :: uint64) :: int32) = unat (of_nat k :: int32)"
    using k by (simp add: unat_of_nat unsigned_ucast_eq take_bit_nat_eq_self)
  then have "ucast (of_nat k :: uint64) = (of_nat k :: int32)" by (rule unsigned_word_eqI)
  moreover have "uint (of_nat k :: int32) = int k" using k by (simp add: uint_nat unat_of_nat)
  then have "sint (of_nat k :: int32) = int k" using k by (simp add: sint_as_uint)
  ultimately show ?thesis by (simp add: scast_eq)
qed

lemma uvmunmap_pages:
  assumes "v \<le> UPAGES"
  shows "uvmunmap pt (of_nat (v * 4096)) (of_nat n) f s =
    uvmunmap_loop pt (of_nat (v * 4096)) (of_nat ((v + n) * 4096)) f s"
proof -
  have "of_nat (v * 4096) mod PGSIZE = (0 :: uint64)" by (simp add: page_unat unat_page_addr [OF assms] del: of_nat_mult)
  moreover have "of_nat (v * 4096) + of_nat n * PGSIZE = (of_nat ((v + n) * 4096) :: uint64)"
    by (simp add: PGSIZE_def algebra_simps)
  ultimately show ?thesis by (simp add: uvmunmap_def)
qed

definition shrunk ::
  "uint64 \<Rightarrow> nat \<Rightarrow> nat \<Rightarrow> uint64 list \<Rightarrow> 'a kmem_scheme \<Rightarrow> 'a kmem_scheme \<Rightarrow> bool" where
  "shrunk pt v v' ps s t \<longleftrightarrow>
     uvm_inv pt v (rev (map (upa (mem s) pt) [v..<v']) @ ps) t \<and> mem_only s t \<and> page_ok t = page_ok s \<and>
     tables 2 (mem t) pt = tables 2 (mem s) pt \<and>
     (\<forall>w < 67108864. leafpg (mem t) pt w = (if v \<le> w \<and> w < v' then 0 else leafpg (mem s) pt w)) \<and>
     agree (mem s) (mem t) (data_pages (mem s) pt v)"

lemma shrunk_refl: "uvm_inv pt v ps s \<Longrightarrow> shrunk pt v v ps s s"
  by (auto simp: shrunk_def agree_def)

lemma uvmdealloc_pages:
  assumes inv: "uvm_inv pt (pages_of oldsz) ps s"
  shows "\<exists>t. uvmdealloc pt oldsz newsz s = Ok (if newsz < oldsz then newsz else oldsz) t \<and>
    shrunk pt (if newsz < oldsz then pages_of newsz else pages_of oldsz) (pages_of oldsz) ps s t"
proof (cases "newsz < oldsz")
  case False
  then have "oldsz \<le> newsz" by simp
  then show ?thesis using shrunk_refl [OF inv] False by (auto simp: uvmdealloc_def)
next
  case True
  let ?v = "pages_of newsz" and ?v' = "pages_of oldsz"
  have up: "?v' \<le> UPAGES" using inv by (simp add: uvm_inv_def)
  have le: "?v \<le> ?v'" using True by (auto simp: pages_of_def word_less_nat_alt intro: div_le_mono)
  then have up': "?v \<le> UPAGES" using up by simp
  note R = PGROUNDUP_pages [OF up] PGROUNDUP_pages [OF up']
  note U = unat_page_addr [OF up] unat_page_addr [OF up']
  have nle: "\<not> oldsz \<le> newsz" using True by simp
  show ?thesis
  proof (cases "?v < ?v'")
    case False
    then have "?v = ?v'" using le by simp
    then have "uvmdealloc pt oldsz newsz s = Ok newsz s" using nle by (simp add: uvmdealloc_def R)
    then show ?thesis using True shrunk_refl [OF inv] \<open>?v = ?v'\<close> by auto
  next
    case lt: True
    have e: "?v + (?v' - ?v) = ?v'" using le by simp
    have less: "PGROUNDUP newsz < PGROUNDUP oldsz"
      using lt unfolding R word_less_nat_alt U by simp
    have diff: "PGROUNDUP oldsz - PGROUNDUP newsz = of_nat ((?v' - ?v) * 4096)"
      unfolding R using le by (simp add: of_nat_diff algebra_simps)
    have "(of_nat ((?v' - ?v) * 4096) :: uint64) div PGSIZE = of_nat (?v' - ?v)"
    proof -
      have k: "?v' - ?v \<le> UPAGES" using up by simp
      have "unat ((of_nat ((?v' - ?v) * 4096) :: uint64) div PGSIZE) = unat (of_nat (?v' - ?v) :: uint64)"
        using k by (simp only: unat_div unat_page_addr [OF k] unat_consts)
          (simp add: unat_of_nat UPAGES_def)
      then show ?thesis by (rule unsigned_word_eqI)
    qed
    then have np: "scast (ucast ((PGROUNDUP oldsz - PGROUNDUP newsz) div PGSIZE) :: int32) = (of_nat (?v' - ?v) :: uint64)"
      unfolding diff using scast_count [of "?v' - ?v"] up by simp
    have inv': "uvm_inv pt (?v + (?v' - ?v)) ps s" using inv e by simp
    obtain t where t: "uvmunmap_loop pt (of_nat (?v * 4096)) (of_nat ((?v + (?v' - ?v)) * 4096)) True s = Ok () t"
      "shrunk pt ?v ?v' ps s t"
      using uvm_inv_shrink [OF inv'] unfolding shrunk_def e by blast
    have "uvmdealloc pt oldsz newsz s = Ok newsz t"
      using nle less np t(1) uvmunmap_pages [OF up', of pt "?v' - ?v" True s]
      by (simp add: uvmdealloc_def R(2) Let_def)
    then show ?thesis using True t(2) by auto
  qed
qed

lemma or_V_small: "f < 1024 \<Longrightarrow> f OR PTE_V < 1024"
proof -
  assume "f < 1024"
  then have "take_bit 10 f = f" by (intro take_bit_small) (simp add: word_less_nat_alt)
  then have "take_bit 10 (f OR PTE_V) = f OR PTE_V" by (simp add: PTE_V_def)
  then have "unat (f OR PTE_V) = take_bit 10 (unat (f OR PTE_V))"
    by (metis unsigned_take_bit_eq)
  then have "unat (f OR PTE_V) < 1024" by (simp add: take_bit_eq_mod)
  then show ?thesis by (simp add: word_less_nat_alt)
qed

lemma leaf_entry:
  assumes "page_ok s pg" "f < 1024" "f OR PTE_V \<noteq> PTE_V"
  shows "valid (PA2PTE pg OR f OR PTE_V)" "PTE_FLAGS (PA2PTE pg OR f OR PTE_V) = f OR PTE_V"
    "PTE2PA (PA2PTE pg OR f OR PTE_V) = pg" "(PA2PTE pg OR f OR PTE_V) AND PTE_U = (f OR PTE_V) AND PTE_U"
proof -
  note sm = or_V_small [OF assms(2)]
  have pk: "pg mod PGSIZE = 0" "pg < PHYSTOP" using page_ok_facts [OF assms(1)] by auto
  show "PTE2PA (PA2PTE pg OR f OR PTE_V) = pg" using PTE2PA_PA2PTE [OF pk sm] by (simp add: or.assoc)
  show "PTE_FLAGS (PA2PTE pg OR f OR PTE_V) = f OR PTE_V"
    using PTE_flags_PA2PTE [OF sm, of pg] by (simp add: PTE_FLAGS_def or.assoc)
  have "(f OR PTE_V) AND PTE_V = PTE_V" by (simp add: and.commute [of "f OR PTE_V"])
  then show "valid (PA2PTE pg OR f OR PTE_V)"
    using PTE_bit_PA2PTE [OF sm, of PTE_V pg] by (simp add: valid_def PTE_V_def or.assoc)
  show "(PA2PTE pg OR f OR PTE_V) AND PTE_U = (f OR PTE_V) AND PTE_U"
    using PTE_bit_PA2PTE [OF sm, of PTE_U pg] by (simp add: PTE_U_def or.assoc)
qed

lemma uvm_grow:
  assumes inv: "uvm_inv pt n (pg # ps) s" and n: "n < UPAGES"
    and m: "\<And>x. \<not> in_range pg 4096 x \<Longrightarrow> m x = mem s x"
    and f: "f < 1024" "f OR PTE_V \<noteq> PTE_V"
  shows "\<exists>r t us ps'. mappages pt (of_nat (n * 4096)) PGSIZE pg f (take_page pg m s) = Ok r t \<and>
    ps = us @ ps' \<and> length us \<le> 2 \<and> (r \<noteq> 0 \<longrightarrow> length ps \<le> 1) \<and> mem_only s t \<and> page_ok t = page_ok s \<and>
    (if r = 0 then uvm_inv pt (Suc n) ps' t \<and> leafpg (mem t) pt n = PA2PTE pg OR f OR PTE_V \<and> upa (mem t) pt n = pg
     else r = -1 \<and> uvm_inv pt n [] t \<and> pg \<notin> tables 2 (mem t) pt \<and> pg \<notin> data_pages (mem t) pt n) \<and>
    (\<forall>w < 67108864. w \<noteq> n \<longrightarrow> leafpg (mem t) pt w = leafpg (mem s) pt w) \<and>
    agree (mem s) (mem t) (data_pages (mem s) pt n) \<and> agree m (mem t) {pg}"
proof -
  let ?s = "take_page pg m s"
  note tp = uvm_inv_take_page [OF inv m]
  have pi: "pt_inv 2 pt ps ?s" using tp(1) by (simp add: uvm_inv_def)
  have nv: "n < 67108864" "\<not> valid (leafpg (mem ?s) pt n)" using n tp(1) by (auto simp: UPAGES_def uvm_inv_def)
  obtain r t us ps' where t: "mappages pt (of_nat (n * 4096)) PGSIZE pg f ?s = Ok r t" "ps = us @ ps'" "pt_inv 2 pt ps' t"
     "mem_only ?s t" "page_ok t = page_ok ?s" "tables 2 (mem t) pt = tables 2 (mem ?s) pt \<union> set us"
     "r = 0 \<and> length us \<le> 2 \<or> r = -1 \<and> ps' = [] \<and> length us \<le> 1"
     "\<And>w. w < 67108864 \<Longrightarrow> leafpg (mem t) pt w = (if r = 0 \<and> w = n then PA2PTE pg OR f OR PTE_V else leafpg (mem ?s) pt w)"
     "\<And>x. \<forall>p \<in> tables 2 (mem ?s) pt \<union> set us. \<not> in_range p 4096 x \<Longrightarrow> mem t x = mem ?s x"
    using mappages_one [OF pi nv, of pg f] by blast
  note le = leaf_entry [OF tp(9) f]
  have dis: "distinct ps" using pi by (simp add: pt_inv_def kmem_inv_def)
  have lf: "leafpg (mem t) pt w = leafpg (mem s) pt w" if "w < 67108864" "w \<noteq> n \<or> r \<noteq> 0" for w
    using t(8) [OF that(1)] that(2) tp(5,11) by auto
  have up: "upa (mem t) pt w = upa (mem s) pt w" if "w < n" for w
    using lf [of w] that n by (simp add: upa_def UPAGES_def)
  have tb: "tables 2 (mem t) pt = tables 2 (mem s) pt \<union> set us" using t(6) tp(5,10) by simp
  have pgn: "pg \<notin> tables 2 (mem t) pt" "pg \<notin> set ps'" "pg \<notin> data_pages (mem s) pt n"
    using tp(6,8,10) tb t(2) uvm_inv_data(5) [OF inv] by (auto simp: data_pages_def)
  have dat: "page_ok s (upa (mem s) pt w)" "upa (mem s) pt w \<notin> tables 2 (mem t) pt" "upa (mem s) pt w \<notin> set ps'"
      "valid (leafpg (mem s) pt w)" "PTE_FLAGS (leafpg (mem s) pt w) \<noteq> PTE_V" if "w < n" for w
    using uvm_inv_data(1-5) [OF inv that] tb t(2) by auto
  have fr: "agree m (mem t) (insert pg (data_pages (mem s) pt n))"
    unfolding agree_def
  proof (intro ballI allI impI)
    fix p x assume p: "p \<in> insert pg (data_pages (mem s) pt n)" "in_range p 4096 x"
    have "\<not> in_range q 4096 x" if q: "q \<in> tables 2 (mem s) pt \<union> set us" for q
    proof -
      have "p \<noteq> q" using p(1) q pgn dat(2) tb by (auto simp: data_pages_def)
      moreover have "p \<in> tables 2 (mem s) pt \<union> set (pg # ps) \<union> data_pages (mem s) pt n"
        "q \<in> tables 2 (mem s) pt \<union> set (pg # ps) \<union> data_pages (mem s) pt n"
        using p(1) q t(2) by auto
      ultimately show ?thesis using page_set_disjoint [OF uvm_inv_page_set [OF inv], of p q x] p(2) by blast
    qed
    then show "mem t x = m x" using t(9) [of x] tp(5,10) by auto
  qed
  have agd: "agree (mem s) (mem t) (data_pages (mem s) pt n)"
    by (rule agree_trans [OF agree_subset [OF tp(4)] agree_subset [OF fr]]) auto
  have res: "if r = 0 then uvm_inv pt (Suc n) ps' t \<and> leafpg (mem t) pt n = PA2PTE pg OR f OR PTE_V \<and> upa (mem t) pt n = pg
     else r = -1 \<and> uvm_inv pt n [] t \<and> pg \<notin> tables 2 (mem t) pt \<and> pg \<notin> data_pages (mem t) pt n"
  proof (cases "r = 0")
    case True
    then have ln: "leafpg (mem t) pt n = PA2PTE pg OR f OR PTE_V" using t(8) [OF nv(1)] by simp
    then have un: "upa (mem t) pt n = pg" using le(3) by (simp add: upa_def)
    have "uvm_inv pt (Suc n) ps' t"
    proof (rule uvm_inv_intro [OF t(3)])
      show "Suc n \<le> UPAGES" using n by simp
      show "valid (leafpg (mem t) pt w) \<and> PTE_FLAGS (leafpg (mem t) pt w) \<noteq> PTE_V" if "w < Suc n" for w
        using that ln le(1,2) f(2) dat(4,5) [of w] lf [of w] n by (cases "w = n") (auto simp: UPAGES_def)
      show "page_ok t (upa (mem t) pt w) \<and> upa (mem t) pt w \<notin> tables 2 (mem t) pt \<and> upa (mem t) pt w \<notin> set ps'"
        if "w < Suc n" for w
        using that un pgn(1,2) tp(3,9) t(5) dat(1-3) [of w] up [of w] by (cases "w = n") auto
      show "w = w'" if "w < Suc n" "w' < Suc n" "upa (mem t) pt w = upa (mem t) pt w'" for w w'
        using that un up [of w] up [of w'] pgn(3) uvm_inv_data(6) [OF inv, of w w']
        by (cases "w = n"; cases "w' = n") (auto simp: data_pages_def)
      show "\<not> valid (leafpg (mem t) pt w)" if "Suc n \<le> w" "w < UPAGES" for w
        using that lf [of w] inv by (simp add: UPAGES_def uvm_inv_def)
    qed
    then show ?thesis using True ln un by simp
  next
    case False
    then have r: "r = -1" "ps' = []" using t(7) by auto
    have "uvm_inv pt n [] t"
    proof (rule uvm_inv_intro [OF t(3) [unfolded r(2)]])
      show "n \<le> UPAGES" using n by simp
      show "valid (leafpg (mem t) pt w) \<and> PTE_FLAGS (leafpg (mem t) pt w) \<noteq> PTE_V" if "w < n" for w
        using that dat(4,5) [of w] lf [of w] n by (simp add: UPAGES_def)
      show "page_ok t (upa (mem t) pt w) \<and> upa (mem t) pt w \<notin> tables 2 (mem t) pt \<and> upa (mem t) pt w \<notin> set []"
        if "w < n" for w
        using that tp(3) t(5) dat(1,2) [of w] up [of w] by simp
      show "w = w'" if "w < n" "w' < n" "upa (mem t) pt w = upa (mem t) pt w'" for w w'
        using that up uvm_inv_data(6) [OF inv, of w w'] by simp
      show "\<not> valid (leafpg (mem t) pt w)" if "n \<le> w" "w < UPAGES" for w
        using that lf [of w] inv False by (simp add: UPAGES_def uvm_inv_def)
    qed
    moreover have "pg \<notin> data_pages (mem t) pt n" using pgn(3) up by (auto simp: data_pages_def)
    ultimately show ?thesis using False r pgn(1) by simp
  qed
  have mo: "mem_only s t" "page_ok t = page_ok s" using mem_only_trans [OF tp(2) t(4)] t(5) tp(3) by simp_all
  have "agree m (mem t) {pg}" using fr by (rule agree_subset) simp
  moreover have "length us \<le> 2 \<and> (r \<noteq> 0 \<longrightarrow> length ps \<le> 1)" using t(2,7) by auto
  ultimately show ?thesis using t(1,2) mo res lf agd by blast
qed

lemma kalloc_take:
  assumes "kmem_ready s" "kmem_inv s (pg # ps)"
  shows "kalloc s = Ok pg (take_page pg (memset pg 5 4096 (mem s)) s)" "pg \<noteq> 0"
  using assms by (auto simp: kalloc_eq kmem_ready_def kmem_inv_def take_page_def)

lemma kalloc_out:
  assumes "kmem_ready s" "kmem_inv s []"
  shows "kalloc s = Ok 0 (touch s)"
  using assms by (simp add: kalloc_eq kmem_ready_def kmem_inv_def)

lemma mem_take_page [simp]: "mem (take_page pg m s) = m"
  by (simp add: take_page_def)

lemma take_page_upd [simp]: "(take_page pg m s)\<lparr>mem := m'\<rparr> = take_page pg m' s"
  by (simp add: take_page_def kmem_lock_upd)

lemma uvm_inv_kfree:
  assumes inv: "uvm_inv pt n ps s" and q: "page_ok s q" "q \<notin> tables 2 (mem s) pt" "q \<notin> set ps" "q \<notin> data_pages (mem s) pt n"
  shows "\<exists>t. kfree q s = Ok () t \<and> uvm_inv pt n (q # ps) t \<and> mem_only s t \<and> page_ok t = page_ok s \<and>
    (\<forall>w. leafpg (mem t) pt w = leafpg (mem s) pt w) \<and> agree (mem s) (mem t) (data_pages (mem s) pt n) \<and>
    tables 2 (mem t) pt = tables 2 (mem s) pt"
proof -
  have pi: "pt_inv 2 pt ps s" using inv by (simp add: uvm_inv_def)
  obtain t where t: "kfree q s = Ok () t" "pt_inv 2 pt (q # ps) t" "mem_only s t" "page_ok t = page_ok s"
    "tables 2 (mem t) pt = tables 2 (mem s) pt" "\<And>va. leafval 2 (mem t) pt va = leafval 2 (mem s) pt va"
    "\<And>x. \<not> in_range q 4096 x \<Longrightarrow> mem t x = mem s x"
    using pt_inv_kfree [OF pi q(1-3)] by blast
  have lf: "leafpg (mem t) pt w = leafpg (mem s) pt w" for w by (simp add: leafpg_def t(6))
  have up: "upa (mem t) pt w = upa (mem s) pt w" for w by (simp add: upa_def lf)
  have "uvm_inv pt n (q # ps) t"
  proof (rule uvm_inv_intro [OF t(2)])
    show "n \<le> UPAGES" using inv by (simp add: uvm_inv_def)
    show "valid (leafpg (mem t) pt w) \<and> PTE_FLAGS (leafpg (mem t) pt w) \<noteq> PTE_V" if "w < n" for w
      using uvm_inv_data(1,2) [OF inv that] lf by simp
    show "page_ok t (upa (mem t) pt w) \<and> upa (mem t) pt w \<notin> tables 2 (mem t) pt \<and> upa (mem t) pt w \<notin> set (q # ps)"
      if "w < n" for w
      using uvm_inv_data(3-5) [OF inv that] q(4) t(4,5) that by (auto simp: up data_pages_def)
    show "w = w'" if "w < n" "w' < n" "upa (mem t) pt w = upa (mem t) pt w'" for w w'
      using that uvm_inv_data(6) [OF inv, of w w'] by (simp add: up)
    show "\<not> valid (leafpg (mem t) pt w)" if "n \<le> w" "w < UPAGES" for w
      using that inv lf by (simp add: uvm_inv_def)
  qed
  moreover have "agree (mem s) (mem t) (data_pages (mem s) pt n)"
    unfolding agree_def
  proof (intro ballI allI impI)
    fix p x assume p: "p \<in> data_pages (mem s) pt n" "in_range p 4096 x"
    then have "page_ok s p" "p \<noteq> q" using uvm_inv_data(3) [OF inv] q(4) by (auto simp: data_pages_def)
    then show "mem t x = mem s x" using t(7) page_ok_disjoint [OF _ q(1), of p x] p(2) by blast
  qed
  ultimately show ?thesis using t lf by blast
qed

lemma agree_data_trans:
  assumes "agree m m' (data_pages m pt n)" "agree m' m'' (data_pages m' pt n)"
    "\<And>w. w < n \<Longrightarrow> upa m' pt w = upa m pt w"
  shows "agree m m'' (data_pages m pt n)"
proof -
  have "data_pages m' pt n = data_pages m pt n" using assms(3) by (auto simp: data_pages_def)
  then show ?thesis using assms(1,2) agree_trans by metis
qed

lemma agree_data_mono: "agree m m' (data_pages m pt n) \<Longrightarrow> k \<le> n \<Longrightarrow> agree m m' (data_pages m pt k)"
  by (rule agree_subset) (auto simp: data_pages_def)

text \<open>
  The outcome of growing an address space from \<open>v0\<close> pages towards \<open>v1\<close>: all of the pages, each zero,
  user-accessible and writable, or none of them; what was mapped before is untouched.
\<close>

definition keeps :: "uint64 \<Rightarrow> nat \<Rightarrow> 'a kmem_scheme \<Rightarrow> 'a kmem_scheme \<Rightarrow> bool" where
  "keeps pt v0 s t \<longleftrightarrow> mem_only s t \<and> page_ok t = page_ok s \<and>
     (\<forall>w < v0. leafpg (mem t) pt w = leafpg (mem s) pt w) \<and>
     (\<forall>w. UPAGES \<le> w \<and> w < 67108864 \<longrightarrow> leafpg (mem t) pt w = leafpg (mem s) pt w) \<and>
     agree (mem s) (mem t) (data_pages (mem s) pt v0)"

lemma keeps_refl [simp]: "keeps pt v s s"
  by (simp add: keeps_def agree_def)

lemma keeps_upa: "keeps pt v s t \<Longrightarrow> w < v \<Longrightarrow> upa (mem t) pt w = upa (mem s) pt w"
  by (simp add: keeps_def upa_def)

lemma keeps_trans: "keeps pt v s t \<Longrightarrow> keeps pt v t u \<Longrightarrow> keeps pt v s u"
  unfolding keeps_def using mem_only_trans agree_data_trans [of "mem s" "mem t" pt v "mem u"] keeps_upa [of pt v s t]
  by (auto simp: keeps_def)

lemma keeps_mono: "keeps pt v s t \<Longrightarrow> k \<le> v \<Longrightarrow> keeps pt k s t"
  unfolding keeps_def using agree_data_mono by fastforce

lemma keeps_touch [simp]: "keeps pt v s (touch s)"
  by (simp add: keeps_def agree_def)

lemma shrunk_keeps: "shrunk pt v v' ps s t \<Longrightarrow> v \<le> v' \<Longrightarrow> v' \<le> UPAGES \<Longrightarrow> keeps pt v s t"
  by (simp add: shrunk_def keeps_def UPAGES_def)

definition zero_page :: "mem \<Rightarrow> uint64 \<Rightarrow> bool" where
  "zero_page m p \<longleftrightarrow> (\<forall>x. in_range p 4096 x \<longrightarrow> m x = 0)"

lemma zero_page_agree: "agree m m' A \<Longrightarrow> p \<in> A \<Longrightarrow> zero_page m p \<Longrightarrow> zero_page m' p"
  by (simp add: zero_page_def agree_def)

definition UPERM :: uint64 where "UPERM = PTE_W OR PTE_X OR PTE_R OR PTE_U"

lemma UPERM_small: "UPERM < 1024" "UPERM OR PTE_V \<noteq> PTE_V"
  by (simp_all add: UPERM_def PTE_W_def PTE_X_def PTE_R_def PTE_U_def PTE_V_def)

lemma uvmalloc_loop_spec:
  assumes "uvm_inv pt v ps s" "v0 \<le> v" "pages_of newsz \<le> UPAGES" "v \<le> max v0 (pages_of newsz)"
  shows "\<exists>r t ps'. uvmalloc_loop pt (of_nat (v * 4096)) (of_nat (v0 * 4096)) newsz s = Ok r t \<and>
    (r = newsz \<and> uvm_inv pt (max v0 (pages_of newsz)) ps' t \<and> keeps pt v s t \<and>
       (\<forall>w. v \<le> w \<and> w < pages_of newsz \<longrightarrow>
          zero_page (mem t) (upa (mem t) pt w) \<and> PTE_FLAGS (leafpg (mem t) pt w) = UPERM OR PTE_V)
     \<or> r = 0 \<and> uvm_inv pt v0 ps' t \<and> keeps pt v0 s t \<and> length ps < 3 * (pages_of newsz - v))"
  using assms
proof (induction "pages_of newsz - v" arbitrary: v s ps)
  case 0
  have up: "v \<le> UPAGES" using 0(2) by (simp add: uvm_inv_def)
  have "\<not> of_nat (v * 4096) < newsz"
  proof
    assume "of_nat (v * 4096) < newsz"
    then have "v * 4096 < unat newsz" by (simp only: word_less_nat_alt unat_page_addr [OF up])
    then show False using 0(1) by (simp add: pages_of_def)
  qed
  moreover have "max v0 (pages_of newsz) = v" using 0 by auto
  ultimately show ?case using 0 by (subst uvmalloc_loop.simps) auto
next
  case (Suc k)
  have lt: "v < pages_of newsz" using Suc.hyps(2) by simp
  then have n: "v < UPAGES" using Suc.prems(3) by simp
  have less: "of_nat (v * 4096) < newsz"
  proof -
    have "v * 4096 < unat newsz" using lt by (simp add: pages_of_def less_eq_div_iff_mult_less_eq Suc_le_eq [symmetric])
    then show ?thesis using n by (simp only: word_less_nat_alt unat_page_addr [OF less_imp_le [OF n]])
  qed
  have rd: "kmem_ready s" "kmem_inv s ps" using Suc.prems(1) by (auto simp: uvm_inv_def pt_inv_def)
  have pv: "pages_of (of_nat (v * 4096)) = v" "pages_of (of_nat (v0 * 4096)) = v0"
    using n Suc.prems(2) by (simp_all del: of_nat_mult)
  have dealloc: "\<exists>t' ps''. uvmdealloc pt (of_nat (v * 4096)) (of_nat (v0 * 4096)) t = Ok (of_nat (v0 * 4096)) t' \<and>
      uvm_inv pt v0 ps'' t' \<and> keeps pt v0 t t'" if i: "uvm_inv pt v ps' t" for t :: "'a kmem_scheme" and ps'
  proof -
    have c: "(of_nat (v0 * 4096) :: uint64) < of_nat (v * 4096) \<longleftrightarrow> v0 < v"
      using Suc.prems(2) n by (simp only: word_less_nat_alt unat_page_addr) simp
    show ?thesis
      using uvmdealloc_pages [of pt "of_nat (v * 4096)" ps' t "of_nat (v0 * 4096)"] i pv Suc.prems(2) c
        shrunk_keeps [of pt v0 v ps' t] n
      by (cases "v0 < v") (auto simp: shrunk_def simp del: of_nat_mult)
  qed
  show ?case
  proof (cases ps)
    case Nil
    have run: "uvmalloc_loop pt (of_nat (v * 4096)) (of_nat (v0 * 4096)) newsz s =
        bind (uvmdealloc pt (of_nat (v * 4096)) (of_nat (v0 * 4096)) (touch s)) (\<lambda>_ s. Ok 0 s)"
      using less kalloc_out [OF rd(1)] rd(2) Nil by (subst uvmalloc_loop.simps) (simp del: of_nat_mult)
    have "uvm_inv pt v ps (touch s)" using Suc.prems(1) by simp
    from dealloc [OF this] obtain t' ps'' where
      "uvmdealloc pt (of_nat (v * 4096)) (of_nat (v0 * 4096)) (touch s) = Ok (of_nat (v0 * 4096)) t'"
      "uvm_inv pt v0 ps'' t'" "keeps pt v0 (touch s) t'" by blast
    then show ?thesis unfolding run using Nil lt keeps_trans [OF keeps_touch, of pt v0 s t']
      by (intro exI [of _ 0] exI [of _ t'] exI [of _ ps'']) simp
  next
    case (Cons pg qs)
    let ?m = "memset pg 0 4096 (memset pg 5 4096 (mem s))"
    have ka: "kalloc s = Ok pg (take_page pg (memset pg 5 4096 (mem s)) s)" "pg \<noteq> 0"
      using kalloc_take rd Cons by blast+
    have m: "?m x = mem s x" if "\<not> in_range pg 4096 x" for x using that by (simp add: memset_apply)
    obtain r t us ps' where t: "mappages pt (of_nat (v * 4096)) PGSIZE pg UPERM (take_page pg ?m s) = Ok r t"
      "qs = us @ ps'" "mem_only s t" "page_ok t = page_ok s"
      "if r = 0 then uvm_inv pt (Suc v) ps' t \<and> leafpg (mem t) pt v = PA2PTE pg OR UPERM OR PTE_V \<and> upa (mem t) pt v = pg
       else r = -1 \<and> uvm_inv pt v [] t \<and> pg \<notin> tables 2 (mem t) pt \<and> pg \<notin> data_pages (mem t) pt v"
      "\<And>w. w < 67108864 \<Longrightarrow> w \<noteq> v \<Longrightarrow> leafpg (mem t) pt w = leafpg (mem s) pt w"
      "agree (mem s) (mem t) (data_pages (mem s) pt v)" "agree ?m (mem t) {pg}"
      "length us \<le> 2" "r \<noteq> 0 \<Longrightarrow> length qs \<le> 1"
      using uvm_grow [OF Suc.prems(1) [unfolded Cons] n m UPERM_small] by blast
    have kp: "keeps pt v s t" using t(3,4,6,7) n by (simp add: keeps_def UPAGES_def)
    have pgok: "page_ok s pg" using rd(2) Cons by (simp add: kmem_inv_def)
    show ?thesis
    proof (cases "r = 0")
      case True
      have nx: "of_nat (v * 4096) + PGSIZE = (of_nat (Suc v * 4096) :: uint64)" by (simp add: PGSIZE_def algebra_simps)
      have run: "uvmalloc_loop pt (of_nat (v * 4096)) (of_nat (v0 * 4096)) newsz s =
          uvmalloc_loop pt (of_nat (v * 4096) + PGSIZE) (of_nat (v0 * 4096)) newsz t"
        using less ka t(1) True unfolding UPERM_def
        by (subst uvmalloc_loop.simps) (simp del: of_nat_mult)
      have i: "uvm_inv pt (Suc v) ps' t" "leafpg (mem t) pt v = PA2PTE pg OR UPERM OR PTE_V" "upa (mem t) pt v = pg"
        using t(5) True by auto
      have "k = pages_of newsz - Suc v" using Suc.hyps(2) by simp
      moreover have "v0 \<le> Suc v" "Suc v \<le> max v0 (pages_of newsz)" using Suc.prems(2) lt by auto
      ultimately obtain r' t' ps'' where
        ih: "uvmalloc_loop pt (of_nat (Suc v * 4096)) (of_nat (v0 * 4096)) newsz t = Ok r' t'"
          "r' = newsz \<and> uvm_inv pt (max v0 (pages_of newsz)) ps'' t' \<and> keeps pt (Suc v) t t' \<and>
           (\<forall>w. Suc v \<le> w \<and> w < pages_of newsz \<longrightarrow>
              zero_page (mem t') (upa (mem t') pt w) \<and> PTE_FLAGS (leafpg (mem t') pt w) = UPERM OR PTE_V)
           \<or> r' = 0 \<and> uvm_inv pt v0 ps'' t' \<and> keeps pt v0 t t' \<and> length ps' < 3 * (pages_of newsz - Suc v)"
        using Suc.hyps(1) [OF _ i(1) _ Suc.prems(3)] by blast
      have z: "zero_page (mem t) pg" using t(8) by (simp add: zero_page_def agree_def memset_apply)
      have pg0: "zero_page (mem t') (upa (mem t') pt v) \<and> PTE_FLAGS (leafpg (mem t') pt v) = UPERM OR PTE_V"
        if k: "keeps pt (Suc v) t t'"
      proof -
        have "pg \<in> data_pages (mem t) pt (Suc v)" using i(3) by (auto simp: data_pages_def)
        then have "zero_page (mem t') pg" using k z zero_page_agree unfolding keeps_def by blast
        moreover have "upa (mem t') pt v = pg" using keeps_upa [OF k, of v] i(3) by simp
        moreover have "leafpg (mem t') pt v = PA2PTE pg OR UPERM OR PTE_V" using k i(2) by (simp add: keeps_def)
        ultimately show ?thesis using leaf_entry(2) [OF pgok UPERM_small] by simp
      qed
      have "keeps pt v s t' " if "keeps pt (Suc v) t t'"
        using keeps_trans [OF kp keeps_mono [OF that]] by simp
      moreover have "keeps pt v0 s t'" if "keeps pt v0 t t'"
        using keeps_trans [OF keeps_mono [OF kp Suc.prems(2)] that] .
      moreover have "length ps < 3 * (pages_of newsz - v)" if "length ps' < 3 * (pages_of newsz - Suc v)"
        using that t(2,9) Cons lt by simp
      ultimately show ?thesis unfolding run nx using ih pg0 le_neq_implies_less Suc_leI
        by (metis (no_types, lifting))
    next
      case False
      have i: "r = -1" "uvm_inv pt v [] t" "pg \<notin> tables 2 (mem t) pt" "pg \<notin> data_pages (mem t) pt v"
        using t(5) False by auto
      obtain u where u: "kfree pg t = Ok () u" "uvm_inv pt v [pg] u" "mem_only t u" "page_ok u = page_ok t"
        "\<And>w. leafpg (mem u) pt w = leafpg (mem t) pt w" "agree (mem t) (mem u) (data_pages (mem t) pt v)"
        using uvm_inv_kfree [OF i(2), of pg] i(3,4) pgok t(4) by auto
      have ku: "keeps pt v t u" using u by (simp add: keeps_def)
      have run: "uvmalloc_loop pt (of_nat (v * 4096)) (of_nat (v0 * 4096)) newsz s =
          bind (uvmdealloc pt (of_nat (v * 4096)) (of_nat (v0 * 4096)) u) (\<lambda>_ s. Ok 0 s)"
        using less ka t(1) False u(1) unfolding UPERM_def
        by (subst uvmalloc_loop.simps) (simp del: of_nat_mult)
      have "keeps pt v0 s u" using keeps_trans [OF kp ku] Suc.prems(2) by (rule keeps_mono)
      moreover have "length ps < 3 * (pages_of newsz - v)" using t(10) [OF False] Cons lt by simp
      moreover obtain t' ps'' where
        "uvmdealloc pt (of_nat (v * 4096)) (of_nat (v0 * 4096)) u = Ok (of_nat (v0 * 4096)) t'"
        "uvm_inv pt v0 ps'' t'" "keeps pt v0 u t'" using dealloc [OF u(2)] by blast
      ultimately show ?thesis unfolding run using keeps_trans [of pt v0 s u t']
        by (intro exI [of _ 0] exI [of _ t'] exI [of _ ps'']) simp
    qed
  qed
qed

section \<open>Copying to and from user memory\<close>

lemma wrbytes_apply:
  "length bs \<le> 2 ^ 64 \<Longrightarrow> wrbytes a bs m x = (if in_range a (length bs) x then bs ! unat (x - a) else m x)"
proof (induction bs arbitrary: a m)
  case Nil
  then show ?case by (simp add: in_range_def)
next
  case (Cons b bs)
  have ih: "wrbytes (a + 1) bs (m(a := b)) x =
      (if in_range (a + 1) (length bs) x then bs ! unat (x - (a + 1)) else (m(a := b)) x)"
    using Cons by simp
  show ?case
  proof (cases "x = a")
    case True
    then have "x - (a + 1) = - 1" by simp
    then have "unat (x - (a + 1)) = 2 ^ 64 - 1" by (simp add: unsigned_minus_1_eq_mask mask_eq_exp_minus_1)
    then have "\<not> in_range (a + 1) (length bs) x" using Cons.prems by (simp add: in_range_def)
    then show ?thesis using ih True by (simp add: in_range_def)
  next
    case False
    then have "x - a \<noteq> 0" by simp
    then have "unat (x - a) = Suc (unat (x - (a + 1)))"
      using unat_minus_one [of "x - a"] by (simp add: diff_diff_eq unat_gt_0 algebra_simps)
    then show ?thesis using ih False by (simp add: in_range_def)
  qed
qed

lemma rdbytes_nth: "length (rdbytes m a n) = n" "i < n \<Longrightarrow> rdbytes m a n ! i = m (a + of_nat i)"
  by (simp_all add: rdbytes_def)

definition page_off :: "uint64 \<Rightarrow> nat" where
  "page_off va = unat va mod 4096"

lemma page_off_less [simp]: "page_off va < 4096"
  by (simp add: page_off_def)

lemma va_split: "unat va = vpage va * 4096 + page_off va"
  by (simp add: vpage_def page_off_def)

lemma va_offset: "va - PGROUNDDOWN va = of_nat (page_off va)"
proof -
  have "unat (PGROUNDDOWN va) \<le> unat va" by (simp add: unat_PGROUNDDOWN)
  then have "unat (va - PGROUNDDOWN va) = unat va - unat va div 4096 * 4096"
    by (simp add: unat_sub_if_size unat_PGROUNDDOWN)
  also have "\<dots> = page_off va" by (simp add: page_off_def minus_div_mult_eq_mod)
  finally have "unat (va - PGROUNDDOWN va) = unat (of_nat (page_off va) :: uint64)"
    by (simp add: unat_of_nat page_off_def)
  then show ?thesis by (rule unsigned_word_eqI)
qed

lemma page_room_eq: "page_room va len = min len (4096 - page_off va)"
proof -
  have "unat (of_nat (page_off va) :: uint64) = page_off va" by (simp add: unat_of_nat page_off_def)
  then have "unat (PGSIZE - of_nat (page_off va)) = 4096 - page_off va"
    by (simp add: unat_sub_if_size less_imp_le)
  then show ?thesis by (simp add: page_room_def va_offset min_def Let_def)
qed

lemma vpage_PGROUNDDOWN: "vpage (PGROUNDDOWN va) = vpage va" "PGROUNDDOWN va < MAXVA \<longleftrightarrow> va < MAXVA"
proof -
  show "vpage (PGROUNDDOWN va) = vpage va" by (simp add: vpage_def unat_PGROUNDDOWN)
  have "unat va div 4096 * 4096 < 67108864 * 4096 \<longleftrightarrow> unat va < 67108864 * 4096"
    by (simp only: mult_less_cancel2 div_less_iff_less_mult) simp
  then show "PGROUNDDOWN va < MAXVA \<longleftrightarrow> va < MAXVA" by (simp add: word_less_nat_alt unat_PGROUNDDOWN)
qed

text \<open>The byte a user program finds at a virtual address, if it may access it.\<close>

definition ubyte :: "mem \<Rightarrow> uint64 \<Rightarrow> uint64 \<Rightarrow> uchar option" where
  "ubyte m pt va =
    (let e = leafpg m pt (vpage va) in
     if va < MAXVA \<and> valid e \<and> e AND PTE_U \<noteq> 0 then Some (m (PTE2PA e + of_nat (page_off va))) else None)"

definition top_private :: "mem \<Rightarrow> uint64 \<Rightarrow> bool" where
  "top_private m pt \<longleftrightarrow> (\<forall>w. UPAGES \<le> w \<and> w < 67108864 \<longrightarrow> leafpg m pt w AND PTE_U = 0)"

lemma ubyte_page:
  assumes "uvm_inv pt n ps s" "top_private (mem s) pt" "ubyte (mem s) pt va = Some b"
  shows "vpage va < n" "leafpg (mem s) pt (vpage va) AND PTE_U \<noteq> 0" "va < MAXVA"
proof -
  let ?w = "vpage va"
  have v: "va < MAXVA" "valid (leafpg (mem s) pt ?w)" "leafpg (mem s) pt ?w AND PTE_U \<noteq> 0"
    using assms(3) by (auto simp: ubyte_def Let_def split: if_splits)
  then show "leafpg (mem s) pt ?w AND PTE_U \<noteq> 0" "va < MAXVA" by simp_all
  have "?w < UPAGES" using assms(2) v vpage_less [OF v(1)] unfolding top_private_def by (meson not_le)
  then show "?w < n" using assms(1) v(2) unfolding uvm_inv_def by (meson not_le)
qed

lemma in_page_range:
  assumes "off + k \<le> 4096" "j < 4096"
  shows "in_range (pa + of_nat off) k (pa + of_nat j) \<longleftrightarrow> off \<le> j \<and> j < off + k"
    "off \<le> j \<Longrightarrow> unat ((pa + of_nat j) - (pa + of_nat off)) = j - off"
proof -
  show eq: "unat ((pa + of_nat j) - (pa + of_nat off)) = j - off" if "off \<le> j"
  proof -
    have "(pa + of_nat j) - (pa + of_nat off) = (of_nat (j - off) :: uint64)" using that by (simp add: of_nat_diff)
    then show ?thesis using assms by (simp add: unat_of_nat)
  qed
  show "in_range (pa + of_nat off) k (pa + of_nat j) \<longleftrightarrow> off \<le> j \<and> j < off + k"
  proof (cases "off \<le> j")
    case True
    then show ?thesis using eq by (auto simp: in_range_def)
  next
    case False
    then obtain d where d: "off = j + d" "0 < d" by (metis less_imp_add_positive not_le)
    have "(pa + of_nat j) - (pa + of_nat off) = - (of_nat d :: uint64)" by (simp add: d(1))
    moreover have ud: "unat (of_nat d :: uint64) = d" using assms d by (simp add: unat_of_nat)
    moreover have "unat (0 - (of_nat d :: uint64)) = 2 ^ 64 - d"
      using d(2) by (simp only: unat_sub_if_size ud) (simp add: word_size)
    ultimately have "unat ((pa + of_nat j) - (pa + of_nat off)) = 2 ^ 64 - d" by simp
    then show ?thesis using assms False d by (simp add: in_range_def)
  qed
qed

lemma same_page:
  assumes "i < 4096 - page_off d"
  shows "unat (d + of_nat i) = unat d + i" "vpage (d + of_nat i) = vpage d"
proof -
  have "unat d < 2 ^ 64" using unsigned_less [of d] by simp
  then have "vpage d < 2 ^ 52" by (simp add: vpage_def div_less_iff_less_mult)
  then have "unat d + i < 2 ^ 64" using assms va_split [of d] by simp
  moreover have "unat (of_nat i :: uint64) = i" using assms by (simp add: unat_of_nat)
  ultimately show e: "unat (d + of_nat i) = unat d + i" by (simp add: unat_word_ariths)
  have "unat d + i = page_off d + i + vpage d * 4096" using va_split [of d] by simp
  then show "vpage (d + of_nat i) = vpage d" using assms by (simp add: vpage_def e div_mult_self1)
qed

lemma next_page:
  assumes "d < MAXVA"
  shows "unat (PGROUNDDOWN d + PGSIZE) = unat d + (4096 - page_off d)"
proof -
  have "unat d < 2 ^ 38" using assms by (simp add: word_less_nat_alt)
  then have "unat d div 4096 * 4096 + 4096 < 2 ^ 64"
    using div_times_less_eq_dividend [of "unat d" 4096] by simp
  then have "unat (PGROUNDDOWN d + PGSIZE) = unat d div 4096 * 4096 + 4096"
    by (simp add: unat_word_ariths unat_PGROUNDDOWN)
  then show ?thesis using va_split [of d, unfolded vpage_def] page_off_less [of d] by linarith
qed

lemma ubyte_same_page:
  assumes "ubyte m pt d \<noteq> None" "i < 4096 - page_off d"
  shows "ubyte m pt (d + of_nat i) \<noteq> None"
proof -
  note sp = same_page [OF assms(2)]
  have v: "d < MAXVA" using assms(1) by (auto simp: ubyte_def Let_def split: if_splits)
  have "vpage d < 67108864" using vpage_less [OF v] .
  then have "unat d + i < 67108864 * 4096" using va_split [of d] assms(2) by simp
  then have "d + of_nat i < MAXVA" by (simp add: word_less_nat_alt sp(1))
  then show ?thesis using assms(1) by (auto simp: ubyte_def Let_def sp(2) split: if_splits)
qed

text \<open>Writing inside one page of user memory.\<close>

lemma write_page:
  assumes inv: "uvm_inv pt n ps s" and top: "top_private (mem s) pt"
    and d: "vpage d < n" "leafpg (mem s) pt (vpage d) AND PTE_U \<noteq> 0" "d < MAXVA"
    and len: "length bs \<le> 4096 - page_off d"
    and m': "m' = wrbytes (upa (mem s) pt (vpage d) + of_nat (page_off d)) bs (mem s)"
  shows "uvm_inv pt n ps (s\<lparr>mem := m'\<rparr>)" "top_private m' pt"
    "ubyte m' pt va = (if unat d \<le> unat va \<and> unat va < unat d + length bs
       then Some (bs ! (unat va - unat d)) else ubyte (mem s) pt va)"
    "leafpg m' pt w = leafpg (mem s) pt w"
proof -
  let ?w = "vpage d" and ?o = "page_off d"
  let ?pa = "upa (mem s) pt ?w"
  have le: "?o + length bs \<le> 4096" using len page_off_less [of d] by linarith
  have l64: "length bs \<le> 2 ^ 64" using le by simp
  have inpg: "in_range ?pa 4096 x" if "in_range (?pa + of_nat ?o) (length bs) x" for x
  proof -
    have u: "unat (x - (?pa + of_nat ?o)) < length bs" using that by (simp add: in_range_def)
    have "x - ?pa = (x - (?pa + of_nat ?o)) + of_nat ?o" by simp
    moreover have "unat ((x - (?pa + of_nat ?o)) + of_nat ?o) = unat (x - (?pa + of_nat ?o)) + ?o"
      using u le by (intro unat_add_lt) simp
    ultimately show ?thesis using u le by (simp add: in_range_def)
  qed
  have wr: "m' x = (if in_range (?pa + of_nat ?o) (length bs) x then bs ! unat (x - (?pa + of_nat ?o)) else mem s x)" for x
    unfolding m' by (rule wrbytes_apply [OF l64])
  note dd = uvm_inv_data [OF inv d(1)]
  have ag: "agree (mem s) m' (tables 2 (mem s) pt \<union> set ps)"
    unfolding agree_def
  proof (intro ballI allI impI)
    fix p x assume p: "p \<in> tables 2 (mem s) pt \<union> set ps" "in_range p 4096 x"
    then have "page_ok s p" "p \<noteq> ?pa" using inv dd(4,5) by (auto simp: uvm_inv_def pt_inv_def kmem_inv_def)
    then have "\<not> in_range ?pa 4096 x" using page_ok_disjoint [OF _ dd(3)] p(2) by blast
    then show "m' x = mem s x" using wr inpg by auto
  qed
  show "uvm_inv pt n ps (s\<lparr>mem := m'\<rparr>)" by (rule uvm_inv_upd [OF inv ag])
  have agt: "agree (mem s) m' (tables 2 (mem s) pt)" using ag by (rule agree_subset) simp
  note lf = agree_pt(2) [OF agt]
  show "leafpg m' pt w = leafpg (mem s) pt w" by (rule lf)
  show "top_private m' pt" using top by (simp add: top_private_def lf)
  show "ubyte m' pt va = (if unat d \<le> unat va \<and> unat va < unat d + length bs
       then Some (bs ! (unat va - unat d)) else ubyte (mem s) pt va)"
  proof (cases "vpage va = ?w")
    case True
    have e: "unat va - unat d = page_off va - ?o" "unat d \<le> unat va \<longleftrightarrow> ?o \<le> page_off va"
      "unat va < unat d + length bs \<longleftrightarrow> page_off va < ?o + length bs"
      unfolding va_split [of va] va_split [of d] True by auto
    have vm: "va < MAXVA"
      using d(3) True page_off_less [of va] va_split [of va] va_split [of d] vpage_less [OF d(3)]
      by (simp only: word_less_nat_alt unat_MAXVA)
    have "ubyte m' pt va = Some (m' (?pa + of_nat (page_off va)))"
      using True vm dd(1) d(2) by (simp add: ubyte_def lf upa_def)
    moreover have "ubyte (mem s) pt va = Some (mem s (?pa + of_nat (page_off va)))"
      using True vm dd(1) d(2) by (simp add: ubyte_def upa_def)
    ultimately show ?thesis
      using in_page_range(1) [OF le page_off_less, of ?pa va]
        in_page_range(2) [OF le page_off_less [of va], of ?pa] e by (auto simp: wr)
  next
    case False
    have out: "\<not> (unat d \<le> unat va \<and> unat va < unat d + length bs)"
    proof
      assume a: "unat d \<le> unat va \<and> unat va < unat d + length bs"
      then have "vpage d \<le> vpage va" by (auto simp: vpage_def intro: div_le_mono)
      have "unat va < (vpage d + 1) * 4096" using a le va_split [of d] by (simp add: distrib_right)
      then have "vpage va < vpage d + 1" by (simp add: vpage_def div_less_iff_less_mult)
      then show False using False \<open>vpage d \<le> vpage va\<close> by simp
    qed
    have "ubyte m' pt va = ubyte (mem s) pt va"
    proof (cases "ubyte (mem s) pt va")
      case None
      then show ?thesis by (auto simp: ubyte_def lf Let_def split: if_splits)
    next
      case (Some b)
      note up = ubyte_page [OF inv top Some]
      have ne: "upa (mem s) pt (vpage va) \<noteq> ?pa" using uvm_inv_data(6) [OF inv d(1) up(1)] False by auto
      have "in_range (upa (mem s) pt (vpage va)) 4096 (upa (mem s) pt (vpage va) + of_nat (page_off va))"
        by (simp add: in_range_def unat_of_nat page_off_def)
      then have "\<not> in_range ?pa 4096 (upa (mem s) pt (vpage va) + of_nat (page_off va))"
        using page_ok_disjoint [OF uvm_inv_data(3) [OF inv up(1)] dd(3) ne] by blast
      then have "m' (upa (mem s) pt (vpage va) + of_nat (page_off va)) = mem s (upa (mem s) pt (vpage va) + of_nat (page_off va))"
        using wr inpg by auto
      then show ?thesis by (simp add: ubyte_def lf upa_def Let_def)
    qed
    then show ?thesis using out by (simp only: if_False if_not_P)
  qed
qed

lemma copyout_spec:
  assumes "uvm_inv pt n ps s" "top_private (mem s) pt" "unat d + length src < 2 ^ 64"
  shows "\<exists>r t k. copyout pt d src s = Ok r t \<and> uvm_inv pt n ps t \<and> top_private (mem t) pt \<and> t = s\<lparr>mem := mem t\<rparr> \<and>
     k \<le> length src \<and> (\<forall>va. ubyte (mem t) pt va = (if unat d \<le> unat va \<and> unat va < unat d + k
       then Some (src ! (unat va - unat d)) else ubyte (mem s) pt va)) \<and>
     (\<forall>i < k. ubyte (mem s) pt (d + of_nat i) \<noteq> None) \<and>
     (r = 0 \<and> k = length src \<or> r = -1 \<and> k < length src \<and> ubyte (mem s) pt (d + of_nat k) = None)"
  using assms
proof (induction "length src" arbitrary: src d s rule: less_induct)
  case less
  show ?case
  proof (cases "src = []")
    case True
    then show ?thesis using less.prems by (subst copyout.simps) auto
  next
    case False
    let ?w = "vpage d"
    let ?e = "leafpg (mem s) pt ?w"
    have inv: "pt_inv 2 pt ps s" using less.prems(1) by (simp add: uvm_inv_def)
    have wa: "walkaddr pt (PGROUNDDOWN d) s = Ok (if d < MAXVA \<and> valid ?e \<and> ?e AND PTE_U \<noteq> 0 then PTE2PA ?e else 0) s"
      using walkaddr_eq [OF inv, of "PGROUNDDOWN d"] by (simp add: vpage_PGROUNDDOWN Let_def)
    show ?thesis
    proof (cases "ubyte (mem s) pt d")
      case None
      then have "copyout pt d src s = Ok (-1) s"
        using False wa by (subst copyout.simps) (auto simp: ubyte_def Let_def split: if_splits)
      then show ?thesis using less.prems None False by (intro exI [of _ "-1"] exI [of _ s] exI [of _ 0]) auto
    next
      case (Some b0)
      note up = ubyte_page [OF less.prems(1,2) Some]
      define j where "j = page_room d (length src)"
      define m' where "m' = wrbytes (upa (mem s) pt ?w + of_nat (page_off d)) (take j src) (mem s)"
      have j: "0 < j" "j \<le> length src" "j \<le> 4096 - page_off d" "j = length src \<or> j = 4096 - page_off d"
        using False by (auto simp: j_def page_room_eq)
      have lj: "length (take j src) = j" using j(2) by simp
      have pa0: "PTE2PA ?e \<noteq> 0"
        using uvm_inv_data(3) [OF less.prems(1) up(1)] inv
        by (auto simp: upa_def page_ok_def pt_inv_def kmem_ready_def word_le_nat_alt word_less_nat_alt)
      have vld: "valid ?e" using uvm_inv_data(1) [OF less.prems(1) up(1)] .
      let ?d = "PGROUNDDOWN d + PGSIZE"
      have run: "copyout pt d src s = copyout pt ?d (drop j src) (s\<lparr>mem := m'\<rparr>)"
        using False wa up(2,3) vld pa0
        by (subst copyout.simps) (simp add: j_def m'_def upa_def va_offset Let_def)
      have lb: "length (take j src) \<le> 4096 - page_off d" using lj j(3) by simp
      note wp = write_page [OF less.prems(1,2) up(1,2,3) lb m'_def]
      have pre: "ubyte (mem s) pt (d + of_nat i) \<noteq> None" if "i < j" for i
        using ubyte_same_page [of _ _ d i] Some that j(3) by simp
      show ?thesis
      proof (cases "j = length src")
        case True
        then have "copyout pt d src s = Ok 0 (s\<lparr>mem := m'\<rparr>)"
          unfolding run by (subst copyout.simps) simp
        then show ?thesis using wp(1-3) True lj pre
          by (intro exI [of _ 0] exI [of _ "s\<lparr>mem := m'\<rparr>"] exI [of _ j]) auto
      next
        case F: False
        then have jj: "j = 4096 - page_off d" using j(4) by simp
        have ud: "unat ?d = unat d + j" using next_page [OF up(3)] jj by simp
        have wd: "?d + of_nat i = d + of_nat (j + i)" for i
        proof -
          have "unat (d + of_nat j) = unat d + j"
            using less.prems(3) j(2) by (simp add: unat_word_ariths unat_of_nat)
          then have "?d = d + of_nat j" using ud by (metis unsigned_word_eqI)
          then show ?thesis by simp
        qed
        have "length (drop j src) < length src" using j(1) False by simp
        moreover have "top_private (mem (s\<lparr>mem := m'\<rparr>)) pt" "unat ?d + length (drop j src) < 2 ^ 64"
          using wp(2) less.prems(3) ud j(2) by simp_all
        ultimately obtain r t k where t: "copyout pt ?d (drop j src) (s\<lparr>mem := m'\<rparr>) = Ok r t" "uvm_inv pt n ps t"
          "top_private (mem t) pt" "t = s\<lparr>mem := m'\<rparr>\<lparr>mem := mem t\<rparr>" "k \<le> length (drop j src)"
          and ub: "\<forall>va. ubyte (mem t) pt va = (if unat ?d \<le> unat va \<and> unat va < unat ?d + k
             then Some (drop j src ! (unat va - unat ?d)) else ubyte (mem (s\<lparr>mem := m'\<rparr>)) pt va)"
          and old: "\<forall>i < k. ubyte (mem (s\<lparr>mem := m'\<rparr>)) pt (?d + of_nat i) \<noteq> None"
          and out: "r = 0 \<and> k = length (drop j src) \<or>
             r = -1 \<and> k < length (drop j src) \<and> ubyte (mem (s\<lparr>mem := m'\<rparr>)) pt (?d + of_nat k) = None"
          using less.hyps [of "drop j src" "s\<lparr>mem := m'\<rparr>" ?d] wp(1) by blast
        have un: "unat (d + of_nat (j + i)) = unat d + j + i" if "i \<le> k" for i
          using that t(5) less.prems(3) j(2) ud by (simp add: unat_word_ariths unat_of_nat)
        have keep: "ubyte m' pt (d + of_nat (j + i)) = ubyte (mem s) pt (d + of_nat (j + i))" if "i \<le> k" for i
          using wp(3) [of "d + of_nat (j + i)"] un [OF that] lj by simp
        have v: "ubyte (mem t) pt va = (if unat d \<le> unat va \<and> unat va < unat d + (j + k)
          then Some (src ! (unat va - unat d)) else ubyte (mem s) pt va)" for va
          using wp(3) [of va] spec [OF ub, of va] lj j(2) by (auto simp: ud nth_drop)
        have o: "ubyte (mem s) pt (d + of_nat i) \<noteq> None" if "i < j + k" for i
        proof (cases "i < j")
          case True then show ?thesis by (rule pre)
        next
          case g: False
          define i' where "i' = i - j"
          have i': "i = j + i'" "i' < k" using g that by (auto simp: i'_def)
          have "ubyte m' pt (d + of_nat (j + i')) \<noteq> None" using old i'(2) by (simp only: wd) simp
          then show ?thesis using keep [of i'] i' by (simp only:) simp
        qed
        show ?thesis using t v o out keep [of k] j(2) wd [of k]
          by (intro exI [of _ r] exI [of _ t] exI [of _ "j + k"]) (auto simp: run)
      qed
    qed
  qed
qed

lemma copyin_spec:
  assumes "uvm_inv pt n ps s" "top_private (mem s) pt" "unat v + len < 2 ^ 64"
  shows "\<exists>r bs k. copyin pt dst v len s = Ok (r, dst @ bs) s \<and> length bs = k \<and> k \<le> len \<and>
     (\<forall>i < k. ubyte (mem s) pt (v + of_nat i) = Some (bs ! i)) \<and>
     (r = 0 \<and> k = len \<or> r = -1 \<and> k < len \<and> ubyte (mem s) pt (v + of_nat k) = None)"
  using assms
proof (induction len arbitrary: dst v rule: less_induct)
  case (less len)
  show ?case
  proof (cases "len = 0")
    case True
    then show ?thesis by (subst copyin.simps) auto
  next
    case False
    let ?w = "vpage v"
    let ?e = "leafpg (mem s) pt ?w"
    have inv: "pt_inv 2 pt ps s" using less.prems(1) by (simp add: uvm_inv_def)
    have wa: "walkaddr pt (PGROUNDDOWN v) s = Ok (if v < MAXVA \<and> valid ?e \<and> ?e AND PTE_U \<noteq> 0 then PTE2PA ?e else 0) s"
      using walkaddr_eq [OF inv, of "PGROUNDDOWN v"] by (simp add: vpage_PGROUNDDOWN Let_def)
    show ?thesis
    proof (cases "ubyte (mem s) pt v")
      case None
      then have "copyin pt dst v len s = Ok (-1, dst) s"
        using False wa by (subst copyin.simps) (auto simp: ubyte_def Let_def split: if_splits)
      then show ?thesis using None False by (intro exI [of _ "-1"] exI [of _ "[]"] exI [of _ 0]) auto
    next
      case (Some b0)
      note up = ubyte_page [OF less.prems(1,2) Some]
      define j where "j = page_room v len"
      define bs where "bs = rdbytes (mem s) (PTE2PA ?e + of_nat (page_off v)) j"
      have j: "0 < j" "j \<le> len" "j \<le> 4096 - page_off v" "j = len \<or> j = 4096 - page_off v"
        using False by (auto simp: j_def page_room_eq)
      have pa0: "PTE2PA ?e \<noteq> 0"
        using uvm_inv_data(3) [OF less.prems(1) up(1)] inv
        by (auto simp: upa_def page_ok_def pt_inv_def kmem_ready_def word_le_nat_alt word_less_nat_alt)
      have vld: "valid ?e" using uvm_inv_data(1) [OF less.prems(1) up(1)] .
      let ?v = "PGROUNDDOWN v + PGSIZE"
      have run: "copyin pt dst v len s = copyin pt (dst @ bs) ?v (len - j) s"
        using False wa up(2,3) vld pa0
        by (subst copyin.simps) (simp add: j_def bs_def va_offset Let_def)
      have lb: "length bs = j" by (simp add: bs_def rdbytes_nth)
      have pre: "ubyte (mem s) pt (v + of_nat i) = Some (bs ! i)" if i: "i < j" for i
      proof -
        have i4: "i < 4096 - page_off v" using i j(3) by simp
        have "ubyte (mem s) pt (v + of_nat i) \<noteq> None"
          using ubyte_same_page [OF _ i4] Some by simp
        moreover have "page_off (v + of_nat i) = page_off v + i"
          using same_page [OF i4] va_split [of v] va_split [of "v + of_nat i"] by simp
        ultimately show ?thesis using same_page(2) [OF i4] i
          by (auto simp: ubyte_def Let_def bs_def rdbytes_nth add.assoc split: if_splits)
      qed
      show ?thesis
      proof (cases "j = len")
        case True
        then have "copyin pt dst v len s = Ok (0, dst @ bs) s"
          unfolding run by (subst copyin.simps) simp
        then show ?thesis using pre lb True by (intro exI [of _ 0] exI [of _ bs] exI [of _ j]) auto
      next
        case F: False
        then have jj: "j = 4096 - page_off v" using j(4) by simp
        have ud: "unat ?v = unat v + j" using next_page [OF up(3)] jj by simp
        have wd: "?v + of_nat i = v + of_nat (j + i)" for i
        proof -
          have "unat (v + of_nat j) = unat v + j"
            using less.prems(3) j(2) by (simp add: unat_word_ariths unat_of_nat)
          then have "?v = v + of_nat j" using ud by (metis unsigned_word_eqI)
          then show ?thesis by simp
        qed
        have "len - j < len" using j(1,2) False by simp
        moreover have "unat ?v + (len - j) < 2 ^ 64" using less.prems(3) ud j(2) by simp
        ultimately obtain r cs where t: "copyin pt (dst @ bs) ?v (len - j) s = Ok (r, (dst @ bs) @ cs) s"
            "length cs \<le> len - j"
          and rd: "\<forall>i < length cs. ubyte (mem s) pt (?v + of_nat i) = Some (cs ! i)"
          and out: "r = 0 \<and> length cs = len - j \<or>
            r = -1 \<and> length cs < len - j \<and> ubyte (mem s) pt (?v + of_nat (length cs)) = None"
          using less.IH [of "len - j" ?v "dst @ bs"] less.prems(1,2) by blast
        have o: "ubyte (mem s) pt (v + of_nat i) = Some ((bs @ cs) ! i)" if "i < j + length cs" for i
        proof (cases "i < j")
          case True then show ?thesis using pre lb by (simp add: nth_append)
        next
          case g: False
          define i' where "i' = i - j"
          have i': "i = j + i'" "i' < length cs" using g that by (auto simp: i'_def)
          have "ubyte (mem s) pt (v + of_nat (j + i')) = Some (cs ! i')" using rd i'(2) by (simp only: wd)
          then show ?thesis using i' lb by (simp only: nth_append) simp
        qed
        show ?thesis using t o out lb j(2) wd [of "length cs"]
          by (intro exI [of _ r] exI [of _ "bs @ cs"] exI [of _ "j + length cs"]) (auto simp: run)
      qed
    qed
  qed
qed

section \<open>Growing, shrinking and accessing an address space\<close>

text \<open>
  An empty address space: a zeroed root table at \<open>0x80022000\<close> in the machine that has one free page,
  and the same with the pages from \<open>0x80023000\<close> on freed as well.
\<close>

lemma empty_space: "uvm_inv 0x80022000 0 [0x80021000] one_page_kmem"
proof -
  have z: "mem one_page_kmem a = 0" for a by (simp add: one_page_kmem_def boot_kmem_def)
  note zt = zero_table [of "0x80022000" "mem one_page_kmem", OF z]
  have "page_ok one_page_kmem 0x80022000" "kend one_page_kmem \<noteq> 0"
    by (simp_all add: page_ok_def one_page_kmem_def boot_kmem_def PGSIZE_def PHYSTOP_def KERNBASE_def)
  then have "pt_inv 2 0x80022000 [0x80021000] one_page_kmem"
    using zt one_page_kmem_ok by (simp add: pt_inv_def)
  then show ?thesis using zt by (intro uvm_inv_intro) (auto simp: leafpg_def)
qed

definition all_private :: "mem \<Rightarrow> uint64 \<Rightarrow> bool" where
  "all_private m pt \<longleftrightarrow> (\<forall>w. UPAGES \<le> w \<and> w < 67108864 \<longrightarrow> leafpg m pt w = 0)"

lemma free_space: "\<exists>(s :: kmem) ps. uvm_inv 0x80022000 0 ps s \<and> length ps = 3 \<and> all_private (mem s) 0x80022000"
proof -
  let ?s = "one_page_kmem" and ?pt = "0x80022000 :: uint64"
  have z: "mem ?s a = 0" for a by (simp add: one_page_kmem_def boot_kmem_def)
  note zt = zero_table [of ?pt "mem ?s", OF z]
  have ok: "page_ok ?s 0x80023000" "page_ok ?s 0x80024000"
    by (simp_all add: page_ok_def one_page_kmem_def boot_kmem_def PGSIZE_def PHYSTOP_def KERNBASE_def)
  obtain t :: kmem where t: "uvm_inv ?pt 0 [0x80023000, 0x80021000] t" "page_ok t = page_ok ?s"
      "\<forall>w. leafpg (mem t) ?pt w = leafpg (mem ?s) ?pt w" "tables 2 (mem t) ?pt = {?pt}"
    using uvm_inv_kfree [OF empty_space ok(1)] zt by (auto simp: data_pages_def)
  obtain u :: kmem where u: "uvm_inv ?pt 0 [0x80024000, 0x80023000, 0x80021000] u"
      "\<forall>w. leafpg (mem u) ?pt w = leafpg (mem t) ?pt w"
    using uvm_inv_kfree [OF t(1), of "0x80024000"] ok(2) t(2,4) by (auto simp: data_pages_def)
  then show ?thesis using t(3) zt by (intro exI [of _ u] exI [of _ "[0x80024000, 0x80023000, 0x80021000]"])
      (auto simp: all_private_def leafpg_def)
qed

lemma demo_space:
  "\<exists>(s :: kmem) ps. uvm_inv 0x80022000 1 ps s \<and> top_private (mem s) 0x80022000 \<and>
     (\<forall>va. unat va < 4096 \<longrightarrow> ubyte (mem s) 0x80022000 va \<noteq> None)"
proof -
  let ?pt = "0x80022000 :: uint64"
  obtain s :: kmem and ps where s: "uvm_inv ?pt 0 ps s" "length ps = 3" "all_private (mem s) ?pt"
    using free_space by blast
  have p1: "pages_of 4096 = 1" by (simp add: pages_of_def)
  obtain t :: kmem and ps' where t: "uvm_inv ?pt 1 ps' t" "keeps ?pt 0 s t"
      "PTE_FLAGS (leafpg (mem t) ?pt 0) = UPERM OR PTE_V"
    using uvmalloc_loop_spec [OF s(1), of 0 4096] s(2) by (auto simp: p1 UPAGES_def)
  have "top_private (mem t) ?pt" using s(3) t(2) by (simp add: top_private_def all_private_def keeps_def)
  moreover have "leafpg (mem t) ?pt 0 AND PTE_U \<noteq> 0"
  proof -
    have "PTE_FLAGS (leafpg (mem t) ?pt 0) AND PTE_U \<noteq> 0" unfolding t(3) by (simp add: UPERM_def PTE_W_def PTE_X_def PTE_R_def PTE_U_def PTE_V_def)
    moreover have "PTE_FLAGS e AND PTE_U = e AND PTE_U" for e
      by (simp add: PTE_FLAGS_def PTE_U_def and.assoc)
    ultimately show ?thesis by simp
  qed
  moreover have "valid (leafpg (mem t) ?pt 0)" using uvm_inv_data(1) [OF t(1)] by simp
  ultimately have "ubyte (mem t) ?pt va \<noteq> None" if "unat va < 4096" for va
    using that by (simp add: ubyte_def vpage_def word_less_nat_alt Let_def)
  then show ?thesis using t(1) \<open>top_private (mem t) ?pt\<close> by blast
qed

text \<open>C19: Growing an address space is all or nothing. \<open>uvmalloc\<close> from \<open>oldsz\<close> to \<open>newsz\<close> bytes (not
  beyond the trapframe page) returns \<open>newsz\<close> with exactly the pages of \<open>newsz\<close> mapped, the new ones
  zero-filled, to distinct physical pages and with the permissions W, X, R and U; or it returns 0 with
  exactly the pages of \<open>oldsz\<close> mapped, which cannot happen while three free pages remain for every page
  asked for. In both cases the old pages keep their mapping and contents.\<close>

theorem uvmalloc_all_or_nothing:
  assumes "uvm_inv pt (pages_of oldsz) ps s" "oldsz \<le> newsz" "pages_of newsz \<le> UPAGES"
  shows "\<exists>r t ps'. uvmalloc pt oldsz newsz s = Ok r t \<and> keeps pt (pages_of oldsz) s t \<and>
    (r = newsz \<and> uvm_inv pt (pages_of newsz) ps' t \<and>
       (\<forall>w. pages_of oldsz \<le> w \<and> w < pages_of newsz \<longrightarrow>
          zero_page (mem t) (upa (mem t) pt w) \<and> PTE_FLAGS (leafpg (mem t) pt w) = UPERM OR PTE_V)
     \<or> r = 0 \<and> uvm_inv pt (pages_of oldsz) ps' t \<and> length ps < 3 * (pages_of newsz - pages_of oldsz))"
proof -
  have le: "pages_of oldsz \<le> pages_of newsz" using assms(2) by (simp add: pages_of_def word_le_nat_alt div_le_mono)
  then have "PGROUNDUP oldsz = of_nat (pages_of oldsz * 4096)" using assms(3) by (intro PGROUNDUP_pages) simp
  then have run: "uvmalloc pt oldsz newsz s =
      uvmalloc_loop pt (of_nat (pages_of oldsz * 4096)) (of_nat (pages_of oldsz * 4096)) newsz s"
    using assms(2) by (simp add: uvmalloc_def not_le [symmetric] Let_def del: of_nat_mult)
  show ?thesis unfolding run
    using uvmalloc_loop_spec [OF assms(1) order_refl assms(3)] le by (fastforce simp: max_absorb2)
qed

theorem uvmalloc_all_or_nothing_witness:
  "\<exists>(s :: kmem) t ps'. uvmalloc 0x80022000 0 4096 s = Ok 4096 t \<and> uvm_inv 0x80022000 1 ps' t \<and>
     zero_page (mem t) (upa (mem t) 0x80022000 0)"
proof -
  obtain s :: kmem and ps where s: "uvm_inv 0x80022000 0 ps s" "length ps = 3" using free_space by blast
  have p: "pages_of 4096 = 1" "pages_of 0 = 0" by (simp_all add: pages_of_def)
  then have "uvm_inv 0x80022000 (pages_of 0) ps s" using s(1) by simp
  from uvmalloc_all_or_nothing [OF this, of 4096] s(2) show ?thesis by (auto simp: p UPAGES_def)
qed

text \<open>C22: Shrinking an address space gives the pages back. \<open>uvmdealloc\<close> returns the smaller size, unmaps
  exactly the pages above it, puts their physical pages (and nothing else) on the free list, and
  keeps the mapping and contents of the pages below.\<close>

theorem uvmdealloc_returns_pages:
  assumes "uvm_inv pt (pages_of oldsz) ps s"
  shows "\<exists>t. uvmdealloc pt oldsz newsz s = Ok (min oldsz newsz) t \<and>
    (let k = min (pages_of oldsz) (pages_of newsz) in
     uvm_inv pt k (rev (map (upa (mem s) pt) [k..<pages_of oldsz]) @ ps) t \<and> keeps pt k s t)"
proof -
  obtain t where t: "uvmdealloc pt oldsz newsz s = Ok (if newsz < oldsz then newsz else oldsz) t"
    "shrunk pt (if newsz < oldsz then pages_of newsz else pages_of oldsz) (pages_of oldsz) ps s t"
    using uvmdealloc_pages [OF assms] by blast
  have m: "pages_of a \<le> pages_of b" if "a \<le> b" for a b
    using that by (simp add: pages_of_def word_le_nat_alt div_le_mono)
  have k: "(if newsz < oldsz then pages_of newsz else pages_of oldsz) = min (pages_of oldsz) (pages_of newsz)"
    using m [of newsz oldsz] m [of oldsz newsz] by (auto simp: min_def not_less dest: less_imp_le)
  have "pages_of oldsz \<le> UPAGES" using assms by (simp add: uvm_inv_def)
  then have "keeps pt (min (pages_of oldsz) (pages_of newsz)) s t"
    using shrunk_keeps [OF t(2)] unfolding k by simp
  moreover have "min oldsz newsz = (if newsz < oldsz then newsz else oldsz)"
    by (cases "oldsz \<le> newsz") (simp_all only: min_def not_le [symmetric] if_True if_False not_True_eq_False not_False_eq_True)
  ultimately show ?thesis using t unfolding k shrunk_def by (auto simp: Let_def)
qed

theorem uvmdealloc_returns_pages_witness:
  "\<exists>(s :: kmem) t ps'. uvmdealloc 0x80022000 4096 0 s = Ok 0 t \<and> uvm_inv 0x80022000 0 ps' t \<and>
     hd ps' = upa (mem s) 0x80022000 0"
proof -
  obtain s :: kmem and ps where s: "uvm_inv 0x80022000 1 ps s" using demo_space by blast
  have p: "pages_of 4096 = 1" "pages_of 0 = 0" by (simp_all add: pages_of_def)
  then have "uvm_inv 0x80022000 (pages_of 4096) ps s" using s by simp
  from uvmdealloc_returns_pages [OF this, of 0] obtain t where "uvmdealloc 0x80022000 4096 0 s = Ok 0 t"
    "uvm_inv 0x80022000 0 (upa (mem s) 0x80022000 0 # ps) t" by (auto simp: p Let_def)
  then show ?thesis by (intro exI [of _ s] exI [of _ t] exI [of _ "upa (mem s) 0x80022000 0 # ps"]) simp
qed



text \<open>C21: What \<open>copyout\<close> stored at a user address \<open>copyin\<close> reads back: after a successful \<open>copyout\<close>,
  \<open>copyin\<close> of the same range succeeds and delivers the same bytes, and changes no state.\<close>

theorem copyout_copyin_roundtrip:
  assumes "uvm_inv pt n ps s" "top_private (mem s) pt" "unat va + length src < 2 ^ 64"
    "copyout pt va src s = Ok 0 t"
  shows "copyin pt [] va (length src) t = Ok (0, src) t"
proof -
  obtain t' where t: "t' = t" "uvm_inv pt n ps t" "top_private (mem t) pt"
    "\<And>v. ubyte (mem t) pt v = (if unat va \<le> unat v \<and> unat v < unat va + length src
       then Some (src ! (unat v - unat va)) else ubyte (mem s) pt v)"
    using copyout_spec [OF assms(1-3)] assms(4) by auto
  have u: "ubyte (mem t) pt (va + of_nat i) = Some (src ! i)" if "i < length src" for i
  proof -
    have "unat (va + of_nat i) = unat va + i"
      using that assms(3) by (simp add: unat_word_ariths unat_of_nat)
    then show ?thesis using t(4) [of "va + of_nat i"] that by simp
  qed
  obtain r bs where b: "copyin pt [] va (length src) t = Ok (r, bs) t" "length bs \<le> length src"
    "\<And>i. i < length bs \<Longrightarrow> ubyte (mem t) pt (va + of_nat i) = Some (bs ! i)"
    "r = 0 \<and> length bs = length src \<or> r = -1 \<and> length bs < length src \<and> ubyte (mem t) pt (va + of_nat (length bs)) = None"
    using copyin_spec [OF t(2,3) assms(3), of "[]"] by auto
  then have l: "length bs = length src" "r = 0" using u by auto
  have "bs = src" using b(3) u l by (intro nth_equalityI) auto
  then show ?thesis using b(1) l by simp
qed

theorem copyout_copyin_roundtrip_witness:
  "\<exists>(s :: kmem) t. copyout 0x80022000 4 [1, 2, 3] s = Ok 0 t \<and> copyin 0x80022000 [] 4 3 t = Ok (0, [1, 2, 3]) t"
proof -
  obtain s :: kmem and ps where s: "uvm_inv 0x80022000 1 ps s" "top_private (mem s) 0x80022000"
    "\<And>va. unat va < 4096 \<Longrightarrow> ubyte (mem s) 0x80022000 va \<noteq> None" using demo_space by blast
  have "\<forall>i < length [1, 2, 3 :: uchar]. ubyte (mem s) 0x80022000 (4 + of_nat i) \<noteq> None"
    using s(3) by (auto simp: less_Suc_eq numeral_3_eq_3)
  then obtain t where t: "copyout 0x80022000 4 [1, 2, 3] s = Ok 0 t"
    using copyout_spec [OF s(1,2), of 4 "[1, 2, 3]"] by auto
  then show ?thesis using copyout_copyin_roundtrip [OF s(1,2) _ t] by (auto simp: numeral_3_eq_3)
qed

end
