(* ===== verification/Proc_State.thy ===== *)
theory Proc_State
  imports Vm "HOL-Library.Signed_Division"
begin

text \<open>
  The process table and the operations of \<open>kernel/proc.c\<close> that only change the state of table
  entries: identification of the running process, switching to the scheduler, sleep and wakeup,
  kill, and giving children to init. A pointer \<open>struct proc *\<close> is the index in \<open>proc[NPROC]\<close>,
  a null pointer is \<open>None\<close>. C \<open>int\<close> values are 32-bit words, compared as signed where the code
  compares \<open>int\<close>s. A sleep channel is the address of a kernel object, here a value of \<open>chan\<close>.

  A process that calls \<open>sched()\<close> stops there with the outcome \<open>Swtch\<close>; what it does when it is
  scheduled again is the corresponding \<open>\<dots>_resume\<close> operation.
\<close>

section \<open>State\<close>

datatype procstate = UNUSED | USED | SLEEPING | RUNNABLE | RUNNING | ZOMBIE

datatype chan =
    NoChan | ChanTicks | ChanProc nat | ChanLog | ChanSleeplock lockid
  | ChanPipeRead uint64 | ChanPipeWrite uint64 | ChanCons | ChanUart | ChanDiskFree | ChanBuf nat

record pcontext =
  ctx_ra :: uint64
  ctx_sp :: uint64
  ctx_s :: "nat \<Rightarrow> uint64"

record proc =
  p_state :: procstate
  p_chan :: chan
  p_killed :: int32
  p_xstate :: int32
  p_pid :: int32
  p_sysCallCnt :: int32
  p_schedCnt :: int32
  p_tickets :: int32
  p_range_beginning :: int32
  p_range_end :: int32
  p_stride_pass :: int32
  p_parent :: "nat option"
  p_kstack :: uint64
  p_sz :: uint64
  p_pagetable :: uint64
  p_trapframe :: uint64
  p_context :: pcontext
  p_ofile :: "nat \<Rightarrow> nat option"
  p_cwd :: "nat option"
  p_name :: "uchar list"

text \<open>The scheduler chosen by \<open>LAB2\<close> in the Makefile.\<close>

datatype lab2 = LOTTERY | STRIDE | ROUND_ROBIN

record kproc = vm +
  procs :: "nat \<Rightarrow> proc"
  initproc :: "nat option"
  nextpid :: int32
  sched_config :: lab2
  total_tickets :: int32
  set_cnt :: int32
  r_x :: uint
  ticks :: uint
  forkret_addr :: uint64

definition upd_proc :: "nat \<Rightarrow> (proc \<Rightarrow> proc) \<Rightarrow> 'a kproc_scheme \<Rightarrow> 'a kproc_scheme" where
  "upd_proc i f s = s\<lparr>procs := (procs s)(i := f (procs s i))\<rparr>"

text \<open>Offsets in the trapframe page.\<close>

definition tf_kernel_satp :: uint64 where "tf_kernel_satp = 0"
definition tf_kernel_sp :: uint64 where "tf_kernel_sp = 8"
definition tf_kernel_trap :: uint64 where "tf_kernel_trap = 16"
definition tf_epc :: uint64 where "tf_epc = 24"
definition tf_kernel_hartid :: uint64 where "tf_kernel_hartid = 32"
definition tf_sp :: uint64 where "tf_sp = 48"
definition tf_a0 :: uint64 where "tf_a0 = 112"
definition tf_a1 :: uint64 where "tf_a1 = 120"
definition tf_a2 :: uint64 where "tf_a2 = 128"
definition tf_a3 :: uint64 where "tf_a3 = 136"
definition tf_a4 :: uint64 where "tf_a4 = 144"
definition tf_a5 :: uint64 where "tf_a5 = 152"
definition tf_a7 :: uint64 where "tf_a7 = 168"
definition tf_size :: uint where "tf_size = 288"

section \<open>The process table at boot, the running process\<close>

fun procinit_loop :: "nat \<Rightarrow> 'a kproc_scheme \<Rightarrow> 'a kproc_scheme" where
  "procinit_loop 0 s = s"
| "procinit_loop (Suc n) s =
    (let i = NPROC - Suc n;
         s = initlock (proc_lock i) ''proc'' s;
         s = upd_proc i (\<lambda>p. p\<lparr>p_kstack := KSTACK (of_nat i)\<rparr>) s
     in procinit_loop n s)"

definition procinit :: "'a kproc_scheme \<Rightarrow> 'a kproc_scheme" where
  "procinit s =
    (let s = initlock pid_lock ''nextpid'' s;
         s = initlock wait_lock ''wait_lock'' s;
         s = (if sched_config s = LOTTERY \<or> sched_config s = STRIDE
              then initlock tickets_lock ''tickets_lock'' s else s)
     in procinit_loop NPROC s)"

definition myproc :: "'a machine_scheme \<Rightarrow> (nat option, 'a machine_scheme) res" where
  "myproc s =
    (let s = push_off s;
         p = cpu_proc (mycpu s)
     in bind (pop_off s) (\<lambda>_ s. Ok p s))"

definition allocpid :: "'a kproc_scheme \<Rightarrow> (int32, 'a kproc_scheme) res" where
  "allocpid s =
    bind (acquire pid_lock s) (\<lambda>_ s.
    let pid = nextpid s;
        s = s\<lparr>nextpid := nextpid s + 1\<rparr>
    in bind (release pid_lock s) (\<lambda>_ s. Ok pid s))"

section \<open>Switching to the scheduler\<close>

definition sched :: "'a kproc_scheme \<Rightarrow> (unit, 'a kproc_scheme) res" where
  "sched s =
    bind (myproc s) (\<lambda>po s.
    case po of
      None \<Rightarrow> Undef
    | Some p \<Rightarrow>
        if \<not> holding (proc_lock p) s then Panic ''sched p->lock''
        else if noff (mycpu s) \<noteq> 1 then Panic ''sched locks''
        else if p_state (procs s p) = RUNNING then Panic ''sched running''
        else if intr_get s then Panic ''sched interruptible''
        else Swtch s)"

text \<open>
  The code of \<open>sched\<close> after \<open>swtch()\<close>: \<open>intena_saved\<close> is the local variable that holds
  \<open>mycpu()->intena\<close> from before.
\<close>

definition sched_resume :: "bool \<Rightarrow> 'a machine_scheme \<Rightarrow> 'a machine_scheme" where
  "sched_resume intena_saved s = set_mycpu ((mycpu s)\<lparr>intena := intena_saved\<rparr>) s"

definition yield :: "'a kproc_scheme \<Rightarrow> (unit, 'a kproc_scheme) res" where
  "yield s =
    bind (myproc s) (\<lambda>po s.
    case po of
      None \<Rightarrow> Undef
    | Some p \<Rightarrow>
        bind (acquire (proc_lock p) s) (\<lambda>_ s.
        let s = upd_proc p (\<lambda>q. q\<lparr>p_state := RUNNABLE\<rparr>) s in
        bind (sched s) (\<lambda>_ s. release (proc_lock p) s)))"

definition yield_resume :: "nat \<Rightarrow> bool \<Rightarrow> 'a kproc_scheme \<Rightarrow> (unit, 'a kproc_scheme) res" where
  "yield_resume p intena_saved s = release (proc_lock p) (sched_resume intena_saved s)"

definition sleep_tail :: "nat \<Rightarrow> lockid \<Rightarrow> 'a kproc_scheme \<Rightarrow> (unit, 'a kproc_scheme) res" where
  "sleep_tail p lk s =
    (let s = upd_proc p (\<lambda>q. q\<lparr>p_chan := NoChan\<rparr>) s in
     bind (release (proc_lock p) s) (\<lambda>_ s. acquire lk s))"

definition sleep :: "chan \<Rightarrow> lockid \<Rightarrow> 'a kproc_scheme \<Rightarrow> (unit, 'a kproc_scheme) res" where
  "sleep chn lk s =
    bind (myproc s) (\<lambda>po s.
    case po of
      None \<Rightarrow> Undef
    | Some p \<Rightarrow>
        bind (acquire (proc_lock p) s) (\<lambda>_ s.
        bind (release lk s) (\<lambda>_ s.
        let s = upd_proc p (\<lambda>q. q\<lparr>p_chan := chn\<rparr>) s;
            s = upd_proc p (\<lambda>q. q\<lparr>p_state := SLEEPING\<rparr>) s
        in bind (sched s) (\<lambda>_ s. sleep_tail p lk s))))"

definition sleep_resume ::
  "nat \<Rightarrow> lockid \<Rightarrow> bool \<Rightarrow> 'a kproc_scheme \<Rightarrow> (unit, 'a kproc_scheme) res" where
  "sleep_resume p lk intena_saved s = sleep_tail p lk (sched_resume intena_saved s)"

function wakeup_loop :: "nat \<Rightarrow> chan \<Rightarrow> 'a kproc_scheme \<Rightarrow> (unit, 'a kproc_scheme) res" where
  "wakeup_loop i chn s =
    (if i < NPROC then
       bind (myproc s) (\<lambda>po s.
       if po \<noteq> Some i then
         bind (acquire (proc_lock i) s) (\<lambda>_ s.
         let s = (if p_state (procs s i) = SLEEPING \<and> p_chan (procs s i) = chn
                  then upd_proc i (\<lambda>q. q\<lparr>p_state := RUNNABLE\<rparr>) s else s)
         in bind (release (proc_lock i) s) (\<lambda>_ s. wakeup_loop (Suc i) chn s))
       else wakeup_loop (Suc i) chn s)
     else Ok () s)"
  by pat_completeness auto
termination by (relation "measure (\<lambda>(i, c, s). NPROC - i)") auto

declare wakeup_loop.simps [simp del]

definition wakeup :: "chan \<Rightarrow> 'a kproc_scheme \<Rightarrow> (unit, 'a kproc_scheme) res" where
  "wakeup chn s = wakeup_loop 0 chn s"

function kill_loop :: "nat \<Rightarrow> int32 \<Rightarrow> 'a kproc_scheme \<Rightarrow> (int32, 'a kproc_scheme) res" where
  "kill_loop i pid s =
    (if i < NPROC then
       bind (acquire (proc_lock i) s) (\<lambda>_ s.
       if p_pid (procs s i) = pid then
         let s = upd_proc i (\<lambda>q. q\<lparr>p_killed := 1\<rparr>) s;
             s = (if p_state (procs s i) = SLEEPING
                  then upd_proc i (\<lambda>q. q\<lparr>p_state := RUNNABLE\<rparr>) s else s)
         in bind (release (proc_lock i) s) (\<lambda>_ s. Ok 0 s)
       else bind (release (proc_lock i) s) (\<lambda>_ s. kill_loop (Suc i) pid s))
     else Ok (-1) s)"
  by pat_completeness auto
termination by (relation "measure (\<lambda>(i, c, s). NPROC - i)") auto

declare kill_loop.simps [simp del]

definition kill :: "int32 \<Rightarrow> 'a kproc_scheme \<Rightarrow> (int32, 'a kproc_scheme) res" where
  "kill pid s = kill_loop 0 pid s"

function reparent_loop :: "nat \<Rightarrow> nat \<Rightarrow> 'a kproc_scheme \<Rightarrow> (unit, 'a kproc_scheme) res" where
  "reparent_loop i p s =
    (if i < NPROC then
       (if p_parent (procs s i) = Some p then
          let s = upd_proc i (\<lambda>q. q\<lparr>p_parent := initproc s\<rparr>) s in
          bind (wakeup (case initproc s of None \<Rightarrow> NoChan | Some j \<Rightarrow> ChanProc j) s) (\<lambda>_ s.
          reparent_loop (Suc i) p s)
        else reparent_loop (Suc i) p s)
     else Ok () s)"
  by pat_completeness auto
termination by (relation "measure (\<lambda>(i, p, s). NPROC - i)") auto

declare reparent_loop.simps [simp del]

definition reparent :: "nat \<Rightarrow> 'a kproc_scheme \<Rightarrow> (unit, 'a kproc_scheme) res" where
  "reparent p s = reparent_loop 0 p s"

section \<open>Copying to and from the running process or the kernel\<close>

datatype kaddr = UserAddr uint64 | KernAddr uint64

definition either_copyout :: "kaddr \<Rightarrow> uchar list \<Rightarrow> 'a kproc_scheme \<Rightarrow> (int32, 'a kproc_scheme) res" where
  "either_copyout dst src s =
    bind (myproc s) (\<lambda>po s.
    case dst of
      UserAddr va \<Rightarrow>
        (case po of None \<Rightarrow> Undef | Some p \<Rightarrow> copyout (p_pagetable (procs s p)) va src s)
    | KernAddr a \<Rightarrow> Ok 0 (s\<lparr>mem := wrbytes a src (mem s)\<rparr>))"

definition either_copyin :: "kaddr \<Rightarrow> nat \<Rightarrow> 'a kproc_scheme \<Rightarrow> (int32 \<times> uchar list, 'a kproc_scheme) res" where
  "either_copyin src len s =
    bind (myproc s) (\<lambda>po s.
    case src of
      UserAddr va \<Rightarrow>
        (case po of None \<Rightarrow> Undef | Some p \<Rightarrow> copyin (p_pagetable (procs s p)) [] va len s)
    | KernAddr a \<Rightarrow> Ok (0, rdbytes (mem s) a len) s)"

section \<open>Lemmas\<close>

lemma kproc_lock_simps [simp]:
  "procs (acquired l s) = procs s" "procs (touch s) = procs s"
  "nextpid (acquired l s) = nextpid s" "nextpid (touch s) = nextpid s"
  "total_tickets (acquired l s) = total_tickets s" "total_tickets (touch s) = total_tickets s"
  "set_cnt (acquired l s) = set_cnt s" "set_cnt (touch s) = set_cnt s"
  "r_x (acquired l s) = r_x s" "r_x (touch s) = r_x s"
  "initproc (acquired l s) = initproc s" "initproc (touch s) = initproc s"
  "sched_config (acquired l s) = sched_config s" "sched_config (touch s) = sched_config s"
  "ticks (acquired l s) = ticks s" "ticks (touch s) = ticks s"
  "forkret_addr (acquired l s) = forkret_addr s" "forkret_addr (touch s) = forkret_addr s"
  "kernel_pagetable (acquired l s) = kernel_pagetable s" "kernel_pagetable (touch s) = kernel_pagetable s"
  "trampoline (acquired l s) = trampoline s" "trampoline (touch s) = trampoline s"
  "etext (acquired l s) = etext s" "etext (touch s) = etext s"
  "unlocked l (s\<lparr>procs := x_procs\<rparr>) = unlocked l s" "quiet (s\<lparr>procs := x_procs\<rparr>) = quiet s"
  "mycpu (s\<lparr>procs := x_procs\<rparr>) = mycpu s" "holding l (s\<lparr>procs := x_procs\<rparr>) = holding l s"
  "unlocked l (s\<lparr>nextpid := x_nextpid\<rparr>) = unlocked l s" "quiet (s\<lparr>nextpid := x_nextpid\<rparr>) = quiet s"
  "mycpu (s\<lparr>nextpid := x_nextpid\<rparr>) = mycpu s" "holding l (s\<lparr>nextpid := x_nextpid\<rparr>) = holding l s"
  "unlocked l (s\<lparr>total_tickets := x_total_tickets\<rparr>) = unlocked l s" "quiet (s\<lparr>total_tickets := x_total_tickets\<rparr>) = quiet s"
  "mycpu (s\<lparr>total_tickets := x_total_tickets\<rparr>) = mycpu s" "holding l (s\<lparr>total_tickets := x_total_tickets\<rparr>) = holding l s"
  "unlocked l (s\<lparr>set_cnt := x_set_cnt\<rparr>) = unlocked l s" "quiet (s\<lparr>set_cnt := x_set_cnt\<rparr>) = quiet s"
  "mycpu (s\<lparr>set_cnt := x_set_cnt\<rparr>) = mycpu s" "holding l (s\<lparr>set_cnt := x_set_cnt\<rparr>) = holding l s"
  "unlocked l (s\<lparr>r_x := x_r_x\<rparr>) = unlocked l s" "quiet (s\<lparr>r_x := x_r_x\<rparr>) = quiet s"
  "mycpu (s\<lparr>r_x := x_r_x\<rparr>) = mycpu s" "holding l (s\<lparr>r_x := x_r_x\<rparr>) = holding l s"
  by (simp_all add: machine_defs)

lemma kproc_lock_upd [step_eqs]:
  "(acquired l s)\<lparr>procs := x_procs\<rparr> = acquired l (s\<lparr>procs := x_procs\<rparr>)"
  "(touch s)\<lparr>procs := x_procs\<rparr> = touch (s\<lparr>procs := x_procs\<rparr>)"
  "(acquired l s)\<lparr>nextpid := x_nextpid\<rparr> = acquired l (s\<lparr>nextpid := x_nextpid\<rparr>)"
  "(touch s)\<lparr>nextpid := x_nextpid\<rparr> = touch (s\<lparr>nextpid := x_nextpid\<rparr>)"
  "(acquired l s)\<lparr>total_tickets := x_total_tickets\<rparr> = acquired l (s\<lparr>total_tickets := x_total_tickets\<rparr>)"
  "(touch s)\<lparr>total_tickets := x_total_tickets\<rparr> = touch (s\<lparr>total_tickets := x_total_tickets\<rparr>)"
  "(acquired l s)\<lparr>set_cnt := x_set_cnt\<rparr> = acquired l (s\<lparr>set_cnt := x_set_cnt\<rparr>)"
  "(touch s)\<lparr>set_cnt := x_set_cnt\<rparr> = touch (s\<lparr>set_cnt := x_set_cnt\<rparr>)"
  "(acquired l s)\<lparr>r_x := x_r_x\<rparr> = acquired l (s\<lparr>r_x := x_r_x\<rparr>)"
  "(touch s)\<lparr>r_x := x_r_x\<rparr> = touch (s\<lparr>r_x := x_r_x\<rparr>)"
  by (simp_all add: machine_defs)

lemma mycpu_mem_upd [simp]:
  "mycpu (s\<lparr>mem := m\<rparr>) = mycpu s" "mycpu (s\<lparr>freelist := x\<rparr>) = mycpu s"
  "mycpu (s\<lparr>console := c\<rparr>) = mycpu s"
  by (simp_all add: machine_defs)

lemma myproc_eq [step_eqs]: "quiet s \<Longrightarrow> myproc s = Ok (cpu_proc (mycpu s)) (touch s)"
  by (cases s) (auto simp: myproc_def machine_defs fun_upd_idem_iff)

lemma upd_proc_simps [simp]:
  "unlocked l (upd_proc i f s) = unlocked l s" "quiet (upd_proc i f s) = quiet s"
  "mycpu (upd_proc i f s) = mycpu s" "holding l (upd_proc i f s) = holding l s"
  "procs (upd_proc i f s) j = (if j = i then f (procs s i) else procs s j)"
  "mem (upd_proc i f s) = mem s" "freelist (upd_proc i f s) = freelist s"
  "initproc (upd_proc i f s) = initproc s" "kmem_inv (upd_proc i f s) = kmem_inv s"
  by (simp_all add: upd_proc_def kmem_inv_def page_ok_def fun_eq_iff)

lemma upd_proc_lock_upd [step_eqs]:
  "upd_proc i f (acquired l s) = acquired l (upd_proc i f s)"
  "upd_proc i f (touch s) = touch (upd_proc i f s)"
  by (simp_all add: upd_proc_def kproc_lock_upd)

text \<open>Every lock of a process other than the running one is free.\<close>

definition others_unlocked :: "'a kproc_scheme \<Rightarrow> bool" where
  "others_unlocked s \<longleftrightarrow>
     (\<forall>i < NPROC. cpu_proc (mycpu s) \<noteq> Some i \<longrightarrow> unlocked (proc_lock i) s)"

lemma others_unlocked_simps [simp]:
  "others_unlocked (upd_proc i f s) = others_unlocked s"
  "others_unlocked (touch s) = others_unlocked s"
  "others_unlocked (s\<lparr>procs := g\<rparr>) = others_unlocked s"
  by (simp_all add: others_unlocked_def)

lemmas proc_eqs = lock_eqs myproc_eq kproc_lock_upd upd_proc_lock_upd kmem_lock_upd

text \<open>What \<open>wakeup\<close> and \<open>kill\<close> do to one entry of the table.\<close>

definition woken :: "chan \<Rightarrow> nat option \<Rightarrow> nat \<Rightarrow> proc \<Rightarrow> proc" where
  "woken chn cur i p =
     (if i < NPROC \<and> cur \<noteq> Some i \<and> p_state p = SLEEPING \<and> p_chan p = chn
      then p\<lparr>p_state := RUNNABLE\<rparr> else p)"

lemma wakeup_loop_eq:
  assumes "quiet s" "others_unlocked s"
  shows "wakeup_loop i chn (touch s) =
    Ok () (touch (s\<lparr>procs := \<lambda>j. if i \<le> j then woken chn (cpu_proc (mycpu s)) j (procs s j)
                                   else procs s j\<rparr>))"
  using assms
proof (induction "NPROC - i" arbitrary: i s)
  case 0
  then have "(\<lambda>j. if i \<le> j then woken chn (cpu_proc (mycpu s)) j (procs s j) else procs s j) = procs s"
    by (auto simp: woken_def fun_eq_iff)
  then show ?case using 0 by (simp add: wakeup_loop.simps [of i])
next
  case (Suc n)
  then have i: "i < NPROC" and n: "n = NPROC - Suc i" by simp_all
  let ?cur = "cpu_proc (mycpu s)"
  let ?s = "upd_proc i (woken chn ?cur i) s"
  have IH: "wakeup_loop (Suc i) chn (touch ?s) =
    Ok () (touch (?s\<lparr>procs := \<lambda>j. if Suc i \<le> j then woken chn ?cur j (procs ?s j) else procs ?s j\<rparr>))"
    using Suc.hyps(1) [OF n, of ?s] Suc.prems by (simp cong: if_cong)
  have same: "?s\<lparr>procs := \<lambda>j. if Suc i \<le> j then woken chn ?cur j (procs ?s j) else procs ?s j\<rparr>
    = s\<lparr>procs := \<lambda>j. if i \<le> j then woken chn ?cur j (procs s j) else procs s j\<rparr>"
  proof -
    have "(if Suc i \<le> j then woken chn ?cur j (procs ?s j) else procs ?s j)
        = (if i \<le> j then woken chn ?cur j (procs s j) else procs s j)" for j
      by (cases rule: linorder_cases [of j i]) auto
    then show ?thesis by (simp add: upd_proc_def)
  qed
  have "wakeup_loop i chn (touch s) = wakeup_loop (Suc i) chn (touch ?s)"
  proof (cases "?cur = Some i")
    case True
    then have "?s = s" by (simp add: upd_proc_def woken_def)
    then show ?thesis using True i Suc.prems by (simp add: wakeup_loop.simps [of i] proc_eqs)
  next
    case False
    then have u: "unlocked (proc_lock i) s" using i Suc.prems(2) by (simp add: others_unlocked_def)
    show ?thesis
    proof (cases "p_state (procs s i) = SLEEPING \<and> p_chan (procs s i) = chn")
      case True
      then have "?s = upd_proc i (\<lambda>q. q\<lparr>p_state := RUNNABLE\<rparr>) s"
        using False i by (simp add: upd_proc_def woken_def)
      then show ?thesis using True False i u Suc.prems
        by (simp add: wakeup_loop.simps [of i] proc_eqs)
    next
      case F: False
      then have "?s = s" by (auto simp: upd_proc_def woken_def)
      then show ?thesis using F False i u Suc.prems
        by (auto simp: wakeup_loop.simps [of i] proc_eqs)
    qed
  qed
  then show ?case using IH same by simp
qed

lemma wakeup_eq [step_eqs]:
  assumes "quiet s" "others_unlocked s"
  shows "wakeup chn s =
    Ok () (touch (s\<lparr>procs := \<lambda>j. woken chn (cpu_proc (mycpu s)) j (procs s j)\<rparr>))"
proof -
  have "wakeup_loop 0 chn s = wakeup_loop 0 chn (touch s)"
    using assms by (simp add: wakeup_loop.simps [of 0] myproc_eq NPROC_def)
  then show ?thesis using wakeup_loop_eq [OF assms, of 0 chn] by (simp add: wakeup_def)
qed

definition all_unlocked :: "'a kproc_scheme \<Rightarrow> bool" where
  "all_unlocked s \<longleftrightarrow> (\<forall>i < NPROC. unlocked (proc_lock i) s)"

lemma all_unlocked_simps [simp]:
  "all_unlocked (upd_proc i f s) = all_unlocked s" "all_unlocked (touch s) = all_unlocked s"
  "all_unlocked (s\<lparr>procs := g\<rparr>) = all_unlocked s"
  "all_unlocked (s\<lparr>mem := m\<rparr>) = all_unlocked s" "all_unlocked (s\<lparr>freelist := x\<rparr>) = all_unlocked s"
  by (simp_all add: all_unlocked_def)

lemma all_unlocked_others: "all_unlocked s \<Longrightarrow> others_unlocked s"
  by (simp add: all_unlocked_def others_unlocked_def)

definition killed_proc :: "proc \<Rightarrow> proc" where
  "killed_proc p = p\<lparr>p_killed := 1, p_state := (if p_state p = SLEEPING then RUNNABLE else p_state p)\<rparr>"

lemma kill_loop_eq:
  assumes "quiet s" "all_unlocked s"
  shows "kill_loop i pid (touch s) =
    (case find (\<lambda>j. p_pid (procs s j) = pid) [i..<NPROC] of
       None \<Rightarrow> Ok (-1) (touch s)
     | Some j \<Rightarrow> Ok 0 (touch (upd_proc j killed_proc s)))"
  using assms
proof (induction "NPROC - i" arbitrary: i)
  case 0
  then show ?case by (simp add: kill_loop.simps [of i])
next
  case (Suc n)
  then have i: "i < NPROC" and n: "n = NPROC - Suc i" by simp_all
  have u: "unlocked (proc_lock i) s" using i Suc.prems(2) by (simp add: all_unlocked_def)
  have list: "[i..<NPROC] = i # [Suc i..<NPROC]" using i by (simp add: upt_conv_Cons)
  show ?case
  proof (cases "p_pid (procs s i) = pid")
    case True
    have "upd_proc i killed_proc s =
      (if p_state (procs s i) = SLEEPING
       then upd_proc i (\<lambda>q. q\<lparr>p_state := RUNNABLE\<rparr>) (upd_proc i (\<lambda>q. q\<lparr>p_killed := 1\<rparr>) s)
       else upd_proc i (\<lambda>q. q\<lparr>p_killed := 1\<rparr>) s)"
      by (cases "procs s i") (simp add: upd_proc_def killed_proc_def)
    then show ?thesis using True i u list Suc.prems
      by (auto simp: kill_loop.simps [of i] proc_eqs)
  next
    case False
    then have "kill_loop i pid (touch s) = kill_loop (Suc i) pid (touch s)"
      using i u Suc.prems by (simp add: kill_loop.simps [of i] proc_eqs)
    then show ?thesis using Suc.hyps(1) [OF n] Suc.prems False list by simp
  qed
qed

lemma kill_eq [step_eqs]:
  assumes "quiet s" "all_unlocked s"
  shows "kill pid s =
    (case find (\<lambda>j. p_pid (procs s j) = pid) [0..<NPROC] of
       None \<Rightarrow> Ok (-1) (touch s)
     | Some j \<Rightarrow> Ok 0 (touch (upd_proc j killed_proc s)))"
proof -
  have "unlocked (proc_lock 0) s" using assms(2) by (simp add: all_unlocked_def NPROC_def)
  then have "kill_loop 0 pid s = kill_loop 0 pid (touch s)"
    using assms by (simp add: kill_loop.simps [of 0] proc_eqs NPROC_def)
  then show ?thesis using kill_loop_eq [OF assms, of 0 pid] by (simp add: kill_def)
qed

lemma sleep_eq [step_eqs]:
  assumes "quiet s" "noff (mycpu s) = 0" "cpu_proc (mycpu s) = Some p"
    "unlocked (proc_lock p) s" "unlocked lk s" "lk \<noteq> proc_lock p"
  shows "sleep chn lk (acquired lk s) =
    Swtch (acquired (proc_lock p) (upd_proc p (\<lambda>q. q\<lparr>p_chan := chn, p_state := SLEEPING\<rparr>) s))"
proof -
  have "acquired (proc_lock p) (acquired lk s) = acquired lk (acquired (proc_lock p) s)"
    using assms by (intro acquired_commute) auto
  moreover have "upd_proc p (\<lambda>q. q\<lparr>p_state := SLEEPING\<rparr>) (upd_proc p (\<lambda>q. q\<lparr>p_chan := chn\<rparr>) s)
    = upd_proc p (\<lambda>q. q\<lparr>p_chan := chn, p_state := SLEEPING\<rparr>) s"
    by (simp add: upd_proc_def)
  ultimately show ?thesis
    using assms by (simp add: sleep_def sched_def proc_eqs)
qed

lemma reparent_loop_eq:
  assumes "quiet s" "others_unlocked s" "initproc s = Some r" "r \<noteq> p"
    "cpu_proc (mycpu s) = Some p"
  shows "\<exists>t. reparent_loop i p (touch s) = Ok () (touch t) \<and> quiet t \<and> others_unlocked t \<and>
     initproc t = Some r \<and> mycpu t = mycpu s \<and>
     (\<forall>j. p_parent (procs t j) =
        (if i \<le> j \<and> j < NPROC \<and> p_parent (procs s j) = Some p then Some r else p_parent (procs s j))) \<and>
     (\<forall>j. procs t j = (procs s j)\<lparr>p_parent := p_parent (procs t j), p_state := p_state (procs t j)\<rparr>) \<and>
     (\<forall>j. p_state (procs t j) = p_state (procs s j) \<or>
          (p_state (procs s j) = SLEEPING \<and> p_chan (procs s j) = ChanProc r
           \<and> p_state (procs t j) = RUNNABLE))"
  using assms
proof (induction "NPROC - i" arbitrary: i s)
  case 0
  then show ?case
    by (intro exI [of _ s]) (auto simp: reparent_loop.simps [of i])
next
  case (Suc n)
  then have i: "i < NPROC" and n: "n = NPROC - Suc i" by simp_all
  show ?case
  proof (cases "p_parent (procs s i) = Some p")
    case True
    let ?u = "upd_proc i (\<lambda>q. q\<lparr>p_parent := Some r\<rparr>) s"
    define w where "w = ?u\<lparr>procs := \<lambda>j. woken (ChanProc r) (Some p) j (procs ?u j)\<rparr>"
    have step: "reparent_loop i p (touch s) = reparent_loop (Suc i) p (touch w)"
      using True i Suc.prems
      by (simp add: w_def reparent_loop.simps [of i] proc_eqs wakeup_eq)
    have pre: "quiet w" "others_unlocked w" "initproc w = Some r" "cpu_proc (mycpu w) = Some p"
      "mycpu w = mycpu s"
      using Suc.prems by (simp_all add: w_def)
    have pw: "p_parent (procs w j) = (if j = i then Some r else p_parent (procs s j))"
      "p_state (procs w j) = p_state (procs s j) \<or> (p_state (procs s j) = SLEEPING
         \<and> p_chan (procs s j) = ChanProc r \<and> p_state (procs w j) = RUNNABLE)"
      "p_chan (procs w j) = p_chan (procs s j)"
      "procs w j = (procs s j)\<lparr>p_parent := p_parent (procs w j), p_state := p_state (procs w j)\<rparr>" for j
      by (auto simp: w_def woken_def)
    obtain t where t: "reparent_loop (Suc i) p (touch w) = Ok () (touch t)" "quiet t"
      "others_unlocked t" "initproc t = Some r" "mycpu t = mycpu w"
      "\<forall>j. p_parent (procs t j) = (if Suc i \<le> j \<and> j < NPROC \<and> p_parent (procs w j) = Some p
             then Some r else p_parent (procs w j))"
      "\<forall>j. procs t j = (procs w j)\<lparr>p_parent := p_parent (procs t j), p_state := p_state (procs t j)\<rparr>"
      "\<forall>j. p_state (procs t j) = p_state (procs w j) \<or> (p_state (procs w j) = SLEEPING
         \<and> p_chan (procs w j) = ChanProc r \<and> p_state (procs t j) = RUNNABLE)"
      using Suc.hyps(1) [OF n pre(1-3) Suc.prems(4) pre(4)] by blast
    have par: "p_parent (procs t j) =
        (if i \<le> j \<and> j < NPROC \<and> p_parent (procs s j) = Some p then Some r else p_parent (procs s j))" for j
      using t(6) True i by (auto simp: pw(1))
    have full: "procs t j = (procs s j)\<lparr>p_parent := p_parent (procs t j), p_state := p_state (procs t j)\<rparr>" for j
      proof -
      have "procs t j = (procs s j)\<lparr>p_parent := p_parent (procs w j), p_state := p_state (procs w j),
        p_parent := p_parent (procs t j), p_state := p_state (procs t j)\<rparr>"
        using t(7) pw(4) [of j] by metis
      then show ?thesis by simp
    qed
    have st: "p_state (procs t j) = p_state (procs s j) \<or> (p_state (procs s j) = SLEEPING
           \<and> p_chan (procs s j) = ChanProc r \<and> p_state (procs t j) = RUNNABLE)" for j
      using t(8) pw(2,3) by metis
    show ?thesis
      by (intro exI [of _ t]) (use step t pre par full st in auto)
  next
    case False
    then have step: "reparent_loop i p (touch s) = reparent_loop (Suc i) p (touch s)"
      using i by (simp add: reparent_loop.simps [of i])
    have "(Suc i \<le> j \<and> j < NPROC \<and> p_parent (procs s j) = Some p) =
          (i \<le> j \<and> j < NPROC \<and> p_parent (procs s j) = Some p)" for j
      using False by (cases "j = i") auto
    then show ?thesis using Suc.hyps(1) [OF n Suc.prems] step by simp
  qed
qed

lemma acquire_spins:
  "lk_locked (locks s l) \<Longrightarrow> lk_cpu (locks s l) \<noteq> Some (tp s) \<Longrightarrow> acquire l s = Spin"
  by (simp add: acquire_def machine_defs)

lemma locks_upd_proc [simp]: "locks (upd_proc i f s) = locks s" "tp (upd_proc i f s) = tp s"
  by (simp_all add: upd_proc_def)

lemma wakeup_loop_spins:
  assumes "quiet s" "i \<le> p" "p < NPROC" "cpu_proc (mycpu s) \<noteq> Some p"
    "\<forall>j. i \<le> j \<and> j < p \<longrightarrow> unlocked (proc_lock j) s"
    "lk_locked (locks s (proc_lock p))" "lk_cpu (locks s (proc_lock p)) \<noteq> Some (tp s)"
  shows "wakeup_loop i chn s = Spin"
  using assms
proof (induction "p - i" arbitrary: i s)
  case 0
  then show ?case by (simp add: wakeup_loop.simps [of i] myproc_eq acquire_spins)
next
  case (Suc n)
  then have i: "i < p" "i < NPROC" "n = p - Suc i" "unlocked (proc_lock i) s" by simp_all
  define u where "u = (if cpu_proc (mycpu s) \<noteq> Some i \<and> p_state (procs s i) = SLEEPING \<and> p_chan (procs s i) = chn
                   then upd_proc i (\<lambda>q. q\<lparr>p_state := RUNNABLE\<rparr>) s else s)"
  have "wakeup_loop i chn s = wakeup_loop (Suc i) chn (touch u)"
    using i Suc.prems(1) by (simp add: u_def wakeup_loop.simps [of i] proc_eqs lock_eqs)
  moreover have "wakeup_loop (Suc i) chn (touch u) = Spin"
    using Suc.prems i by (intro Suc.hyps(1)) (auto simp: u_def)
  ultimately show ?case by simp
qed

section \<open>A concrete kernel state\<close>

text \<open>An empty process table on one idle hart.\<close>

definition bare_proc :: proc where
  "bare_proc = \<lparr>p_state = UNUSED, p_chan = NoChan, p_killed = 0, p_xstate = 0, p_pid = 0, p_sysCallCnt = 0,
     p_schedCnt = 0, p_tickets = 0, p_range_beginning = 0, p_range_end = 0, p_stride_pass = 0,
     p_parent = None, p_kstack = 0, p_sz = 0, p_pagetable = 0, p_trapframe = 0,
     p_context = \<lparr>ctx_ra = 0, ctx_sp = 0, ctx_s = (\<lambda>_. 0)\<rparr>, p_ofile = (\<lambda>_. None), p_cwd = None,
     p_name = replicate 16 0\<rparr>"

definition bare_kernel :: "lab2 \<Rightarrow> (nat \<Rightarrow> proc) \<Rightarrow> kproc" where
  "bare_kernel cfg f =
    \<lparr>tp = 0, cpus = (\<lambda>_. \<lparr>cpu_proc = None, noff = 0, intena = False\<rparr>), sie = (\<lambda>_. False),
     locks = (\<lambda>_. \<lparr>lk_locked = False, lk_name = [], lk_cpu = None\<rparr>),
     console = [], pr_locking = True, panicked = False, mem = (\<lambda>_. 0), freelist = 0, kend = 0x80021000,
     kernel_pagetable = 0, satp = 0, etext = 0x80008000, trampoline = 0x80007000,
     procs = f, initproc = None, nextpid = 1, sched_config = cfg, total_tickets = 0, set_cnt = 0,
     r_x = 37, ticks = 0, forkret_addr = 0x80001000\<rparr>"

lemma bare_proc_simps [simp]:
  "p_state bare_proc = UNUSED" "p_schedCnt bare_proc = 0" "p_tickets bare_proc = 0" "p_pid bare_proc = 0"
  "p_killed bare_proc = 0" "p_parent bare_proc = None" "p_stride_pass bare_proc = 0"
  by (simp_all add: bare_proc_def)

lemma bare_kernel_simps [simp]:
  "unlocked l (bare_kernel c f)" "quiet (bare_kernel c f)" "procs (bare_kernel c f) = f"
  "sched_config (bare_kernel c f) = c" "noff (mycpu (bare_kernel c f)) = 0"
  "cpu_proc (mycpu (bare_kernel c f)) = None" "all_unlocked (bare_kernel c f)"
  "total_tickets (bare_kernel c f) = 0" "r_x (bare_kernel c f) = 37"
  by (simp_all add: bare_kernel_def machine_defs all_unlocked_def)

section \<open>Properties\<close>

text \<open>C10: \<open>wakeup()\<close> wakes exactly the sleepers on its channel: called with no process lock of another
  process held, it returns, every process other than the caller that slept on the channel is
  runnable, and nothing else in the process table changed.\<close>

theorem wakeup_wakes_sleepers:
  assumes "quiet s" "others_unlocked s"
  shows "\<exists>t. wakeup chn s = Ok () t \<and>
    (\<forall>i. procs t i =
       (if i < NPROC \<and> cpu_proc (mycpu s) \<noteq> Some i \<and> p_state (procs s i) = SLEEPING \<and> p_chan (procs s i) = chn
        then (procs s i)\<lparr>p_state := RUNNABLE\<rparr> else procs s i))"
  using wakeup_eq [OF assms, of chn] by (auto simp: woken_def)

theorem wakeup_wakes_sleepers_witness:
  "\<exists>t. wakeup ChanTicks (bare_kernel LOTTERY (\<lambda>_. bare_proc\<lparr>p_state := SLEEPING, p_chan := ChanTicks\<rparr>)) = Ok () t \<and>
       p_state (procs t 3) = RUNNABLE"
proof -
  let ?s = "bare_kernel LOTTERY (\<lambda>_. bare_proc\<lparr>p_state := SLEEPING, p_chan := ChanTicks\<rparr>)"
  have "others_unlocked ?s" by (rule all_unlocked_others) simp
  from wakeup_wakes_sleepers [OF _ this, of ChanTicks] obtain t where
    "wakeup ChanTicks ?s = Ok () t" "procs t 3 = (bare_proc\<lparr>p_state := SLEEPING, p_chan := ChanTicks\<rparr>)\<lparr>p_state := RUNNABLE\<rparr>"
    by (auto simp: NPROC_def)
  then show ?thesis by auto
qed



text \<open>C11: \<open>kill()\<close> marks the first table entry with the given pid as killed, makes it runnable if it slept,
  and returns 0; with no such entry it returns -1 and changes nothing in the table.\<close>

theorem kill_marks_first_match:
  assumes "quiet s" "all_unlocked s"
  shows "(\<forall>j < NPROC. p_pid (procs s j) \<noteq> pid) \<and> (\<exists>t. kill pid s = Ok (-1) t \<and> procs t = procs s) \<or>
    (\<exists>j t. j < NPROC \<and> p_pid (procs s j) = pid \<and> (\<forall>i < j. p_pid (procs s i) \<noteq> pid) \<and>
       kill pid s = Ok 0 t \<and> p_killed (procs t j) = 1 \<and>
       p_state (procs t j) = (if p_state (procs s j) = SLEEPING then RUNNABLE else p_state (procs s j)) \<and>
       (\<forall>i. i \<noteq> j \<longrightarrow> procs t i = procs s i))"
proof (cases "find (\<lambda>j. p_pid (procs s j) = pid) [0..<NPROC]")
  case None
  then have "kill pid s = Ok (-1) (touch s)" using kill_eq [OF assms, of pid] by simp
  moreover have "\<forall>j < NPROC. p_pid (procs s j) \<noteq> pid" using None by (simp add: find_None_iff)
  ultimately show ?thesis by simp
next
  case (Some j)
  then obtain k where "k < NPROC" "j = k" "p_pid (procs s k) = pid" "\<forall>i<k. p_pid (procs s i) \<noteq> pid"
    by (auto simp: find_Some_iff)
  then show ?thesis using kill_eq [OF assms, of pid] Some
    by (intro disjI2 exI [of _ j]) (simp add: killed_proc_def)
qed

theorem kill_marks_first_match_witness:
  "\<exists>t. kill 7 (bare_kernel LOTTERY ((\<lambda>_. bare_proc)(2 := bare_proc\<lparr>p_pid := 7, p_state := SLEEPING\<rparr>))) = Ok 0 t \<and>
       p_state (procs t 2) = RUNNABLE"
  using kill_marks_first_match [of "bare_kernel LOTTERY ((\<lambda>_. bare_proc)(2 := bare_proc\<lparr>p_pid := 7, p_state := SLEEPING\<rparr>))" 7]
  by (auto simp: NPROC_def split: if_splits)

end
