(* ===== verification/Sched.thy ===== *)
theory Sched
  imports Proc_State
begin

unbundle bit_operations_syntax

text \<open>
  The schedulers of \<open>kernel/proc.c\<close>: tickets and their winning ranges, the lottery, the stride and
  the round-robin version of \<open>scheduler()\<close>, the random number generator and the printed statistics.
  \<open>scheduler()\<close> never returns; one pass of its loop up to \<open>swtch()\<close> is \<open>scheduler_iter\<close> (outcome
  \<open>Swtch\<close> when it switched to a process), and what follows the switch is \<open>scheduler_return\<close>.
  Additions on \<open>int\<close> wrap at 32 bits. Division by zero is \<open>Undef\<close>.
\<close>

section \<open>Tickets\<close>

definition STRIDE_NUM :: int where "STRIDE_NUM = 60"

definition stride_of :: "int32 \<Rightarrow> int32 option" where
  "stride_of n = (if n = 0 then None else Some (word_of_int (STRIDE_NUM sdiv sint n)))"

fun calculate_loop :: "nat \<Rightarrow> 'a kproc_scheme \<Rightarrow> 'a kproc_scheme" where
  "calculate_loop 0 s = s"
| "calculate_loop (Suc n) s =
    (let i = NPROC - Suc n;
         p = procs s i;
         s = (if p_state p \<noteq> UNUSED \<and> p_tickets p \<noteq> 0 then
                let s = upd_proc i (\<lambda>q. q\<lparr>p_range_beginning := total_tickets s + 1\<rparr>) s;
                    s = upd_proc i (\<lambda>q. q\<lparr>p_range_end := total_tickets s + p_tickets p\<rparr>) s
                in s\<lparr>total_tickets := total_tickets s + p_tickets p\<rparr>
              else s)
     in calculate_loop n s)"

definition calculate_procs_ticket :: "'a kproc_scheme \<Rightarrow> 'a kproc_scheme" where
  "calculate_procs_ticket s = calculate_loop NPROC (s\<lparr>total_tickets := 0\<rparr>)"

fun clear_schedCnt_loop :: "nat \<Rightarrow> 'a kproc_scheme \<Rightarrow> 'a kproc_scheme" where
  "clear_schedCnt_loop 0 s = s"
| "clear_schedCnt_loop (Suc n) s =
    (let i = NPROC - Suc n;
         st = p_state (procs s i);
         s = (if st = RUNNABLE \<or> st = RUNNING \<or> st = SLEEPING
              then upd_proc i (\<lambda>q. q\<lparr>p_schedCnt := 0\<rparr>) s else s)
     in clear_schedCnt_loop n s)"

definition set_proc_tickets :: "nat option \<Rightarrow> int32 \<Rightarrow> 'a kproc_scheme \<Rightarrow> (unit, 'a kproc_scheme) res" where
  "set_proc_tickets po n s =
    (case po of
       None \<Rightarrow> printf (Some ''set_proc_tickets null pointer p\<newline>'') [] s
     | Some p \<Rightarrow>
         bind (acquire tickets_lock s) (\<lambda>_ s.
         let s = upd_proc p (\<lambda>q. q\<lparr>p_tickets := n\<rparr>) s in
         bind (if sched_config s = STRIDE then
                 (case stride_of n of
                    None \<Rightarrow> Undef
                  | Some d \<Rightarrow> Ok () (upd_proc p (\<lambda>q. q\<lparr>p_stride_pass := d\<rparr>) s))
               else Ok () s) (\<lambda>_ s.
         let s = (if sched_config s = LOTTERY then calculate_procs_ticket s else s) in
         bind (release tickets_lock s) (\<lambda>_ s.
         let s = s\<lparr>set_cnt := set_cnt s + 1\<rparr> in
         if set_cnt s = 3
         then printf (Some ''********** Clear schedCnt\<newline>'') [] (clear_schedCnt_loop NPROC s)
         else Ok () s))))"

section \<open>Choosing a process\<close>

definition rand_int :: "'a kproc_scheme \<Rightarrow> uint \<times> 'a kproc_scheme" where
  "rand_int s =
    (let x = r_x s;
         x = x XOR push_bit 13 x;
         x = x XOR drop_bit 17 x;
         x = x XOR push_bit 5 x
     in (x, s\<lparr>r_x := x\<rparr>))"

text \<open>The search loop of the lottery; the comparisons are unsigned, as \<open>winner_ticket\<close> is.\<close>

fun lottery_loop :: "nat \<Rightarrow> uint \<Rightarrow> 'a kproc_scheme \<Rightarrow> nat option" where
  "lottery_loop 0 w s = None"
| "lottery_loop (Suc n) w s =
    (let i = NPROC - Suc n; p = procs s i in
     if p_state p \<noteq> UNUSED \<and> p_tickets p \<noteq> 0 \<and> p_range_beginning p \<le> w \<and> w \<le> p_range_end p
     then Some i
     else lottery_loop n w s)"

text \<open>
  \<open>findWinner()\<close>, which the source compiles only with \<open>ENABLE_FINDWINNER_FUN\<close>; here
  \<open>winner_ticket\<close> is an \<open>int\<close> and the comparisons and the remainder are signed.
\<close>

fun findWinner_loop :: "nat \<Rightarrow> int32 \<Rightarrow> 'a kproc_scheme \<Rightarrow> nat option" where
  "findWinner_loop 0 w s = None"
| "findWinner_loop (Suc n) w s =
    (let i = NPROC - Suc n; p = procs s i in
     if p_state p \<noteq> UNUSED \<and> p_tickets p \<noteq> 0 \<and> p_range_beginning p \<le>s w \<and> w \<le>s p_range_end p
     then Some i
     else findWinner_loop n w s)"

definition findWinner :: "int32 \<Rightarrow> 'a kproc_scheme \<Rightarrow> (nat option, 'a kproc_scheme) res" where
  "findWinner random s =
    bind (acquire tickets_lock s) (\<lambda>_ s.
    if total_tickets s = 0 then bind (release tickets_lock s) (\<lambda>_ s. Ok None s)
    else
      let w = word_of_int (sint random smod sint (total_tickets s)) + 1 in
      bind (printf (Some ''findWinner winner_ticket = %d \<newline>'') [ArgInt w] s) (\<lambda>_ s.
      let winner = findWinner_loop NPROC w s in
      bind (release tickets_lock s) (\<lambda>_ s. Ok winner s)))"

fun first_runnable :: "nat \<Rightarrow> 'a kproc_scheme \<Rightarrow> nat option" where
  "first_runnable 0 s = None"
| "first_runnable (Suc n) s =
    (let i = NPROC - Suc n in
     if p_state (procs s i) \<noteq> RUNNABLE then first_runnable n s else Some i)"

fun min_stride_loop :: "nat \<Rightarrow> nat \<Rightarrow> 'a kproc_scheme \<Rightarrow> nat" where
  "min_stride_loop 0 minp s = minp"
| "min_stride_loop (Suc n) minp s =
    (let j = NPROC - Suc n; p = procs s j in
     if p_state p \<noteq> RUNNABLE then min_stride_loop n minp s
     else if 0 <s p_tickets p \<and> p_stride_pass p <s p_stride_pass (procs s minp)
     then min_stride_loop n j s
     else min_stride_loop n minp s)"

definition findMinStride :: "'a kproc_scheme \<Rightarrow> nat option" where
  "findMinStride s =
    (case first_runnable NPROC s of
       None \<Rightarrow> None
     | Some i \<Rightarrow> Some (min_stride_loop (NPROC - (i + 1)) i s))"

section \<open>Statistics\<close>

fun count_procs :: "nat \<Rightarrow> 'a kproc_scheme \<Rightarrow> nat" where
  "count_procs 0 s = 0"
| "count_procs (Suc n) s =
    (if p_state (procs s (NPROC - Suc n)) \<noteq> UNUSED then 1 else 0) + count_procs n s"

fun print_each :: "string \<Rightarrow> nat \<Rightarrow> 'a kproc_scheme \<Rightarrow> (unit, 'a kproc_scheme) res" where
  "print_each fmt 0 s = Ok () s"
| "print_each fmt (Suc n) s =
    (let p = procs s (NPROC - Suc n) in
     bind (if p_state p \<noteq> UNUSED then printf (Some fmt) [ArgInt (p_pid p), ArgInt (p_schedCnt p)] s
           else Ok () s) (\<lambda>_ s. print_each fmt n s))"

definition print_sched_statistics_in_row :: "'a kproc_scheme \<Rightarrow> (unit, 'a kproc_scheme) res" where
  "print_sched_statistics_in_row s =
    (if count_procs NPROC s < 5 then Ok () s
     else bind (print_each ''pid:%d,%d,'' NPROC s) (\<lambda>_ s. printf (Some ''\<newline>'') [] s))"

definition print_sched_statistics :: "'a kproc_scheme \<Rightarrow> (unit, 'a kproc_scheme) res" where
  "print_sched_statistics s = print_each ''Process pid: %d sched count is: %d\<newline>'' NPROC s"

section \<open>The scheduler loop\<close>

definition set_cpu_proc :: "nat option \<Rightarrow> 'a machine_scheme \<Rightarrow> 'a machine_scheme" where
  "set_cpu_proc po s = set_mycpu ((mycpu s)\<lparr>cpu_proc := po\<rparr>) s"

definition scheduler_start :: "'a kproc_scheme \<Rightarrow> 'a kproc_scheme" where
  "scheduler_start s = set_cpu_proc None s"

text \<open>The code from \<open>acquire(&p->lock)\<close> to \<open>swtch()\<close>, or to \<open>release(&p->lock)\<close> if \<open>p\<close> is not runnable.\<close>

definition lottery_switch :: "nat \<Rightarrow> 'a kproc_scheme \<Rightarrow> (nat option, 'a kproc_scheme) res" where
  "lottery_switch p s =
    bind (acquire (proc_lock p) s) (\<lambda>_ s.
    if p_state (procs s p) = RUNNABLE then
      let s = upd_proc p (\<lambda>q. q\<lparr>p_state := RUNNING\<rparr>) s;
          s = upd_proc p (\<lambda>q. q\<lparr>p_schedCnt := p_schedCnt q + 1\<rparr>) s
      in Swtch (set_cpu_proc (Some p) s)
    else bind (release (proc_lock p) s) (\<lambda>_ s. Ok (Some p) s))"

definition stride_switch :: "nat \<Rightarrow> 'a kproc_scheme \<Rightarrow> (nat option, 'a kproc_scheme) res" where
  "stride_switch p s =
    bind (acquire (proc_lock p) s) (\<lambda>_ s.
    if p_state (procs s p) = RUNNABLE then
      let s = upd_proc p (\<lambda>q. q\<lparr>p_state := RUNNING\<rparr>) s;
          s = upd_proc p (\<lambda>q. q\<lparr>p_schedCnt := p_schedCnt q + 1\<rparr>) s;
          s = set_cpu_proc (Some p) s
      in case stride_of (p_tickets (procs s p)) of
           None \<Rightarrow> Undef
         | Some d \<Rightarrow> Swtch (upd_proc p (\<lambda>q. q\<lparr>p_stride_pass := p_stride_pass q + d\<rparr>) s)
    else bind (release (proc_lock p) s) (\<lambda>_ s. Ok (Some p) s))"

fun rr_loop :: "nat \<Rightarrow> 'a kproc_scheme \<Rightarrow> (nat option, 'a kproc_scheme) res" where
  "rr_loop 0 s = Ok (Some NPROC) s"
| "rr_loop (Suc n) s =
    (let p = NPROC - Suc n in
     bind (acquire (proc_lock p) s) (\<lambda>_ s.
     if p_state (procs s p) = RUNNABLE then
       let s = upd_proc p (\<lambda>q. q\<lparr>p_state := RUNNING\<rparr>) s;
           s = set_cpu_proc (Some p) s
       in bind (printf (Some ''scheduler swtch to pid : %d\<newline>'') [ArgInt (p_pid (procs s p))] s) (\<lambda>_ s.
          Swtch s)
     else bind (release (proc_lock p) s) (\<lambda>_ s. rr_loop n s)))"

text \<open>
  One pass of \<open>for(;;)\<close>. \<open>p\<close> is the local variable as the previous pass left it; the lottery
  uses it again when no process holds the drawn ticket.
\<close>

definition scheduler_iter :: "nat option \<Rightarrow> 'a kproc_scheme \<Rightarrow> (nat option, 'a kproc_scheme) res" where
  "scheduler_iter p s =
    (let s = intr_on s in
     case sched_config s of
       STRIDE \<Rightarrow> (case findMinStride s of None \<Rightarrow> Ok None s | Some m \<Rightarrow> stride_switch m s)
     | LOTTERY \<Rightarrow>
         (let (random, s) = rand_int s in
          bind (acquire tickets_lock s) (\<lambda>_ s.
          if total_tickets s = 0 then Undef
          else
            let w = random mod total_tickets s + 1;
                p = (case lottery_loop NPROC w s of None \<Rightarrow> p | Some i \<Rightarrow> Some i)
            in bind (release tickets_lock s) (\<lambda>_ s.
               case p of None \<Rightarrow> Undef | Some i \<Rightarrow> lottery_switch i s)))
     | ROUND_ROBIN \<Rightarrow> rr_loop NPROC s)"

text \<open>After the process \<open>p\<close> switched back.\<close>

definition scheduler_return :: "nat \<Rightarrow> 'a kproc_scheme \<Rightarrow> (nat option, 'a kproc_scheme) res" where
  "scheduler_return p s =
    (if sched_config s = ROUND_ROBIN then
       let s = set_cpu_proc None s in
       bind (release (proc_lock p) s) (\<lambda>_ s. rr_loop (NPROC - (p + 1)) s)
     else
       bind (print_sched_statistics_in_row s) (\<lambda>_ s.
       let s = set_cpu_proc None s in
       bind (release (proc_lock p) s) (\<lambda>_ s. Ok (Some p) s)))"

section \<open>The winning ranges\<close>

text \<open>
  \<open>counted p\<close>: the entry takes part in the lottery. \<open>tickets_before f i\<close>: the tickets of the
  entries of the table \<open>f\<close> before \<open>i\<close>, as the code adds them up; \<open>ticket_count\<close> is the number
  without wrap-around.
\<close>

definition counted :: "proc \<Rightarrow> bool" where
  "counted p \<longleftrightarrow> p_state p \<noteq> UNUSED \<and> p_tickets p \<noteq> 0"

definition tickets_from :: "(nat \<Rightarrow> proc) \<Rightarrow> nat \<Rightarrow> nat \<Rightarrow> int32" where
  "tickets_from f a b = (\<Sum>j\<in>{a..<b}. if counted (f j) then p_tickets (f j) else 0)"

definition ticket_count :: "(nat \<Rightarrow> proc) \<Rightarrow> nat \<Rightarrow> nat" where
  "ticket_count f b = (\<Sum>j<b. if counted (f j) then unat (p_tickets (f j)) else 0)"

definition ranged :: "int32 \<Rightarrow> proc \<Rightarrow> proc" where
  "ranged before p =
     p\<lparr>p_range_beginning := before + 1, p_range_end := before + p_tickets p\<rparr>"

lemma ranged_simps [simp]:
  "p_state (ranged b p) = p_state p" "p_tickets (ranged b p) = p_tickets p"
  "p_schedCnt (ranged b p) = p_schedCnt p" "counted (ranged b p) = counted p"
  "p_range_beginning (ranged b p) = b + 1" "p_range_end (ranged b p) = b + p_tickets p"
  by (simp_all add: ranged_def counted_def)

lemma tickets_from_step:
  "i < j \<Longrightarrow> tickets_from f i j = (if counted (f i) then p_tickets (f i) else 0) + tickets_from f (Suc i) j"
  by (simp add: tickets_from_def sum.atLeast_Suc_lessThan)

lemma tickets_from_upd: "tickets_from (f(i := p)) (Suc i) j = tickets_from f (Suc i) j"
  unfolding tickets_from_def by (rule sum.cong) auto

lemma tickets_from_empty [simp]: "tickets_from f i i = 0"
  by (simp add: tickets_from_def)

definition ranged_table :: "(nat \<Rightarrow> proc) \<Rightarrow> int32 \<Rightarrow> nat \<Rightarrow> nat \<Rightarrow> proc" where
  "ranged_table f before a i =
    (if a \<le> i \<and> i < NPROC \<and> counted (f i) then ranged (before + tickets_from f a i) (f i) else f i)"

lemma ranged_table_simps [simp]:
  "counted (ranged_table f b a i) = counted (f i)" "p_tickets (ranged_table f b a i) = p_tickets (f i)"
  "p_state (ranged_table f b a i) = p_state (f i)" "p_schedCnt (ranged_table f b a i) = p_schedCnt (f i)"
  by (simp_all add: ranged_table_def)

lemma ranged_table_step:
  assumes "i < NPROC" "counted (f i)"
  shows "ranged_table (f(i := ranged b (f i))) (b + p_tickets (f i)) (Suc i) = ranged_table f b i"
proof
  fix j
  show "ranged_table (f(i := ranged b (f i))) (b + p_tickets (f i)) (Suc i) j = ranged_table f b i j"
    using assms
    by (cases j i rule: linorder_cases)
       (simp_all add: ranged_table_def tickets_from_upd tickets_from_step [of i j] add.assoc)
qed

lemma ranged_table_skip: "\<not> counted (f i) \<Longrightarrow> ranged_table f b (Suc i) = ranged_table f b i"
proof
  fix j assume "\<not> counted (f i)"
  then show "ranged_table f b (Suc i) j = ranged_table f b i j"
    by (cases j i rule: linorder_cases) (simp_all add: ranged_table_def tickets_from_step [of i j])
qed

lemma calculate_loop_eq:
  assumes "n \<le> NPROC"
  shows "calculate_loop n s =
    s\<lparr>procs := ranged_table (procs s) (total_tickets s) (NPROC - n),
      total_tickets := total_tickets s + tickets_from (procs s) (NPROC - n) NPROC\<rparr>"
  using assms
proof (induction n arbitrary: s)
  case 0
  have "ranged_table (procs s) (total_tickets s) NPROC = procs s"
    by (rule ext) (auto simp: ranged_table_def)
  then show ?case by simp
next
  case (Suc n)
  let ?i = "NPROC - Suc n"
  have i: "?i < NPROC" "NPROC - n = Suc ?i" using Suc.prems by simp_all
  note ih = Suc.IH [OF Suc_leD [OF Suc.prems], unfolded i(2)]
  show ?case
  proof (cases "counted (procs s ?i)")
    case True
    let ?t = "s\<lparr>procs := (procs s)(?i := ranged (total_tickets s) (procs s ?i)),
                total_tickets := total_tickets s + p_tickets (procs s ?i)\<rparr>"
    have step: "calculate_loop (Suc n) s = calculate_loop n ?t"
      using True by (simp add: counted_def upd_proc_def ranged_def Let_def)
    show ?thesis unfolding step ih
      using ranged_table_step [OF i(1), of "procs s"] True
      by (simp add: tickets_from_upd tickets_from_step [OF i(1)] add.assoc)
  next
    case False
    then have step: "calculate_loop (Suc n) s = calculate_loop n s"
      by (auto simp: counted_def Let_def)
    show ?thesis unfolding step ih using False ranged_table_skip [of "procs s" ?i]
      by (simp add: tickets_from_step [OF i(1)])
  qed
qed

lemma calculate_procs_ticket_eq:
  "calculate_procs_ticket s =
    s\<lparr>procs := ranged_table (procs s) 0 0, total_tickets := tickets_from (procs s) 0 NPROC\<rparr>"
  unfolding calculate_procs_ticket_def by (subst calculate_loop_eq) simp_all

lemma ticket_count_Suc:
  "ticket_count f (Suc i) = ticket_count f i + (if counted (f i) then unat (p_tickets (f i)) else 0)"
  by (simp add: ticket_count_def)

lemma ticket_count_mono: "i \<le> j \<Longrightarrow> ticket_count f i \<le> ticket_count f j"
  unfolding ticket_count_def by (rule sum_mono2) auto

lemma unat_tickets_from:
  "ticket_count f b < 2 ^ 32 \<Longrightarrow> unat (tickets_from f 0 b) = ticket_count f b"
proof (induction b)
  case 0
  then show ?case by (simp add: tickets_from_def ticket_count_def)
next
  case (Suc b)
  have lt: "ticket_count f b < 2 ^ 32" using Suc.prems ticket_count_mono [of b "Suc b" f] by simp
  have eq: "tickets_from f 0 (Suc b) = tickets_from f 0 b + (if counted (f b) then p_tickets (f b) else 0)"
    by (simp add: tickets_from_def)
  show ?case
    unfolding eq using Suc.prems Suc.IH [OF lt]
    by (subst unat_add_lem [THEN iffD1]) (auto simp: ticket_count_Suc split: if_splits)
qed

text \<open>
  The lottery as it should be: the entry that owns ticket number \<open>w\<close> when the tickets are numbered
  from 1 in table order.
\<close>

definition owner :: "(nat \<Rightarrow> proc) \<Rightarrow> nat \<Rightarrow> nat \<Rightarrow> bool" where
  "owner f w i \<longleftrightarrow> i < NPROC \<and> counted (f i) \<and> ticket_count f i < w \<and> w \<le> ticket_count f (Suc i)"

lemma owner_unique: "owner f w i \<Longrightarrow> owner f w j \<Longrightarrow> i = j"
proof (rule ccontr)
  assume "owner f w i" "owner f w j" "i \<noteq> j"
  moreover have "ticket_count f (Suc i) \<le> ticket_count f j \<or> ticket_count f (Suc j) \<le> ticket_count f i"
    using \<open>i \<noteq> j\<close> by (cases "i < j") (auto intro: ticket_count_mono)
  ultimately show False by (auto simp: owner_def)
qed

lemma owner_exists:
  assumes "0 < w" "w \<le> ticket_count f n" "n \<le> NPROC"
  shows "\<exists>i < n. owner f w i"
  using assms
proof (induction n)
  case 0
  then show ?case by (simp add: ticket_count_def)
next
  case (Suc n)
  show ?case
  proof (cases "w \<le> ticket_count f n")
    case True
    then show ?thesis using Suc by (auto intro: less_SucI)
  next
    case False
    then have "owner f w n" using Suc.prems by (auto simp: owner_def ticket_count_Suc split: if_splits)
    then show ?thesis by blast
  qed
qed

lemma owner_card: "counted (f i) \<Longrightarrow> i < NPROC \<Longrightarrow> card {w. owner f w i} = unat (p_tickets (f i))"
proof -
  assume "counted (f i)" "i < NPROC"
  then have "{w. owner f w i} = {ticket_count f i <.. ticket_count f (Suc i)}"
    by (auto simp: owner_def)
  then show "card {w. owner f w i} = unat (p_tickets (f i))"
    using \<open>counted (f i)\<close> by (simp add: ticket_count_Suc)
qed

text \<open>\<open>lottery_ready s\<close>: the ranges in the table are those \<open>calculate_procs_ticket\<close> writes.\<close>

definition lottery_ready :: "'a kproc_scheme \<Rightarrow> bool" where
  "lottery_ready s \<longleftrightarrow>
     (\<forall>i < NPROC. counted (procs s i) \<longrightarrow>
        p_range_beginning (procs s i) = tickets_from (procs s) 0 i + 1 \<and>
        p_range_end (procs s i) = tickets_from (procs s) 0 i + p_tickets (procs s i)) \<and>
     total_tickets s = tickets_from (procs s) 0 NPROC"

lemma tickets_from_cong:
  "(\<And>i. counted (f i) = counted (g i)) \<Longrightarrow> (\<And>i. p_tickets (f i) = p_tickets (g i)) \<Longrightarrow>
   tickets_from f a b = tickets_from g a b"
  unfolding tickets_from_def by (intro sum.cong) auto

lemma calculate_procs_ticket_ready: "lottery_ready (calculate_procs_ticket s)"
proof -
  have "tickets_from (ranged_table (procs s) 0 0) a b = tickets_from (procs s) a b" for a b
    by (rule tickets_from_cong) auto
  then show ?thesis by (simp add: lottery_ready_def calculate_procs_ticket_eq ranged_table_def)
qed

lemma range_owner:
  assumes "lottery_ready s" "ticket_count (procs s) NPROC < 2 ^ 32" "i < NPROC" "counted (procs s i)"
  shows "p_range_beginning (procs s i) \<le> w \<and> w \<le> p_range_end (procs s i) \<longleftrightarrow> owner (procs s) (unat w) i"
proof -
  let ?f = "procs s"
  have le: "ticket_count ?f (Suc i) < 2 ^ 32" "ticket_count ?f i < 2 ^ 32"
    using assms(2,3) ticket_count_mono [of "Suc i" NPROC ?f] ticket_count_mono [of i NPROC ?f] by auto
  have t: "0 < unat (p_tickets (?f i))" using assms(4) by (simp add: counted_def unat_gt_0)
  have e: "unat (p_range_end (?f i)) = ticket_count ?f (Suc i)"
  proof -
    have "p_range_end (?f i) = tickets_from ?f 0 (Suc i)"
      using assms by (simp add: lottery_ready_def tickets_from_def)
    then show ?thesis using unat_tickets_from [OF le(1)] by simp
  qed
  have "ticket_count ?f i + 1 \<le> ticket_count ?f (Suc i)"
    using t assms(4) by (simp add: ticket_count_Suc)
  then have "unat (tickets_from ?f 0 i + of_nat 1) = ticket_count ?f i + 1"
    using le unat_tickets_from [OF le(2)] by (subst unat_add_lt) auto
  then have b: "unat (p_range_beginning (?f i)) = ticket_count ?f i + 1"
    using assms by (simp add: lottery_ready_def)
  show ?thesis using assms(3,4) by (simp add: word_le_nat_alt b e owner_def Suc_le_eq)
qed

lemma lottery_loop_finds:
  assumes "lottery_ready s" "ticket_count (procs s) NPROC < 2 ^ 32" "n \<le> NPROC"
  shows "lottery_loop n w s = Some i \<longleftrightarrow> NPROC - n \<le> i \<and> owner (procs s) (unat w) i"
  using assms(3)
proof (induction n)
  case 0
  then show ?case by (auto simp: owner_def)
next
  case (Suc n)
  let ?k = "NPROC - Suc n"
  have k: "?k < NPROC" "NPROC - n = Suc ?k" using Suc.prems by simp_all
  show ?case
  proof (cases "owner (procs s) (unat w) ?k")
    case True
    then have "counted (procs s ?k)" by (simp add: owner_def)
    with True range_owner [OF assms(1,2) k(1) this, of w] have "lottery_loop (Suc n) w s = Some ?k"
      by (simp add: counted_def Let_def)
    then show ?thesis using True owner_unique [OF True, of i] by auto
  next
    case False
    then have "lottery_loop (Suc n) w s = lottery_loop n w s"
      using range_owner [OF assms(1,2) k(1), of w] by (auto simp: counted_def Let_def)
    moreover have "Suc ?k \<le> i \<longleftrightarrow> ?k \<le> i \<and> i \<noteq> ?k" by auto
    ultimately show ?thesis using Suc k False by auto
  qed
qed

text \<open>The number of random numbers that draw a given ticket.\<close>

lemma card_residue:
  fixes N T k :: nat
  assumes "0 < T" "k < T"
  shows "N div T \<le> card {r. r < N \<and> r mod T = k} \<and> card {r. r < N \<and> r mod T = k} \<le> N div T + 1"
proof
  let ?A = "{r. r < N \<and> r mod T = k}"
  have "(\<lambda>d. T * d + k) ` {..<N div T} \<subseteq> ?A"
  proof
    fix r assume "r \<in> (\<lambda>d. T * d + k) ` {..<N div T}"
    then obtain d where d: "r = T * d + k" "Suc d \<le> N div T" using Suc_leI by blast
    then have "T * Suc d \<le> T * (N div T)" by (intro mult_le_mono2)
    also have "\<dots> \<le> N" by simp
    finally show "r \<in> ?A" using assms(2) d(1) by simp
  qed
  then have "card ((\<lambda>d. T * d + k) ` {..<N div T}) \<le> card ?A" by (intro card_mono) auto
  moreover have "card ((\<lambda>d. T * d + k) ` {..<N div T}) = N div T"
    using assms(1) by (subst card_image) (auto simp: inj_on_def)
  ultimately show "N div T \<le> card ?A" by simp
  have "inj_on (\<lambda>r. r div T) ?A"
    by (rule inj_onI) (metis (mono_tags, lifting) mem_Collect_eq mult_div_mod_eq)
  moreover have "(\<lambda>r. r div T) ` ?A \<subseteq> {..N div T}" by (auto intro: div_le_mono)
  ultimately show "card ?A \<le> N div T + 1" using card_inj_on_le [of "\<lambda>r. r div T" ?A "{..N div T}"] by simp
qed

lemma card_UN_bounds:
  fixes A :: "nat \<Rightarrow> nat set"
  assumes "finite W" "\<And>w. w \<in> W \<Longrightarrow> finite (A w) \<and> q \<le> card (A w) \<and> card (A w) \<le> q + 1"
    "\<And>v w. v \<in> W \<Longrightarrow> w \<in> W \<Longrightarrow> v \<noteq> w \<Longrightarrow> A v \<inter> A w = {}"
  shows "card W * q \<le> card (\<Union>w\<in>W. A w) \<and> card (\<Union>w\<in>W. A w) \<le> card W * (q + 1)"
proof -
  have "card (\<Union>w\<in>W. A w) = (\<Sum>w\<in>W. card (A w))"
    using assms by (intro card_UN_disjoint) auto
  moreover have "card W * q \<le> (\<Sum>w\<in>W. card (A w))"
    using assms sum_bounded_below [of W q "\<lambda>w. card (A w)"] by simp
  moreover have "(\<Sum>w\<in>W. card (A w)) \<le> card W * (q + 1)"
    using assms sum_bounded_above [of W "\<lambda>w. card (A w)" "q + 1"] by simp
  ultimately show ?thesis by simp
qed

lemma owner_bounds:
  "owner f w i \<Longrightarrow> 0 < w \<and> w \<le> ticket_count f NPROC"
  using ticket_count_mono [of "Suc i" NPROC f] by (auto simp: owner_def)

text \<open>The process that the lottery of the scheduler picks for the random number \<open>random\<close>.\<close>

definition lottery_pick :: "uint \<Rightarrow> 'a kproc_scheme \<Rightarrow> nat option" where
  "lottery_pick random s = lottery_loop NPROC (random mod total_tickets s + 1) s"

lemma lottery_pick_owner:
  assumes "lottery_ready s" "0 < ticket_count (procs s) NPROC" "ticket_count (procs s) NPROC < 2 ^ 32"
  shows "lottery_pick r s = Some i \<longleftrightarrow> owner (procs s) (unat r mod ticket_count (procs s) NPROC + 1) i"
proof -
  let ?T = "ticket_count (procs s) NPROC"
  have T: "unat (total_tickets s) = ?T"
    using assms unat_tickets_from by (simp add: lottery_ready_def)
  have m: "unat r mod ?T < ?T" using assms(2) by simp
  then have "unat (r mod total_tickets s) + 1 < 2 ^ 32" using assms(3) by (simp add: unat_mod T)
  then have "unat (r mod total_tickets s + of_nat 1) = unat r mod ?T + 1"
    by (subst unat_add_lt) (simp_all add: unat_mod T)
  then show ?thesis
    using lottery_loop_finds [OF assms(1,3), of NPROC] by (simp add: lottery_pick_def)
qed

lemma lottery_pick_card:
  assumes "lottery_ready s" "0 < ticket_count (procs s) NPROC" "ticket_count (procs s) NPROC < 2 ^ 32"
    "i < NPROC" "counted (procs s i)"
  shows "unat (p_tickets (procs s i)) * (2 ^ 32 div ticket_count (procs s) NPROC)
           \<le> card {r. lottery_pick r s = Some i}"
    "card {r. lottery_pick r s = Some i}
           \<le> unat (p_tickets (procs s i)) * (2 ^ 32 div ticket_count (procs s) NPROC + 1)"
proof -
  let ?T = "ticket_count (procs s) NPROC" and ?W = "{w. owner (procs s) w i}"
  let ?A = "\<lambda>w. {r. r < (2::nat) ^ 32 \<and> r mod ?T = w - 1}"
  have sub: "?W \<subseteq> {1..?T}" using owner_bounds by fastforce
  then have fin: "finite ?W" using finite_subset by blast
  have cw: "card ?W = unat (p_tickets (procs s i))" using owner_card assms(4,5) by blast
  have one: "finite (?A w) \<and> 2 ^ 32 div ?T \<le> card (?A w) \<and> card (?A w) \<le> 2 ^ 32 div ?T + 1" if "w \<in> ?W" for w
  proof -
    have "w \<in> {1..?T}" using that sub by blast
    then have "w - 1 < ?T" by auto
    then show ?thesis using card_residue [OF assms(2), of "w - 1" "2 ^ 32"] by simp
  qed
  have dis: "?A v \<inter> ?A w = {}" if "v \<in> ?W" "w \<in> ?W" "v \<noteq> w" for v w
  proof -
    have "v \<in> {1..?T}" "w \<in> {1..?T}" using that sub by blast+
    then have "v - 1 \<noteq> w - 1" using that(3) by auto
    then show ?thesis by auto
  qed
  have "unat ` {r. lottery_pick r s = Some i} = (\<Union>w\<in>?W. ?A w)"
  proof (intro set_eqI iffI)
    fix r assume "r \<in> unat ` {r. lottery_pick r s = Some i}"
    then obtain x :: uint where "r = unat x" "owner (procs s) (unat x mod ?T + 1) i"
      unfolding lottery_pick_owner [OF assms(1-3)] by blast
    then show "r \<in> (\<Union>w\<in>?W. ?A w)" using unsigned_less [of x]
      by (intro UN_I [of "unat x mod ?T + 1"]) auto
  next
    fix r assume "r \<in> (\<Union>w\<in>?W. ?A w)"
    then obtain w where w: "owner (procs s) w i" "r < 2 ^ 32" "r mod ?T = w - 1" by auto
    have "w = r mod ?T + 1" using w(3) owner_bounds [OF w(1)] by simp
    moreover have "unat (of_nat r :: uint) = r" using w(2) by (simp add: unat_of_nat)
    ultimately have "lottery_pick (of_nat r) s = Some i"
      using w(1) by (simp add: lottery_pick_owner [OF assms(1-3)])
    then show "r \<in> unat ` {r. lottery_pick r s = Some i}"
      using \<open>unat (of_nat r :: uint) = r\<close> by (metis (mono_tags, lifting) image_iff mem_Collect_eq)
  qed
  then have "card {r. lottery_pick r s = Some i} = card (\<Union>w\<in>?W. ?A w)"
    by (metis (no_types, lifting) card_image inj_on_def unsigned_word_eqI)
  moreover have "card ?W * (2 ^ 32 div ?T) \<le> card (\<Union>w\<in>?W. ?A w) \<and>
      card (\<Union>w\<in>?W. ?A w) \<le> card ?W * (2 ^ 32 div ?T + 1)"
    by (rule card_UN_bounds [OF fin one dis])
  ultimately show
    "unat (p_tickets (procs s i)) * (2 ^ 32 div ?T) \<le> card {r. lottery_pick r s = Some i}"
    "card {r. lottery_pick r s = Some i} \<le> unat (p_tickets (procs s i)) * (2 ^ 32 div ?T + 1)"
    by (simp_all only: cw)
qed

section \<open>Setting tickets\<close>

definition cleared :: "proc \<Rightarrow> proc" where
  "cleared p = (if p_state p = RUNNABLE \<or> p_state p = RUNNING \<or> p_state p = SLEEPING
                then p\<lparr>p_schedCnt := 0\<rparr> else p)"

lemma cleared_simps [simp]:
  "p_state (cleared p) = p_state p" "p_tickets (cleared p) = p_tickets p" "counted (cleared p) = counted p"
  "p_range_beginning (cleared p) = p_range_beginning p" "p_range_end (cleared p) = p_range_end p"
  "p_stride_pass (cleared p) = p_stride_pass p" "p_pid (cleared p) = p_pid p"
  by (simp_all add: cleared_def counted_def)

definition cleared_table :: "(nat \<Rightarrow> proc) \<Rightarrow> nat \<Rightarrow> nat \<Rightarrow> proc" where
  "cleared_table f a i = (if a \<le> i \<and> i < NPROC then cleared (f i) else f i)"

lemma cleared_table_simps [simp]:
  "p_state (cleared_table f a i) = p_state (f i)" "p_tickets (cleared_table f a i) = p_tickets (f i)"
  "counted (cleared_table f a i) = counted (f i)" "p_stride_pass (cleared_table f a i) = p_stride_pass (f i)"
  "p_range_beginning (cleared_table f a i) = p_range_beginning (f i)"
  "p_range_end (cleared_table f a i) = p_range_end (f i)" "p_pid (cleared_table f a i) = p_pid (f i)"
  by (simp_all add: cleared_table_def)

lemma cleared_table_step:
  "i < NPROC \<Longrightarrow> cleared_table (f(i := cleared (f i))) (Suc i) = cleared_table f i"
  by (rule ext) (auto simp: cleared_table_def)

lemma clear_schedCnt_loop_eq:
  "n \<le> NPROC \<Longrightarrow> clear_schedCnt_loop n s = s\<lparr>procs := cleared_table (procs s) (NPROC - n)\<rparr>"
proof (induction n arbitrary: s)
  case 0
  have "cleared_table (procs s) NPROC = procs s" by (rule ext) (auto simp: cleared_table_def)
  then show ?case by simp
next
  case (Suc n)
  let ?i = "NPROC - Suc n" and ?s = "s\<lparr>procs := (procs s)(NPROC - Suc n := cleared (procs s (NPROC - Suc n)))\<rparr>"
  have i: "?i < NPROC" "NPROC - n = Suc ?i" using Suc.prems by simp_all
  have step: "clear_schedCnt_loop (Suc n) s = clear_schedCnt_loop n ?s"
    by (auto simp: cleared_def upd_proc_def Let_def)
  show ?case unfolding step Suc.IH [OF Suc_leD [OF Suc.prems], unfolded i(2)]
    using cleared_table_step [OF i(1)] by simp
qed

lemma lottery_ready_cong:
  assumes "\<And>i. counted (procs t i) = counted (procs s i)" "\<And>i. p_tickets (procs t i) = p_tickets (procs s i)"
    "\<And>i. p_range_beginning (procs t i) = p_range_beginning (procs s i)"
    "\<And>i. p_range_end (procs t i) = p_range_end (procs s i)" "total_tickets t = total_tickets s"
  shows "lottery_ready t = lottery_ready s"
  using tickets_from_cong [of "procs t" "procs s", OF assms(1,2)] by (simp add: lottery_ready_def assms)

lemma lottery_ready_simps [simp]:
  "lottery_ready (touch s) = lottery_ready s" "lottery_ready (acquired l s) = lottery_ready s"
  "lottery_ready (s\<lparr>set_cnt := c\<rparr>) = lottery_ready s" "lottery_ready (s\<lparr>console := x\<rparr>) = lottery_ready s"
  by (simp_all add: lottery_ready_def)

lemma console_kproc [simp]:
  "procs (s\<lparr>console := c\<rparr>) = procs s" "sched_config (s\<lparr>console := c\<rparr>) = sched_config s"
  "total_tickets (s\<lparr>console := c\<rparr>) = total_tickets s" "set_cnt (s\<lparr>console := c\<rparr>) = set_cnt s"
  by simp_all

lemma unlocked_touch_fun [simp]: "(\<lambda>l. unlocked l (touch s)) = (\<lambda>l. unlocked l s)"
  by simp

text \<open>What a successful \<open>set_proc_tickets\<close> leaves: the lottery is ready, only tickets changed.\<close>

lemma set_proc_tickets_lottery:
  assumes "sched_config s = LOTTERY" "quiet s" "unlocked tickets_lock s" "unlocked pr_lock s"
  shows "\<exists>t. set_proc_tickets (Some p) n s = Ok () t \<and> lottery_ready t \<and> sched_config t = LOTTERY \<and> quiet t \<and>
    (\<forall>l. unlocked l t = unlocked l s) \<and>
    (\<forall>i. p_tickets (procs t i) = (if i = p then n else p_tickets (procs s i)) \<and>
         p_state (procs t i) = p_state (procs s i))"
proof -
  let ?u = "upd_proc p (\<lambda>q. q\<lparr>p_tickets := n\<rparr>) s"
  let ?v = "(calculate_procs_ticket ?u)\<lparr>set_cnt := set_cnt s + 1\<rparr>"
  have v: "lottery_ready ?v" "sched_config ?v = LOTTERY" "quiet ?v" "\<And>l. unlocked l ?v = unlocked l s"
    "\<And>i. p_tickets (procs ?v i) = (if i = p then n else p_tickets (procs s i))"
    "\<And>i. p_state (procs ?v i) = p_state (procs s i)"
    using assms calculate_procs_ticket_ready [of ?u]
    by (simp_all add: calculate_procs_ticket_eq upd_proc_def)
  have run: "set_proc_tickets (Some p) n s =
      (if set_cnt s + 1 = 3
       then printf (Some ''********** Clear schedCnt\<newline>'') [] (touch (clear_schedCnt_loop NPROC ?v))
       else Ok () (touch ?v))"
    using assms
    by (simp add: set_proc_tickets_def lock_eqs proc_eqs calculate_procs_ticket_eq
        clear_schedCnt_loop_eq upd_proc_def)
  show ?thesis
  proof (cases "set_cnt s + 1 = 3")
    case False
    then show ?thesis using run v by (intro exI [of _ "touch ?v"]) simp
  next
    case True
    let ?w = "clear_schedCnt_loop NPROC ?v"
    have r: "lottery_ready ?w = lottery_ready ?v"
      by (rule lottery_ready_cong) (simp_all add: clear_schedCnt_loop_eq)
    have w: "sched_config ?w = sched_config ?v" "quiet ?w = quiet ?v"
      "\<And>l. unlocked l ?w = unlocked l ?v" "\<And>i. p_tickets (procs ?w i) = p_tickets (procs ?v i)"
      "\<And>i. p_state (procs ?w i) = p_state (procs ?v i)"
      by (simp_all add: clear_schedCnt_loop_eq)
    have "vformat ''********** Clear schedCnt\<newline>'' [] = Some ''********** Clear schedCnt\<newline>''" by simp
    with True run r w v assms(4) show ?thesis by (auto simp: printf_eq)
  qed
qed

section \<open>The random number generator\<close>

lemma bit_shift_fix:
  fixes x :: "'a::len word"
  assumes "0 < k" "x XOR push_bit k x = 0"
  shows "x = 0"
proof (rule bit_eqI)
  fix n assume "possible_bit TYPE('a word) n"
  then show "bit x n = bit (0 :: 'a word) n"
  proof (induction n rule: less_induct)
    case (less n)
    have "bit (x XOR push_bit k x) n = False" using assms(2) by simp
    then have "bit x n = (k \<le> n \<and> bit x (n - k))"
      using less.prems by (simp add: bit_simps)
    then show ?case using less assms(1) by (cases "k \<le> n") auto
  qed
qed

lemma bit_shift_fix_down:
  fixes x :: "'a::len word"
  assumes "0 < k" "x XOR drop_bit k x = 0"
  shows "x = 0"
proof (rule bit_eqI)
  fix n assume n: "possible_bit TYPE('a word) n"
  have "\<not> bit x n" for n
  proof (induction "LENGTH('a) - n" arbitrary: n rule: less_induct)
    case less
    have "bit (x XOR drop_bit k x) n = False" using assms(2) by simp
    then have b: "bit x n = bit x (n + k)" by (simp add: bit_simps add.commute)
    show ?case
    proof (cases "n < LENGTH('a)")
      case True
      then show ?thesis using less [of "n + k"] b assms(1) by simp
    next
      case False
      then show ?thesis by (auto dest: bit_imp_le_length)
    qed
  qed
  then show "bit x n = bit (0 :: 'a word) n" by simp
qed

definition xorshift :: "uint \<Rightarrow> uint" where
  "xorshift x = (let x = x XOR push_bit 13 x; x = x XOR drop_bit 17 x in x XOR push_bit 5 x)"

lemma rand_int_eq: "rand_int s = (xorshift (r_x s), s\<lparr>r_x := xorshift (r_x s)\<rparr>)"
  by (simp add: rand_int_def xorshift_def Let_def)

lemma xor_push_inj: "0 < k \<Longrightarrow> inj (\<lambda>x :: 'a::len word. x XOR push_bit k x)"
proof (rule injI)
  fix x y :: "'a word" assume k: "0 < k" and e: "x XOR push_bit k x = y XOR push_bit k y"
  have "(x XOR y) XOR push_bit k (x XOR y) = (x XOR push_bit k x) XOR (y XOR push_bit k y)"
    by (simp add: push_bit_xor ac_simps)
  then have "(x XOR y) XOR push_bit k (x XOR y) = 0" unfolding e by (simp only: xor_self_eq)
  then have "x XOR y = 0" by (rule bit_shift_fix [OF k])
  then show "x = y" by (metis xor_self_eq xor.assoc xor.right_neutral xor.left_neutral)
qed

lemma xor_drop_inj: "0 < k \<Longrightarrow> inj (\<lambda>x :: 'a::len word. x XOR drop_bit k x)"
proof (rule injI)
  fix x y :: "'a word" assume k: "0 < k" and e: "x XOR drop_bit k x = y XOR drop_bit k y"
  have "(x XOR y) XOR drop_bit k (x XOR y) = (x XOR drop_bit k x) XOR (y XOR drop_bit k y)"
    by (simp add: drop_bit_xor ac_simps)
  then have "(x XOR y) XOR drop_bit k (x XOR y) = 0" unfolding e by (simp only: xor_self_eq)
  then have "x XOR y = 0" by (rule bit_shift_fix_down [OF k])
  then show "x = y" by (metis xor_self_eq xor.assoc xor.right_neutral xor.left_neutral)
qed

lemma xorshift_inj: "inj xorshift"
proof -
  have eq: "xorshift = (\<lambda>x. x XOR push_bit 5 x) \<circ> (\<lambda>x. x XOR drop_bit 17 x) \<circ> (\<lambda>x. x XOR push_bit 13 x)"
    by (rule ext) (simp add: xorshift_def Let_def)
  show ?thesis unfolding eq by (intro inj_compose xor_push_inj xor_drop_inj) simp_all
qed

lemma xorshift_0 [simp]: "xorshift 0 = 0"
  by (simp add: xorshift_def)

lemma xorshift_bij: "bij_betw xorshift (UNIV - {0}) (UNIV - {0})"
proof -
  have "xorshift ` (UNIV - {0}) \<subseteq> UNIV - {0}" using xorshift_inj by (metis (no_types, lifting) Diff_iff UNIV_I image_subsetI injD singletonD singletonI xorshift_0)
  moreover have "inj_on xorshift (UNIV - {0})" using xorshift_inj by (rule inj_on_subset) simp
  ultimately show ?thesis by (simp add: bij_betw_def endo_inj_surj)
qed

section \<open>The stride scheduler's choice\<close>

definition pass :: "'a kproc_scheme \<Rightarrow> nat \<Rightarrow> int" where
  "pass s i = sint (p_stride_pass (procs s i))"

definition runnable :: "'a kproc_scheme \<Rightarrow> nat \<Rightarrow> bool" where
  "runnable s i \<longleftrightarrow> i < NPROC \<and> p_state (procs s i) = RUNNABLE"

lemma first_runnable_spec:
  "n \<le> NPROC \<Longrightarrow> (case first_runnable n s of
     None \<Rightarrow> \<forall>j. NPROC - n \<le> j \<longrightarrow> \<not> runnable s j
   | Some i \<Rightarrow> NPROC - n \<le> i \<and> runnable s i \<and> (\<forall>j. NPROC - n \<le> j \<and> j < i \<longrightarrow> \<not> runnable s j))"
proof (induction n)
  case 0
  then show ?case by (simp add: runnable_def)
next
  case (Suc n)
  let ?i = "NPROC - Suc n"
  have i: "?i < NPROC" "NPROC - n = Suc ?i" using Suc.prems by simp_all
  show ?case
  proof (cases "runnable s ?i")
    case True
    then show ?thesis by (auto simp: runnable_def Let_def)
  next
    case False
    then have "first_runnable (Suc n) s = first_runnable n s" using i by (simp add: runnable_def Let_def)
    moreover have "?i \<le> j \<longleftrightarrow> j = ?i \<or> Suc ?i \<le> j" for j by auto
    ultimately show ?thesis using Suc.IH Suc.prems False i(2) by (auto split: option.splits)
  qed
qed

lemma min_stride_loop_spec:
  assumes "n \<le> NPROC" "runnable s m"
  shows "runnable s (min_stride_loop n m s) \<and> pass s (min_stride_loop n m s) \<le> pass s m \<and>
    (\<forall>j. NPROC - n \<le> j \<and> runnable s j \<and> 0 <s p_tickets (procs s j) \<longrightarrow>
         pass s (min_stride_loop n m s) \<le> pass s j)"
  using assms
proof (induction n arbitrary: m)
  case 0
  then show ?case by (auto simp: runnable_def)
next
  case (Suc n)
  let ?j = "NPROC - Suc n"
  have j: "NPROC - n = Suc ?j" "?j < NPROC" using Suc.prems by simp_all
  define m' where "m' = (if runnable s ?j \<and> 0 <s p_tickets (procs s ?j) \<and> pass s ?j < pass s m then ?j else m)"
  have step: "min_stride_loop (Suc n) m s = min_stride_loop n m' s"
    using j(2) by (auto simp: m'_def runnable_def pass_def word_sless_alt Let_def)
  have m': "runnable s m'" "pass s m' \<le> pass s m"
    "runnable s ?j \<Longrightarrow> 0 <s p_tickets (procs s ?j) \<Longrightarrow> pass s m' \<le> pass s ?j"
    using Suc.prems(2) by (auto simp: m'_def)
  have "?j \<le> k \<longleftrightarrow> k = ?j \<or> Suc ?j \<le> k" for k by auto
  then show ?case using Suc.IH [OF Suc_leD [OF Suc.prems(1)] m'(1)] m' unfolding step j(1)
    by (auto intro: order_trans)
qed

lemma findMinStride_None: "findMinStride s = None \<longleftrightarrow> (\<forall>j. \<not> runnable s j)"
  using first_runnable_spec [of NPROC s] by (auto simp: findMinStride_def split: option.splits)

lemma findMinStride_Some:
  assumes "findMinStride s = Some m"
  shows "runnable s m" "runnable s j \<Longrightarrow> 0 <s p_tickets (procs s j) \<Longrightarrow> pass s m \<le> pass s j"
proof -
  obtain i where i: "first_runnable NPROC s = Some i" "m = min_stride_loop (NPROC - (i + 1)) i s"
    using assms by (auto simp: findMinStride_def split: option.splits)
  have f: "runnable s i" "\<And>j. j < i \<Longrightarrow> \<not> runnable s j"
    using first_runnable_spec [of NPROC s] i(1) by auto
  have e: "NPROC - (NPROC - (i + 1)) = i + 1" using f(1) by (simp add: runnable_def)
  note spec = min_stride_loop_spec [OF _ f(1), of "NPROC - (i + 1)", unfolded e, folded i(2)]
  show "runnable s m" using spec by simp
  show "runnable s j \<Longrightarrow> 0 <s p_tickets (procs s j) \<Longrightarrow> pass s m \<le> pass s j"
    using spec f(2) [of j] by (cases j i rule: linorder_cases) auto
qed

section \<open>Properties\<close>

text \<open>C8: The lottery is fair: after \<open>set_proc_tickets(p, n)\<close> in the lottery configuration, with a positive
  total of tickets that fits in 32 bits, every random number selects some process that takes part,
  and the number of the \<open>2^32\<close> random numbers that select process \<open>i\<close> is its number of tickets times
  the whole part of \<open>2^32/total\<close>, or up to one more for each ticket. The tickets of the other
  processes are as before.\<close>

theorem lottery_fair:
  assumes "sched_config s = LOTTERY" "quiet s" "unlocked tickets_lock s" "unlocked pr_lock s"
    and f: "f = (procs s)(p := (procs s p)\<lparr>p_tickets := n\<rparr>)"
    and T: "T = ticket_count f NPROC" "0 < T" "T < 2 ^ 32"
  shows "\<exists>t. set_proc_tickets (Some p) n s = Ok () t \<and>
    (\<forall>i. p_tickets (procs t i) = p_tickets (f i)) \<and>
    (\<forall>r. \<exists>i < NPROC. lottery_pick r t = Some i \<and> counted (f i)) \<and>
    (\<forall>i < NPROC. counted (f i) \<longrightarrow>
       unat (p_tickets (f i)) * (2 ^ 32 div T) \<le> card {r. lottery_pick r t = Some i} \<and>
       card {r. lottery_pick r t = Some i} \<le> unat (p_tickets (f i)) * (2 ^ 32 div T + 1))"
proof -
  obtain t where t: "set_proc_tickets (Some p) n s = Ok () t" "lottery_ready t"
    "\<forall>i. p_tickets (procs t i) = (if i = p then n else p_tickets (procs s i)) \<and>
         p_state (procs t i) = p_state (procs s i)"
    using set_proc_tickets_lottery [OF assms(1-4)] by blast
  have same: "p_tickets (procs t i) = p_tickets (f i)" "counted (procs t i) = counted (f i)" for i
    using t(3) by (simp_all add: f counted_def)
  have T': "ticket_count (procs t) NPROC = T" by (simp add: T(1) ticket_count_def same cong: if_cong)
  have "\<exists>i < NPROC. lottery_pick r t = Some i \<and> counted (f i)" for r
  proof -
    have "unat r mod T + 1 \<le> T" using T(2) by (simp add: Suc_leI)
    then obtain i where "i < NPROC" "owner (procs t) (unat r mod T + 1) i"
      using owner_exists [of "unat r mod T + 1" "procs t" NPROC] T' by auto
    then show ?thesis
      using lottery_pick_owner [OF t(2), of r i] T T' same by (auto simp: owner_def)
  qed
  moreover have "unat (p_tickets (f i)) * (2 ^ 32 div T) \<le> card {r. lottery_pick r t = Some i} \<and>
       card {r. lottery_pick r t = Some i} \<le> unat (p_tickets (f i)) * (2 ^ 32 div T + 1)"
    if "i < NPROC" "counted (f i)" for i
    using lottery_pick_card [OF t(2), of i] T T' that same by auto
  ultimately show ?thesis using t(1) same by blast
qed

lemma tickets_two: "ticket_count ((\<lambda>_. bare_proc)(0 := p, 1 := q)) NPROC =
    (if counted p then unat (p_tickets p) else 0) + (if counted q then unat (p_tickets q) else 0)"
proof -
  let ?f = "(\<lambda>_ :: nat. bare_proc)(0 := p, 1 := q)"
  have "ticket_count ?f NPROC = (\<Sum>j\<in>{0, 1}. if counted (?f j) then unat (p_tickets (?f j)) else 0)"
    unfolding ticket_count_def
    by (rule sum.mono_neutral_right) (auto simp: NPROC_def counted_def)
  then show ?thesis by simp
qed

theorem lottery_fair_witness:
  "\<exists>t. set_proc_tickets (Some 1) 30 (bare_kernel LOTTERY ((\<lambda>_. bare_proc)(0 := bare_proc\<lparr>p_state := RUNNABLE, p_tickets := 10\<rparr>,
          1 := bare_proc\<lparr>p_state := RUNNABLE, p_tickets := 20\<rparr>))) = Ok () t \<and>
       3221225460 \<le> card {r. lottery_pick r t = Some 1} \<and> card {r. lottery_pick r t = Some 1} \<le> 3221225490"
proof -
  let ?s = "bare_kernel LOTTERY ((\<lambda>_. bare_proc)(0 := bare_proc\<lparr>p_state := RUNNABLE, p_tickets := 10\<rparr>,
          1 := bare_proc\<lparr>p_state := RUNNABLE, p_tickets := 20\<rparr>))"
  let ?f = "(\<lambda>_. bare_proc)(0 := bare_proc\<lparr>p_state := RUNNABLE, p_tickets := 10\<rparr>,
          1 := bare_proc\<lparr>p_state := RUNNABLE, p_tickets := 30\<rparr>)"
  have f: "?f = (procs ?s)(1 := (procs ?s 1)\<lparr>p_tickets := 30\<rparr>)" by simp
  have T: "40 = ticket_count ?f NPROC" by (simp only: tickets_two) (simp add: counted_def)
  have "\<exists>t. set_proc_tickets (Some 1) 30 ?s = Ok () t \<and>
    (\<forall>i. p_tickets (procs t i) = p_tickets (?f i)) \<and>
    (\<forall>r. \<exists>i < NPROC. lottery_pick r t = Some i \<and> counted (?f i)) \<and>
    (\<forall>i < NPROC. counted (?f i) \<longrightarrow>
       unat (p_tickets (?f i)) * (2 ^ 32 div 40) \<le> card {r. lottery_pick r t = Some i} \<and>
       card {r. lottery_pick r t = Some i} \<le> unat (p_tickets (?f i)) * (2 ^ 32 div 40 + 1))"
    by (rule lottery_fair [OF _ _ _ _ f T]) simp_all
  then obtain t where t: "set_proc_tickets (Some 1) 30 ?s = Ok () t"
    "\<forall>i < NPROC. counted (?f i) \<longrightarrow>
       unat (p_tickets (?f i)) * (2 ^ 32 div 40) \<le> card {r. lottery_pick r t = Some i} \<and>
       card {r. lottery_pick r t = Some i} \<le> unat (p_tickets (?f i)) * (2 ^ 32 div 40 + 1)"
    by blast
  show ?thesis using t(1) t(2) [rule_format, of 1]
    by (intro exI [of _ t]) (simp add: NPROC_def counted_def)
qed

text \<open>C29: The random number generator permutes the nonzero 32-bit numbers: from the seed 37 it never
  reaches 0 (where it would stay), and no two states have the same successor.\<close>

theorem rand_int_permutes:
  "bij_betw (\<lambda>x. fst (rand_int (s\<lparr>r_x := x\<rparr>))) (UNIV - {0}) (UNIV - {0}) \<and>
   snd (rand_int s) = s\<lparr>r_x := fst (rand_int s)\<rparr>"
  using xorshift_bij by (simp add: rand_int_eq)

end
