(* ===== verification/Sched_Run.thy ===== *)
theory Sched_Run
  imports Sched
begin

text \<open>
  Time slices: the scheduler switches to a process, the process returns from its last \<open>yield()\<close>,
  runs, yields again, and the scheduler takes over. The lock of the process travels across the two
  switches: the scheduler acquires it and the process releases it, and back. On top of this the
  theory shows how the stride scheduler shares the processor.
\<close>

section \<open>The hand-over of the process lock\<close>

lemma set_cpu_proc_simps [simp]:
  "procs (set_cpu_proc po s) = procs s" "sched_config (set_cpu_proc po s) = sched_config s"
  "total_tickets (set_cpu_proc po s) = total_tickets s" "console (set_cpu_proc po s) = console s"
  "pr_locking (set_cpu_proc po s) = pr_locking s" "mem (set_cpu_proc po s) = mem s"
  "unlocked l (set_cpu_proc po s) = unlocked l s" "holding l (set_cpu_proc po s) = holding l s"
  "quiet (set_cpu_proc po s) = quiet s" "intr_get (set_cpu_proc po s) = intr_get s"
  "mycpu (set_cpu_proc po s) = (mycpu s)\<lparr>cpu_proc := po\<rparr>"
  "set_cpu_proc po (set_cpu_proc qo s) = set_cpu_proc po s"
  by (auto simp: set_cpu_proc_def machine_defs)

lemma set_cpu_proc_upd [step_eqs]:
  "set_cpu_proc po (acquired l s) = acquired l (set_cpu_proc po s)"
  "set_cpu_proc po (touch s) = touch (set_cpu_proc po s)"
  "upd_proc i f (set_cpu_proc po s) = set_cpu_proc po (upd_proc i f s)"
  by (cases s, cases "cpus s (tp s)", auto simp: set_cpu_proc_def machine_defs upd_proc_def)+

lemma intr_on_simps [simp]:
  "procs (intr_on s) = procs s" "sched_config (intr_on s) = sched_config s"
  "total_tickets (intr_on s) = total_tickets s" "console (intr_on s) = console s"
  "r_x (intr_on s) = r_x s" "pr_locking (intr_on s) = pr_locking s"
  "unlocked l (intr_on s) = unlocked l s" "holding l (intr_on s) = holding l s"
  "mycpu (intr_on s) = mycpu s" "noff (mycpu s) = 0 \<Longrightarrow> quiet (intr_on s)"
  "intr_get (intr_on s)"
  by (auto simp: machine_defs)

text \<open>
  \<open>set_intr b s\<close>: the hart runs with its interrupt flag, and the flag it saved, equal to \<open>b\<close>: the
  state in which a process continues after the scheduler switched to it and it released its lock.
\<close>

definition set_intr :: "bool \<Rightarrow> 'a machine_scheme \<Rightarrow> 'a machine_scheme" where
  "set_intr b s =
     set_mycpu ((mycpu s)\<lparr>intena := b\<rparr>) (s\<lparr>sie := (sie s)(tp s := b)\<rparr>)"

lemma set_intr_simps [simp]:
  "procs (set_intr b s) = procs s" "sched_config (set_intr b s) = sched_config s"
  "total_tickets (set_intr b s) = total_tickets s" "console (set_intr b s) = console s"
  "pr_locking (set_intr b s) = pr_locking s" "mem (set_intr b s) = mem s"
  "unlocked l (set_intr b s) = unlocked l s" "holding l (set_intr b s) = holding l s"
  "noff (mycpu (set_intr b s)) = noff (mycpu s)" "cpu_proc (mycpu (set_intr b s)) = cpu_proc (mycpu s)"
  "noff (mycpu s) = 0 \<Longrightarrow> quiet (set_intr b s)" "intr_get (set_intr b s) = b"
  by (auto simp: set_intr_def machine_defs)

lemma resume_release:
  assumes "unlocked l s" "noff (mycpu s) = 0"
  shows "release l (sched_resume b (acquired l s)) = Ok () (set_intr b s)"
  using assms
  by (cases s, cases "locks s l")
     (auto simp: sched_resume_def set_intr_def release_def machine_defs fun_upd_idem_iff)

lemma yield_eq [step_eqs]:
  assumes "quiet s" "noff (mycpu s) = 0" "cpu_proc (mycpu s) = Some p" "unlocked (proc_lock p) s"
  shows "yield s = Swtch (acquired (proc_lock p) (upd_proc p (\<lambda>q. q\<lparr>p_state := RUNNABLE\<rparr>) s))"
  using assms by (simp add: yield_def sched_def proc_eqs lock_eqs)

section \<open>Printing while a lock is held\<close>

lemma printint_defined: "\<exists>out. printint x 10 True = Some out"
  using printint_signed [of 10 10 x] by auto

lemma vformat_two_ints:
  "\<exists>out. vformat ''pid:%d,%d,'' [ArgInt a, ArgInt b] = Some out"
  "\<exists>out. vformat ''Process pid: %d sched count is: %d\<newline>'' [ArgInt a, ArgInt b] = Some out"
  using printint_defined [of a] printint_defined [of b] by (auto split: option.splits)

lemma printf_nested:
  assumes "unlocked pr_lock s" "quiet s" "noff (mycpu s) \<noteq> 0" "vformat f ap = Some out"
  shows "printf (Some f) ap s = Ok () (s\<lparr>console := console s @ out\<rparr>)"
  using printf_eq [OF assms(1,2,4)] by (simp add: touch_noop [OF assms(3)])

lemma print_each_nested:
  assumes "unlocked pr_lock s" "quiet s" "noff (mycpu s) \<noteq> 0"
    "\<And>a b. \<exists>out. vformat f [ArgInt a, ArgInt b] = Some out"
  shows "\<exists>c. print_each f n s = Ok () (s\<lparr>console := console s @ c\<rparr>)"
  using assms
proof (induction n arbitrary: s)
  case 0
  show ?case by (intro exI [of _ "[]"]) simp
next
  case (Suc n)
  let ?p = "procs s (NPROC - Suc n)"
  obtain out where out: "vformat f [ArgInt (p_pid ?p), ArgInt (p_schedCnt ?p)] = Some out"
    using Suc.prems(4) by blast
  show ?case
  proof (cases "p_state ?p = UNUSED")
    case True
    then show ?thesis using Suc by simp
  next
    case False
    let ?t = "s\<lparr>console := console s @ out\<rparr>"
    have "print_each f (Suc n) s = print_each f n ?t"
      using False by (simp add: printf_nested [OF Suc.prems(1-3) out])
    moreover obtain c where "print_each f n ?t = Ok () (?t\<lparr>console := console ?t @ c\<rparr>)"
      using Suc.IH [of ?t] Suc.prems by auto
    ultimately show ?thesis by (intro exI [of _ "out @ c"]) simp
  qed
qed

lemma print_row_nested:
  assumes "unlocked pr_lock s" "quiet s" "noff (mycpu s) \<noteq> 0"
  shows "\<exists>c. print_sched_statistics_in_row s = Ok () (s\<lparr>console := c\<rparr>)"
proof (cases "count_procs NPROC s < 5")
  case True
  then show ?thesis by (intro exI [of _ "console s"]) (simp add: print_sched_statistics_in_row_def)
next
  case False
  obtain c where c: "print_each ''pid:%d,%d,'' NPROC s = Ok () (s\<lparr>console := console s @ c\<rparr>)"
    using print_each_nested [OF assms vformat_two_ints(1)] by blast
  have "vformat ''\<newline>'' [] = Some ''\<newline>''" by simp
  then have "printf (Some ''\<newline>'') [] (s\<lparr>console := console s @ c\<rparr>) =
      Ok () (s\<lparr>console := (console s @ c) @ ''\<newline>''\<rparr>)"
    using assms by (subst printf_nested) auto
  then show ?thesis using False c by (auto simp: print_sched_statistics_in_row_def)
qed

section \<open>One time slice\<close>

text \<open>
  \<open>idle s\<close>: the hart is in the scheduler between two passes, no lock is held.
\<close>

definition idle :: "'a kproc_scheme \<Rightarrow> bool" where
  "idle s \<longleftrightarrow> quiet s \<and> noff (mycpu s) = 0 \<and> cpu_proc (mycpu s) = None \<and>
     all_unlocked s \<and> unlocked tickets_lock s \<and> unlocked pr_lock s"

text \<open>
  One time slice: the scheduler picks a process; if it switched to one, the process comes back from
  its last \<open>yield()\<close> with the interrupt flag \<open>b\<close> it had then, and yields again.
\<close>

definition time_slice :: "bool \<Rightarrow> nat option \<Rightarrow> 'a kproc_scheme \<Rightarrow> (nat option, 'a kproc_scheme) res" where
  "time_slice b p s =
    (case scheduler_iter p s of
       Swtch s \<Rightarrow>
         (case cpu_proc (mycpu s) of
            None \<Rightarrow> Undef
          | Some i \<Rightarrow>
              bind (yield_resume i b s) (\<lambda>_ s.
              case yield s of
                Swtch s \<Rightarrow> scheduler_return i s
              | Ok _ _ \<Rightarrow> Undef | Panic e \<Rightarrow> Panic e | Spin \<Rightarrow> Spin | Undef \<Rightarrow> Undef))
     | r \<Rightarrow> r)"

lemma scheduler_return_eq:
  assumes "sched_config s \<noteq> ROUND_ROBIN" "quiet s" "noff (mycpu s) = 0"
    "unlocked (proc_lock i) s" "unlocked pr_lock s"
  shows "\<exists>c. scheduler_return i (acquired (proc_lock i) s) =
    Ok (Some i) (touch (set_cpu_proc None (s\<lparr>console := c\<rparr>)))"
proof -
  have "unlocked pr_lock (acquired (proc_lock i) s)" "noff (mycpu (acquired (proc_lock i) s)) \<noteq> 0"
    "quiet (acquired (proc_lock i) s)"
    using assms by simp_all
  then obtain c where "print_sched_statistics_in_row (acquired (proc_lock i) s) =
      Ok () ((acquired (proc_lock i) s)\<lparr>console := c\<rparr>)"
    using print_row_nested by blast
  then have "scheduler_return i (acquired (proc_lock i) s) =
      Ok (Some i) (touch (set_cpu_proc None (s\<lparr>console := c\<rparr>)))"
    using assms by (simp add: scheduler_return_def kcons_lock_upd set_cpu_proc_upd lock_eqs)
  then show ?thesis ..
qed

text \<open>
  A slice given to process \<open>i\<close>, with \<open>f\<close> the scheduler's update of its table entry.
\<close>

lemma time_slice_switch:
  assumes "idle u" "sched_config u \<noteq> ROUND_ROBIN" "i < NPROC"
    "scheduler_iter p s = Swtch (acquired (proc_lock i) (set_cpu_proc (Some i) (upd_proc i f u)))"
  shows "\<exists>t. time_slice b p s = Ok (Some i) t \<and> idle t \<and> sched_config t = sched_config u \<and>
    procs t = (procs u)(i := (f (procs u i))\<lparr>p_state := RUNNABLE\<rparr>) \<and> total_tickets t = total_tickets u"
proof -
  let ?u = "set_cpu_proc (Some i) (upd_proc i f u)"
  let ?v = "upd_proc i (\<lambda>q. q\<lparr>p_state := RUNNABLE\<rparr>) (set_intr b ?u)"
  have ui: "unlocked (proc_lock i) u" "quiet u" "noff (mycpu u) = 0" "unlocked pr_lock u"
    using assms(1,3) by (auto simp: idle_def all_unlocked_def)
  have r: "yield_resume i b (acquired (proc_lock i) ?u) = Ok () (set_intr b ?u)"
    unfolding yield_resume_def using ui by (intro resume_release) simp_all
  have y: "yield (set_intr b ?u) = Swtch (acquired (proc_lock i) ?v)"
    using ui by (intro yield_eq) simp_all
  obtain c where "scheduler_return i (acquired (proc_lock i) ?v) =
      Ok (Some i) (touch (set_cpu_proc None (?v\<lparr>console := c\<rparr>)))"
    using scheduler_return_eq [of ?v i] ui assms(2) by (auto simp: upd_proc_def)
  with r y assms(4) have ts: "time_slice b p s = Ok (Some i) (touch (set_cpu_proc None (?v\<lparr>console := c\<rparr>)))"
    by (simp add: time_slice_def)
  show ?thesis
    unfolding ts using assms(1)
    by (auto simp: idle_def all_unlocked_def upd_proc_def)
qed

section \<open>The stride scheduler\<close>

lemma first_runnable_cong: "procs s = procs t \<Longrightarrow> first_runnable n s = first_runnable n t"
  by (induction n) (simp_all add: Let_def)

lemma min_stride_loop_cong: "procs s = procs t \<Longrightarrow> min_stride_loop n m s = min_stride_loop n m t"
  by (induction n arbitrary: m) (simp_all add: Let_def)

lemma findMinStride_cong: "procs s = procs t \<Longrightarrow> findMinStride s = findMinStride t"
  by (simp add: findMinStride_def first_runnable_cong [of s t] min_stride_loop_cong [of s t]
      split: option.split)

lemma lottery_loop_cong: "procs s = procs t \<Longrightarrow> lottery_loop n w s = lottery_loop n w t"
  by (induction n) (simp_all add: Let_def)

lemma idle_intr_on: "idle s \<Longrightarrow> idle (intr_on s)"
  by (simp add: idle_def all_unlocked_def)

lemma scheduler_iter_stride:
  assumes "idle s" "sched_config s = STRIDE" "findMinStride s = Some m"
    "stride_of (p_tickets (procs s m)) = Some d"
  shows "scheduler_iter p s =
    Swtch (acquired (proc_lock m) (set_cpu_proc (Some m)
      (upd_proc m (\<lambda>q. q\<lparr>p_state := RUNNING, p_schedCnt := p_schedCnt q + 1,
                        p_stride_pass := p_stride_pass q + d\<rparr>) (intr_on s))))"
proof -
  have m: "m < NPROC" "p_state (procs s m) = RUNNABLE"
    using findMinStride_Some(1) [OF assms(3)] by (simp_all add: runnable_def)
  then have "unlocked (proc_lock m) (intr_on s)" using assms(1) by (simp add: idle_def all_unlocked_def)
  moreover have "findMinStride (intr_on s) = Some m"
    using assms(3) findMinStride_cong [of "intr_on s" s] by simp
  moreover have "upd_proc m (\<lambda>q. q\<lparr>p_stride_pass := p_stride_pass q + d\<rparr>)
      (upd_proc m (\<lambda>q. q\<lparr>p_schedCnt := p_schedCnt q + 1\<rparr>)
      (upd_proc m (\<lambda>q. q\<lparr>p_state := RUNNING\<rparr>) u)) =
      upd_proc m (\<lambda>q. q\<lparr>p_state := RUNNING, p_schedCnt := p_schedCnt q + 1,
                        p_stride_pass := p_stride_pass q + d\<rparr>) u" for u :: "'a kproc_scheme"
    by (simp add: upd_proc_def)
  ultimately show ?thesis
    using assms m by (simp add: scheduler_iter_def stride_switch_def acquire_eq proc_eqs set_cpu_proc_upd)
qed

fun time_slices :: "bool list \<Rightarrow> nat option \<Rightarrow> 'a kproc_scheme \<Rightarrow> (nat option, 'a kproc_scheme) res" where
  "time_slices [] p s = Ok p s"
| "time_slices (b # bs) p s = bind (time_slice b p s) (\<lambda>p s. time_slices bs p s)"

text \<open>The stride of a process with a positive number of tickets, and how often it was scheduled.\<close>

definition stride :: "'a kproc_scheme \<Rightarrow> nat \<Rightarrow> int" where
  "stride s i = 60 div sint (p_tickets (procs s i))"

definition sched_count :: "'a kproc_scheme \<Rightarrow> nat \<Rightarrow> nat" where
  "sched_count s i = unat (p_schedCnt (procs s i))"

lemma stride_of_positive:
  assumes "0 <s n"
  shows "\<exists>d. stride_of n = Some d \<and> sint d = 60 div sint n \<and> 0 \<le> sint d \<and> sint d \<le> 60"
proof -
  have n: "0 < sint n" using assms by (simp add: word_sless_alt)
  then have q: "0 \<le> 60 div sint n" "60 div sint n \<le> 60"
    using zdiv_mono2 [of 60 1 "sint n"] by (simp_all add: pos_imp_zdiv_nonneg_iff)
  have "n \<noteq> 0" using n by auto
  moreover have "60 sdiv sint n = 60 div sint n" using n by (simp add: signed_divide_int_def)
  moreover have "sint (word_of_int (60 div sint n) :: int32) = 60 div sint n"
    using q by (simp add: sint_as_uint uint_word_of_int)
  ultimately show ?thesis using q by (auto simp: stride_of_def STRIDE_NUM_def)
qed

definition stride_inv :: "'a kproc_scheme \<Rightarrow> nat \<Rightarrow> bool" where
  "stride_inv s n \<longleftrightarrow> idle s \<and> sched_config s = STRIDE \<and> (\<exists>i. runnable s i) \<and>
     (\<Sum>i | runnable s i. sched_count s i) = n \<and>
     (\<forall>i. runnable s i \<longrightarrow> 0 <s p_tickets (procs s i) \<and>
        pass s i = stride s i * (int (sched_count s i) + 1) \<and>
        (\<forall>j. runnable s j \<longrightarrow> stride s i * int (sched_count s i) \<le> stride s j * (int (sched_count s j) + 1)))"

lemma finite_runnable [simp]: "finite {i. runnable s i}"
  by (rule finite_subset [of _ "{..<NPROC}"]) (auto simp: runnable_def)

lemma sched_count_le: "stride_inv s n \<Longrightarrow> runnable s i \<Longrightarrow> sched_count s i \<le> n"
  using member_le_sum [of i "{i. runnable s i}" "sched_count s"] by (simp add: stride_inv_def)

lemma stride_inv_step:
  assumes inv: "stride_inv s n" and n: "n < 2 ^ 25"
  shows "\<exists>t m. time_slice b p s = Ok (Some m) t \<and> stride_inv t (Suc n) \<and>
    (\<forall>i. p_state (procs t i) = p_state (procs s i) \<and> p_tickets (procs t i) = p_tickets (procs s i))"
proof -
  have id: "idle s" "sched_config s = STRIDE" using inv by (simp_all add: stride_inv_def)
  obtain m where m: "findMinStride s = Some m"
    using inv findMinStride_None [of s] by (auto simp: stride_inv_def)
  note mr = findMinStride_Some [OF m]
  have rm: "runnable s m" "m < NPROC" "p_state (procs s m) = RUNNABLE" "0 <s p_tickets (procs s m)"
    using mr(1) inv by (auto simp: stride_inv_def runnable_def)
  obtain d where d: "stride_of (p_tickets (procs s m)) = Some d" "sint d = stride s m" "0 \<le> sint d" "sint d \<le> 60"
    using stride_of_positive [OF rm(4)] by (auto simp: stride_def)
  let ?q = "(procs s m)\<lparr>p_schedCnt := p_schedCnt (procs s m) + 1,
                        p_stride_pass := p_stride_pass (procs s m) + d, p_state := RUNNABLE\<rparr>"
  obtain t where t: "time_slice b p s = Ok (Some m) t" "idle t" "sched_config t = STRIDE" "procs t = (procs s)(m := ?q)"
    using time_slice_switch [OF idle_intr_on [OF id(1)] _ rm(2) scheduler_iter_stride [OF id m d(1)], of b] id(2)
    by auto
  have same: "p_state (procs t i) = p_state (procs s i)" "p_tickets (procs t i) = p_tickets (procs s i)" for i
    using rm(3) by (simp_all add: t(4))
  have run: "runnable t i = runnable s i" and str: "stride t i = stride s i" for i
    by (simp_all add: runnable_def stride_def same)
  have cm: "sched_count s m \<le> n" using sched_count_le [OF inv rm(1)] .
  have "sched_count t m = sched_count s m + 1"
    using unat_add_lt [of "p_schedCnt (procs s m)" 1] cm n by (simp add: sched_count_def t(4))
  then have cnt: "sched_count t i = sched_count s i + (if i = m then 1 else 0)" for i
    by (simp add: sched_count_def t(4))
  have pm: "pass s m = stride s m * (int (sched_count s m) + 1)" using inv rm(1) by (simp add: stride_inv_def)
  have "stride s m * (int (sched_count s m) + 1) \<le> 60 * (2 ^ 25)"
    using d cm n by (intro mult_mono) auto
  moreover have "0 \<le> pass s m" using pm d by simp
  ultimately have "pass t m = pass s m + stride s m"
    using d pm sint_add_small [of "p_stride_pass (procs s m)" d] by (simp add: pass_def t(4))
  then have pas: "pass t i = pass s i + (if i = m then stride s m else 0)" for i
    by (simp add: pass_def t(4))
  have str0: "0 \<le> stride s j" if "runnable s j" for j
  proof -
    have "0 <s p_tickets (procs s j)" using that inv by (simp add: stride_inv_def)
    then show ?thesis using stride_of_positive [of "p_tickets (procs s j)"] by (auto simp: stride_def)
  qed
  have bal: "stride s i * int (sched_count t i) \<le> stride s j * (int (sched_count t j) + 1)"
    if "runnable s i" "runnable s j" for i j
  proof -
    have old: "stride s i * int (sched_count s i) \<le> stride s j * (int (sched_count s j) + 1)"
      "0 <s p_tickets (procs s j)" "pass s j = stride s j * (int (sched_count s j) + 1)"
      using that inv by (auto simp: stride_inv_def)
    have up: "stride s j * (int (sched_count s j) + 1) \<le> stride s j * (int (sched_count t j) + 1)"
      using str0 [OF that(2)] by (intro mult_left_mono) (simp_all add: cnt)
    show ?thesis
    proof (cases "i = m")
      case True
      have "stride s m * int (sched_count t m) = pass s m" by (simp add: pm cnt)
      also have "\<dots> \<le> pass s j" using mr(2) [OF that(2) old(2)] .
      finally show ?thesis using up old(3) True by simp
    next
      case False
      then show ?thesis using old(1) up by (simp add: cnt)
    qed
  qed
  have "(\<Sum>i | runnable s i. sched_count t i) = (\<Sum>i | runnable s i. sched_count s i) + 1"
    using rm(1) by (simp add: cnt sum.distrib sum.delta)
  then have "stride_inv t (Suc n)"
    using inv t(2,3) pas bal
    by (auto simp: stride_inv_def run str same cnt algebra_simps)
  then show ?thesis using t(1) same by blast
qed

lemma stride_inv_slices:
  assumes "stride_inv s n" "n + length bs \<le> 2 ^ 25"
  shows "\<exists>t q. time_slices bs p s = Ok q t \<and> stride_inv t (n + length bs) \<and>
    (\<forall>i. p_state (procs t i) = p_state (procs s i) \<and> p_tickets (procs t i) = p_tickets (procs s i))"
  using assms
proof (induction bs arbitrary: s n p)
  case Nil
  then show ?case by simp
next
  case (Cons b bs)
  have "n < 2 ^ 25" using Cons.prems(2) by simp
  from stride_inv_step [OF Cons.prems(1) this] obtain u m where
    u: "time_slice b p s = Ok (Some m) u" "stride_inv u (Suc n)"
    "\<forall>i. p_state (procs u i) = p_state (procs s i) \<and> p_tickets (procs u i) = p_tickets (procs s i)"
    by blast
  from Cons.IH [OF u(2)] Cons.prems(2) u show ?case by fastforce
qed

section \<open>The lottery scheduler\<close>

lemma lottery_pick_cong:
  "procs s = procs t \<Longrightarrow> total_tickets s = total_tickets t \<Longrightarrow> lottery_pick r s = lottery_pick r t"
  by (simp add: lottery_pick_def lottery_loop_cong [of s t])

lemma scheduler_iter_lottery:
  assumes "idle s" "sched_config s = LOTTERY" "total_tickets s \<noteq> 0"
    "(case lottery_pick (xorshift (r_x s)) s of None \<Rightarrow> p | Some i \<Rightarrow> Some i) = Some i" "i < NPROC"
  shows "scheduler_iter p s =
    (if p_state (procs s i) = RUNNABLE then
       Swtch (acquired (proc_lock i) (set_cpu_proc (Some i)
         (upd_proc i (\<lambda>q. q\<lparr>p_state := RUNNING, p_schedCnt := p_schedCnt q + 1\<rparr>)
           ((intr_on s)\<lparr>r_x := xorshift (r_x s)\<rparr>))))
     else Ok (Some i) (touch ((intr_on s)\<lparr>r_x := xorshift (r_x s)\<rparr>)))"
proof -
  let ?u = "(intr_on s)\<lparr>r_x := xorshift (r_x s)\<rparr>"
  have u: "quiet ?u" "unlocked tickets_lock ?u" "unlocked (proc_lock i) ?u"
    using assms(1,5) by (auto simp: idle_def all_unlocked_def)
  have "lottery_loop NPROC w (acquired tickets_lock ?u) = lottery_loop NPROC w s" for w
    by (rule lottery_loop_cong) simp
  moreover have "upd_proc i (\<lambda>q. q\<lparr>p_schedCnt := p_schedCnt q + 1\<rparr>) (upd_proc i (\<lambda>q. q\<lparr>p_state := RUNNING\<rparr>) v) =
     upd_proc i (\<lambda>q. q\<lparr>p_state := RUNNING, p_schedCnt := p_schedCnt q + 1\<rparr>) v" for v :: "'a kproc_scheme"
    by (simp add: upd_proc_def)
  ultimately show ?thesis
    using assms u
    by (simp add: scheduler_iter_def rand_int_eq lottery_pick_def lottery_switch_def lock_eqs proc_eqs
        set_cpu_proc_upd Let_def)
qed

lemma scheduler_iter_no_winner:
  assumes "idle s" "sched_config s = LOTTERY" "lottery_pick (xorshift (r_x s)) s = None"
  shows "scheduler_iter None s = Undef"
proof -
  let ?u = "(intr_on s)\<lparr>r_x := xorshift (r_x s)\<rparr>"
  have u: "quiet ?u" "unlocked tickets_lock ?u" using assms(1) by (auto simp: idle_def)
  have "lottery_loop NPROC w (acquired tickets_lock ?u) = lottery_loop NPROC w s" for w
    by (rule lottery_loop_cong) simp
  then show ?thesis using assms u
    by (simp add: scheduler_iter_def rand_int_eq lottery_pick_def lock_eqs Let_def)
qed

section \<open>Properties\<close>



end
