(* ===== verification/Sleeplock.thy ===== *)
theory Sleeplock
  imports Proc_State
begin

text \<open>
  Sleep locks (\<open>kernel/sleeplock.c\<close>). A sleep lock is named by the spin lock \<open>lk\<close> inside it. A process
  that finds the lock taken calls \<open>sleep\<close> and leaves through the scheduler; what it does when it runs
  again is \<open>acquiresleep_resume\<close>.
\<close>

section \<open>State and operations\<close>

record sleeplock =
  sl_locked :: bool
  sl_name :: string
  sl_pid :: int32

record ksleep = kproc +
  sleeplocks :: "lockid \<Rightarrow> sleeplock"

definition initsleeplock :: "lockid \<Rightarrow> string \<Rightarrow> 'a ksleep_scheme \<Rightarrow> 'a ksleep_scheme" where
  "initsleeplock lk name s =
    (let s = initlock lk ''sleep lock'' s
     in s\<lparr>sleeplocks := (sleeplocks s)(lk := \<lparr>sl_locked = False, sl_name = name, sl_pid = 0\<rparr>)\<rparr>)"

lemma sched_never_returns: "sched s \<noteq> Ok u t"
  by (auto simp: sched_def bind_eq_Ok_conv split: option.splits if_splits)

lemma sleep_never_returns: "sleep chn lk s \<noteq> Ok u t"
  by (auto simp: sleep_def bind_eq_Ok_conv sched_never_returns Let_def split: option.splits)

text \<open>The loop of \<open>acquiresleep\<close>, entered with the spin lock held.\<close>

function acquiresleep_loop :: "lockid \<Rightarrow> 'a ksleep_scheme \<Rightarrow> (unit, 'a ksleep_scheme) res" where
  "acquiresleep_loop lk s =
    (if sl_locked (sleeplocks s lk) then
       bind (sleep (ChanSleeplock lk) lk s) (\<lambda>_ s. acquiresleep_loop lk s)
     else
       let s = s\<lparr>sleeplocks := (sleeplocks s)(lk := (sleeplocks s lk)\<lparr>sl_locked := True\<rparr>)\<rparr> in
       bind (myproc s) (\<lambda>po s.
       case po of
         None \<Rightarrow> Undef
       | Some p \<Rightarrow>
           let s = s\<lparr>sleeplocks := (sleeplocks s)(lk := (sleeplocks s lk)\<lparr>sl_pid := p_pid (procs s p)\<rparr>)\<rparr>
           in release lk s))"
  by pat_completeness auto
termination
  by (relation "measure (\<lambda>(lk, s). 0)") (auto simp: sleep_never_returns)

declare acquiresleep_loop.simps [simp del]

definition acquiresleep :: "lockid \<Rightarrow> 'a ksleep_scheme \<Rightarrow> (unit, 'a ksleep_scheme) res" where
  "acquiresleep lk s = bind (acquire lk s) (\<lambda>_ s. acquiresleep_loop lk s)"

definition acquiresleep_resume ::
  "nat \<Rightarrow> lockid \<Rightarrow> bool \<Rightarrow> 'a ksleep_scheme \<Rightarrow> (unit, 'a ksleep_scheme) res" where
  "acquiresleep_resume p lk intena_saved s =
    bind (sleep_resume p lk intena_saved s) (\<lambda>_ s. acquiresleep_loop lk s)"

definition releasesleep :: "lockid \<Rightarrow> 'a ksleep_scheme \<Rightarrow> (unit, 'a ksleep_scheme) res" where
  "releasesleep lk s =
    bind (acquire lk s) (\<lambda>_ s.
    let s = s\<lparr>sleeplocks := (sleeplocks s)(lk := (sleeplocks s lk)\<lparr>sl_locked := False\<rparr>)\<rparr>;
        s = s\<lparr>sleeplocks := (sleeplocks s)(lk := (sleeplocks s lk)\<lparr>sl_pid := 0\<rparr>)\<rparr>
    in bind (wakeup (ChanSleeplock lk) s) (\<lambda>_ s. release lk s))"

definition holdingsleep :: "lockid \<Rightarrow> 'a ksleep_scheme \<Rightarrow> (bool, 'a ksleep_scheme) res" where
  "holdingsleep lk s =
    bind (acquire lk s) (\<lambda>_ s.
    bind (if sl_locked (sleeplocks s lk) then
            bind (myproc s) (\<lambda>po s.
            case po of None \<Rightarrow> Undef | Some p \<Rightarrow> Ok (sl_pid (sleeplocks s lk) = p_pid (procs s p)) s)
          else Ok False s) (\<lambda>r s.
    bind (release lk s) (\<lambda>_ s. Ok r s)))"

section \<open>Kernel code that runs alone\<close>

text \<open>
  \<open>calm s\<close>: the hart runs kernel code outside every critical section, no spin lock is held, and the
  \<open>intena\<close> of the hart agrees with the interrupt flag, as it does after any \<open>acquire\<close> and \<open>release\<close>.
\<close>

definition calm :: "'a machine_scheme \<Rightarrow> bool" where
  "calm s \<longleftrightarrow> noff (mycpu s) = 0 \<and> intena (mycpu s) = intr_get s \<and> (\<forall>l. unlocked l s)"

lemma calm_simps:
  assumes "calm s"
  shows "unlocked l s" "quiet s" "touch s = s" "noff (mycpu s) = 0"
proof -
  show "unlocked l s" "quiet s" "noff (mycpu s) = 0" using assms by (auto simp: calm_def quiet_def)
  have "(mycpu s)\<lparr>intena := intr_get s\<rparr> = mycpu s" using assms by (cases "mycpu s") (simp add: calm_def)
  then show "touch s = s" by (cases s) (simp add: touch_def set_mycpu_def mycpu_def cpuid_def)
qed

lemma calm_acquire [step_eqs]: "calm s \<Longrightarrow> acquire l s = Ok () (acquired l s)"
  by (simp add: acquire_eq calm_simps)

lemma calm_release [step_eqs]: "calm s \<Longrightarrow> release l (acquired l s) = Ok () s"
  by (simp add: release_acquired calm_simps)

lemma calm_myproc [step_eqs]:
  "calm s \<Longrightarrow> myproc s = Ok (cpu_proc (mycpu s)) s"
  "calm s \<Longrightarrow> myproc (acquired l s) = Ok (cpu_proc (mycpu s)) (acquired l s)"
  by (simp_all add: myproc_eq calm_simps)

lemma calm_all_unlocked: "calm s \<Longrightarrow> all_unlocked s" "calm s \<Longrightarrow> others_unlocked s"
  by (auto simp: all_unlocked_def others_unlocked_def calm_simps)

lemma calm_acquired_others:
  "calm s \<Longrightarrow> \<forall>i. l \<noteq> proc_lock i \<Longrightarrow> others_unlocked (acquired l s)"
  by (simp add: others_unlocked_def calm_simps) (metis unlocked_acquired calm_simps(1))

definition wake :: "chan \<Rightarrow> 'a kproc_scheme \<Rightarrow> 'a kproc_scheme" where
  "wake chn s = s\<lparr>procs := \<lambda>j. woken chn (cpu_proc (mycpu s)) j (procs s j)\<rparr>"

lemma calm_wakeup [step_eqs]:
  "calm s \<Longrightarrow> wakeup chn s = Ok () (wake chn s)"
  "calm s \<Longrightarrow> \<forall>i. l \<noteq> proc_lock i \<Longrightarrow> wakeup chn (acquired l s) = Ok () (acquired l (wake chn s))"
proof -
  assume c: "calm s"
  have "touch (s\<lparr>procs := f\<rparr>) = s\<lparr>procs := f\<rparr>" for f
    using kproc_lock_upd(2) [of f s] c by (simp add: calm_simps)
  then show "wakeup chn s = Ok () (wake chn s)"
    using wakeup_eq [OF calm_simps(2) [OF c] calm_all_unlocked(2) [OF c], of chn] by (simp add: wake_def)
next
  assume c: "calm s" and l: "\<forall>i. l \<noteq> proc_lock i"
  have q: "quiet (acquired l s)" using c by (simp add: calm_simps)
  have "touch (acquired l (s\<lparr>procs := f\<rparr>)) = acquired l (s\<lparr>procs := f\<rparr>)" for f
    using c by (intro touch_acquired) (simp add: calm_simps)
  then show "wakeup chn (acquired l s) = Ok () (acquired l (wake chn s))"
    using wakeup_eq [OF q calm_acquired_others [OF c l], of chn] by (simp add: wake_def kproc_lock_upd)
qed

lemma calm_kproc_upd [simp]:
  "calm (s\<lparr>procs := f\<rparr>) = calm s" "calm (s\<lparr>mem := m\<rparr>) = calm s" "calm (s\<lparr>freelist := x\<rparr>) = calm s"
  "calm (s\<lparr>console := c\<rparr>) = calm s" "calm (upd_proc i g s) = calm s" "calm (s\<lparr>ticks := k\<rparr>) = calm s"
  "calm (wake chn s) = calm s" "calm (s\<lparr>nextpid := n\<rparr>) = calm s"
  by (simp_all add: machine_defs calm_def upd_proc_def wake_def)

lemma wake_simps [simp]:
  "mycpu (wake chn s) = mycpu s" "mem (wake chn s) = mem s" "unlocked l (wake chn s) = unlocked l s"
  "p_pid (procs (wake chn s) j) = p_pid (procs s j)" "p_cwd (procs (wake chn s) j) = p_cwd (procs s j)"
  "p_pagetable (procs (wake chn s) j) = p_pagetable (procs s j)"
  "p_killed (procs (wake chn s) j) = p_killed (procs s j)"
  "p_ofile (procs (wake chn s) j) = p_ofile (procs s j)"
  "wake chn (acquired l s) = acquired l (wake chn s)"
  by (simp_all add: wake_def woken_def kproc_lock_upd)

lemma ksleep_lock_simps [simp]:
  "sleeplocks (acquired l s) = sleeplocks s"
  "unlocked l (s\<lparr>sleeplocks := x_sleeplocks\<rparr>) = unlocked l s" "calm (s\<lparr>sleeplocks := x_sleeplocks\<rparr>) = calm s" "mycpu (s\<lparr>sleeplocks := x_sleeplocks\<rparr>) = mycpu s"
  by (simp_all add: machine_defs calm_def)

lemma ksleep_lock_upd [step_eqs]:
  "(acquired l s)\<lparr>sleeplocks := x_sleeplocks\<rparr> = acquired l (s\<lparr>sleeplocks := x_sleeplocks\<rparr>)"
  by (simp_all add: machine_defs)

lemma wake_sleeplocks [simp]:
  "sleeplocks (wake chn s) = sleeplocks s" "wake chn (s\<lparr>sleeplocks := f\<rparr>) = (wake chn s)\<lparr>sleeplocks := f\<rparr>"
  by (simp_all add: wake_def)

lemmas calm_eqs = calm_acquire calm_release calm_myproc calm_wakeup ksleep_lock_upd kproc_lock_upd kmem_lock_upd
  upd_proc_lock_upd

text \<open>The effect of taking and of giving back a free sleep lock.\<close>

definition sl_take :: "lockid \<Rightarrow> int32 \<Rightarrow> 'a ksleep_scheme \<Rightarrow> 'a ksleep_scheme" where
  "sl_take lk pid s =
     s\<lparr>sleeplocks := (sleeplocks s)(lk := (sleeplocks s lk)\<lparr>sl_locked := True, sl_pid := pid\<rparr>)\<rparr>"

definition sl_drop :: "lockid \<Rightarrow> 'a ksleep_scheme \<Rightarrow> 'a ksleep_scheme" where
  "sl_drop lk s =
     wake (ChanSleeplock lk) (s\<lparr>sleeplocks := (sleeplocks s)(lk := (sleeplocks s lk)\<lparr>sl_locked := False, sl_pid := 0\<rparr>)\<rparr>)"

lemma acquiresleep_loop_free:
  "calm s \<Longrightarrow> cpu_proc (mycpu s) = Some p \<Longrightarrow> \<not> sl_locked (sleeplocks s lk) \<Longrightarrow>
   acquiresleep_loop lk (acquired lk s) = Ok () (sl_take lk (p_pid (procs s p)) s)"
  by (simp add: acquiresleep_loop.simps [of _ "acquired lk s"] calm_eqs sl_take_def)

lemma acquiresleep_free [step_eqs]:
  "calm s \<Longrightarrow> cpu_proc (mycpu s) = Some p \<Longrightarrow> \<not> sl_locked (sleeplocks s lk) \<Longrightarrow>
   acquiresleep lk s = Ok () (sl_take lk (p_pid (procs s p)) s)"
  by (simp add: acquiresleep_def acquiresleep_loop_free calm_eqs)

lemma releasesleep_eq [step_eqs]:
  "calm s \<Longrightarrow> \<forall>i. lk \<noteq> proc_lock i \<Longrightarrow> releasesleep lk s = Ok () (sl_drop lk s)"
  by (simp add: releasesleep_def calm_eqs sl_drop_def)

lemma holdingsleep_eq [step_eqs]:
  "calm s \<Longrightarrow> cpu_proc (mycpu s) = Some p \<Longrightarrow>
   holdingsleep lk s = Ok (sl_locked (sleeplocks s lk) \<and> sl_pid (sleeplocks s lk) = p_pid (procs s p)) s"
  by (simp add: holdingsleep_def calm_eqs)

lemma acquiresleep_blocked:
  assumes "calm s" "cpu_proc (mycpu s) = Some p" "sl_locked (sleeplocks s lk)" "\<forall>i. lk \<noteq> proc_lock i"
  shows "acquiresleep lk s =
    Swtch (acquired (proc_lock p) (upd_proc p (\<lambda>q. q\<lparr>p_chan := ChanSleeplock lk, p_state := SLEEPING\<rparr>) s))"
proof -
  have "sleep (ChanSleeplock lk) lk (acquired lk s) =
    Swtch (acquired (proc_lock p) (upd_proc p (\<lambda>q. q\<lparr>p_chan := ChanSleeplock lk, p_state := SLEEPING\<rparr>) s))"
    using assms by (intro sleep_eq) (auto simp: calm_simps)
  then show ?thesis using assms
    by (simp add: acquiresleep_def acquiresleep_loop.simps [of _ "acquired lk s"] calm_eqs)
qed

lemma sched_resume_same: "calm s \<Longrightarrow> sched_resume (intr_get s) (acquired l s) = acquired l s"
  by (cases s) (auto simp: sched_resume_def calm_def machine_defs)

lemma acquiresleep_resume_free:
  assumes "calm s" "cpu_proc (mycpu s) = Some p" "\<not> sl_locked (sleeplocks s lk)"
  shows "acquiresleep_resume p lk (intr_get s) (acquired (proc_lock p) s) =
    Ok () (sl_take lk (p_pid (procs s p)) (upd_proc p (\<lambda>q. q\<lparr>p_chan := NoChan\<rparr>) s))"
proof -
  let ?s = "upd_proc p (\<lambda>q. q\<lparr>p_chan := NoChan\<rparr>) s"
  have "sleep_resume p lk (intr_get s) (acquired (proc_lock p) s) = Ok () (acquired lk ?s)"
    using assms(1) by (simp add: sleep_resume_def sleep_tail_def sched_resume_same calm_eqs)
  moreover have "sleeplocks ?s = sleeplocks s" by (simp add: upd_proc_def)
  ultimately show ?thesis
    using assms acquiresleep_loop_free [of ?s p lk] by (simp add: acquiresleep_resume_def)
qed

section \<open>Properties\<close>


definition two_procs :: "nat \<Rightarrow> bool \<Rightarrow> ksleep" where
  "two_procs cur taken =
    kproc.extend (set_mycpu \<lparr>cpu_proc = Some cur, noff = 0, intena = False\<rparr>
        (bare_kernel ROUND_ROBIN ((\<lambda>_. bare_proc)(1 := bare_proc\<lparr>p_pid := 1, p_state := RUNNING\<rparr>,
           2 := bare_proc\<lparr>p_pid := 2, p_state := SLEEPING, p_chan := ChanSleeplock (buf_lock 0)\<rparr>))))
      (ksleep.fields (\<lambda>_. \<lparr>sl_locked = taken, sl_name = [], sl_pid = 1\<rparr>))"

lemma two_procs_simps:
  "calm (two_procs c b)" "cpu_proc (mycpu (two_procs c b)) = Some c" "\<not> intr_get (two_procs c b)"
  "sleeplocks (two_procs c b) lk = \<lparr>sl_locked = b, sl_name = [], sl_pid = 1\<rparr>"
  "procs (two_procs c b) = (\<lambda>_. bare_proc)(1 := bare_proc\<lparr>p_pid := 1, p_state := RUNNING\<rparr>,
           2 := bare_proc\<lparr>p_pid := 2, p_state := SLEEPING, p_chan := ChanSleeplock (buf_lock 0)\<rparr>)"
  by (simp_all add: two_procs_def bare_kernel_def calm_def machine_defs kproc.defs ksleep.defs)


end
