(* ===== verification/Bio.thy ===== *)
theory Bio
  imports Sleeplock
begin

text \<open>
  The buffer cache (\<open>kernel/bio.c\<close>). A pointer \<open>struct buf *\<close> is an index in \<open>bcache.buf[NBUF]\<close>, and
  the index \<open>NBUF\<close> is \<open>bcache.head\<close>; the links \<open>prev\<close> and \<open>next\<close> are kept as in the code. The disk is
  the image it had at boot and the block writes it has completed since, newest first, so that
  the theory of the log can speak about a crash after any of them. \<open>virtio_disk_rw\<close> is used here by
  its contract: it transfers one whole block, and the caller sleeps until that is done.
\<close>

section \<open>State\<close>

definition NBUF :: nat where "NBUF = 30"

definition BSIZE :: nat where "BSIZE = 1024"

record buf =
  b_valid :: bool
  b_disk :: bool
  b_dev :: uint
  b_blockno :: uint
  b_refcnt :: uint
  b_prev :: nat
  b_next :: nat
  b_data :: "uchar list"

record kbio = ksleep +
  bufs :: "nat \<Rightarrow> buf"
  disk_image :: "uint \<Rightarrow> uchar list"
  disk_writes :: "(uint \<times> uchar list) list"

definition upd_buf :: "nat \<Rightarrow> (buf \<Rightarrow> buf) \<Rightarrow> 'a kbio_scheme \<Rightarrow> 'a kbio_scheme" where
  "upd_buf i f s = s\<lparr>bufs := (bufs s)(i := f (bufs s i))\<rparr>"

text \<open>The contents of the disk after a sequence of writes.\<close>

primrec disk_after :: "(uint \<Rightarrow> uchar list) \<Rightarrow> (uint \<times> uchar list) list \<Rightarrow> uint \<Rightarrow> uchar list" where
  "disk_after img [] = img"
| "disk_after img (w # ws) = (disk_after img ws)(fst w := snd w)"

definition disk :: "'a kbio_scheme \<Rightarrow> uint \<Rightarrow> uchar list" where
  "disk s = disk_after (disk_image s) (disk_writes s)"

definition disk_rw :: "nat \<Rightarrow> bool \<Rightarrow> 'a kbio_scheme \<Rightarrow> 'a kbio_scheme" where
  "disk_rw b write s =
    (let c = b_blockno (bufs s b) in
     if write then s\<lparr>disk_writes := (c, b_data (bufs s b)) # disk_writes s\<rparr>
     else upd_buf b (\<lambda>x. x\<lparr>b_data := disk s c\<rparr>) s)"

section \<open>Operations\<close>

definition link_front :: "nat \<Rightarrow> 'a kbio_scheme \<Rightarrow> 'a kbio_scheme" where
  "link_front b s =
    (let s = upd_buf b (\<lambda>x. x\<lparr>b_next := b_next (bufs s NBUF)\<rparr>) s;
         s = upd_buf b (\<lambda>x. x\<lparr>b_prev := NBUF\<rparr>) s;
         s = upd_buf (b_next (bufs s NBUF)) (\<lambda>x. x\<lparr>b_prev := b\<rparr>) s
     in upd_buf NBUF (\<lambda>x. x\<lparr>b_next := b\<rparr>) s)"

fun binit_loop :: "nat \<Rightarrow> 'a kbio_scheme \<Rightarrow> 'a kbio_scheme" where
  "binit_loop 0 s = s"
| "binit_loop (Suc n) s =
    (let b = NBUF - Suc n;
         s = upd_buf b (\<lambda>x. x\<lparr>b_next := b_next (bufs s NBUF)\<rparr>) s;
         s = upd_buf b (\<lambda>x. x\<lparr>b_prev := NBUF\<rparr>) s;
         s = initsleeplock (buf_lock b) ''buffer'' s;
         s = upd_buf (b_next (bufs s NBUF)) (\<lambda>x. x\<lparr>b_prev := b\<rparr>) s;
         s = upd_buf NBUF (\<lambda>x. x\<lparr>b_next := b\<rparr>) s
     in binit_loop n s)"

definition binit :: "'a kbio_scheme \<Rightarrow> 'a kbio_scheme" where
  "binit s =
    (let s = initlock bcache_lock ''bcache'' s;
         s = upd_buf NBUF (\<lambda>x. x\<lparr>b_prev := NBUF\<rparr>) s;
         s = upd_buf NBUF (\<lambda>x. x\<lparr>b_next := NBUF\<rparr>) s
     in binit_loop NBUF s)"

text \<open>
  The two scans of \<open>bget\<close>. The first argument bounds the number of links followed; a list that does not
  return to the head within \<open>NBUF\<close> links is malformed (the loop of the code would not end).
\<close>

fun bget_hit :: "nat \<Rightarrow> (nat \<Rightarrow> buf) \<Rightarrow> uint \<Rightarrow> uint \<Rightarrow> nat \<Rightarrow> nat option" where
  "bget_hit 0 bf dev blockno b = None"
| "bget_hit (Suc n) bf dev blockno b =
    (if b = NBUF then Some NBUF
     else if b_dev (bf b) = dev \<and> b_blockno (bf b) = blockno then Some b
     else bget_hit n bf dev blockno (b_next (bf b)))"

fun bget_lru :: "nat \<Rightarrow> (nat \<Rightarrow> buf) \<Rightarrow> nat \<Rightarrow> nat option" where
  "bget_lru 0 bf b = None"
| "bget_lru (Suc n) bf b =
    (if b = NBUF then Some NBUF
     else if b_refcnt (bf b) = 0 then Some b
     else bget_lru n bf (b_prev (bf b)))"

definition bget :: "uint \<Rightarrow> uint \<Rightarrow> 'a kbio_scheme \<Rightarrow> (nat, 'a kbio_scheme) res" where
  "bget dev blockno s =
    bind (acquire bcache_lock s) (\<lambda>_ s.
    case bget_hit (Suc NBUF) (bufs s) dev blockno (b_next (bufs s NBUF)) of
      None \<Rightarrow> Undef
    | Some b \<Rightarrow>
        if b \<noteq> NBUF then
          let s = upd_buf b (\<lambda>x. x\<lparr>b_refcnt := b_refcnt x + 1\<rparr>) s in
          bind (release bcache_lock s) (\<lambda>_ s.
          bind (acquiresleep (buf_lock b) s) (\<lambda>_ s. Ok b s))
        else
          case bget_lru (Suc NBUF) (bufs s) (b_prev (bufs s NBUF)) of
            None \<Rightarrow> Undef
          | Some b \<Rightarrow>
              if b \<noteq> NBUF then
                let s = upd_buf b (\<lambda>x. x\<lparr>b_dev := dev, b_blockno := blockno, b_valid := False, b_refcnt := 1\<rparr>) s in
                bind (release bcache_lock s) (\<lambda>_ s.
                bind (acquiresleep (buf_lock b) s) (\<lambda>_ s. Ok b s))
              else Panic ''bget: no buffers'')"

definition bread :: "uint \<Rightarrow> uint \<Rightarrow> 'a kbio_scheme \<Rightarrow> (nat, 'a kbio_scheme) res" where
  "bread dev blockno s =
    bind (bget dev blockno s) (\<lambda>b s.
    if \<not> b_valid (bufs s b) then
      let s = disk_rw b False s;
          s = upd_buf b (\<lambda>x. x\<lparr>b_valid := True\<rparr>) s
      in Ok b s
    else Ok b s)"

definition bwrite :: "nat \<Rightarrow> 'a kbio_scheme \<Rightarrow> (unit, 'a kbio_scheme) res" where
  "bwrite b s =
    bind (holdingsleep (buf_lock b) s) (\<lambda>h s.
    if \<not> h then Panic ''bwrite'' else Ok () (disk_rw b True s))"

definition unlink :: "nat \<Rightarrow> 'a kbio_scheme \<Rightarrow> 'a kbio_scheme" where
  "unlink b s =
    (let s = upd_buf (b_next (bufs s b)) (\<lambda>x. x\<lparr>b_prev := b_prev (bufs s b)\<rparr>) s
     in upd_buf (b_prev (bufs s b)) (\<lambda>x. x\<lparr>b_next := b_next (bufs s b)\<rparr>) s)"

definition brelse :: "nat \<Rightarrow> 'a kbio_scheme \<Rightarrow> (unit, 'a kbio_scheme) res" where
  "brelse b s =
    bind (holdingsleep (buf_lock b) s) (\<lambda>h s.
    if \<not> h then Panic ''brelse''
    else
      bind (releasesleep (buf_lock b) s) (\<lambda>_ s.
      bind (acquire bcache_lock s) (\<lambda>_ s.
      let s = upd_buf b (\<lambda>x. x\<lparr>b_refcnt := b_refcnt x - 1\<rparr>) s;
          s = (if b_refcnt (bufs s b) = 0 then link_front b (unlink b s) else s)
      in release bcache_lock s)))"

definition bpin :: "nat \<Rightarrow> 'a kbio_scheme \<Rightarrow> (unit, 'a kbio_scheme) res" where
  "bpin b s =
    bind (acquire bcache_lock s) (\<lambda>_ s.
    let s = upd_buf b (\<lambda>x. x\<lparr>b_refcnt := b_refcnt x + 1\<rparr>) s in release bcache_lock s)"

definition bunpin :: "nat \<Rightarrow> 'a kbio_scheme \<Rightarrow> (unit, 'a kbio_scheme) res" where
  "bunpin b s =
    bind (acquire bcache_lock s) (\<lambda>_ s.
    let s = upd_buf b (\<lambda>x. x\<lparr>b_refcnt := b_refcnt x - 1\<rparr>) s in release bcache_lock s)"

section \<open>The circular doubly linked list\<close>

text \<open>
  \<open>chain nx pv a xs z\<close>: following the links \<open>nx\<close> from \<open>a\<close> one meets the nodes \<open>xs\<close> and then \<open>z\<close>, and \<open>pv\<close>
  leads back the same way.
\<close>

fun chain :: "(nat \<Rightarrow> nat) \<Rightarrow> (nat \<Rightarrow> nat) \<Rightarrow> nat \<Rightarrow> nat list \<Rightarrow> nat \<Rightarrow> bool" where
  "chain nx pv a [] z \<longleftrightarrow> nx a = z \<and> pv z = a"
| "chain nx pv a (x # xs) z \<longleftrightarrow> nx a = x \<and> pv x = a \<and> chain nx pv x xs z"

lemma chain_append: "chain nx pv a (xs @ y # ys) z \<longleftrightarrow> chain nx pv a xs y \<and> chain nx pv y ys z"
  by (induction xs arbitrary: a) auto

lemma chain_cong:
  assumes "chain nx pv a xs z" "\<forall>x \<in> set (a # xs). nx' x = nx x" "\<forall>x \<in> set (xs @ [z]). pv' x = pv x"
  shows "chain nx' pv' a xs z"
  using assms by (induction xs arbitrary: a) auto

lemma chain_last: "chain nx pv a xs z \<Longrightarrow> pv z = last (a # xs)"
  by (induction xs arbitrary: a) auto

lemma chain_redirect:
  assumes "chain nx pv a xs z" "distinct (a # xs)" "y \<notin> set xs"
  shows "chain (nx(last (a # xs) := y)) (pv(y := last (a # xs))) a xs y"
  using assms
proof (induction xs arbitrary: a)
  case Nil
  then show ?case by simp
next
  case (Cons x xs)
  have "last (x # xs) \<in> set (x # xs)" by (rule last_in_set) simp
  then have "a \<noteq> last (x # xs)" using Cons.prems(2) by auto
  moreover have "x \<noteq> y" using Cons.prems(3) by auto
  ultimately show ?case using Cons by simp
qed

lemma chain_unlink:
  assumes c: "chain nx pv a (xs @ b # ys) z" and d: "distinct (a # xs @ b # ys)" "z = a \<or> z \<notin> set (xs @ b # ys)"
  shows "chain (nx(pv b := nx b)) (pv(nx b := pv b)) a (xs @ ys) z"
proof -
  have c1: "chain nx pv a xs b" and c2: "chain nx pv b ys z" using c by (auto simp: chain_append)
  have pvb: "pv b = last (a # xs)" using c1 by (rule chain_last)
  have dx: "distinct (a # xs)" using d(1) by auto
  have pb: "pv b \<in> set (a # xs)" unfolding pvb by (rule last_in_set) simp
  show ?thesis
  proof (cases ys)
    case Nil
    then have "nx b = z" using c2 by simp
    moreover have "z \<notin> set xs" using d by auto
    ultimately show ?thesis using chain_redirect [OF c1 dx, of z] Nil by (simp add: pvb)
  next
    case (Cons y zs)
    then have nb: "nx b = y" "chain nx pv y zs z" using c2 by auto
    have "y \<notin> set xs" using d(1) Cons by auto
    then have "chain (nx(pv b := y)) (pv(y := pv b)) a xs y" using chain_redirect [OF c1 dx] by (simp add: pvb)
    moreover have "chain (nx(pv b := y)) (pv(y := pv b)) y zs z"
    proof (rule chain_cong [OF nb(2)])
      show "\<forall>x \<in> set (y # zs). (nx(pv b := y)) x = nx x" using pb d(1) Cons by auto
      show "\<forall>x \<in> set (zs @ [z]). (pv(y := pv b)) x = pv x" using d Cons by auto
    qed
    ultimately show ?thesis using Cons nb(1) by (simp add: chain_append)
  qed
qed

lemma chain_front:
  assumes c: "chain nx pv a xs z" and b: "b \<noteq> a" "b \<notin> set xs" "b \<noteq> z"
    and d: "a \<notin> set xs" "distinct xs" "z = a \<or> z \<notin> set xs"
  shows "chain (nx(b := nx a, a := b)) (pv(b := a, nx a := b)) a (b # xs) z"
proof (cases xs)
  case Nil
  then show ?thesis using c b by auto
next
  case (Cons x ys)
  then have x: "chain nx pv x ys z" "nx a = x" using c by auto
  have "chain (nx(b := nx a, a := b)) (pv(b := a, nx a := b)) x ys z"
    by (rule chain_cong [OF x(1)]) (use b d Cons x(2) in auto)
  then show ?thesis using b d Cons x(2) by auto
qed

text \<open>The list of the cache, most recently used first.\<close>

definition lru_list :: "(nat \<Rightarrow> buf) \<Rightarrow> nat list \<Rightarrow> bool" where
  "lru_list bf xs \<longleftrightarrow> distinct xs \<and> NBUF \<notin> set xs \<and>
     chain (\<lambda>i. b_next (bf i)) (\<lambda>i. b_prev (bf i)) NBUF xs NBUF"

lemma chain_prev_rev:
  "chain nx pv a xs z \<Longrightarrow> chain pv nx z (rev xs) a"
proof (induction xs arbitrary: a)
  case Nil
  then show ?case by simp
next
  case (Cons x xs)
  then show ?case by (simp add: chain_append)
qed

lemma bget_hit_chain:
  assumes "chain (\<lambda>i. b_next (bf i)) pv a xs NBUF" "length xs < n" "NBUF \<notin> set xs"
  shows "bget_hit n bf dev c (b_next (bf a)) =
    Some (case find (\<lambda>i. b_dev (bf i) = dev \<and> b_blockno (bf i) = c) xs of None \<Rightarrow> NBUF | Some b \<Rightarrow> b)"
  using assms
proof (induction xs arbitrary: a n)
  case Nil
  then show ?case by (cases n) auto
next
  case (Cons x xs)
  then obtain k where n: "n = Suc k" "length xs < k" by (cases n) auto
  then show ?case using Cons by auto
qed

lemma bget_lru_chain:
  assumes "chain (\<lambda>i. b_prev (bf i)) pv a xs NBUF" "length xs < n" "NBUF \<notin> set xs"
  shows "bget_lru n bf (b_prev (bf a)) =
    Some (case find (\<lambda>i. b_refcnt (bf i) = 0) xs of None \<Rightarrow> NBUF | Some b \<Rightarrow> b)"
  using assms
proof (induction xs arbitrary: a n)
  case Nil
  then show ?case by (cases n) auto
next
  case (Cons x xs)
  then obtain k where n: "n = Suc k" "length xs < k" by (cases n) auto
  then show ?case using Cons by auto
qed

declare bget_hit.simps [simp del] bget_lru.simps [simp del]

section \<open>Running the operations\<close>

lemma kbio_lock_simps [simp]:
  "bufs (acquired l s) = bufs s"
  "disk_image (acquired l s) = disk_image s"
  "disk_writes (acquired l s) = disk_writes s"
  "unlocked l (s\<lparr>bufs := x_bufs\<rparr>) = unlocked l s" "calm (s\<lparr>bufs := x_bufs\<rparr>) = calm s" "mycpu (s\<lparr>bufs := x_bufs\<rparr>) = mycpu s"
  "unlocked l (s\<lparr>disk_image := x_disk_image\<rparr>) = unlocked l s" "calm (s\<lparr>disk_image := x_disk_image\<rparr>) = calm s" "mycpu (s\<lparr>disk_image := x_disk_image\<rparr>) = mycpu s"
  "unlocked l (s\<lparr>disk_writes := x_disk_writes\<rparr>) = unlocked l s" "calm (s\<lparr>disk_writes := x_disk_writes\<rparr>) = calm s" "mycpu (s\<lparr>disk_writes := x_disk_writes\<rparr>) = mycpu s"
  by (simp_all add: machine_defs calm_def)

lemma kbio_lock_upd [step_eqs]:
  "(acquired l s)\<lparr>bufs := x_bufs\<rparr> = acquired l (s\<lparr>bufs := x_bufs\<rparr>)"
  "(acquired l s)\<lparr>disk_image := x_disk_image\<rparr> = acquired l (s\<lparr>disk_image := x_disk_image\<rparr>)"
  "(acquired l s)\<lparr>disk_writes := x_disk_writes\<rparr> = acquired l (s\<lparr>disk_writes := x_disk_writes\<rparr>)"
  by (simp_all add: machine_defs)


lemma upd_buf_simps [simp]:
  "bufs (upd_buf i f s) j = (if j = i then f (bufs s i) else bufs s j)"
  "calm (upd_buf i f s) = calm s" "mycpu (upd_buf i f s) = mycpu s" "procs (upd_buf i f s) = procs s"
  "sleeplocks (upd_buf i f s) = sleeplocks s" "disk_writes (upd_buf i f s) = disk_writes s"
  "disk_image (upd_buf i f s) = disk_image s" "disk (upd_buf i f s) = disk s"
  "upd_buf i f (acquired l s) = acquired l (upd_buf i f s)"
  by (auto simp: upd_buf_def kbio_lock_upd disk_def)

lemma sl_take_bio [simp]:
  "bufs (sl_take lk n s) = bufs s" "disk (sl_take lk n s) = disk s" "calm (sl_take lk n s) = calm s"
  "mycpu (sl_take lk n s) = mycpu s" "procs (sl_take lk n s) = procs s" "disk_writes (sl_take lk n s) = disk_writes s"
  "disk_image (sl_take lk n s) = disk_image s"
  "sleeplocks (sl_take lk n s) = (sleeplocks s)(lk := (sleeplocks s lk)\<lparr>sl_locked := True, sl_pid := n\<rparr>)"
  by (simp_all add: sl_take_def disk_def)

lemma wake_bio [simp]:
  "bufs (wake chn s) = bufs s" "disk (wake chn s) = disk s" "disk_writes (wake chn s) = disk_writes s"
  "disk_image (wake chn s) = disk_image s"
  by (simp_all add: wake_def disk_def)

lemma sl_drop_bio [simp]:
  "bufs (sl_drop lk s) = bufs s" "disk (sl_drop lk s) = disk s" "calm (sl_drop lk s) = calm s"
  "mycpu (sl_drop lk s) = mycpu s" "disk_writes (sl_drop lk s) = disk_writes s"
  "disk_image (sl_drop lk s) = disk_image s"
  "sleeplocks (sl_drop lk s) = (sleeplocks s)(lk := (sleeplocks s lk)\<lparr>sl_locked := False, sl_pid := 0\<rparr>)"
  by (simp_all add: sl_drop_def disk_def)

section \<open>The cache as a view of the disk\<close>

text \<open>
  The kernel uses one disk, \<open>ROOTDEV\<close>. \<open>holder s c\<close>: the buffer that caches block \<open>c\<close>; \<open>blk s c\<close>: the
  contents of block \<open>c\<close> as the file system sees it, through the cache; \<open>nrefs s c\<close>: the references to its
  buffer.
\<close>

definition ROOTDEV :: uint where "ROOTDEV = 1"

definition caches :: "(nat \<Rightarrow> buf) \<Rightarrow> nat \<Rightarrow> uint \<Rightarrow> bool" where
  "caches bf b c \<longleftrightarrow> b_dev (bf b) = ROOTDEV \<and> b_blockno (bf b) = c"

definition holder :: "'a kbio_scheme \<Rightarrow> uint \<Rightarrow> nat option" where
  "holder s c = find (\<lambda>b. caches (bufs s) b c) [0..<NBUF]"

definition blk :: "'a kbio_scheme \<Rightarrow> uint \<Rightarrow> uchar list" where
  "blk s c = (case holder s c of
      None \<Rightarrow> disk s c
    | Some b \<Rightarrow> if b_valid (bufs s b) then b_data (bufs s b) else disk s c)"

definition nrefs :: "'a kbio_scheme \<Rightarrow> uint \<Rightarrow> nat" where
  "nrefs s c = (case holder s c of None \<Rightarrow> 0 | Some b \<Rightarrow> unat (b_refcnt (bufs s b)))"

text \<open>
  The invariant: the list holds every buffer once; no block has two buffers; a buffer is of the disk or
  never used; an unreferenced buffer is not locked, and clean if it is valid.
\<close>

definition bcache_inv :: "'a kbio_scheme \<Rightarrow> bool" where
  "bcache_inv s \<longleftrightarrow>
     (\<exists>xs. lru_list (bufs s) xs \<and> set xs = {..<NBUF}) \<and>
     (\<forall>b < NBUF. \<forall>b' < NBUF. \<forall>c. caches (bufs s) b c \<and> caches (bufs s) b' c \<longrightarrow> b = b') \<and>
     (\<forall>b < NBUF. b_dev (bufs s b) = ROOTDEV \<or> b_dev (bufs s b) = 0 \<and> b_refcnt (bufs s b) = 0) \<and>
     (\<forall>b < NBUF. b_refcnt (bufs s b) = 0 \<longrightarrow> \<not> sl_locked (sleeplocks s (buf_lock b)) \<and>
        (b_valid (bufs s b) \<and> b_dev (bufs s b) = ROOTDEV \<longrightarrow> b_data (bufs s b) = disk s (b_blockno (bufs s b))))"

definition bio_ok :: "nat \<Rightarrow> 'a kbio_scheme \<Rightarrow> bool" where
  "bio_ok p s \<longleftrightarrow> calm s \<and> cpu_proc (mycpu s) = Some p \<and> bcache_inv s"

definition held :: "nat \<Rightarrow> 'a kbio_scheme \<Rightarrow> nat \<Rightarrow> bool" where
  "held p s b \<longleftrightarrow> sl_locked (sleeplocks s (buf_lock b)) \<and> sl_pid (sleeplocks s (buf_lock b)) = p_pid (procs s p)"

text \<open>What the operations of the cache leave alone.\<close>

definition procs_same :: "'a kproc_scheme \<Rightarrow> 'a kproc_scheme \<Rightarrow> bool" where
  "procs_same s t \<longleftrightarrow> (\<forall>j. procs t j = (procs s j)\<lparr>p_state := p_state (procs t j)\<rparr> \<and>
     (cpu_proc (mycpu s) = Some j \<longrightarrow> procs t j = procs s j))"

definition bio_frame :: "'a kbio_scheme \<Rightarrow> 'a kbio_scheme \<Rightarrow> bool" where
  "bio_frame s t \<longleftrightarrow>
     (\<exists>bf sl dw pr. t = s\<lparr>bufs := bf, sleeplocks := sl, disk_writes := dw, procs := pr\<rparr>) \<and>
     procs_same s t \<and> (\<forall>l. (\<forall>b. l \<noteq> buf_lock b) \<longrightarrow> sleeplocks t l = sleeplocks s l)"

lemma find_unique:
  assumes "P x" "x \<in> set xs" "\<And>y. y \<in> set xs \<Longrightarrow> P y \<Longrightarrow> y = x"
  shows "find P xs = Some x"
  using assms
proof (induction xs)
  case (Cons a xs)
  show ?case
  proof (cases "P a")
    case True
    then show ?thesis using Cons.prems(3) [of a] by simp
  next
    case False
    then have "x \<in> set xs" using Cons.prems(1,2) by auto
    then have "find P xs = Some x" using Cons.IH [OF Cons.prems(1)] Cons.prems(3) by simp
    then show ?thesis using False by simp
  qed
qed simp

lemma find_Some_mem: "find P xs = Some x \<Longrightarrow> P x \<and> x \<in> set xs"
  by (induction xs) (auto split: if_splits)

lemma holder_iff:
  assumes "bcache_inv s"
  shows "holder s c = Some b \<longleftrightarrow> b < NBUF \<and> caches (bufs s) b c"
proof
  assume "holder s c = Some b"
  then show "b < NBUF \<and> caches (bufs s) b c"
    unfolding holder_def by (auto simp: find_Some_iff)
next
  assume "b < NBUF \<and> caches (bufs s) b c"
  then show "holder s c = Some b"
    unfolding holder_def using assms unfolding bcache_inv_def by (intro find_unique) auto
qed

lemma holder_None:
  "holder s c = None \<longleftrightarrow> (\<forall>b < NBUF. \<not> caches (bufs s) b c)"
  by (auto simp: holder_def find_None_iff)

lemma holder_cong:
  "(\<And>b. b < NBUF \<Longrightarrow> caches (bufs t) b c = caches (bufs s) b c) \<Longrightarrow> holder t c = holder s c"
  unfolding holder_def by (intro find_cong) auto

lemma procs_same_refl [simp]: "procs_same s s"
  by (simp add: procs_same_def)

lemma procs_same_wake: "procs_same s (wake chn s)"
  by (auto simp: procs_same_def wake_def woken_def)

lemma procs_same_trans:
  assumes "procs_same s t" "procs_same t u" "mycpu t = mycpu s"
  shows "procs_same s u"
  unfolding procs_same_def
proof (intro allI conjI impI)
  fix j
  have "procs u j = (procs t j)\<lparr>p_state := p_state (procs u j)\<rparr>"
    "procs t j = (procs s j)\<lparr>p_state := p_state (procs t j)\<rparr>"
    using assms(1,2) unfolding procs_same_def by blast+
  then have "procs u j = (procs s j)\<lparr>p_state := p_state (procs t j)\<rparr>\<lparr>p_state := p_state (procs u j)\<rparr>" by metis
  then show "procs u j = (procs s j)\<lparr>p_state := p_state (procs u j)\<rparr>" by simp
  show "procs u j = procs s j" if "cpu_proc (mycpu s) = Some j"
    using assms that unfolding procs_same_def by metis
qed

lemma bio_frameI:
  assumes "t = s\<lparr>bufs := bf, sleeplocks := sl, disk_writes := dw, procs := pr\<rparr>" "procs_same s t"
    "\<And>l. \<forall>b. l \<noteq> buf_lock b \<Longrightarrow> sleeplocks t l = sleeplocks s l"
  shows "bio_frame s t"
  unfolding bio_frame_def using assms by blast

lemma bio_frame_refl [simp]: "bio_frame s s"
proof -
  have "s = s\<lparr>bufs := bufs s, sleeplocks := sleeplocks s, disk_writes := disk_writes s, procs := procs s\<rparr>" by simp
  then show ?thesis unfolding bio_frame_def by (metis procs_same_refl)
qed

lemma bio_frame_mycpu: "bio_frame s t \<Longrightarrow> mycpu t = mycpu s"
  by (auto simp: bio_frame_def)

lemma bio_frame_trans:
  assumes "bio_frame s t" "bio_frame t u"
  shows "bio_frame s u"
proof -
  obtain bf sl dw pr bf' sl' dw' pr' where
    "t = s\<lparr>bufs := bf, sleeplocks := sl, disk_writes := dw, procs := pr\<rparr>"
    "u = t\<lparr>bufs := bf', sleeplocks := sl', disk_writes := dw', procs := pr'\<rparr>"
    using assms unfolding bio_frame_def by blast
  then have "u = s\<lparr>bufs := bf', sleeplocks := sl', disk_writes := dw', procs := pr'\<rparr>" by simp
  moreover have "procs_same s u"
    using procs_same_trans [of s t u] assms bio_frame_mycpu [OF assms(1)] by (simp add: bio_frame_def)
  moreover have "sleeplocks u l = sleeplocks s l" if "\<forall>b. l \<noteq> buf_lock b" for l
    using assms that by (simp add: bio_frame_def)
  ultimately show ?thesis unfolding bio_frame_def by blast
qed

lemma lru_list_cong:
  assumes "\<And>i. b_next (bf' i) = b_next (bf i)" "\<And>i. b_prev (bf' i) = b_prev (bf i)"
  shows "lru_list bf' xs = lru_list bf xs"
  by (simp add: lru_list_def assms)

text \<open>Exchanging the contents of one buffer, which stays referenced.\<close>

lemma bcache_inv_replace:
  assumes inv: "bcache_inv s" and b: "b < NBUF" and t: "bufs t = (bufs s)(b := B)" "disk t = disk s"
    and l: "b_next B = b_next (bufs s b)" "b_prev B = b_prev (bufs s b)"
    and sl: "\<And>b'. b' < NBUF \<Longrightarrow> b' \<noteq> b \<Longrightarrow> sleeplocks t (buf_lock b') = sleeplocks s (buf_lock b')"
    and B: "b_dev B = ROOTDEV" "b_refcnt B \<noteq> 0" "\<And>b'. b' < NBUF \<Longrightarrow> b' \<noteq> b \<Longrightarrow> \<not> caches (bufs s) b' (b_blockno B)"
  shows "bcache_inv t" "holder t c = (if c = b_blockno B then Some b else if holder s c = Some b then None else holder s c)"
proof -
  have li: "b_next (bufs t i) = b_next (bufs s i)" "b_prev (bufs t i) = b_prev (bufs s i)" for i
    using t(1) l by simp_all
  have cb: "caches (bufs t) b' c \<longleftrightarrow> (if b' = b then c = b_blockno B else caches (bufs s) b' c)" for b' c
    using B(1) by (auto simp: t(1) caches_def)
  show it: "bcache_inv t"
    unfolding bcache_inv_def
  proof (intro conjI)
    show "\<exists>xs. lru_list (bufs t) xs \<and> set xs = {..<NBUF}"
      using inv lru_list_cong [of "bufs t" "bufs s", OF li] by (simp add: bcache_inv_def)
    show "\<forall>b1 < NBUF. \<forall>b2 < NBUF. \<forall>c. caches (bufs t) b1 c \<and> caches (bufs t) b2 c \<longrightarrow> b1 = b2"
    proof (intro allI impI, elim conjE)
      fix b1 b2 c assume a: "b1 < NBUF" "b2 < NBUF" "caches (bufs t) b1 c" "caches (bufs t) b2 c"
      then show "b1 = b2" using inv B(3) by (cases "b1 = b"; cases "b2 = b") (auto simp: cb bcache_inv_def)
    qed
    show "\<forall>b<NBUF. b_dev (bufs t b) = ROOTDEV \<or> b_dev (bufs t b) = 0 \<and> b_refcnt (bufs t b) = 0"
      using inv B(1) by (auto simp: t(1) bcache_inv_def)
    show "\<forall>b'<NBUF. b_refcnt (bufs t b') = 0 \<longrightarrow> \<not> sl_locked (sleeplocks t (buf_lock b')) \<and>
        (b_valid (bufs t b') \<and> b_dev (bufs t b') = ROOTDEV \<longrightarrow> b_data (bufs t b') = disk t (b_blockno (bufs t b')))"
      using inv B(2) sl by (auto simp: t bcache_inv_def)
  qed
  show "holder t c = (if c = b_blockno B then Some b else if holder s c = Some b then None else holder s c)"
  proof (cases "c = b_blockno B")
    case True
    then have "holder t c = Some b" using holder_iff [OF it, of c b] b by (simp add: cb)
    then show ?thesis using True by simp
  next
    case False
    show ?thesis
    proof (cases "holder s c")
      case None
      then have "holder t c = None" using False by (auto simp: holder_None cb)
      then show ?thesis using False None by simp
    next
      case (Some b')
      then have b': "b' < NBUF" "caches (bufs s) b' c" using holder_iff [OF inv] by auto
      show ?thesis
      proof (cases "b' = b")
        case True
        then have "\<not> caches (bufs t) i c" if "i < NBUF" for i
          using that False b' inv by (auto simp: cb bcache_inv_def)
        then show ?thesis using True False Some by (auto simp: holder_None)
      next
        case F: False
        then have "holder t c = Some b'" using holder_iff [OF it, of c b'] b' by (simp add: cb)
        then show ?thesis using F False Some by simp
      qed
    qed
  qed
qed

definition bread_post :: "nat \<Rightarrow> 'a kbio_scheme \<Rightarrow> uint \<Rightarrow> nat \<Rightarrow> 'a kbio_scheme \<Rightarrow> bool" where
  "bread_post p s c b t \<longleftrightarrow>
     bio_ok p t \<and> bio_frame s t \<and> holder t c = Some b \<and> held p t b \<and> b_valid (bufs t b) \<and>
     blk t = blk s \<and> nrefs t = (nrefs s)(c := Suc (nrefs s c)) \<and> disk_writes t = disk_writes s \<and>
     (\<forall>b'. b' \<noteq> b \<longrightarrow> sleeplocks t (buf_lock b') = sleeplocks s (buf_lock b') \<and> bufs t b' = bufs s b') \<and>
     (\<forall>c'. c' \<noteq> c \<and> nrefs s c' \<noteq> 0 \<longrightarrow> holder t c' = holder s c')"

lemma bread_post_intro:
  assumes ok: "bio_ok p s" and b: "b < NBUF"
    and t: "t = (sl_take (buf_lock b) (p_pid (procs s p)) s)\<lparr>bufs := (bufs s)(b := B)\<rparr>"
    and l: "b_next B = b_next (bufs s b)" "b_prev B = b_prev (bufs s b)"
    and B: "b_dev B = ROOTDEV" "b_blockno B = c" "b_valid B" "b_data B = blk s c" "unat (b_refcnt B) = Suc (nrefs s c)"
    and old: "\<And>b'. b' < NBUF \<Longrightarrow> b' \<noteq> b \<Longrightarrow> \<not> caches (bufs s) b' c"
    and rec: "caches (bufs s) b c \<or> b_refcnt (bufs s b) = 0"
  shows "bread_post p s c b t"
proof -
  have c: "calm s" "cpu_proc (mycpu s) = Some p" "bcache_inv s" using ok by (auto simp: bio_ok_def)
  have bt: "bufs t = (bufs s)(b := B)" "disk t = disk s" by (simp_all add: t disk_def)
  have rB: "b_refcnt B \<noteq> 0" using B(5) by auto
  have sl: "sleeplocks t l = (if l = buf_lock b then (sleeplocks s l)\<lparr>sl_locked := True, sl_pid := p_pid (procs s p)\<rparr> else sleeplocks s l)" for l
    by (simp add: t)
  note r = bcache_inv_replace [OF c(3) b bt l _ B(1) rB old [folded B(2)], unfolded B(2)]
  have it: "bcache_inv t" by (rule r(1)) (simp_all add: sl)
  have ho: "holder t c' = (if c' = c then Some b else if holder s c' = Some b then None else holder s c')" for c'
    by (rule r(2)) (simp_all add: sl)
  have lost: "nrefs s c' = 0 \<and> blk s c' = disk s c'" if h: "holder s c' = Some b" "c' \<noteq> c" for c'
  proof -
    have cb: "caches (bufs s) b c'" using holder_iff [OF c(3)] h(1) by simp
    then have "\<not> caches (bufs s) b c" using h(2) by (auto simp: caches_def)
    then have r0: "b_refcnt (bufs s b) = 0" using rec by simp
    then have "b_valid (bufs s b) \<longrightarrow> b_data (bufs s b) = disk s c'"
      using c(3) b cb unfolding bcache_inv_def caches_def by blast
    then show ?thesis using h(1) r0 by (simp add: nrefs_def blk_def)
  qed
  have "blk t c' = blk s c'" for c'
  proof (cases "c' = c")
    case True
    then show ?thesis using ho [of c] B(3,4) by (simp add: blk_def [of t] bt)
  next
    case False
    show ?thesis
    proof (cases "holder s c' = Some b")
      case True
      then show ?thesis using ho [of c'] False lost by (simp add: blk_def [of t] bt)
    next
      case F: False
      then have "holder t c' = holder s c'" using ho [of c'] False by simp
      moreover have "bufs t b' = bufs s b'" if "holder s c' = Some b'" for b' using that F by (auto simp: bt)
      ultimately show ?thesis by (auto simp: blk_def bt(2) split: option.splits)
    qed
  qed
  moreover have "nrefs t c' = ((nrefs s)(c := Suc (nrefs s c))) c'" for c'
  proof (cases "c' = c")
    case True
    then show ?thesis using ho [of c] B(5) by (simp add: nrefs_def [of t] bt)
  next
    case False
    show ?thesis
    proof (cases "holder s c' = Some b")
      case True
      then show ?thesis using ho [of c'] False lost by (simp add: nrefs_def [of t])
    next
      case F: False
      then have "holder t c' = holder s c'" using ho [of c'] False by simp
      moreover have "bufs t b' = bufs s b'" if "holder s c' = Some b'" for b' using that F by (auto simp: bt)
      ultimately show ?thesis using False by (auto simp: nrefs_def split: option.splits)
    qed
  qed
  moreover have "bio_frame s t"
  proof -
    have "t = s\<lparr>bufs := bufs t, sleeplocks := sleeplocks t, disk_writes := disk_writes s, procs := procs s\<rparr>"
      by (simp add: t sl_take_def)
    moreover have "procs_same s t" by (simp add: t procs_same_def)
    ultimately show ?thesis by (rule bio_frameI) (simp add: sl)
  qed
  moreover have "holder t c' = holder s c'" if "c' \<noteq> c" "nrefs s c' \<noteq> 0" for c'
    using ho [of c'] that lost [of c'] by auto
  moreover have "bio_ok p t" using c it by (simp add: bio_ok_def t)
  moreover have "held p t b" by (simp add: held_def sl) (simp add: t)
  ultimately show ?thesis using ho [of c] B(3)
    by (auto simp: bread_post_def sl bt fun_eq_iff) (simp add: t)
qed

lemma bread_spec:
  assumes ok: "bio_ok p s" and lk: "\<forall>b. holder s c = Some b \<longrightarrow> \<not> sl_locked (sleeplocks s (buf_lock b))"
    and room: "nrefs s c \<noteq> 0 \<or> (\<exists>b < NBUF. b_refcnt (bufs s b) = 0)" and ov: "nrefs s c < 2 ^ 32 - 1"
  shows "\<exists>b t. bread ROOTDEV c s = Ok b t \<and> bread_post p s c b t"
proof -
  have c: "calm s" "cpu_proc (mycpu s) = Some p" "bcache_inv s" using ok by (auto simp: bio_ok_def)
  obtain xs where xs: "lru_list (bufs s) xs" "set xs = {..<NBUF}" using c(3) by (auto simp: bcache_inv_def)
  have len: "length xs = NBUF" using xs distinct_card [of xs] by (simp add: lru_list_def)
  have hit: "bget_hit (Suc NBUF) (bufs s) ROOTDEV c (b_next (bufs s NBUF)) =
      Some (case holder s c of None \<Rightarrow> NBUF | Some b \<Rightarrow> b)"
  proof -
    have "find (\<lambda>i. b_dev (bufs s i) = ROOTDEV \<and> b_blockno (bufs s i) = c) xs = holder s c"
    proof (cases "holder s c")
      case None
      then have "find (\<lambda>i. b_dev (bufs s i) = ROOTDEV \<and> b_blockno (bufs s i) = c) xs = None"
        using xs(2) by (simp add: holder_None find_None_iff caches_def)
      then show ?thesis using None by simp
    next
      case (Some b)
      then have "b < NBUF" "caches (bufs s) b c" using holder_iff [OF c(3)] by auto
      then show ?thesis using Some c(3) xs(2)
        by (auto intro!: find_unique simp: caches_def bcache_inv_def)
    qed
    then show ?thesis
      using bget_hit_chain [of "bufs s" "\<lambda>i. b_prev (bufs s i)" NBUF xs "Suc NBUF" ROOTDEV c] xs(1) len
      by (simp add: lru_list_def)
  qed
  show ?thesis
  proof (cases "holder s c")
    case (Some b)
    then have b: "b < NBUF" "caches (bufs s) b c" using holder_iff [OF c(3)] by auto
    define B where "B = (bufs s b)\<lparr>b_refcnt := b_refcnt (bufs s b) + 1, b_data := blk s c, b_valid := True\<rparr>"
    define t where "t = (sl_take (buf_lock b) (p_pid (procs s p)) s)\<lparr>bufs := (bufs s)(b := B)\<rparr>"
    let ?u = "sl_take (buf_lock b) (p_pid (procs s p)) (upd_buf b (\<lambda>x. x\<lparr>b_refcnt := b_refcnt x + 1\<rparr>) s)"
    have get: "bget ROOTDEV c s = Ok b ?u"
      using c(1,2) hit Some b(1) lk
      by (simp add: bget_def calm_acquire calm_release acquiresleep_free Let_def)
    have cb: "b_blockno (bufs s b) = c" using b(2) by (simp add: caches_def)
    have run: "bread ROOTDEV c s = Ok b t"
    proof (cases "b_valid (bufs s b)")
      case True
      have "t = ?u" using True Some by (cases "bufs s b") (simp add: t_def B_def sl_take_def upd_buf_def blk_def)
      then show ?thesis using True by (simp add: bread_def get)
    next
      case False
      have "t = upd_buf b (\<lambda>x. x\<lparr>b_valid := True\<rparr>) (upd_buf b (\<lambda>x. x\<lparr>b_data := disk s c\<rparr>) ?u)"
        using False Some by (simp add: t_def B_def sl_take_def upd_buf_def blk_def)
      then show ?thesis using False by (simp add: bread_def get disk_rw_def Let_def cb)
    qed
    have nr: "nrefs s c = unat (b_refcnt (bufs s b))" using Some by (simp add: nrefs_def)
    have "unat (b_refcnt (bufs s b) + 1) = Suc (nrefs s c)" using ov by (simp add: nr unat_word_ariths)
    moreover have "\<not> caches (bufs s) b' c" if "b' < NBUF" "b' \<noteq> b" for b'
      using c(3) b that unfolding bcache_inv_def by blast
    ultimately have "bread_post p s c b t"
      using b by (intro bread_post_intro [OF ok b(1) t_def]) (auto simp: B_def caches_def)
    then show ?thesis using run by blast
  next
    case None
    then have "nrefs s c = 0" by (simp add: nrefs_def)
    then obtain b0 where b0: "b0 < NBUF" "b_refcnt (bufs s b0) = 0" using room by auto
    have "find (\<lambda>i. b_refcnt (bufs s i) = 0) (rev xs) \<noteq> None" using b0 xs(2) by (auto simp: find_None_iff)
    then obtain b where fb: "find (\<lambda>i. b_refcnt (bufs s i) = 0) (rev xs) = Some b" by auto
    then have b: "b < NBUF" "b_refcnt (bufs s b) = 0" using find_Some_mem [OF fb] xs(2) by auto
    have "chain (\<lambda>i. b_prev (bufs s i)) (\<lambda>i. b_next (bufs s i)) NBUF (rev xs) NBUF"
      using xs(1) by (intro chain_prev_rev) (simp add: lru_list_def)
    then have lru: "bget_lru (Suc NBUF) (bufs s) (b_prev (bufs s NBUF)) = Some b"
      using bget_lru_chain [of "bufs s" "\<lambda>i. b_next (bufs s i)" NBUF "rev xs" "Suc NBUF"] xs(2) len fb by simp
    define B where "B = (bufs s b)\<lparr>b_dev := ROOTDEV, b_blockno := c, b_refcnt := 1, b_data := disk s c, b_valid := True\<rparr>"
    define t where "t = (sl_take (buf_lock b) (p_pid (procs s p)) s)\<lparr>bufs := (bufs s)(b := B)\<rparr>"
    have "\<not> sl_locked (sleeplocks s (buf_lock b))" using c(3) b by (auto simp: bcache_inv_def)
    then have get: "bget ROOTDEV c s = Ok b (sl_take (buf_lock b) (p_pid (procs s p))
        (upd_buf b (\<lambda>x. x\<lparr>b_dev := ROOTDEV, b_blockno := c, b_valid := False, b_refcnt := 1\<rparr>) s))"
      using c(1,2) hit None b(1) lru
      by (simp add: bget_def calm_acquire calm_release acquiresleep_free Let_def)
    have run: "bread ROOTDEV c s = Ok b t"
      by (simp add: bread_def get disk_rw_def Let_def) (simp add: t_def B_def sl_take_def upd_buf_def)
    have "blk s c = disk s c" "\<forall>b < NBUF. \<not> caches (bufs s) b c"
      using None holder_None [of s c] by (simp_all add: blk_def)
    then have "bread_post p s c b t"
      using b \<open>nrefs s c = 0\<close> by (intro bread_post_intro [OF ok b(1) t_def]) (auto simp: B_def)
    then show ?thesis using run by blast
  qed
qed

text \<open>Moving a buffer to the front of the list changes nothing but links.\<close>

definition nolinks :: "buf \<Rightarrow> buf" where
  "nolinks B = B\<lparr>b_next := 0, b_prev := 0\<rparr>"

lemma nolinks_upd [simp]:
  "nolinks (bufs (upd_buf j (\<lambda>x. x\<lparr>b_next := n\<rparr>) s) i) = nolinks (bufs s i)"
  "nolinks (bufs (upd_buf j (\<lambda>x. x\<lparr>b_prev := n\<rparr>) s) i) = nolinks (bufs s i)"
  by (simp_all add: nolinks_def)

lemma nolinks_fields:
  assumes "nolinks A = nolinks B"
  shows "b_valid A = b_valid B" "b_dev A = b_dev B" "b_blockno A = b_blockno B" "b_refcnt A = b_refcnt B" "b_data A = b_data B"
  using assms by (cases A, cases B, simp add: nolinks_def)+

lemma relink:
  assumes l: "lru_list (bufs s) xs" and b: "b \<in> set xs"
  shows "lru_list (bufs (link_front b (unlink b s))) (b # remove1 b xs)"
    "nolinks (bufs (link_front b (unlink b s)) i) = nolinks (bufs s i)"
proof -
  let ?nx = "\<lambda>i. b_next (bufs s i)" and ?pv = "\<lambda>i. b_prev (bufs s i)"
  let ?u = "unlink b s"
  let ?nu = "\<lambda>i. b_next (bufs ?u i)" and ?pu = "\<lambda>i. b_prev (bufs ?u i)"
  obtain ys zs where xs: "xs = ys @ b # zs" using b by (auto dest: split_list)
  have d: "distinct (NBUF # ys @ b # zs)" using l xs by (auto simp: lru_list_def)
  have c: "chain ?nx ?pv NBUF (ys @ b # zs) NBUF" using l xs by (simp add: lru_list_def)
  then have c2: "chain ?nx ?pv b zs NBUF" by (simp add: chain_append)
  then have nb: "?nx b \<noteq> b" using d by (cases zs) auto
  have eu: "?nu = ?nx(?pv b := ?nx b)" "?pu = ?pv(?nx b := ?pv b)"
    using nb by (auto simp: unlink_def Let_def fun_eq_iff)
  have cu: "chain ?nu ?pu NBUF (ys @ zs) NBUF"
    unfolding eu by (rule chain_unlink [OF c d]) simp
  have bn: "b \<noteq> NBUF" "b \<notin> set (ys @ zs)" using d by auto
  have el: "(\<lambda>i. b_next (bufs (link_front b ?u) i)) = ?nu(b := ?nu NBUF, NBUF := b)"
    "(\<lambda>i. b_prev (bufs (link_front b ?u) i)) = ?pu(b := NBUF, ?nu NBUF := b)"
    using bn(1) by (auto simp: link_front_def Let_def fun_eq_iff)
  have "chain (?nu(b := ?nu NBUF, NBUF := b)) (?pu(b := NBUF, ?nu NBUF := b)) NBUF (b # ys @ zs) NBUF"
    by (rule chain_front [OF cu]) (use d bn in auto)
  then have "lru_list (bufs (link_front b ?u)) (b # ys @ zs)"
    unfolding lru_list_def el using d by auto
  moreover have "remove1 b xs = ys @ zs" using d xs by (simp add: remove1_append)
  ultimately show "lru_list (bufs (link_front b ?u)) (b # remove1 b xs)" by simp
  show "nolinks (bufs (link_front b (unlink b s)) i) = nolinks (bufs s i)"
    by (simp only: link_front_def unlink_def Let_def nolinks_upd)
qed

text \<open>The other operations on a buffer that is held and caches block \<open>c\<close>.\<close>

lemma upd_held:
  assumes ok: "bio_ok p s" and h: "holder s c = Some b" "nrefs s c \<noteq> 0"
    and f: "\<And>x. b_next (f x) = b_next x" "\<And>x. b_prev (f x) = b_prev x" "\<And>x. b_dev (f x) = b_dev x"
      "\<And>x. b_blockno (f x) = b_blockno x" "b_refcnt (f (bufs s b)) \<noteq> 0"
    and t: "t = upd_buf b f s"
  shows "bio_ok p t" "bio_frame s t" "holder t = holder s" "disk_writes t = disk_writes s" "disk t = disk s"
    "sleeplocks t = sleeplocks s" "procs t = procs s" "bufs t b = f (bufs s b)"
    "blk t = (blk s)(c := if b_valid (f (bufs s b)) then b_data (f (bufs s b)) else disk s c)"
    "nrefs t = (nrefs s)(c := unat (b_refcnt (f (bufs s b))))"
proof -
  have c: "calm s" "cpu_proc (mycpu s) = Some p" "bcache_inv s" using ok by (auto simp: bio_ok_def)
  have b: "b < NBUF" "caches (bufs s) b c" using holder_iff [OF c(3)] h(1) by auto
  show same: "disk_writes t = disk_writes s" "disk t = disk s" "sleeplocks t = sleeplocks s" "procs t = procs s"
    "bufs t b = f (bufs s b)" by (simp_all add: t)
  have bt: "bufs t = (bufs s)(b := f (bufs s b))" by (simp add: t upd_buf_def)
  have bc: "b_blockno (f (bufs s b)) = c" "b_dev (f (bufs s b)) = ROOTDEV" using b(2) f(3,4) by (simp_all add: caches_def)
  have old: "\<not> caches (bufs s) b' (b_blockno (f (bufs s b)))" if "b' < NBUF" "b' \<noteq> b" for b'
    using c(3) b that bc(1) unfolding bcache_inv_def by blast
  have it: "bcache_inv t"
    by (rule bcache_inv_replace(1) [OF c(3) b(1) bt same(2) f(1,2) _ bc(2) f(5) old]) (simp_all add: t)
  have hd: "holder t c' = (if c' = b_blockno (f (bufs s b)) then Some b else if holder s c' = Some b then None else holder s c')" for c'
    by (rule bcache_inv_replace(2) [OF c(3) b(1) bt same(2) f(1,2) _ bc(2) f(5) old]) (simp_all add: t)
  have uniq: "holder s c' \<noteq> Some b" if "c' \<noteq> c" for c'
    using holder_iff [OF c(3), of c' b] b(2) that by (auto simp: caches_def)
  have ho: "holder t c' = holder s c'" for c'
    using hd [of c'] h(1) uniq [of c'] unfolding bc by (cases "c' = c") simp_all
  then show "holder t = holder s" by blast
  show "bio_ok p t" using c it by (simp add: bio_ok_def t)
  show "bio_frame s t"
    by (rule bio_frameI [where bf = "bufs t" and sl = "sleeplocks s" and dw = "disk_writes s" and pr = "procs s"])
       (simp_all add: t procs_same_def, simp add: upd_buf_def)
  show "blk t = (blk s)(c := if b_valid (f (bufs s b)) then b_data (f (bufs s b)) else disk s c)"
  proof
    fix c'
    show "blk t c' = ((blk s)(c := if b_valid (f (bufs s b)) then b_data (f (bufs s b)) else disk s c)) c'"
      using h(1) uniq by (cases "c' = c") (auto simp: blk_def ho same bt split: option.splits)
  qed
  show "nrefs t = (nrefs s)(c := unat (b_refcnt (f (bufs s b))))"
  proof
    fix c'
    show "nrefs t c' = ((nrefs s)(c := unat (b_refcnt (f (bufs s b))))) c'"
      using h(1) uniq by (cases "c' = c") (auto simp: nrefs_def ho same bt split: option.splits)
  qed
qed

lemma bwrite_spec:
  assumes ok: "bio_ok p s" and h: "holder s c = Some b" "held p s b" "nrefs s c \<noteq> 0" "b_valid (bufs s b)"
  shows "\<exists>t. bwrite b s = Ok () t \<and> bio_ok p t \<and> bio_frame s t \<and> holder t = holder s \<and> bufs t = bufs s \<and>
    blk t = blk s \<and> nrefs t = nrefs s \<and> sleeplocks t = sleeplocks s \<and> procs t = procs s \<and>
    disk_writes t = (c, blk s c) # disk_writes s"
proof -
  have c: "calm s" "cpu_proc (mycpu s) = Some p" "bcache_inv s" using ok by (auto simp: bio_ok_def)
  have b: "b < NBUF" "caches (bufs s) b c" using holder_iff [OF c(3)] h(1) by auto
  let ?t = "s\<lparr>disk_writes := (c, b_data (bufs s b)) # disk_writes s\<rparr>"
  have cb: "b_blockno (bufs s b) = c" using b(2) by (simp add: caches_def)
  have run: "bwrite b s = Ok () ?t"
    using c h(2) cb by (simp add: bwrite_def holdingsleep_eq held_def disk_rw_def Let_def)
  have dt: "disk ?t = (disk s)(c := b_data (bufs s b))" by (simp add: disk_def)
  have ho: "holder ?t = holder s" by (simp add: holder_def fun_eq_iff)
  have d: "blk s c = b_data (bufs s b)" using h by (simp add: blk_def)
  have other: "b_blockno (bufs s b') \<noteq> c" if "b' < NBUF" "b_refcnt (bufs s b') = 0" "b_dev (bufs s b') = ROOTDEV" for b'
  proof
    assume "b_blockno (bufs s b') = c"
    then have "b' = b" using c(3) that b unfolding bcache_inv_def caches_def by blast
    then show False using h(1,3) that(2) by (simp add: nrefs_def)
  qed
  have "bcache_inv ?t" using c(3) other unfolding bcache_inv_def dt by auto
  then have "bio_ok p ?t" using c by (simp add: bio_ok_def)
  moreover have "bio_frame s ?t"
    by (rule bio_frameI [where bf = "bufs s" and sl = "sleeplocks s" and dw = "(c, b_data (bufs s b)) # disk_writes s" and pr = "procs s"])
       (simp_all add: procs_same_def)
  moreover have "blk ?t c' = blk s c'" for c'
    using d h(1,4) by (cases "c' = c") (simp_all add: blk_def ho dt split: option.splits)
  moreover have "nrefs ?t = nrefs s" by (simp add: nrefs_def ho fun_eq_iff split: option.splits)
  ultimately show ?thesis using run ho d by (intro exI [of _ ?t]) (simp add: fun_eq_iff)
qed

lemma bpin_spec:
  assumes ok: "bio_ok p s" and h: "holder s c = Some b" "nrefs s c \<noteq> 0" "nrefs s c < 2 ^ 32 - 1"
  shows "\<exists>t. bpin b s = Ok () t \<and> bio_ok p t \<and> bio_frame s t \<and> holder t = holder s \<and> blk t = blk s \<and>
    nrefs t = (nrefs s)(c := Suc (nrefs s c)) \<and> disk_writes t = disk_writes s \<and> sleeplocks t = sleeplocks s \<and>
    procs t = procs s \<and> b_valid (bufs t b) = b_valid (bufs s b)"
proof -
  have c: "calm s" using ok by (simp add: bio_ok_def)
  have nr: "nrefs s c = unat (b_refcnt (bufs s b))" using h(1) by (simp add: nrefs_def)
  then have up: "unat (b_refcnt (bufs s b) + 1) = Suc (nrefs s c)" using h(3) by (simp add: unat_word_ariths)
  then have nz: "b_refcnt (bufs s b) + 1 \<noteq> 0" by auto
  have run: "bpin b s = Ok () (upd_buf b (\<lambda>x. x\<lparr>b_refcnt := b_refcnt x + 1\<rparr>) s)"
    using c by (simp add: bpin_def calm_acquire calm_release)
  note u = upd_held [OF ok h(1,2), where f = "\<lambda>x. x\<lparr>b_refcnt := b_refcnt x + 1\<rparr>", OF _ _ _ _ _ refl]
  have "blk (upd_buf b (\<lambda>x. x\<lparr>b_refcnt := b_refcnt x + 1\<rparr>) s) = blk s"
    using u(9) nz h(1) by (simp add: blk_def fun_eq_iff)
  then show ?thesis unfolding run using u nz up by auto
qed

lemma bunpin_spec:
  assumes ok: "bio_ok p s" and h: "holder s c = Some b" "1 < nrefs s c"
  shows "\<exists>t. bunpin b s = Ok () t \<and> bio_ok p t \<and> bio_frame s t \<and> holder t = holder s \<and> blk t = blk s \<and>
    nrefs t = (nrefs s)(c := nrefs s c - 1) \<and> disk_writes t = disk_writes s \<and> sleeplocks t = sleeplocks s \<and>
    procs t = procs s \<and> b_valid (bufs t b) = b_valid (bufs s b)"
proof -
  have c: "calm s" using ok by (simp add: bio_ok_def)
  have nr: "nrefs s c = unat (b_refcnt (bufs s b))" using h(1) by (simp add: nrefs_def)
  then have up: "unat (b_refcnt (bufs s b) - 1) = nrefs s c - 1" using h(2) by (subst unat_minus_one) auto
  then have nz: "b_refcnt (bufs s b) - 1 \<noteq> 0" using h(2) by auto
  have n0: "nrefs s c \<noteq> 0" using h(2) by simp
  have run: "bunpin b s = Ok () (upd_buf b (\<lambda>x. x\<lparr>b_refcnt := b_refcnt x - 1\<rparr>) s)"
    using c by (simp add: bunpin_def calm_acquire calm_release)
  note u = upd_held [OF ok h(1) n0, where f = "\<lambda>x. x\<lparr>b_refcnt := b_refcnt x - 1\<rparr>", OF _ _ _ _ _ refl]
  have "blk (upd_buf b (\<lambda>x. x\<lparr>b_refcnt := b_refcnt x - 1\<rparr>) s) = blk s"
    using u(9) nz h(1) by (simp add: blk_def fun_eq_iff)
  then show ?thesis unfolding run using u nz up by auto
qed

lemma link_unlink_frame:
  "link_front b (unlink b s) = s\<lparr>bufs := bufs (link_front b (unlink b s))\<rparr>"
  by (simp add: link_front_def unlink_def upd_buf_def Let_def)

lemma link_unlink_acquired [simp]:
  "link_front b (unlink b (acquired l s)) = acquired l (link_front b (unlink b s))"
  by (simp add: link_front_def unlink_def Let_def)

lemma brelse_spec:
  assumes ok: "bio_ok p s" and h: "holder s c = Some b" "held p s b" "nrefs s c \<noteq> 0" "b_valid (bufs s b)"
    and clean: "nrefs s c = 1 \<longrightarrow> blk s c = disk s c"
  shows "\<exists>t. brelse b s = Ok () t \<and> bio_ok p t \<and> bio_frame s t \<and> holder t = holder s \<and> blk t = blk s \<and>
    nrefs t = (nrefs s)(c := nrefs s c - 1) \<and> disk_writes t = disk_writes s \<and>
    \<not> sl_locked (sleeplocks t (buf_lock b)) \<and> (\<forall>l. l \<noteq> buf_lock b \<longrightarrow> sleeplocks t l = sleeplocks s l) \<and>
    (\<forall>i. b_valid (bufs t i) = b_valid (bufs s i))"
proof -
  have c: "calm s" "cpu_proc (mycpu s) = Some p" "bcache_inv s" using ok by (auto simp: bio_ok_def)
  have b: "b < NBUF" "caches (bufs s) b c" using holder_iff [OF c(3)] h(1) by auto
  obtain xs where xs: "lru_list (bufs s) xs" "set xs = {..<NBUF}" using c(3) by (auto simp: bcache_inv_def)
  define d where "d = upd_buf b (\<lambda>x. x\<lparr>b_refcnt := b_refcnt x - 1\<rparr>) (sl_drop (buf_lock b) s)"
  define t where "t = (if b_refcnt (bufs s b) - 1 = 0 then link_front b (unlink b d) else d)"
  have ct: "calm t" "mycpu t = mycpu s"
    by (simp_all add: t_def d_def link_front_def unlink_def Let_def c)
  have run: "brelse b s = Ok () t"
    using c(1,2) h(2) ct(1)
    by (simp add: brelse_def holdingsleep_eq held_def releasesleep_eq calm_acquire Let_def t_def d_def
        calm_release split: if_splits)
  have nr: "nrefs s c = unat (b_refcnt (bufs s b))" using h(1) by (simp add: nrefs_def)
  have rc: "unat (b_refcnt (bufs s b) - 1) = nrefs s c - 1" using h(3) nr by (subst unat_minus_one) auto
  have dd: "disk d = disk s" "disk_writes d = disk_writes s" "disk_image d = disk_image s"
    "sleeplocks d = (sleeplocks s)(buf_lock b := (sleeplocks s (buf_lock b))\<lparr>sl_locked := False, sl_pid := 0\<rparr>)"
    "bufs d i = (if i = b then (bufs s b)\<lparr>b_refcnt := b_refcnt (bufs s b) - 1\<rparr> else bufs s i)" for i
    by (simp_all add: d_def)
  have ld: "lru_list (bufs d) xs" using xs(1) by (subst lru_list_cong [of _ "bufs s"]) (simp_all add: dd(5))
  have tt: "disk t = disk s" "disk_writes t = disk_writes s" "sleeplocks t = sleeplocks d" "procs t = procs d"
    using link_unlink_frame [of b d] dd
    by (simp_all add: t_def disk_def link_front_def unlink_def upd_buf_def Let_def)
  have nt: "nolinks (bufs t i) = nolinks (bufs d i)" for i using relink(2) [OF ld] b(1) xs(2) by (simp add: t_def)
  note nf = nolinks_fields [OF nt]
  obtain ys where ys: "lru_list (bufs t) ys" "set ys = {..<NBUF}"
  proof (cases "b_refcnt (bufs s b) - 1 = 0")
    case True
    have bx: "b \<in> set xs" using b(1) xs(2) by simp
    have "distinct xs" using xs(1) by (simp add: lru_list_def)
    then have "set (b # remove1 b xs) = {..<NBUF}" using xs(2) b(1) by auto
    then show ?thesis using that relink(1) [OF ld bx] True by (simp add: t_def)
  next
    case False
    then show ?thesis using that ld xs(2) by (simp add: t_def)
  qed
  have cb: "caches (bufs t) i c' = caches (bufs s) i c'" for i c'
    using nf [of i] by (simp add: caches_def dd(5))
  have ho: "holder t = holder s" using cb by (intro ext holder_cong)
  have f: "b_valid (bufs t i) = b_valid (bufs s i)" "b_data (bufs t i) = b_data (bufs s i)"
    "b_dev (bufs t i) = b_dev (bufs s i)" "b_blockno (bufs t i) = b_blockno (bufs s i)"
    "b_refcnt (bufs t i) = (if i = b then b_refcnt (bufs s b) - 1 else b_refcnt (bufs s i))" for i
    using nf [of i] by (simp_all add: dd(5))
  have bl: "blk t = blk s" by (simp add: blk_def ho f tt fun_eq_iff split: option.splits)
  have uniq: "holder s c' \<noteq> Some b" if "c' \<noteq> c" for c'
    using holder_iff [OF c(3), of c' b] b(2) that by (auto simp: caches_def)
  have nrt: "nrefs t c' = ((nrefs s)(c := nrefs s c - 1)) c'" for c'
    using h(1) uniq [of c'] rc nr by (cases "c' = c") (auto simp: nrefs_def ho f split: option.splits)
  have cl: "b_data (bufs s b) = disk s c" if "b_refcnt (bufs s b) - 1 = 0"
  proof -
    have "nrefs s c = 1" using that rc h(3) by simp
    then show ?thesis using clean h(1,4) by (simp add: blk_def)
  qed
  have bc: "b_blockno (bufs s b) = c" using b(2) by (simp add: caches_def)
  have inv: "bcache_inv t"
    unfolding bcache_inv_def
  proof (intro conjI)
    show "\<exists>xs. lru_list (bufs t) xs \<and> set xs = {..<NBUF}" using ys by blast
    show "\<forall>b1 < NBUF. \<forall>b2 < NBUF. \<forall>c. caches (bufs t) b1 c \<and> caches (bufs t) b2 c \<longrightarrow> b1 = b2"
      using c(3) unfolding bcache_inv_def cb by blast
    show "\<forall>i<NBUF. b_dev (bufs t i) = ROOTDEV \<or> b_dev (bufs t i) = 0 \<and> b_refcnt (bufs t i) = 0"
      using c(3) b(2) by (auto simp: bcache_inv_def f caches_def)
    show "\<forall>i<NBUF. b_refcnt (bufs t i) = 0 \<longrightarrow> \<not> sl_locked (sleeplocks t (buf_lock i)) \<and>
        (b_valid (bufs t i) \<and> b_dev (bufs t i) = ROOTDEV \<longrightarrow> b_data (bufs t i) = disk t (b_blockno (bufs t i)))"
      using c(3) cl bc by (auto simp: bcache_inv_def f tt dd)
  qed
  have "bio_frame s t"
  proof (rule bio_frameI [where bf = "bufs t" and sl = "sleeplocks t" and dw = "disk_writes t" and pr = "procs t"])
    show "t = s\<lparr>bufs := bufs t, sleeplocks := sleeplocks t, disk_writes := disk_writes t, procs := procs t\<rparr>"
      by (simp add: t_def d_def sl_drop_def wake_def upd_buf_def link_front_def unlink_def Let_def)
    show "procs_same s t"
      using procs_same_wake [of s "ChanSleeplock (buf_lock b)"]
      by (simp add: procs_same_def tt d_def sl_drop_def wake_def)
    show "sleeplocks t l = sleeplocks s l" if "\<forall>b. l \<noteq> buf_lock b" for l using that by (simp add: tt dd)
  qed
  moreover have "bio_ok p t" using c ct inv by (simp add: bio_ok_def)
  ultimately show ?thesis using run ho bl nrt f(1) by (intro exI [of _ t]) (simp add: fun_eq_iff tt dd)
qed

text \<open>As long as fewer than \<open>NBUF\<close> blocks are referenced there is a buffer to recycle.\<close>

lemma free_buffer:
  assumes inv: "bcache_inv s" and few: "card {c. nrefs s c \<noteq> 0} < NBUF"
  shows "\<exists>b < NBUF. b_refcnt (bufs s b) = 0"
proof (rule ccontr)
  assume "\<not> ?thesis"
  then have r: "b_refcnt (bufs s b) \<noteq> 0" if "b < NBUF" for b using that by blast
  let ?f = "\<lambda>b. b_blockno (bufs s b)"
  have ca: "caches (bufs s) b (?f b)" if "b < NBUF" for b
    using inv r [OF that] that by (auto simp: bcache_inv_def caches_def)
  have "inj_on ?f {..<NBUF}"
  proof (rule inj_onI)
    fix x y assume a: "x \<in> {..<NBUF}" "y \<in> {..<NBUF}" "?f x = ?f y"
    have "caches (bufs s) x (?f x)" using ca a(1) by simp
    moreover have "caches (bufs s) y (?f x)" using ca [of y] a(2,3) by simp
    ultimately show "x = y" using inv a(1,2) unfolding bcache_inv_def by blast
  qed
  then have "card (?f ` {..<NBUF}) = NBUF" by (simp add: card_image)
  moreover have "?f ` {..<NBUF} \<subseteq> {c. nrefs s c \<noteq> 0}"
  proof
    fix c assume "c \<in> ?f ` {..<NBUF}"
    then obtain b where b: "b < NBUF" "c = ?f b" by auto
    then have "holder s c = Some b" using holder_iff [OF inv] ca by simp
    then show "c \<in> {c. nrefs s c \<noteq> 0}" using r [OF b(1)] by (simp add: nrefs_def unat_gt_0)
  qed
  moreover have "finite {c. nrefs s c \<noteq> 0}" by simp
  ultimately show False using few card_mono by (metis not_le)
qed

end
