(* ===== verification/Bio_Boot.thy ===== *)
theory Bio_Boot
  imports Bio
begin

text \<open>
  \<open>binit\<close> establishes the invariant of the buffer cache; what a read, change, write and release of a
  block amount to.
\<close>

section \<open>The cache at boot\<close>

lemma initsleeplock_simps [simp]:
  "bufs (initsleeplock lk n s) = bufs s" "disk_image (initsleeplock lk n s) = disk_image s"
  "disk_writes (initsleeplock lk n s) = disk_writes s" "mycpu (initsleeplock lk n s) = mycpu s"
  "sleeplocks (initsleeplock lk n s) = (sleeplocks s)(lk := \<lparr>sl_locked = False, sl_name = n, sl_pid = 0\<rparr>)"
  "procs (initsleeplock lk n s) = procs s" "calm s \<Longrightarrow> calm (initsleeplock lk n s)"
  by (auto simp: initsleeplock_def initlock_def calm_def machine_defs)

lemma binit_loop_spec:
  assumes "lru_list (bufs s) (rev [0..<NBUF - n])" "n \<le> NBUF" "calm s"
    "\<forall>b < NBUF - n. \<not> sl_locked (sleeplocks s (buf_lock b))"
  shows "lru_list (bufs (binit_loop n s)) (rev [0..<NBUF])" "calm (binit_loop n s)"
    "\<forall>b < NBUF. \<not> sl_locked (sleeplocks (binit_loop n s) (buf_lock b))"
    "nolinks (bufs (binit_loop n s) i) = nolinks (bufs s i)" "mycpu (binit_loop n s) = mycpu s"
    "disk (binit_loop n s) = disk s" "procs (binit_loop n s) = procs s"
proof -
  have "lru_list (bufs (binit_loop n s)) (rev [0..<NBUF]) \<and> calm (binit_loop n s) \<and>
    (\<forall>b < NBUF. \<not> sl_locked (sleeplocks (binit_loop n s) (buf_lock b))) \<and>
    (\<forall>i. nolinks (bufs (binit_loop n s) i) = nolinks (bufs s i)) \<and> mycpu (binit_loop n s) = mycpu s \<and>
    disk (binit_loop n s) = disk s \<and> procs (binit_loop n s) = procs s"
    using assms
  proof (induction n arbitrary: s)
    case 0
    then show ?case by simp
  next
    case (Suc n)
    define b where "b = NBUF - Suc n"
    have b: "NBUF - n = Suc b" "b < NBUF" using Suc.prems(2) by (auto simp: b_def)
    define u where "u = initsleeplock (buf_lock b) ''buffer'' (link_front b s)"
    have cm: "initsleeplock l m (upd_buf i f s) = upd_buf i f (initsleeplock l m s)" for l m i f and s :: "'a kbio_scheme"
      by (simp add: initsleeplock_def initlock_def upd_buf_def Let_def)
    have run: "binit_loop (Suc n) s = binit_loop n u"
      by (simp add: u_def b_def link_front_def Let_def cm)
    let ?nx = "\<lambda>i. b_next (bufs s i)" and ?pv = "\<lambda>i. b_prev (bufs s i)"
    have el: "(\<lambda>i. b_next (bufs (link_front b s) i)) = ?nx(b := ?nx NBUF, NBUF := b)"
      "(\<lambda>i. b_prev (bufs (link_front b s) i)) = ?pv(b := NBUF, ?nx NBUF := b)"
      using b(2) by (auto simp: link_front_def Let_def fun_eq_iff)
    have "chain ?nx ?pv NBUF (rev [0..<b]) NBUF" using Suc.prems(1) by (simp add: lru_list_def b_def)
    then have "chain (?nx(b := ?nx NBUF, NBUF := b)) (?pv(b := NBUF, ?nx NBUF := b)) NBUF (b # rev [0..<b]) NBUF"
      by (rule chain_front) (use b(2) in auto)
    then have "lru_list (bufs u) (rev [0..<NBUF - n])"
      unfolding lru_list_def u_def initsleeplock_simps el b(1) using b(2) by auto
    moreover have "calm u" using Suc.prems(3) by (simp add: u_def link_front_def Let_def)
    moreover have "\<forall>i < NBUF - n. \<not> sl_locked (sleeplocks u (buf_lock i))"
      using Suc.prems(4) b by (auto simp: u_def link_front_def Let_def b_def [symmetric] less_Suc_eq)
    moreover have "nolinks (bufs u i) = nolinks (bufs s i)" for i
      by (simp only: u_def link_front_def Let_def nolinks_upd initsleeplock_simps)
    moreover have "mycpu u = mycpu s" "disk u = disk s" "procs u = procs s"
      by (simp_all add: u_def link_front_def Let_def disk_def)
    ultimately show ?case unfolding run using Suc.IH [of u] Suc.prems(2) by simp
  qed
  then show "lru_list (bufs (binit_loop n s)) (rev [0..<NBUF])" "calm (binit_loop n s)"
    "\<forall>b < NBUF. \<not> sl_locked (sleeplocks (binit_loop n s) (buf_lock b))"
    "nolinks (bufs (binit_loop n s) i) = nolinks (bufs s i)" "mycpu (binit_loop n s) = mycpu s"
    "disk (binit_loop n s) = disk s" "procs (binit_loop n s) = procs s" by blast+
qed

lemma binit_spec:
  assumes "calm s" "cpu_proc (mycpu s) = Some p"
    "\<forall>b. b_dev (bufs s b) = 0 \<and> b_refcnt (bufs s b) = 0"
  shows "bio_ok p (binit s)" "\<forall>b < NBUF. \<not> sl_locked (sleeplocks (binit s) (buf_lock b))" "nrefs (binit s) c = 0"
    "blk (binit s) c = disk s c" "disk (binit s) = disk s" "procs (binit s) = procs s"
proof -
  define u where "u = upd_buf NBUF (\<lambda>x. x\<lparr>b_next := NBUF\<rparr>) (upd_buf NBUF (\<lambda>x. x\<lparr>b_prev := NBUF\<rparr>) (initlock bcache_lock ''bcache'' s))"
  have bi: "binit s = binit_loop NBUF u" by (simp add: binit_def u_def Let_def)
  have u: "lru_list (bufs u) []" "calm u" "mycpu u = mycpu s" "disk u = disk s" "procs u = procs s"
    using assms(1) by (auto simp: u_def lru_list_def initlock_def calm_def machine_defs disk_def upd_buf_def)
  have nu: "nolinks (bufs u i) = nolinks (bufs s i)" for i
    unfolding u_def nolinks_upd by (simp add: initlock_def)
  have lu: "lru_list (bufs u) (rev [0..<NBUF - NBUF])" using u(1) by simp
  note l = binit_loop_spec [OF lu order_refl u(2), folded bi]
  have nf: "nolinks (bufs (binit s) i) = nolinks (bufs s i)" for i using l(4) nu by simp
  have f: "b_dev (bufs (binit s) i) = 0" "b_refcnt (bufs (binit s) i) = 0" for i
    using nolinks_fields [OF nf [of i]] assms(3) by simp_all
  have nc: "\<not> caches (bufs (binit s)) i c" for i c using f(1) [of i] by (simp add: caches_def ROOTDEV_def)
  show sl: "\<forall>b < NBUF. \<not> sl_locked (sleeplocks (binit s) (buf_lock b))" using l(3) by simp
  show dk: "disk (binit s) = disk s" "procs (binit s) = procs s" using l(6,7) u by simp_all
  have "bcache_inv (binit s)"
    unfolding bcache_inv_def using l(1) nc f sl by (intro conjI exI [of _ "rev [0..<NBUF]"]) (auto simp: ROOTDEV_def)
  then show "bio_ok p (binit s)" using l(2,5) u(3) assms(2) by (simp add: bio_ok_def)
  have "holder (binit s) c = None" using nc by (simp add: holder_None)
  then show "nrefs (binit s) c = 0" "blk (binit s) c = disk s c" using dk by (simp_all add: nrefs_def blk_def)
qed

definition boot_buf :: buf where
  "boot_buf = \<lparr>b_valid = False, b_disk = False, b_dev = 0, b_blockno = 0, b_refcnt = 0, b_prev = 0, b_next = 0, b_data = []\<rparr>"

definition boot_bio :: "(uint \<Rightarrow> uchar list) \<Rightarrow> kbio" where
  "boot_bio img = binit (ksleep.extend (two_procs 1 False) (kbio.fields (\<lambda>_. boot_buf) img []))"

lemma boot_bio_ok:
  "bio_ok 1 (boot_bio img)" "b < NBUF \<Longrightarrow> \<not> sl_locked (sleeplocks (boot_bio img) (buf_lock b))" "nrefs (boot_bio img) c = 0"
  "blk (boot_bio img) c = img c" "disk (boot_bio img) = img"
proof -
  let ?s = "ksleep.extend (two_procs 1 False) (kbio.fields (\<lambda>_. boot_buf) img [])"
  have "calm ?s" "cpu_proc (mycpu ?s) = Some 1" "\<forall>b. b_dev (bufs ?s b) = 0 \<and> b_refcnt (bufs ?s b) = 0" "disk ?s = img"
    using two_procs_simps(1,2) [of 1 False]
    by (simp_all add: calm_def machine_defs ksleep.defs kbio.defs boot_buf_def disk_def fun_eq_iff)
  from binit_spec [OF this(1-3)] this(4) show "bio_ok 1 (boot_bio img)" "b < NBUF \<Longrightarrow> \<not> sl_locked (sleeplocks (boot_bio img) (buf_lock b))"
    "nrefs (boot_bio img) c = 0" "blk (boot_bio img) c = img c" "disk (boot_bio img) = img"
    unfolding boot_bio_def by auto
qed

section \<open>Properties\<close>

text \<open>C5: Through the buffer cache the file system sees every block exactly once. With fewer than \<open>NBUF\<close>
  blocks in use, \<open>bread\<close> returns a locked buffer with the current contents of the block, whether it was
  cached, had to be read from the disk or displaced another block (and no block's contents
  changed by that); new contents put into the buffer, written with \<open>bwrite\<close> and released with
  \<open>brelse\<close> are then what the block holds, in the cache and on the disk, every other block is as
  before, and the cache is consistent again with the same references.\<close>

theorem bcache_refines_blocks:
  assumes "bio_ok p s" "card {c. nrefs s c \<noteq> 0} < NBUF" "\<forall>b < NBUF. \<not> sl_locked (sleeplocks s (buf_lock b))"
    "nrefs s c < 2 ^ 32 - 1"
  shows "\<exists>b u v w. bread ROOTDEV c s = Ok b u \<and> b_data (bufs u b) = blk s c \<and> blk u = blk s \<and>
    bwrite b (upd_buf b (\<lambda>x. x\<lparr>b_data := d\<rparr>) u) = Ok () v \<and> brelse b v = Ok () w \<and>
    blk w = (blk s)(c := d) \<and> disk w = (disk s)(c := d) \<and> nrefs w = nrefs s \<and> bio_ok p w"
proof -
  have room: "\<exists>b < NBUF. b_refcnt (bufs s b) = 0" using free_buffer [of s] assms(1,2) unfolding bio_ok_def by blast
  obtain b u where u: "bread ROOTDEV c s = Ok b u" "bread_post p s c b u"
    using bread_spec [OF assms(1)] room assms holder_iff [of s c] unfolding bio_ok_def by blast
  then have up: "bio_ok p u" "bio_frame s u" "holder u c = Some b" "held p u b" "b_valid (bufs u b)" "blk u = blk s"
    "nrefs u = (nrefs s)(c := Suc (nrefs s c))" "disk_writes u = disk_writes s"
    by (auto simp: bread_post_def)
  have "blk u c = b_data (bufs u b)" using up(3,5) by (simp add: blk_def)
  then have dt: "b_data (bufs u b) = blk s c" using up(6) by simp
  have nu: "nrefs u c \<noteq> 0" using up(7) by simp
  define u' where "u' = upd_buf b (\<lambda>x. x\<lparr>b_data := d\<rparr>) u"
  have rn: "b_refcnt (bufs u b) \<noteq> 0" using nu up(3) by (auto simp: nrefs_def)
  have rc: "unat (b_refcnt (bufs u b)) = nrefs u c" using up(3) by (simp add: nrefs_def)
  note h = upd_held [OF up(1,3) nu, where f = "\<lambda>x. x\<lparr>b_data := d\<rparr>", OF _ _ _ _ _ u'_def]
  have u'p: "bio_ok p u'" "holder u' c = Some b" "held p u' b" "nrefs u' = nrefs u" "b_valid (bufs u' b)"
    "blk u' = (blk s)(c := d)" "disk_writes u' = disk_writes s" "bio_frame u u'"
    using h rn up rc by (auto simp: held_def fun_eq_iff)
  obtain v where v: "bwrite b u' = Ok () v" "bio_ok p v" "bio_frame u' v" "holder v = holder u'" "bufs v = bufs u'"
    "blk v = blk u'" "nrefs v = nrefs u'" "sleeplocks v = sleeplocks u'" "procs v = procs u'"
    "disk_writes v = (c, blk u' c) # disk_writes u'"
    using bwrite_spec [OF u'p(1,2,3)] u'p(4,5) nu by auto
  have im: "disk_image v = disk_image s"
    using bio_frame_trans [OF bio_frame_trans [OF up(2) u'p(8)] v(3)] by (auto simp: bio_frame_def)
  have dv: "disk v = (disk s)(c := d)" using v(10) u'p(6,7) im by (simp add: disk_def)
  have "holder v c = Some b" "held p v b" "nrefs v c \<noteq> 0" "b_valid (bufs v b)"
    using v(4,5,7,8,9) u'p(2-5) nu by (auto simp: held_def)
  moreover have "blk v c = disk v c" using v(6) u'p(6) dv by simp
  ultimately obtain w where w: "brelse b v = Ok () w" "bio_ok p w" "bio_frame v w" "blk w = blk v"
    "nrefs w = (nrefs v)(c := nrefs v c - 1)" "disk_writes w = disk_writes v"
    using brelse_spec [OF v(2)] by blast
  have "disk_image w = disk_image v" using w(3) by (auto simp: bio_frame_def)
  then have "disk w = (disk s)(c := d)" using w(6) dv by (simp add: disk_def)
  moreover have "nrefs w = nrefs s" using w(5) v(7) u'p(4) up(7) by (simp add: fun_eq_iff)
  ultimately show ?thesis
    using u(1) dt up(6) v(1) w u'p(6) v(6) unfolding u'_def by (intro exI [of _ b] exI [of _ u] exI [of _ v] exI [of _ w]) simp
qed

theorem bcache_refines_blocks_witness:
  "\<exists>b u v w. bread ROOTDEV 7 (boot_bio (\<lambda>_. [1])) = Ok b u \<and> b_data (bufs u b) = [1] \<and>
     bwrite b (upd_buf b (\<lambda>x. x\<lparr>b_data := [2]\<rparr>) u) = Ok () v \<and> brelse b v = Ok () w \<and>
     blk w 7 = [2] \<and> disk w 7 = [2] \<and> blk w 8 = [1]"
  using bcache_refines_blocks [of 1 "boot_bio (\<lambda>_. [1])" 7 "[2]"] boot_bio_ok
  by (fastforce simp: NBUF_def)

end
