(* ===== verification/Bytes.thy ===== *)
theory Bytes
  imports Prelude
begin

text \<open>
  Little-endian integers inside byte arrays: how the C code of the log, the file system and \<open>exec\<close> reads
  and writes the fields of the structures it overlays on the data of a block.
\<close>

unbundle bit_operations_syntax

definition put_bytes :: "nat \<Rightarrow> uchar list \<Rightarrow> uchar list \<Rightarrow> uchar list" where
  "put_bytes off bs data = take off data @ bs @ drop (off + length bs) data"

definition get_bytes :: "nat \<Rightarrow> nat \<Rightarrow> uchar list \<Rightarrow> uchar list" where
  "get_bytes off n data = take n (drop off data)"

definition bytes16 :: "ushort \<Rightarrow> uchar list" where
  "bytes16 w = [ucast w, ucast (drop_bit 8 w)]"

definition bytes32 :: "uint \<Rightarrow> uchar list" where
  "bytes32 w = [ucast w, ucast (drop_bit 8 w), ucast (drop_bit 16 w), ucast (drop_bit 24 w)]"

definition get16 :: "uchar list \<Rightarrow> nat \<Rightarrow> ushort" where
  "get16 data off = ucast (data ! off) OR push_bit 8 (ucast (data ! (off + 1)))"

definition get32 :: "uchar list \<Rightarrow> nat \<Rightarrow> uint" where
  "get32 data off =
     ucast (data ! off) OR push_bit 8 (ucast (data ! (off + 1))) OR
     push_bit 16 (ucast (data ! (off + 2))) OR push_bit 24 (ucast (data ! (off + 3)))"

definition get64 :: "uchar list \<Rightarrow> nat \<Rightarrow> uint64" where
  "get64 data off = ucast (get32 data off) OR push_bit 32 (ucast (get32 data (off + 4)))"

definition put16 :: "nat \<Rightarrow> ushort \<Rightarrow> uchar list \<Rightarrow> uchar list" where
  "put16 off w = put_bytes off (bytes16 w)"

definition put32 :: "nat \<Rightarrow> uint \<Rightarrow> uchar list \<Rightarrow> uchar list" where
  "put32 off w = put_bytes off (bytes32 w)"

lemma length_put_bytes [simp]:
  "off + length bs \<le> length data \<Longrightarrow> length (put_bytes off bs data) = length data"
  by (simp add: put_bytes_def)

lemma nth_put_bytes:
  assumes "off + length bs \<le> length data" "i < length data"
  shows "put_bytes off bs data ! i = (if off \<le> i \<and> i < off + length bs then bs ! (i - off) else data ! i)"
  using assms by (auto simp: put_bytes_def nth_append min_def)

lemma get_put_bytes: "off + length bs \<le> length data \<Longrightarrow> get_bytes off (length bs) (put_bytes off bs data) = bs"
  by (simp add: get_bytes_def put_bytes_def)

lemma length_bytes [simp]: "length (bytes32 w) = 4" "length (bytes16 v) = 2"
  by (simp_all add: bytes32_def bytes16_def)

lemma length_put [simp]:
  "off + 4 \<le> length data \<Longrightarrow> length (put32 off w data) = length data"
  "off + 2 \<le> length data \<Longrightarrow> length (put16 off v data) = length data"
  by (simp_all add: put32_def put16_def)

lemma word32_of_bytes:
  fixes w :: uint
  shows "ucast (ucast w :: uchar) OR push_bit 8 (ucast (ucast (drop_bit 8 w) :: uchar)) OR
     push_bit 16 (ucast (ucast (drop_bit 16 w) :: uchar)) OR push_bit 24 (ucast (ucast (drop_bit 24 w) :: uchar)) = w"
proof (rule bit_word_eqI)
  fix n assume "n < LENGTH(32)"
  then consider "n < 8" | "8 \<le> n" "n < 16" | "16 \<le> n" "n < 24" | "24 \<le> n" "n < 32" by fastforce
  then show "bit (ucast (ucast w :: uchar) OR push_bit 8 (ucast (ucast (drop_bit 8 w) :: uchar)) OR
     push_bit 16 (ucast (ucast (drop_bit 16 w) :: uchar)) OR push_bit 24 (ucast (ucast (drop_bit 24 w) :: uchar)) :: uint) n = bit w n"
    by cases (auto simp: bit_simps)
qed

lemma word16_of_bytes:
  fixes w :: ushort
  shows "ucast (ucast w :: uchar) OR push_bit 8 (ucast (ucast (drop_bit 8 w) :: uchar)) = w"
  by (rule bit_word_eqI) (auto simp: bit_simps)

lemma get32_put32:
  assumes "off + 4 \<le> length data" "off' + 4 \<le> length data"
  shows "get32 (put32 off w data) off = w"
    "off' + 4 \<le> off \<or> off + 4 \<le> off' \<Longrightarrow> get32 (put32 off w data) off' = get32 data off'"
proof -
  have n: "put32 off w data ! i = (if off \<le> i \<and> i < off + 4 then bytes32 w ! (i - off) else data ! i)"
    if "i < length data" for i
    using nth_put_bytes [of off "bytes32 w" data i] assms(1) that by (simp add: put32_def)
  show "get32 (put32 off w data) off = w"
    using assms by (simp add: get32_def n) (simp add: bytes32_def word32_of_bytes numeral_2_eq_2 numeral_3_eq_3)
  show "get32 (put32 off w data) off' = get32 data off'" if "off' + 4 \<le> off \<or> off + 4 \<le> off'"
    using assms that by (auto simp: get32_def n)
qed

lemma get16_put16:
  assumes "off + 2 \<le> length data" "off' + 2 \<le> length data"
  shows "get16 (put16 off w data) off = w"
    "off' + 2 \<le> off \<or> off + 2 \<le> off' \<Longrightarrow> get16 (put16 off w data) off' = get16 data off'"
proof -
  have n: "put16 off w data ! i = (if off \<le> i \<and> i < off + 2 then bytes16 w ! (i - off) else data ! i)"
    if "i < length data" for i
    using nth_put_bytes [of off "bytes16 w" data i] assms(1) that by (simp add: put16_def)
  show "get16 (put16 off w data) off = w"
    using assms by (simp add: get16_def n) (simp add: bytes16_def word16_of_bytes)
  show "get16 (put16 off w data) off' = get16 data off'" if "off' + 2 \<le> off \<or> off + 2 \<le> off'"
    using assms that by (auto simp: get16_def n)
qed

lemma get_cong:
  "(\<And>i. off \<le> i \<Longrightarrow> i < off + 4 \<Longrightarrow> data ! i = data' ! i) \<Longrightarrow> get32 data off = get32 data' off"
  "(\<And>i. off \<le> i \<Longrightarrow> i < off + 2 \<Longrightarrow> data ! i = data' ! i) \<Longrightarrow> get16 data off = get16 data' off"
  by (simp_all add: get32_def get16_def)

lemma get_put_same [simp]:
  "off + 4 \<le> length data \<Longrightarrow> get32 (put32 off w data) off = w"
  "off + 2 \<le> length data \<Longrightarrow> get16 (put16 off v data) off = v"
  using get32_put32(1) get16_put16(1) by blast+

end
