(* ===== verification/Log.thy ===== *)
theory Log
  imports Bio_Boot Bytes
begin

text \<open>
  The redo log (\<open>kernel/log.c\<close>): transactions of block writes, their commit and the recovery after a
  crash. A process that has to wait in \<open>begin_op\<close> leaves through the scheduler.
\<close>

section \<open>State and operations\<close>

definition MAXOPBLOCKS :: nat where "MAXOPBLOCKS = 10"

definition LOGSIZE :: nat where "LOGSIZE = MAXOPBLOCKS * 3"

record klog = kbio +
  log_start :: int32
  log_size :: int32
  log_outstanding :: int32
  log_committing :: bool
  log_dev :: int32
  lh_n :: int32
  lh_block :: "nat \<Rightarrow> int32"

text \<open>The number of iterations of a loop \<open>for (i = 0; i < n; i++)\<close>.\<close>

definition count :: "int32 \<Rightarrow> nat" where
  "count n = nat (sint n)"

definition set_data :: "nat \<Rightarrow> uchar list \<Rightarrow> 'a kbio_scheme \<Rightarrow> 'a kbio_scheme" where
  "set_data b d s = upd_buf b (\<lambda>x. x\<lparr>b_data := d\<rparr>) s"

function install_loop :: "nat \<Rightarrow> bool \<Rightarrow> 'a klog_scheme \<Rightarrow> (unit, 'a klog_scheme) res" where
  "install_loop tail recovering s =
    (if tail < min (count (lh_n s)) (Suc LOGSIZE) then
       bind (bread (log_dev s) (log_start s + of_nat tail + 1) s) (\<lambda>lbuf s.
       if LOGSIZE \<le> tail then Undef
       else
         bind (bread (log_dev s) (lh_block s tail) s) (\<lambda>dbuf s.
         let s = set_data dbuf (b_data (bufs s lbuf)) s in
         bind (bwrite dbuf s) (\<lambda>_ s.
         bind (if \<not> recovering then bunpin dbuf s else Ok () s) (\<lambda>_ s.
         bind (brelse lbuf s) (\<lambda>_ s.
         bind (brelse dbuf s) (\<lambda>_ s. install_loop (Suc tail) recovering s))))))
     else Ok () s)"
  by pat_completeness auto
termination by (relation "measure (\<lambda>(tail, r, s). Suc LOGSIZE - tail)") auto

declare install_loop.simps [simp del]

definition install_trans :: "bool \<Rightarrow> 'a klog_scheme \<Rightarrow> (unit, 'a klog_scheme) res" where
  "install_trans recovering s = install_loop 0 recovering s"

text \<open>The loop of \<open>read_head\<close>; an index beyond the array \<open>block[LOGSIZE]\<close> is out of bounds.\<close>

fun read_head_loop :: "nat \<Rightarrow> nat \<Rightarrow> uchar list \<Rightarrow> 'a klog_scheme \<Rightarrow> (unit, 'a klog_scheme) res" where
  "read_head_loop 0 i data s = Ok () s"
| "read_head_loop (Suc n) i data s =
    (if i < LOGSIZE then
       read_head_loop n (Suc i) data (s\<lparr>lh_block := (lh_block s)(i := get32 data (4 + 4 * i))\<rparr>)
     else Undef)"

definition read_head :: "'a klog_scheme \<Rightarrow> (unit, 'a klog_scheme) res" where
  "read_head s =
    bind (bread (log_dev s) (log_start s) s) (\<lambda>buf s.
    let data = b_data (bufs s buf);
        s = s\<lparr>lh_n := get32 data 0\<rparr>
    in bind (read_head_loop (count (lh_n s)) 0 data s) (\<lambda>_ s. brelse buf s))"

fun write_head_loop :: "nat \<Rightarrow> nat \<Rightarrow> nat \<Rightarrow> 'a klog_scheme \<Rightarrow> (unit, 'a klog_scheme) res" where
  "write_head_loop 0 i buf s = Ok () s"
| "write_head_loop (Suc n) i buf s =
    (if i < LOGSIZE then
       write_head_loop n (Suc i) buf (set_data buf (put32 (4 + 4 * i) (lh_block s i) (b_data (bufs s buf))) s)
     else Undef)"

definition write_head :: "'a klog_scheme \<Rightarrow> (unit, 'a klog_scheme) res" where
  "write_head s =
    bind (bread (log_dev s) (log_start s) s) (\<lambda>buf s.
    let s = set_data buf (put32 0 (lh_n s) (b_data (bufs s buf))) s in
    bind (write_head_loop (count (lh_n s)) 0 buf s) (\<lambda>_ s.
    bind (bwrite buf s) (\<lambda>_ s. brelse buf s)))"

definition recover_from_log :: "'a klog_scheme \<Rightarrow> (unit, 'a klog_scheme) res" where
  "recover_from_log s =
    bind (read_head s) (\<lambda>_ s.
    bind (install_trans True s) (\<lambda>_ s.
    write_head (s\<lparr>lh_n := 0\<rparr>)))"

definition initlog :: "int32 \<Rightarrow> uint \<Rightarrow> uint \<Rightarrow> 'a klog_scheme \<Rightarrow> (unit, 'a klog_scheme) res" where
  "initlog dev sb_logstart sb_nlog s =
    (if 4 + 4 * LOGSIZE \<ge> BSIZE then Panic ''initlog: too big logheader''
     else
       let s = initlock log_lock ''log'' s;
           s = s\<lparr>log_start := sb_logstart, log_size := sb_nlog, log_dev := dev\<rparr>
       in recover_from_log s)"

text \<open>The loop of \<open>begin_op\<close>, entered with the log's lock held.\<close>

function begin_op_loop :: "'a klog_scheme \<Rightarrow> (unit, 'a klog_scheme) res" where
  "begin_op_loop s =
    (if log_committing s then
       bind (sleep ChanLog log_lock s) (\<lambda>_ s. begin_op_loop s)
     else if int LOGSIZE < sint (lh_n s + (log_outstanding s + 1) * of_nat MAXOPBLOCKS) then
       bind (sleep ChanLog log_lock s) (\<lambda>_ s. begin_op_loop s)
     else
       release log_lock (s\<lparr>log_outstanding := log_outstanding s + 1\<rparr>))"
  by pat_completeness auto
termination by (relation "measure (\<lambda>s. 0)") (auto simp: sleep_never_returns)

declare begin_op_loop.simps [simp del]

definition begin_op :: "'a klog_scheme \<Rightarrow> (unit, 'a klog_scheme) res" where
  "begin_op s = bind (acquire log_lock s) (\<lambda>_ s. begin_op_loop s)"

definition begin_op_resume :: "nat \<Rightarrow> bool \<Rightarrow> 'a klog_scheme \<Rightarrow> (unit, 'a klog_scheme) res" where
  "begin_op_resume p intena_saved s =
    bind (sleep_resume p log_lock intena_saved s) (\<lambda>_ s. begin_op_loop s)"

function write_log_loop :: "nat \<Rightarrow> 'a klog_scheme \<Rightarrow> (unit, 'a klog_scheme) res" where
  "write_log_loop tail s =
    (if tail < min (count (lh_n s)) (Suc LOGSIZE) then
       bind (bread (log_dev s) (log_start s + of_nat tail + 1) s) (\<lambda>to s.
       if LOGSIZE \<le> tail then Undef
       else
         bind (bread (log_dev s) (lh_block s tail) s) (\<lambda>from s.
         let s = set_data to (b_data (bufs s from)) s in
         bind (bwrite to s) (\<lambda>_ s.
         bind (brelse from s) (\<lambda>_ s.
         bind (brelse to s) (\<lambda>_ s. write_log_loop (Suc tail) s)))))
     else Ok () s)"
  by pat_completeness auto
termination by (relation "measure (\<lambda>(tail, s). Suc LOGSIZE - tail)") auto

declare write_log_loop.simps [simp del]

definition write_log :: "'a klog_scheme \<Rightarrow> (unit, 'a klog_scheme) res" where
  "write_log s = write_log_loop 0 s"

definition commit :: "'a klog_scheme \<Rightarrow> (unit, 'a klog_scheme) res" where
  "commit s =
    (if 0 < sint (lh_n s) then
       bind (write_log s) (\<lambda>_ s.
       bind (write_head s) (\<lambda>_ s.
       bind (install_trans False s) (\<lambda>_ s.
       write_head (s\<lparr>lh_n := 0\<rparr>))))
     else Ok () s)"

definition end_op :: "'a klog_scheme \<Rightarrow> (unit, 'a klog_scheme) res" where
  "end_op s =
    bind (acquire log_lock s) (\<lambda>_ s.
    let s = s\<lparr>log_outstanding := log_outstanding s - 1\<rparr> in
    if log_committing s then Panic ''log.committing''
    else
      bind (if log_outstanding s = 0 then Ok True (s\<lparr>log_committing := True\<rparr>)
            else bind (wakeup ChanLog s) (\<lambda>_ s. Ok False s)) (\<lambda>do_commit s.
      bind (release log_lock s) (\<lambda>_ s.
      if do_commit then
        bind (commit s) (\<lambda>_ s.
        bind (acquire log_lock s) (\<lambda>_ s.
        let s = s\<lparr>log_committing := False\<rparr> in
        bind (wakeup ChanLog s) (\<lambda>_ s. release log_lock s)))
      else Ok () s)))"

text \<open>The search of \<open>log_write\<close> for the block in the log: the index found, or \<open>n\<close>.\<close>

fun absorb_loop :: "nat \<Rightarrow> nat \<Rightarrow> (nat \<Rightarrow> int32) \<Rightarrow> uint \<Rightarrow> nat" where
  "absorb_loop 0 i blocks blockno = i"
| "absorb_loop (Suc n) i blocks blockno =
    (if blocks i = blockno then i else absorb_loop n (Suc i) blocks blockno)"

definition log_write :: "nat \<Rightarrow> 'a klog_scheme \<Rightarrow> (unit, 'a klog_scheme) res" where
  "log_write b s =
    bind (acquire log_lock s) (\<lambda>_ s.
    if int LOGSIZE \<le> sint (lh_n s) \<or> sint (log_size s - 1) \<le> sint (lh_n s) then Panic ''too big a transaction''
    else if sint (log_outstanding s) < 1 then Panic ''log_write outside of trans''
    else
      let i = absorb_loop (count (lh_n s)) 0 (lh_block s) (b_blockno (bufs s b));
          s = s\<lparr>lh_block := (lh_block s)(i := b_blockno (bufs s b))\<rparr>
      in
      bind (if int i = sint (lh_n s)
            then bind (bpin b s) (\<lambda>_ s. Ok () (s\<lparr>lh_n := lh_n s + 1\<rparr>)) else Ok () s) (\<lambda>_ s.
      release log_lock s))"

section \<open>Reading and writing blocks\<close>

text \<open>No process holds a buffer.\<close>

definition idle_bufs :: "'a kbio_scheme \<Rightarrow> bool" where
  "idle_bufs s \<longleftrightarrow> (\<forall>b < NBUF. \<not> sl_locked (sleeplocks s (buf_lock b))) \<and> (\<forall>c. nrefs s c < 2 ^ 31)"

lemma bio_frame_klog:
  fixes s t :: "'a klog_scheme"
  assumes "bio_frame s t"
  shows "log_start t = log_start s" "log_size t = log_size s" "log_dev t = log_dev s" "lh_n t = lh_n s"
    "lh_block t = lh_block s" "log_outstanding t = log_outstanding s" "log_committing t = log_committing s"
    "disk_image t = disk_image s"
proof -
  obtain bf sl dw pr where "t = s\<lparr>bufs := bf, sleeplocks := sl, disk_writes := dw, procs := pr\<rparr>"
    using assms unfolding bio_frame_def by blast
  then show "log_start t = log_start s" "log_size t = log_size s" "log_dev t = log_dev s" "lh_n t = lh_n s"
    "lh_block t = lh_block s" "log_outstanding t = log_outstanding s" "log_committing t = log_committing s"
    "disk_image t = disk_image s"
    by simp_all
qed

lemma held_bio: "sleeplocks t = sleeplocks s \<Longrightarrow> procs t = procs s \<Longrightarrow> held p t b = held p s b"
  by (simp add: held_def)

lemma held_frame: "bio_frame s t \<Longrightarrow> cpu_proc (mycpu s) = Some p \<Longrightarrow> sleeplocks t (buf_lock b) = sleeplocks s (buf_lock b) \<Longrightarrow>
    held p s b \<Longrightarrow> held p t b"
  by (simp add: held_def bio_frame_def procs_same_def)

lemma put_block:
  assumes ok: "bio_ok p u" and h: "holder u x = Some b" "held p u b" "nrefs u x \<noteq> 0" "b_valid (bufs u b)"
  shows "\<exists>v. bwrite b (set_data b d u) = Ok () v \<and> bio_ok p v \<and> bio_frame u v \<and> holder v = holder u \<and>
    sleeplocks v = sleeplocks u \<and> procs v = procs u \<and> (\<forall>i. b_valid (bufs v i) = b_valid (bufs u i)) \<and>
    blk v = (blk u)(x := d) \<and> nrefs v = nrefs u \<and> disk_writes v = (x, d) # disk_writes u"
proof -
  define u' where "u' = set_data b d u"
  have rc: "unat (b_refcnt (bufs u b)) = nrefs u x" using h(1) by (simp add: nrefs_def)
  then have rn: "b_refcnt (bufs u b) \<noteq> 0" using h(3) by auto
  note w = upd_held [OF ok h(1,3), where f = "\<lambda>x. x\<lparr>b_data := d\<rparr>", OF _ _ _ _ _ u'_def [unfolded set_data_def]]
  have u': "bio_ok p u'" "bio_frame u u'" "holder u' = holder u" "sleeplocks u' = sleeplocks u" "procs u' = procs u"
    "blk u' = (blk u)(x := d)" "nrefs u' = nrefs u" "disk_writes u' = disk_writes u"
    using w rn h(4) rc by (auto simp: fun_eq_iff)
  have va: "b_valid (bufs u' i) = b_valid (bufs u i)" for i by (simp add: u'_def set_data_def)
  have hu: "holder u' x = Some b" using h(1) u'(3) by simp
  have "held p u' b" using h(2) held_bio [OF u'(4,5)] by simp
  moreover have "nrefs u' x \<noteq> 0" using h(3) u'(7) by simp
  moreover have "b_valid (bufs u' b)" using h(4) va by simp
  ultimately obtain v where v: "bwrite b u' = Ok () v" "bio_ok p v" "bio_frame u' v" "holder v = holder u'" "bufs v = bufs u'"
    "blk v = blk u'" "nrefs v = nrefs u'" "sleeplocks v = sleeplocks u'" "procs v = procs u'"
    "disk_writes v = (x, blk u' x) # disk_writes u'"
    using bwrite_spec [OF u'(1) hu] by blast
  have "bio_frame u v" using bio_frame_trans [OF u'(2) v(3)] .
  then show ?thesis using v u' va unfolding u'_def [symmetric] by (intro exI [of _ v]) simp
qed

text \<open>Two different blocks read one after the other.\<close>

definition two_held ::
  "nat \<Rightarrow> 'a kbio_scheme \<Rightarrow> uint \<Rightarrow> uint \<Rightarrow> nat \<Rightarrow> nat \<Rightarrow> 'a kbio_scheme \<Rightarrow> bool" where
  "two_held p s x y bx b u \<longleftrightarrow>
     bio_ok p u \<and> bio_frame s u \<and> bx \<noteq> b \<and> holder u x = Some bx \<and> holder u y = Some b \<and> held p u bx \<and> held p u b \<and>
     b_valid (bufs u bx) \<and> b_valid (bufs u b) \<and> blk u = blk s \<and>
     nrefs u = (nrefs s)(x := Suc (nrefs s x), y := Suc (nrefs s y)) \<and> disk_writes u = disk_writes s \<and>
     (\<forall>i < NBUF. i \<noteq> bx \<and> i \<noteq> b \<longrightarrow> \<not> sl_locked (sleeplocks u (buf_lock i)))"

lemma holder_lt: "bio_ok p s \<Longrightarrow> holder s c = Some b \<Longrightarrow> b < NBUF"
  using holder_iff [of s c b] by (simp add: bio_ok_def)

lemma holder_neq: "bio_ok p s \<Longrightarrow> holder s x = Some b \<Longrightarrow> holder s y = Some b' \<Longrightarrow> x \<noteq> y \<Longrightarrow> b \<noteq> b'"
  using holder_iff [of s x b] holder_iff [of s y b'] by (auto simp: bio_ok_def caches_def)

lemma two_reads:
  assumes ok: "bio_ok p s" "idle_bufs s" and xy: "x \<noteq> y"
    and few: "card {c. nrefs s c \<noteq> 0} < NBUF" and y: "nrefs s y \<noteq> 0 \<or> card {c. nrefs s c \<noteq> 0} + 1 < NBUF"
  shows "\<exists>bx u b v. bread ROOTDEV x s = Ok bx u \<and> bread ROOTDEV y u = Ok b v \<and> bio_frame s u \<and> two_held p s x y bx b v"
proof -
  have room: "\<exists>b < NBUF. b_refcnt (bufs s b) = 0" using free_buffer [of s] ok(1) few unfolding bio_ok_def by blast
  have nl: "\<forall>b. holder s c = Some b \<longrightarrow> \<not> sl_locked (sleeplocks s (buf_lock b))" for c
    using ok holder_lt [OF ok(1)] by (auto simp: idle_bufs_def)
  have sm: "nrefs s c < 2 ^ 31" for c using ok(2) by (simp add: idle_bufs_def)
  obtain bx u where u: "bread ROOTDEV x s = Ok bx u" "bread_post p s x bx u"
    using bread_spec [OF ok(1) nl, of x] room sm [of x] by fastforce
  then have up: "bio_ok p u" "bio_frame s u" "holder u x = Some bx" "held p u bx" "b_valid (bufs u bx)" "blk u = blk s"
    "nrefs u = (nrefs s)(x := Suc (nrefs s x))" "disk_writes u = disk_writes s"
    "\<And>b'. b' \<noteq> bx \<Longrightarrow> sleeplocks u (buf_lock b') = sleeplocks s (buf_lock b')"
    by (auto simp: bread_post_def)
  have nl2: "\<forall>b. holder u y = Some b \<longrightarrow> \<not> sl_locked (sleeplocks u (buf_lock b))"
  proof (intro allI impI)
    fix b assume b: "holder u y = Some b"
    then have "b \<noteq> bx" using holder_neq [OF up(1) b up(3)] xy by simp
    then show "\<not> sl_locked (sleeplocks u (buf_lock b))"
      using up(9) ok(2) holder_lt [OF up(1) b] by (simp add: idle_bufs_def)
  qed
  have room2: "nrefs u y \<noteq> 0 \<or> (\<exists>b < NBUF. b_refcnt (bufs u b) = 0)"
  proof (cases "nrefs s y = 0")
    case False
    then show ?thesis using up(7) xy by simp
  next
    case True
    define A where "A = {c. nrefs s c \<noteq> 0}"
    have "{c. nrefs u c \<noteq> 0} = insert x A" using up(7) by (auto simp: A_def)
    moreover have "card (insert x A) \<le> Suc (card A)" by (simp add: card_insert_if)
    moreover have "card A + 1 < NBUF" using y True unfolding A_def by blast
    ultimately have "card {c. nrefs u c \<noteq> 0} < NBUF" by (simp only:)
    then show ?thesis using free_buffer [of u] up(1) unfolding bio_ok_def by blast
  qed
  have "nrefs u y < 2 ^ 32 - 1" using up(7) sm [of y] xy by simp
  then obtain b v where v: "bread ROOTDEV y u = Ok b v" "bread_post p u y b v"
    using bread_spec [OF up(1) nl2 room2] by blast
  then have vp: "bio_ok p v" "bio_frame u v" "holder v y = Some b" "held p v b" "b_valid (bufs v b)" "blk v = blk u"
    "nrefs v = (nrefs u)(y := Suc (nrefs u y))" "disk_writes v = disk_writes u"
    "\<And>b'. b' \<noteq> b \<Longrightarrow> sleeplocks v (buf_lock b') = sleeplocks u (buf_lock b')"
    "\<And>c'. c' \<noteq> y \<Longrightarrow> nrefs u c' \<noteq> 0 \<Longrightarrow> holder v c' = holder u c'" "\<And>b'. b' \<noteq> b \<Longrightarrow> bufs v b' = bufs u b'"
    by (auto simp: bread_post_def)
  have hx: "holder v x = Some bx" using vp(10) [of x] up(3,7) xy by simp
  have ne: "bx \<noteq> b" using holder_neq [OF vp(1) hx vp(3) xy] .
  have "bio_frame s v" using bio_frame_trans [OF up(2) vp(2)] .
  moreover have "held p v bx"
    using held_frame [OF vp(2) _ _ up(4)] vp(9) ne up(1) by (simp add: bio_ok_def)
  moreover have "\<not> sl_locked (sleeplocks v (buf_lock i))" if "i < NBUF" "i \<noteq> bx" "i \<noteq> b" for i
    using that vp(9) [of i] up(9) [of i] ok(2) by (simp add: idle_bufs_def)
  moreover have "b_valid (bufs v bx)" using vp(11) ne up(5) by simp
  ultimately show ?thesis
    using u v vp up hx ne xy
    by (intro exI [of _ bx] exI [of _ u] exI [of _ b] exI [of _ v]) (auto simp: two_held_def)
qed

lemma unref_clean: "bcache_inv s \<Longrightarrow> nrefs s c = 0 \<Longrightarrow> blk s c = disk s c"
proof (cases "holder s c")
  case (Some b)
  assume inv: "bcache_inv s" and n: "nrefs s c = 0"
  then have "b < NBUF" "caches (bufs s) b c" using holder_iff [OF inv] Some by auto
  moreover have "b_refcnt (bufs s b) = 0" using n Some by (simp add: nrefs_def unat_eq_zero)
  ultimately have "b_valid (bufs s b) \<Longrightarrow> b_data (bufs s b) = disk s c"
    using inv unfolding bcache_inv_def caches_def by blast
  then show ?thesis using Some by (simp add: blk_def)
qed (simp add: blk_def)

lemma disk_frame: "bio_frame s t \<Longrightarrow> disk_writes t = ws @ disk_writes s \<Longrightarrow> disk t = disk_after (disk s) ws"
proof -
  assume a: "bio_frame s t" "disk_writes t = ws @ disk_writes s"
  have "disk_image t = disk_image s"
    using a(1) by (auto simp: bio_frame_def)
  moreover have "disk_after img (ws @ vs) = disk_after (disk_after img vs) ws" for img vs
    by (induction ws) auto
  ultimately show ?thesis using a(2) by (simp add: disk_def)
qed

lemma disk_after_append: "disk_after img (ws @ vs) = disk_after (disk_after img vs) ws"
  by (induction ws) auto

text \<open>Releasing two held buffers.\<close>

lemma release_two:
  assumes ok: "bio_ok p v" and h: "holder v x = Some bx" "holder v y = Some b" "x \<noteq> y" "held p v bx" "held p v b"
    "b_valid (bufs v bx)" "b_valid (bufs v b)" "nrefs v x \<noteq> 0" "nrefs v y \<noteq> 0"
    and cl: "nrefs v x = 1 \<longrightarrow> blk v x = disk v x" "nrefs v y = 1 \<longrightarrow> blk v y = disk v y"
    and rest: "\<forall>i < NBUF. i \<noteq> bx \<and> i \<noteq> b \<longrightarrow> \<not> sl_locked (sleeplocks v (buf_lock i))"
  shows "\<exists>w z. brelse bx v = Ok () w \<and> brelse b w = Ok () z \<and> bio_ok p z \<and> bio_frame v z \<and> blk z = blk v \<and>
    nrefs z = (nrefs v)(x := nrefs v x - 1, y := nrefs v y - 1) \<and> disk_writes z = disk_writes v \<and>
    (\<forall>i < NBUF. \<not> sl_locked (sleeplocks z (buf_lock i)))"
proof -
  have ne: "bx \<noteq> b" using holder_neq [OF ok h(1,2,3)] .
  obtain w where w: "brelse bx v = Ok () w" "bio_ok p w" "bio_frame v w" "holder w = holder v" "blk w = blk v"
    "nrefs w = (nrefs v)(x := nrefs v x - 1)" "disk_writes w = disk_writes v"
    "\<not> sl_locked (sleeplocks w (buf_lock bx))" "\<And>l. l \<noteq> buf_lock bx \<Longrightarrow> sleeplocks w l = sleeplocks v l"
    "\<And>i. b_valid (bufs w i) = b_valid (bufs v i)"
    using brelse_spec [OF ok h(1,4,8,6) cl(1)] by blast
  have dw: "disk w = disk v" using disk_frame [OF w(3), of "[]"] w(7) by simp
  have hw: "holder w y = Some b" using w(4) h(2) by simp
  have held: "held p w b" using held_frame [OF w(3) _ _ h(5)] w(9) ne ok by (simp add: bio_ok_def)
  have ny: "nrefs w y = nrefs v y" using w(6) h(3) by simp
  have n0: "nrefs w y \<noteq> 0" using ny h(9) by simp
  have va: "b_valid (bufs w b)" using w(10) h(7) by simp
  have cy: "nrefs w y = 1 \<longrightarrow> blk w y = disk w y" using cl(2) ny w(5) dw by simp
  obtain z where z: "brelse b w = Ok () z" "bio_ok p z" "bio_frame w z" "blk z = blk w"
    "nrefs z = (nrefs w)(y := nrefs w y - 1)" "disk_writes z = disk_writes w"
    "\<not> sl_locked (sleeplocks z (buf_lock b))" "\<And>l. l \<noteq> buf_lock b \<Longrightarrow> sleeplocks z l = sleeplocks w l"
    using brelse_spec [OF w(2) hw held n0 va cy] by blast
  have "\<not> sl_locked (sleeplocks z (buf_lock i))" if "i < NBUF" for i
    using rest that z(7,8) w(8,9) by (cases "i = b"; cases "i = bx") auto
  moreover have "nrefs z = (nrefs v)(x := nrefs v x - 1, y := nrefs v y - 1)" using z(5) w(6) ny h(3) by simp
  ultimately show ?thesis
    using w(1,5,7) z(1,2,4,6) bio_frame_trans [OF w(3) z(3)]
    by (intro exI [of _ w] exI [of _ z]) simp
qed

definition copied :: "nat \<Rightarrow> 'a kbio_scheme \<Rightarrow> uint \<Rightarrow> uchar list \<Rightarrow> 'a kbio_scheme \<Rightarrow> bool" where
  "copied p s x d t \<longleftrightarrow> bio_ok p t \<and> bio_frame s t \<and> idle_bufs t \<and> blk t = (blk s)(x := d) \<and>
     disk_writes t = (x, d) # disk_writes s"

lemma data_of: "holder v x = Some b \<Longrightarrow> b_valid (bufs v b) \<Longrightarrow> b_data (bufs v b) = blk v x"
  by (simp add: blk_def)

text \<open>One iteration of \<open>write_log\<close>: block \<open>y\<close> is copied to the log block \<open>x\<close>.\<close>

lemma log_copy:
  assumes ok: "bio_ok p s" "idle_bufs s" and xy: "x \<noteq> y"
    and few: "card {c. nrefs s c \<noteq> 0} < NBUF" and y: "nrefs s y \<noteq> 0"
  shows "\<exists>bx u b v v' w t. bread ROOTDEV x s = Ok bx u \<and> bio_frame s u \<and> bread ROOTDEV y u = Ok b v \<and>
    bwrite bx (set_data bx (b_data (bufs v b)) v) = Ok () v' \<and> brelse b v' = Ok () w \<and> brelse bx w = Ok () t \<and>
    copied p s x (blk s y) t \<and> nrefs t = nrefs s"
proof -
  obtain bx u b v where u: "bread ROOTDEV x s = Ok bx u" "bread ROOTDEV y u = Ok b v" "bio_frame s u" "two_held p s x y bx b v"
    using two_reads [OF ok xy few] y by blast
  then have th: "bio_ok p v" "bio_frame s v" "bx \<noteq> b" "holder v x = Some bx" "holder v y = Some b" "held p v bx" "held p v b"
     "b_valid (bufs v bx)" "b_valid (bufs v b)" "blk v = blk s"
     "nrefs v = (nrefs s)(x := Suc (nrefs s x), y := Suc (nrefs s y))" "disk_writes v = disk_writes s"
     "\<forall>i < NBUF. i \<noteq> bx \<and> i \<noteq> b \<longrightarrow> \<not> sl_locked (sleeplocks v (buf_lock i))"
    unfolding two_held_def by blast+
  have d: "b_data (bufs v b) = blk s y" using data_of [OF th(5,9)] th(10) by simp
  have nx: "nrefs v x \<noteq> 0" "nrefs v y \<noteq> 0" using th(11) by simp_all
  obtain v' where v': "bwrite bx (set_data bx (blk s y) v) = Ok () v'" "bio_ok p v'" "bio_frame v v'" "holder v' = holder v"
    "sleeplocks v' = sleeplocks v" "procs v' = procs v" "\<And>i. b_valid (bufs v' i) = b_valid (bufs v i)"
    "blk v' = (blk v)(x := blk s y)" "nrefs v' = nrefs v" "disk_writes v' = (x, blk s y) # disk_writes v"
    using put_block [OF th(1,4,6) nx(1) th(8), of "blk s y"] by blast
  have dv: "disk v' x = blk s y" using disk_frame [OF v'(3), of "[(x, blk s y)]"] v'(10) by simp
  have hh: "holder v' y = Some b" "holder v' x = Some bx" "y \<noteq> x" "held p v' b" "held p v' bx" "b_valid (bufs v' b)" "b_valid (bufs v' bx)"
    "nrefs v' y \<noteq> 0" "nrefs v' x \<noteq> 0"
    using th nx xy v' held_bio [OF v'(5,6)] by simp_all
  have c1: "nrefs v' y = 1 \<longrightarrow> blk v' y = disk v' y" using v'(9) th(11) y by simp
  have c2: "nrefs v' x = 1 \<longrightarrow> blk v' x = disk v' x" using dv v'(8) by simp
  have rest: "\<forall>i < NBUF. i \<noteq> b \<and> i \<noteq> bx \<longrightarrow> \<not> sl_locked (sleeplocks v' (buf_lock i))" using th(13) v'(5) by simp
  obtain w t where w: "brelse b v' = Ok () w" "brelse bx w = Ok () t" "bio_ok p t" "bio_frame v' t" "blk t = blk v'"
    "nrefs t = (nrefs v')(y := nrefs v' y - 1, x := nrefs v' x - 1)" "disk_writes t = disk_writes v'"
    "\<forall>i < NBUF. \<not> sl_locked (sleeplocks t (buf_lock i))"
    using release_two [OF v'(2) hh c1 c2 rest] by blast
  have nt: "nrefs t = nrefs s" using w(6) v'(9) th(11) xy by (simp add: fun_eq_iff)
  have "bio_frame s t" using bio_frame_trans [OF bio_frame_trans [OF th(2) v'(3)] w(4)] .
  then have "copied p s x (blk s y) t"
    using w v' th ok(2) nt by (simp add: copied_def idle_bufs_def)
  moreover have "bwrite bx (set_data bx (b_data (bufs v b)) v) = Ok () v'" using v'(1) d by simp
  ultimately show ?thesis using u w(1,2) nt by blast
qed

text \<open>One iteration of \<open>install_trans\<close>: the log block \<open>x\<close> is copied to its home location \<open>y\<close>.\<close>

lemma install_copy:
  assumes ok: "bio_ok p s" "idle_bufs s" and xy: "x \<noteq> y"
    and few: "card {c. nrefs s c \<noteq> 0} < NBUF" and x: "nrefs s x = 0"
    and y: "if recovering then nrefs s y = 0 \<and> card {c. nrefs s c \<noteq> 0} + 1 < NBUF else nrefs s y \<noteq> 0"
  shows "\<exists>bx u b v v' v'' w t. bread ROOTDEV x s = Ok bx u \<and> bio_frame s u \<and> bread ROOTDEV y u = Ok b v \<and>
    bwrite b (set_data b (b_data (bufs v bx)) v) = Ok () v' \<and>
    (if \<not> recovering then bunpin b v' else Ok () v') = Ok () v'' \<and> brelse bx v'' = Ok () w \<and> brelse b w = Ok () t \<and>
    copied p s y (blk s x) t \<and> nrefs t = (nrefs s)(y := nrefs s y - 1)"
proof -
  have "nrefs s y \<noteq> 0 \<or> card {c. nrefs s c \<noteq> 0} + 1 < NBUF" using y by (simp split: if_splits)
  then obtain bx u b v where u: "bread ROOTDEV x s = Ok bx u" "bread ROOTDEV y u = Ok b v" "bio_frame s u" "two_held p s x y bx b v"
    using two_reads [OF ok xy few] by blast
  then have th: "bio_ok p v" "bio_frame s v" "bx \<noteq> b" "holder v x = Some bx" "holder v y = Some b" "held p v bx" "held p v b"
     "b_valid (bufs v bx)" "b_valid (bufs v b)" "blk v = blk s"
     "nrefs v = (nrefs s)(x := Suc (nrefs s x), y := Suc (nrefs s y))" "disk_writes v = disk_writes s"
     "\<forall>i < NBUF. i \<noteq> bx \<and> i \<noteq> b \<longrightarrow> \<not> sl_locked (sleeplocks v (buf_lock i))"
    unfolding two_held_def by blast+
  have d: "b_data (bufs v bx) = blk s x" using data_of [OF th(4,8)] th(10) by simp
  have nx: "nrefs v x \<noteq> 0" "nrefs v y \<noteq> 0" using th(11) by simp_all
  obtain v' where v': "bwrite b (set_data b (blk s x) v) = Ok () v'" "bio_ok p v'" "bio_frame v v'" "holder v' = holder v"
    "sleeplocks v' = sleeplocks v" "procs v' = procs v" "\<And>i. b_valid (bufs v' i) = b_valid (bufs v i)"
    "blk v' = (blk v)(y := blk s x)" "nrefs v' = nrefs v" "disk_writes v' = (y, blk s x) # disk_writes v"
    using put_block [OF th(1,5,7) nx(2) th(9), of "blk s x"] by blast
  have dsx: "disk s x = blk s x" using unref_clean [of s x] ok(1) x by (simp add: bio_ok_def)
  have dv: "disk v' = (disk s)(y := blk s x)"
    using disk_frame [OF bio_frame_trans [OF th(2) v'(3)], of "[(y, blk s x)]"] v'(10) th(12) by simp
  have ex: "\<exists>v''. (if \<not> recovering then bunpin b v' else Ok () v') = Ok () v'' \<and> bio_ok p v'' \<and> bio_frame v' v'' \<and>
     holder v'' = holder v \<and> blk v'' = blk v' \<and> disk_writes v'' = disk_writes v' \<and> sleeplocks v'' = sleeplocks v \<and>
     procs v'' = procs v \<and> b_valid (bufs v'' b) \<and> b_valid (bufs v'' bx) \<and> nrefs v'' y \<noteq> 0 \<and>
     nrefs v'' = (nrefs v')(y := if recovering then nrefs v' y else nrefs v' y - 1)"
  proof (cases recovering)
    case True
    then show ?thesis using v' th nx by auto
  next
    case False
    have hy: "holder v' y = Some b" "1 < nrefs v' y" using v'(4,9) th(5,11) y False by simp_all
    obtain v'' where v'': "bunpin b v' = Ok () v''" "bio_ok p v''" "bio_frame v' v''" "holder v'' = holder v'" "blk v'' = blk v'"
      "nrefs v'' = (nrefs v')(y := nrefs v' y - 1)" "disk_writes v'' = disk_writes v'" "sleeplocks v'' = sleeplocks v'"
      "procs v'' = procs v'" "b_valid (bufs v'' b) = b_valid (bufs v' b)" "b_valid (bufs v'' bx) = b_valid (bufs v' bx)"
    proof -
      have "calm v'" using v'(2) by (simp add: bio_ok_def)
      then have "bunpin b v' = Ok () (upd_buf b (\<lambda>x. x\<lparr>b_refcnt := b_refcnt x - 1\<rparr>) v')"
        by (simp add: bunpin_def calm_acquire calm_release)
      moreover have "b_valid (bufs (upd_buf b (\<lambda>x. x\<lparr>b_refcnt := b_refcnt x - 1\<rparr>) v') bx) = b_valid (bufs v' bx)" by simp
      ultimately show ?thesis using that bunpin_spec [OF v'(2) hy] by auto
    qed
    then show ?thesis using False v' th hy(2) by (intro exI [of _ v'']) auto
  qed
  then obtain v'' where v'': "(if \<not> recovering then bunpin b v' else Ok () v') = Ok () v''" "bio_ok p v''" "bio_frame v' v''"
     "holder v'' = holder v" "blk v'' = blk v'" "disk_writes v'' = disk_writes v'" "sleeplocks v'' = sleeplocks v"
     "procs v'' = procs v" "b_valid (bufs v'' b)" "b_valid (bufs v'' bx)" "nrefs v'' y \<noteq> 0"
     "nrefs v'' = (nrefs v')(y := if recovering then nrefs v' y else nrefs v' y - 1)"
    by blast
  have dv'': "disk v'' = disk v'" using disk_frame [OF v''(3), of "[]"] v''(6) by simp
  have hh: "holder v'' x = Some bx" "holder v'' y = Some b" "held p v'' bx" "held p v'' b" "nrefs v'' x \<noteq> 0"
    using th nx xy v'(9) v''(4,12) held_bio [OF v''(7,8)] by simp_all
  have c1: "nrefs v'' x = 1 \<longrightarrow> blk v'' x = disk v'' x" using v''(5) v'(8) dv dv'' xy th(10) dsx by simp
  have c2: "nrefs v'' y = 1 \<longrightarrow> blk v'' y = disk v'' y" using v''(5) v'(8) dv dv'' by simp
  have rest: "\<forall>i < NBUF. i \<noteq> bx \<and> i \<noteq> b \<longrightarrow> \<not> sl_locked (sleeplocks v'' (buf_lock i))" using th(13) v''(7) by simp
  obtain w t where w: "brelse bx v'' = Ok () w" "brelse b w = Ok () t" "bio_ok p t" "bio_frame v'' t" "blk t = blk v''"
    "nrefs t = (nrefs v'')(x := nrefs v'' x - 1, y := nrefs v'' y - 1)" "disk_writes t = disk_writes v''"
    "\<forall>i < NBUF. \<not> sl_locked (sleeplocks t (buf_lock i))"
    using release_two [OF v''(2) hh(1,2) xy hh(3,4) v''(10,9) hh(5) v''(11) c1 c2 rest] by blast
  have nt: "nrefs t = (nrefs s)(y := nrefs s y - 1)"
    using w(6) v''(12) v'(9) th(11) xy y by (auto simp: fun_eq_iff)
  have "bio_frame s t"
    using bio_frame_trans [OF bio_frame_trans [OF bio_frame_trans [OF th(2) v'(3)] v''(3)] w(4)] .
  moreover have "nrefs t c < 2 ^ 31" for c
  proof -
    have "nrefs t c \<le> nrefs s c" unfolding nt by simp
    then show ?thesis using ok(2) le_less_trans unfolding idle_bufs_def by blast
  qed
  ultimately have "copied p s y (blk s x) t"
    using w v'' v' th by (simp add: copied_def idle_bufs_def)
  moreover have "bwrite b (set_data b (b_data (bufs v bx)) v) = Ok () v'" using v'(1) d by simp
  ultimately show ?thesis using u v''(1) w(1,2) nt by blast
qed

end
