(* ===== verification/Log_Crash.thy ===== *)
theory Log_Crash
  imports Log
begin

text \<open>
  The log commits atomically: the disk writes of a commit, and what recovery makes of the disk when the
  machine stops between any two of them.
\<close>

section \<open>The layout of the log\<close>

definition nlog :: "'a klog_scheme \<Rightarrow> nat" where
  "nlog s = count (lh_n s)"

definition log_blk :: "'a klog_scheme \<Rightarrow> nat \<Rightarrow> uint" where
  "log_blk s i = log_start s + of_nat i + 1"

definition log_wf :: "'a klog_scheme \<Rightarrow> bool" where
  "log_wf s \<longleftrightarrow> log_dev s = ROOTDEV \<and> nlog s < LOGSIZE \<and> inj_on (lh_block s) {..<nlog s} \<and>
     (\<forall>i < nlog s. lh_block s i \<noteq> log_start s \<and> (\<forall>j < nlog s. lh_block s i \<noteq> log_blk s j))"

lemma log_wfD:
  assumes "log_wf s" "i < nlog s" "j < nlog s"
  shows "lh_block s i \<noteq> log_blk s j" "log_blk s j \<noteq> lh_block s i" "lh_block s i \<noteq> log_start s"
    "lh_block s i = lh_block s j \<longleftrightarrow> i = j"
proof -
  show "lh_block s i \<noteq> log_blk s j" "lh_block s i \<noteq> log_start s" using assms unfolding log_wf_def by blast+
  then show "log_blk s j \<noteq> lh_block s i" by metis
  show "lh_block s i = lh_block s j \<longleftrightarrow> i = j" using assms unfolding log_wf_def by (auto dest: inj_onD)
qed

lemma log_blk_neq:
  assumes "i \<le> LOGSIZE" "j \<le> LOGSIZE"
  shows "log_blk s i = log_blk s j \<longleftrightarrow> i = j" "log_blk s i \<noteq> log_start s"
proof -
  have l: "i < 2 ^ 31" "j < 2 ^ 31" using assms by (simp_all add: LOGSIZE_def MAXOPBLOCKS_def)
  have "(of_nat i :: uint) = of_nat j \<longleftrightarrow> i = j"
    using l add_of_nat_inj [of "0 :: uint" i j] by auto
  then show "log_blk s i = log_blk s j \<longleftrightarrow> i = j" by (simp add: log_blk_def)
  have "unat (of_nat (Suc i) :: uint) = Suc i" using l by (subst unat_of_nat) simp
  then have "(of_nat i :: uint) + 1 \<noteq> 0" by (metis Suc_neq_Zero add.commute of_nat_Suc unat_0)
  then show "log_blk s i \<noteq> log_start s" by (simp add: log_blk_def add.assoc)
qed

lemma klog_frame_views:
  assumes "bio_frame s t"
  shows "nlog t = nlog s" "log_blk t = log_blk s" "log_wf t = log_wf s"
  using bio_frame_klog [OF assms] by (simp_all add: nlog_def log_blk_def [abs_def] log_wf_def)

section \<open>The loops of commit\<close>

definition log_ws :: "(uint \<Rightarrow> uchar list) \<Rightarrow> 'a klog_scheme \<Rightarrow> nat \<Rightarrow> (uint \<times> uchar list) list" where
  "log_ws f s tail = rev (map (\<lambda>i. (log_blk s i, f (lh_block s i))) [tail..<nlog s])"

definition inst_ws :: "(uint \<Rightarrow> uchar list) \<Rightarrow> 'a klog_scheme \<Rightarrow> nat \<Rightarrow> (uint \<times> uchar list) list" where
  "inst_ws f s tail = rev (map (\<lambda>i. (lh_block s i, f (log_blk s i))) [tail..<nlog s])"

lemma ws_step:
  "tail < nlog s \<Longrightarrow> log_ws f s tail = log_ws f s (Suc tail) @ [(log_blk s tail, f (lh_block s tail))]"
  "tail < nlog s \<Longrightarrow> inst_ws f s tail = inst_ws f s (Suc tail) @ [(lh_block s tail, f (log_blk s tail))]"
  "nlog s \<le> tail \<Longrightarrow> log_ws f s tail = []" "nlog s \<le> tail \<Longrightarrow> inst_ws f s tail = []"
  by (simp_all add: log_ws_def inst_ws_def upt_conv_Cons)

lemma ws_cong:
  "bio_frame s t \<Longrightarrow> (\<And>i. tail \<le> i \<Longrightarrow> i < nlog s \<Longrightarrow> g (lh_block s i) = f (lh_block s i)) \<Longrightarrow> log_ws g t tail = log_ws f s tail"
  "bio_frame s t \<Longrightarrow> (\<And>i. tail \<le> i \<Longrightarrow> i < nlog s \<Longrightarrow> g (log_blk s i) = f (log_blk s i)) \<Longrightarrow> inst_ws g t tail = inst_ws f s tail"
  using bio_frame_klog(5) [of s t] klog_frame_views [of s t] by (auto simp: log_ws_def inst_ws_def)

lemma write_log_loop_spec:
  assumes "bio_ok p s" "idle_bufs s" "log_wf s" "card {c. nrefs s c \<noteq> 0} < NBUF"
    "\<forall>i < nlog s. nrefs s (lh_block s i) \<noteq> 0" "tail \<le> nlog s"
  shows "\<exists>t. write_log_loop tail s = Ok () t \<and> bio_ok p t \<and> bio_frame s t \<and> idle_bufs t \<and> nrefs t = nrefs s \<and>
    blk t = disk_after (blk s) (log_ws (blk s) s tail) \<and> disk_writes t = log_ws (blk s) s tail @ disk_writes s"
  using assms
proof (induction "nlog s - tail" arbitrary: s tail)
  case 0
  then have "tail = nlog s" by simp
  then show ?case using 0 by (subst write_log_loop.simps) (simp add: nlog_def ws_step)
next
  case (Suc k)
  have lt: "tail < nlog s" "k = nlog s - Suc tail" "Suc tail \<le> nlog s" using Suc.hyps(2) by auto
  have wf: "log_dev s = ROOTDEV" "nlog s < LOGSIZE" using Suc.prems(3) by (auto simp: log_wf_def)
  let ?x = "log_blk s tail" and ?y = "lh_block s tail"
  have xy: "?x \<noteq> ?y" using log_wfD(2) [OF Suc.prems(3) lt(1) lt(1)] .
  obtain bx u b v v' w t where c: "bread ROOTDEV ?x s = Ok bx u" "bio_frame s u" "bread ROOTDEV ?y u = Ok b v"
    "bwrite bx (set_data bx (b_data (bufs v b)) v) = Ok () v'" "brelse b v' = Ok () w" "brelse bx w = Ok () t"
    "copied p s ?x (blk s ?y) t" "nrefs t = nrefs s"
    using log_copy [OF Suc.prems(1,2) xy Suc.prems(4)] Suc.prems(5) lt(1) by blast
  then have cp: "bio_ok p t" "bio_frame s t" "idle_bufs t" "blk t = (blk s)(?x := blk s ?y)"
    "disk_writes t = (?x, blk s ?y) # disk_writes s" by (auto simp: copied_def)
  have run: "write_log_loop tail s = write_log_loop (Suc tail) t"
    using lt(1) wf c(1,3-6) bio_frame_klog [OF c(2)]
    by (subst write_log_loop.simps) (simp add: log_blk_def nlog_def Let_def)
  have bl: "blk t (lh_block s i) = blk s (lh_block s i)" if "i < nlog s" for i
    using cp(4) log_wfD(1) [OF Suc.prems(3) that lt(1)] by simp
  note fv = klog_frame_views [OF cp(2)] and fl = bio_frame_klog [OF cp(2)]
  have "\<exists>z. write_log_loop (Suc tail) t = Ok () z \<and> bio_ok p z \<and> bio_frame t z \<and> idle_bufs z \<and> nrefs z = nrefs t \<and>
    blk z = disk_after (blk t) (log_ws (blk t) t (Suc tail)) \<and> disk_writes z = log_ws (blk t) t (Suc tail) @ disk_writes t"
    using Suc.prems lt cp c(8) fv fl by (intro Suc.hyps(1)) auto
  moreover have "log_ws (blk t) t (Suc tail) = log_ws (blk s) s (Suc tail)"
    using bl by (intro ws_cong(1) [OF cp(2)])
  ultimately show ?case unfolding run ws_step(1) [OF lt(1)]
    using cp c(8) bio_frame_trans [OF cp(2)] by (auto simp: disk_after_append)
qed

lemma install_loop_spec:
  assumes "bio_ok p s" "idle_bufs s" "log_wf s" "card {c. nrefs s c \<noteq> 0} < NBUF"
    "\<forall>i < nlog s. nrefs s (log_blk s i) = 0"
    "if r then \<forall>c. nrefs s c = 0 else \<forall>i < nlog s. tail \<le> i \<longrightarrow> nrefs s (lh_block s i) \<noteq> 0" "tail \<le> nlog s"
  shows "\<exists>t. install_loop tail r s = Ok () t \<and> bio_ok p t \<and> bio_frame s t \<and> idle_bufs t \<and>
    nrefs t = (\<lambda>c. nrefs s c - (if c \<in> lh_block s ` {tail..<nlog s} then 1 else 0)) \<and>
    blk t = disk_after (blk s) (inst_ws (blk s) s tail) \<and> disk_writes t = inst_ws (blk s) s tail @ disk_writes s"
  using assms
proof (induction "nlog s - tail" arbitrary: s tail)
  case 0
  then have "tail = nlog s" by simp
  then show ?case using 0 by (subst install_loop.simps) (simp add: nlog_def ws_step)
next
  case (Suc k)
  have lt: "tail < nlog s" "k = nlog s - Suc tail" "Suc tail \<le> nlog s" using Suc.hyps(2) by auto
  have wf: "log_dev s = ROOTDEV" "nlog s < LOGSIZE" using Suc.prems(3) by (auto simp: log_wf_def)
  let ?x = "log_blk s tail" and ?y = "lh_block s tail"
  have xy: "?x \<noteq> ?y" using log_wfD(2) [OF Suc.prems(3) lt(1) lt(1)] .
  have y: "if r then nrefs s ?y = 0 \<and> card {c. nrefs s c \<noteq> 0} + 1 < NBUF else nrefs s ?y \<noteq> 0"
    using Suc.prems(6) lt(1) by (auto simp: NBUF_def)
  have x: "nrefs s ?x = 0" using Suc.prems(5) lt(1) by simp
  obtain bx u b v v' v'' w t where c: "bread ROOTDEV ?x s = Ok bx u" "bio_frame s u" "bread ROOTDEV ?y u = Ok b v"
    "bwrite b (set_data b (b_data (bufs v bx)) v) = Ok () v'"
    "(if \<not> r then bunpin b v' else Ok () v') = Ok () v''" "brelse bx v'' = Ok () w" "brelse b w = Ok () t"
    "copied p s ?y (blk s ?x) t" "nrefs t = (nrefs s)(?y := nrefs s ?y - 1)"
    using install_copy [OF Suc.prems(1,2) xy Suc.prems(4) x y] by blast
  then have cp: "bio_ok p t" "bio_frame s t" "idle_bufs t" "blk t = (blk s)(?y := blk s ?x)"
    "disk_writes t = (?y, blk s ?x) # disk_writes s" by (auto simp: copied_def)
  have run: "install_loop tail r s = install_loop (Suc tail) r t"
    using lt(1) wf c(1,3-7) bio_frame_klog [OF c(2)]
    by (subst install_loop.simps) (simp add: log_blk_def nlog_def Let_def)
  have bl: "blk t (log_blk s i) = blk s (log_blk s i)" if "i < nlog s" for i
    using cp(4) log_wfD(2) [OF Suc.prems(3) lt(1) that] by simp
  note fv = klog_frame_views [OF cp(2)] and fl = bio_frame_klog [OF cp(2)]
  have ne: "lh_block s i \<noteq> ?y" if "i < nlog s" "i \<noteq> tail" for i
    using log_wfD(4) [OF Suc.prems(3) that(1) lt(1)] that(2) by simp
  have sub: "{c. nrefs t c \<noteq> 0} \<subseteq> {c. nrefs s c \<noteq> 0}" using c(9) by auto
  then have few: "card {c. nrefs t c \<noteq> 0} < NBUF" using Suc.prems(4) card_mono [OF _ sub] by simp
  have nb: "\<forall>i < nlog t. nrefs t (log_blk t i) = 0"
    using Suc.prems(5) c(9) fv log_wfD(2) [OF Suc.prems(3) lt(1)] by simp
  have nh: "if r then \<forall>c. nrefs t c = 0 else \<forall>i < nlog t. Suc tail \<le> i \<longrightarrow> nrefs t (lh_block t i) \<noteq> 0"
    using Suc.prems(6) c(9) fv fl ne by auto
  have "\<exists>z. install_loop (Suc tail) r t = Ok () z \<and> bio_ok p z \<and> bio_frame t z \<and> idle_bufs z \<and>
    nrefs z = (\<lambda>c. nrefs t c - (if c \<in> lh_block t ` {Suc tail..<nlog t} then 1 else 0)) \<and>
    blk z = disk_after (blk t) (inst_ws (blk t) t (Suc tail)) \<and> disk_writes z = inst_ws (blk t) t (Suc tail) @ disk_writes t"
    using Suc.prems(3) lt cp fv few nb nh by (intro Suc.hyps(1)) auto
  moreover have "inst_ws (blk t) t (Suc tail) = inst_ws (blk s) s (Suc tail)"
    using bl by (intro ws_cong(2) [OF cp(2)])
  moreover have "(\<lambda>c. nrefs t c - (if c \<in> lh_block t ` {Suc tail..<nlog t} then 1 else 0)) =
      (\<lambda>c. nrefs s c - (if c \<in> lh_block s ` {tail..<nlog s} then 1 else 0))"
  proof
    fix c
    have "{tail..<nlog s} = insert tail {Suc tail..<nlog s}" using lt(1) by auto
    then have "c \<in> lh_block s ` {tail..<nlog s} \<longleftrightarrow> c = ?y \<or> c \<in> lh_block s ` {Suc tail..<nlog s}" by auto
    moreover have "?y \<notin> lh_block s ` {Suc tail..<nlog s}" using ne by fastforce
    ultimately show "nrefs t c - (if c \<in> lh_block t ` {Suc tail..<nlog t} then 1 else 0) =
      nrefs s c - (if c \<in> lh_block s ` {tail..<nlog s} then 1 else 0)" unfolding fv fl c(9) by auto
  qed
  ultimately show ?case unfolding run ws_step(2) [OF lt(1)]
    using cp bio_frame_trans [OF cp(2)] by (auto simp: disk_after_append)
qed

section \<open>The header block\<close>

fun head_bytes :: "nat \<Rightarrow> nat \<Rightarrow> (nat \<Rightarrow> int32) \<Rightarrow> uchar list \<Rightarrow> uchar list" where
  "head_bytes 0 i f data = data"
| "head_bytes (Suc n) i f data = head_bytes n (Suc i) f (put32 (4 + 4 * i) (f i) data)"

lemma set_data_set_data [simp]: "set_data b d (set_data b e s) = set_data b d s"
  by (simp add: set_data_def upd_buf_def)

lemma set_data_simps [simp]:
  "bufs (set_data b d s) b = (bufs s b)\<lparr>b_data := d\<rparr>" "lh_block (set_data b d s) = lh_block s"
  "lh_n (set_data b d s) = lh_n s"
  by (simp_all add: set_data_def) (simp_all add: upd_buf_def)

lemma set_data_same [simp]: "set_data b (b_data (bufs s b)) s = s"
  by (simp add: set_data_def upd_buf_def)

lemma write_head_loop_eq:
  "i + n \<le> LOGSIZE \<Longrightarrow>
   write_head_loop n i b s = Ok () (set_data b (head_bytes n i (lh_block s) (b_data (bufs s b))) s)"
  by (induction n arbitrary: i s) simp_all

lemma head_bytes_get:
  assumes "4 + 4 * (i + n) \<le> length data"
  shows "length (head_bytes n i f data) = length data" "get32 (head_bytes n i f data) 0 = get32 data 0"
    "j < i + n \<Longrightarrow> get32 (head_bytes n i f data) (4 + 4 * j) = (if i \<le> j then f j else get32 data (4 + 4 * j))"
proof -
  have "length (head_bytes n i f data) = length data \<and> get32 (head_bytes n i f data) 0 = get32 data 0 \<and>
    (\<forall>j < i + n. get32 (head_bytes n i f data) (4 + 4 * j) = (if i \<le> j then f j else get32 data (4 + 4 * j)))"
    using assms
  proof (induction n arbitrary: i data)
    case (Suc n)
    let ?d = "put32 (4 + 4 * i) (f i) data"
    have l: "length ?d = length data" using Suc.prems by simp
    have g: "get32 ?d (4 + 4 * i) = f i" "get32 ?d 0 = get32 data 0"
      "j < i \<Longrightarrow> get32 ?d (4 + 4 * j) = get32 data (4 + 4 * j)" for j
      using Suc.prems by (auto simp: get32_put32)
    have pre: "4 + 4 * (Suc i + n) \<le> length ?d" using Suc.prems l by simp
    have h: "length (head_bytes n (Suc i) f ?d) = length ?d" "get32 (head_bytes n (Suc i) f ?d) 0 = get32 ?d 0"
      "\<And>j. j < Suc i + n \<Longrightarrow> get32 (head_bytes n (Suc i) f ?d) (4 + 4 * j) = (if Suc i \<le> j then f j else get32 ?d (4 + 4 * j))"
      using Suc.IH [OF pre] by blast+
    have "get32 (head_bytes (Suc n) i f data) (4 + 4 * j) = (if i \<le> j then f j else get32 data (4 + 4 * j))"
      if "j < i + Suc n" for j
    proof -
      have "get32 (head_bytes (Suc n) i f data) (4 + 4 * j) = (if Suc i \<le> j then f j else get32 ?d (4 + 4 * j))"
        using h(3) [of j] that by simp
      then show ?thesis using g(1,3) by (cases rule: linorder_cases [of i j]) simp_all
    qed
    then show ?case using h(1,2) l g(2) by simp
  qed simp
  then show "length (head_bytes n i f data) = length data" "get32 (head_bytes n i f data) 0 = get32 data 0"
    "j < i + n \<Longrightarrow> get32 (head_bytes n i f data) (4 + 4 * j) = (if i \<le> j then f j else get32 data (4 + 4 * j))" by auto
qed

definition header :: "int32 \<Rightarrow> (nat \<Rightarrow> int32) \<Rightarrow> uchar list \<Rightarrow> uchar list" where
  "header n f data = head_bytes (count n) 0 f (put32 0 n data)"

lemma header_get:
  assumes "count n \<le> LOGSIZE" "length data = BSIZE"
  shows "length (header n f data) = BSIZE" "get32 (header n f data) 0 = n"
    "i < count n \<Longrightarrow> get32 (header n f data) (4 + 4 * i) = f i"
  using assms head_bytes_get [where i = 0 and n = "count n" and data = "put32 0 n data" and f = f]
  by (simp_all add: header_def get32_put32 BSIZE_def LOGSIZE_def MAXOPBLOCKS_def)

lemma write_head_spec:
  assumes ok: "bio_ok p s" "idle_bufs s" and dev: "log_dev s = ROOTDEV" and n: "count (lh_n s) \<le> LOGSIZE"
    and few: "card {c. nrefs s c \<noteq> 0} < NBUF"
  shows "\<exists>t. write_head s = Ok () t \<and> copied p s (log_start s) (header (lh_n s) (lh_block s) (blk s (log_start s))) t \<and>
    nrefs t = nrefs s"
proof -
  let ?x = "log_start s"
  let ?d = "header (lh_n s) (lh_block s) (blk s ?x)"
  have room: "\<exists>b < NBUF. b_refcnt (bufs s b) = 0" using free_buffer [of s] ok(1) few unfolding bio_ok_def by blast
  have nl: "\<forall>b. holder s ?x = Some b \<longrightarrow> \<not> sl_locked (sleeplocks s (buf_lock b))"
    using ok holder_lt [OF ok(1)] by (auto simp: idle_bufs_def)
  have sm: "nrefs s c < 2 ^ 31" for c using ok(2) by (simp add: idle_bufs_def)
  obtain b u where u: "bread ROOTDEV ?x s = Ok b u" "bread_post p s ?x b u"
    using bread_spec [OF ok(1) nl] room sm [of ?x] by fastforce
  then have up: "bio_ok p u" "bio_frame s u" "holder u ?x = Some b" "held p u b" "b_valid (bufs u b)" "blk u = blk s"
    "nrefs u = (nrefs s)(?x := Suc (nrefs s ?x))" "disk_writes u = disk_writes s"
    "\<And>b'. b' \<noteq> b \<Longrightarrow> sleeplocks u (buf_lock b') = sleeplocks s (buf_lock b')"
    by (auto simp: bread_post_def)
  note fl = bio_frame_klog [OF up(2)]
  have d: "b_data (bufs u b) = blk s ?x" using data_of [OF up(3,5)] up(6) by simp
  have nu: "nrefs u ?x \<noteq> 0" using up(7) by simp
  obtain v where v: "bwrite b (set_data b ?d u) = Ok () v" "bio_ok p v" "bio_frame u v" "holder v = holder u"
    "sleeplocks v = sleeplocks u" "procs v = procs u" "\<And>i. b_valid (bufs v i) = b_valid (bufs u i)"
    "blk v = (blk u)(?x := ?d)" "nrefs v = nrefs u" "disk_writes v = (?x, ?d) # disk_writes u"
    using put_block [OF up(1,3,4) nu up(5), of ?d] by blast
  have dv: "disk v ?x = ?d" using disk_frame [OF v(3), of "[(?x, ?d)]"] v(10) by simp
  have hh: "holder v ?x = Some b" "held p v b" "nrefs v ?x \<noteq> 0" "b_valid (bufs v b)"
    using up v nu held_bio [OF v(5,6)] by simp_all
  have cl: "nrefs v ?x = 1 \<longrightarrow> blk v ?x = disk v ?x" using dv v(8) by simp
  obtain t where t: "brelse b v = Ok () t" "bio_ok p t" "bio_frame v t" "blk t = blk v"
    "nrefs t = (nrefs v)(?x := nrefs v ?x - 1)" "disk_writes t = disk_writes v"
    "\<not> sl_locked (sleeplocks t (buf_lock b))" "\<And>l. l \<noteq> buf_lock b \<Longrightarrow> sleeplocks t l = sleeplocks v l"
    using brelse_spec [OF v(2) hh cl] by blast
  have run: "write_head s = Ok () t"
    using u(1) v(1) t(1) n
    by (simp add: write_head_def dev fl write_head_loop_eq d header_def Let_def)
  have nt: "nrefs t = nrefs s" using t(5) v(9) up(7) by (simp add: fun_eq_iff)
  have "\<not> sl_locked (sleeplocks t (buf_lock i))" if "i < NBUF" for i
    using that t(7,8) v(5) up(9) ok(2) by (cases "i = b") (simp_all add: idle_bufs_def)
  then have "idle_bufs t" using nt ok(2) by (simp add: idle_bufs_def)
  moreover have "bio_frame s t" using bio_frame_trans [OF bio_frame_trans [OF up(2) v(3)] t(3)] .
  ultimately show ?thesis using run t v up nt by (intro exI [of _ t]) (simp add: copied_def)
qed

section \<open>The commit\<close>

lemma bio_views_cong:
  assumes "bufs t = bufs s" "sleeplocks t = sleeplocks s" "disk_image t = disk_image s" "disk_writes t = disk_writes s"
    "calm t = calm s" "mycpu t = mycpu s"
  shows "bio_ok p t = bio_ok p s" "blk t = blk s" "nrefs t = nrefs s" "idle_bufs t = idle_bufs s" "disk t = disk s"
    "holder t = holder s"
proof -
  show h: "holder t = holder s" and d: "disk t = disk s" using assms by (simp_all add: holder_def [abs_def] disk_def)
  show b: "blk t = blk s" "nrefs t = nrefs s" using h d assms by (simp_all add: blk_def [abs_def] nrefs_def [abs_def] cong: option.case_cong if_cong)
  have "bcache_inv t = bcache_inv s" using h d assms by (simp add: bcache_inv_def)
  then show "bio_ok p t = bio_ok p s" using assms by (simp add: bio_ok_def)
  show "idle_bufs t = idle_bufs s" using b assms by (simp add: idle_bufs_def)
qed

lemma klog_lock_simps [simp]:
  "log_start (acquired l s) = log_start s"
  "log_size (acquired l s) = log_size s"
  "log_outstanding (acquired l s) = log_outstanding s"
  "log_committing (acquired l s) = log_committing s"
  "log_dev (acquired l s) = log_dev s"
  "lh_n (acquired l s) = lh_n s"
  "lh_block (acquired l s) = lh_block s"
  "unlocked l (s\<lparr>log_start := x_log_start\<rparr>) = unlocked l s" "calm (s\<lparr>log_start := x_log_start\<rparr>) = calm s" "mycpu (s\<lparr>log_start := x_log_start\<rparr>) = mycpu s"
  "unlocked l (s\<lparr>log_size := x_log_size\<rparr>) = unlocked l s" "calm (s\<lparr>log_size := x_log_size\<rparr>) = calm s" "mycpu (s\<lparr>log_size := x_log_size\<rparr>) = mycpu s"
  "unlocked l (s\<lparr>log_outstanding := x_log_outstanding\<rparr>) = unlocked l s" "calm (s\<lparr>log_outstanding := x_log_outstanding\<rparr>) = calm s" "mycpu (s\<lparr>log_outstanding := x_log_outstanding\<rparr>) = mycpu s"
  "unlocked l (s\<lparr>log_committing := x_log_committing\<rparr>) = unlocked l s" "calm (s\<lparr>log_committing := x_log_committing\<rparr>) = calm s" "mycpu (s\<lparr>log_committing := x_log_committing\<rparr>) = mycpu s"
  "unlocked l (s\<lparr>log_dev := x_log_dev\<rparr>) = unlocked l s" "calm (s\<lparr>log_dev := x_log_dev\<rparr>) = calm s" "mycpu (s\<lparr>log_dev := x_log_dev\<rparr>) = mycpu s"
  "unlocked l (s\<lparr>lh_n := x_lh_n\<rparr>) = unlocked l s" "calm (s\<lparr>lh_n := x_lh_n\<rparr>) = calm s" "mycpu (s\<lparr>lh_n := x_lh_n\<rparr>) = mycpu s"
  "unlocked l (s\<lparr>lh_block := x_lh_block\<rparr>) = unlocked l s" "calm (s\<lparr>lh_block := x_lh_block\<rparr>) = calm s" "mycpu (s\<lparr>lh_block := x_lh_block\<rparr>) = mycpu s"
  by (simp_all add: machine_defs calm_def)

lemma klog_lock_upd [step_eqs]:
  "(acquired l s)\<lparr>log_start := x_log_start\<rparr> = acquired l (s\<lparr>log_start := x_log_start\<rparr>)"
  "(acquired l s)\<lparr>log_size := x_log_size\<rparr> = acquired l (s\<lparr>log_size := x_log_size\<rparr>)"
  "(acquired l s)\<lparr>log_outstanding := x_log_outstanding\<rparr> = acquired l (s\<lparr>log_outstanding := x_log_outstanding\<rparr>)"
  "(acquired l s)\<lparr>log_committing := x_log_committing\<rparr> = acquired l (s\<lparr>log_committing := x_log_committing\<rparr>)"
  "(acquired l s)\<lparr>log_dev := x_log_dev\<rparr> = acquired l (s\<lparr>log_dev := x_log_dev\<rparr>)"
  "(acquired l s)\<lparr>lh_n := x_lh_n\<rparr> = acquired l (s\<lparr>lh_n := x_lh_n\<rparr>)"
  "(acquired l s)\<lparr>lh_block := x_lh_block\<rparr> = acquired l (s\<lparr>lh_block := x_lh_block\<rparr>)"
  by (simp_all add: machine_defs)

lemma klog_upd_simps [simp]:
  "bio_ok p (s\<lparr>lh_n := x\<rparr>) = bio_ok p s" "blk (s\<lparr>lh_n := x\<rparr>) = blk s" "nrefs (s\<lparr>lh_n := x\<rparr>) = nrefs s" "idle_bufs (s\<lparr>lh_n := x\<rparr>) = idle_bufs s"
  "disk (s\<lparr>lh_n := x\<rparr>) = disk s" "holder (s\<lparr>lh_n := x\<rparr>) = holder s"
  "bio_ok p (s\<lparr>lh_block := f\<rparr>) = bio_ok p s" "blk (s\<lparr>lh_block := f\<rparr>) = blk s" "nrefs (s\<lparr>lh_block := f\<rparr>) = nrefs s" "idle_bufs (s\<lparr>lh_block := f\<rparr>) = idle_bufs s"
  "disk (s\<lparr>lh_block := f\<rparr>) = disk s" "holder (s\<lparr>lh_block := f\<rparr>) = holder s"
  "bio_ok p (s\<lparr>log_outstanding := x\<rparr>) = bio_ok p s" "blk (s\<lparr>log_outstanding := x\<rparr>) = blk s" "nrefs (s\<lparr>log_outstanding := x\<rparr>) = nrefs s" "idle_bufs (s\<lparr>log_outstanding := x\<rparr>) = idle_bufs s"
  "disk (s\<lparr>log_outstanding := x\<rparr>) = disk s" "holder (s\<lparr>log_outstanding := x\<rparr>) = holder s"
  "bio_ok p (s\<lparr>log_committing := bb\<rparr>) = bio_ok p s" "blk (s\<lparr>log_committing := bb\<rparr>) = blk s" "nrefs (s\<lparr>log_committing := bb\<rparr>) = nrefs s" "idle_bufs (s\<lparr>log_committing := bb\<rparr>) = idle_bufs s"
  "disk (s\<lparr>log_committing := bb\<rparr>) = disk s" "holder (s\<lparr>log_committing := bb\<rparr>) = holder s"
  "bio_ok p (s\<lparr>log_start := x\<rparr>) = bio_ok p s" "blk (s\<lparr>log_start := x\<rparr>) = blk s" "nrefs (s\<lparr>log_start := x\<rparr>) = nrefs s" "idle_bufs (s\<lparr>log_start := x\<rparr>) = idle_bufs s"
  "disk (s\<lparr>log_start := x\<rparr>) = disk s" "holder (s\<lparr>log_start := x\<rparr>) = holder s"
  "bio_ok p (s\<lparr>log_size := x\<rparr>) = bio_ok p s" "blk (s\<lparr>log_size := x\<rparr>) = blk s" "nrefs (s\<lparr>log_size := x\<rparr>) = nrefs s" "idle_bufs (s\<lparr>log_size := x\<rparr>) = idle_bufs s"
  "disk (s\<lparr>log_size := x\<rparr>) = disk s" "holder (s\<lparr>log_size := x\<rparr>) = holder s"
  "bio_ok p (s\<lparr>log_dev := x\<rparr>) = bio_ok p s" "blk (s\<lparr>log_dev := x\<rparr>) = blk s" "nrefs (s\<lparr>log_dev := x\<rparr>) = nrefs s" "idle_bufs (s\<lparr>log_dev := x\<rparr>) = idle_bufs s"
  "disk (s\<lparr>log_dev := x\<rparr>) = disk s" "holder (s\<lparr>log_dev := x\<rparr>) = holder s"
  by (rule bio_views_cong; simp)+

lemma disk_after_map:
  "c \<notin> g ` {a..<n} \<Longrightarrow> disk_after D (rev (map (\<lambda>i. (g i, f i)) [a..<n])) c = D c"
  "inj_on g {a..<n} \<Longrightarrow> a \<le> i \<Longrightarrow> i < n \<Longrightarrow> disk_after D (rev (map (\<lambda>i. (g i, f i)) [a..<n])) (g i) = f i"
proof -
  show "disk_after D (rev (map (\<lambda>i. (g i, f i)) [a..<n])) c = D c" if "c \<notin> g ` {a..<n}"
    using that by (induction n) (auto simp: atLeastLessThanSuc split: if_splits)
  show "disk_after D (rev (map (\<lambda>i. (g i, f i)) [a..<n])) (g i) = f i" if "inj_on g {a..<n}" "a \<le> i" "i < n"
    using that
  proof (induction n)
    case (Suc n)
    show ?case
    proof (cases "i = n")
      case True
      then show ?thesis using Suc.prems by simp
    next
      case False
      then have "i < n" using Suc.prems by simp
      then have "g i \<noteq> g n" using inj_onD [OF Suc.prems(1), of i n] Suc.prems(2,3) by auto
      moreover have "inj_on g {a..<n}" using Suc.prems(1) by (rule inj_on_subset) auto
      ultimately show ?thesis using Suc.IH \<open>i < n\<close> Suc.prems(2) by simp
    qed
  qed simp
qed

definition header1 :: "'a klog_scheme \<Rightarrow> uchar list" where
  "header1 s = header (lh_n s) (lh_block s) (blk s (log_start s))"

definition home_ws :: "'a klog_scheme \<Rightarrow> nat \<Rightarrow> (uint \<times> uchar list) list" where
  "home_ws s k = rev (map (\<lambda>i. (lh_block s i, blk s (lh_block s i))) [0..<k])"

definition commit_ws :: "'a klog_scheme \<Rightarrow> (uint \<times> uchar list) list" where
  "commit_ws s = (log_start s, header 0 (lh_block s) (header1 s)) # home_ws s (nlog s) @
     (log_start s, header1 s) # log_ws (blk s) s 0"

lemma log_blk_inj: "log_wf s \<Longrightarrow> inj_on (log_blk s) {0..<nlog s}"
  by (rule inj_onI) (simp add: log_blk_neq log_wf_def)

lemma log_area_fresh:
  assumes "log_wf s"
  shows "log_start s \<notin> log_blk s ` {0..<nlog s}" "i < nlog s \<Longrightarrow> lh_block s i \<notin> log_blk s ` {0..<nlog s}"
    "i < nlog s \<Longrightarrow> k \<le> nlog s \<Longrightarrow> log_blk s i \<notin> lh_block s ` {0..<k}" "log_start s \<notin> lh_block s ` {0..<nlog s}"
proof -
  have n: "nlog s < LOGSIZE" using assms by (simp add: log_wf_def)
  show "log_start s \<notin> log_blk s ` {0..<nlog s}"
  proof
    assume "log_start s \<in> log_blk s ` {0..<nlog s}"
    then obtain i where i: "i < nlog s" "log_start s = log_blk s i" by auto
    then show False using log_blk_neq(2) [of i 0 s] n by simp
  qed
  show "lh_block s i \<notin> log_blk s ` {0..<nlog s}" if "i < nlog s"
  proof
    assume "lh_block s i \<in> log_blk s ` {0..<nlog s}"
    then obtain j where "j < nlog s" "lh_block s i = log_blk s j" by auto
    then show False using log_wfD(1) [OF assms that] by blast
  qed
  show "log_blk s i \<notin> lh_block s ` {0..<k}" if "i < nlog s" "k \<le> nlog s"
  proof
    assume "log_blk s i \<in> lh_block s ` {0..<k}"
    then obtain j where "j < k" "log_blk s i = lh_block s j" by auto
    then show False using log_wfD(2) [OF assms _ that(1), of j] that(2) by simp
  qed
  show "log_start s \<notin> lh_block s ` {0..<nlog s}"
  proof
    assume "log_start s \<in> lh_block s ` {0..<nlog s}"
    then obtain j where "j < nlog s" "log_start s = lh_block s j" by auto
    then show False using log_wfD(3) [OF assms, of j j] by simp
  qed
qed

lemma commit_spec:
  assumes ok: "bio_ok p s" "idle_bufs s" and wf: "log_wf s" and n: "0 < nlog s"
    and few: "card {c. nrefs s c \<noteq> 0} < NBUF" and pin: "\<forall>i < nlog s. nrefs s (lh_block s i) \<noteq> 0"
    and un: "\<forall>i < nlog s. nrefs s (log_blk s i) = 0"
  shows "\<exists>t. commit s = Ok () t \<and> bio_ok p t \<and> bio_frame (s\<lparr>lh_n := 0\<rparr>) t \<and> idle_bufs t \<and>
    disk_writes t = commit_ws s @ disk_writes s \<and> blk t = disk_after (blk s) (commit_ws s) \<and>
    nrefs t = (\<lambda>c. nrefs s c - (if c \<in> lh_block s ` {0..<nlog s} then 1 else 0))"
proof -
  let ?st = "log_start s"
  have w: "log_dev s = ROOTDEV" "nlog s < LOGSIZE" using wf by (auto simp: log_wf_def)
  obtain s1 where s1: "write_log s = Ok () s1" "bio_ok p s1" "bio_frame s s1" "idle_bufs s1" "nrefs s1 = nrefs s"
    "blk s1 = disk_after (blk s) (log_ws (blk s) s 0)" "disk_writes s1 = log_ws (blk s) s 0 @ disk_writes s"
    using write_log_loop_spec [OF ok wf few pin, of 0] unfolding write_log_def by auto
  note f1 = bio_frame_klog [OF s1(3)] klog_frame_views [OF s1(3)]
  have b1: "blk s1 ?st = blk s ?st" "\<And>i. i < nlog s \<Longrightarrow> blk s1 (log_blk s i) = blk s (lh_block s i)"
    unfolding s1(6) log_ws_def
    using disk_after_map(1) [OF log_area_fresh(1) [OF wf]] disk_after_map(2) [OF log_blk_inj [OF wf]] by auto
  have c1: "count (lh_n s1) \<le> LOGSIZE" "log_dev s1 = ROOTDEV" "card {c. nrefs s1 c \<noteq> 0} < NBUF"
    using w f1 few s1(5) by (simp_all add: nlog_def)
  have h1: "header (lh_n s1) (lh_block s1) (blk s1 (log_start s1)) = header1 s" using f1 b1(1) by (simp add: header1_def)
  obtain s2 where s2: "write_head s1 = Ok () s2" "copied p s1 ?st (header1 s) s2" "nrefs s2 = nrefs s1"
    using write_head_spec [OF s1(2,4) c1(2,1,3)] f1(1) h1 by auto
  then have c2: "bio_ok p s2" "bio_frame s1 s2" "idle_bufs s2" "blk s2 = (blk s1)(?st := header1 s)"
    "disk_writes s2 = (?st, header1 s) # disk_writes s1" by (auto simp: copied_def)
  note f2 = bio_frame_klog [OF c2(2)] klog_frame_views [OF c2(2)]
  have b2: "blk s2 (log_blk s i) = blk s (lh_block s i)" if "i < nlog s" for i
    using c2(4) b1(2) [OF that] log_blk_neq(2) [of i 0 s] that w(2) by simp
  have wf2: "log_wf s2" "card {c. nrefs s2 c \<noteq> 0} < NBUF" using wf f1 f2 few s2(3) s1(5) by simp_all
  have un2: "\<forall>i < nlog s2. nrefs s2 (log_blk s2 i) = 0"
    and pin2: "if False then \<forall>c. nrefs s2 c = 0 else \<forall>i < nlog s2. 0 \<le> i \<longrightarrow> nrefs s2 (lh_block s2 i) \<noteq> 0"
    using un pin f1 f2 s2(3) s1(5) by simp_all
  obtain s3 where s3: "install_trans False s2 = Ok () s3" "bio_ok p s3" "bio_frame s2 s3" "idle_bufs s3"
    "nrefs s3 = (\<lambda>c. nrefs s2 c - (if c \<in> lh_block s2 ` {0..<nlog s2} then 1 else 0))"
    "blk s3 = disk_after (blk s2) (inst_ws (blk s2) s2 0)" "disk_writes s3 = inst_ws (blk s2) s2 0 @ disk_writes s2"
    using install_loop_spec [OF c2(1,3) wf2 un2 pin2 le0] unfolding install_trans_def by blast
  have iw: "inst_ws (blk s2) s2 0 = home_ws s (nlog s)"
    using b2 by (auto simp: inst_ws_def home_ws_def f1 f2 intro!: map_cong)
  note f3 = bio_frame_klog [OF s3(3)] klog_frame_views [OF s3(3)]
  let ?s3 = "s3\<lparr>lh_n := 0\<rparr>"
  have st3: "log_start s3 = ?st" "lh_block s3 = lh_block s" "log_dev s3 = ROOTDEV" using f1 f2 f3 w(1) by simp_all
  have b3: "blk s3 ?st = header1 s"
    using disk_after_map(1) [OF log_area_fresh(4) [OF wf], of "blk s2" "\<lambda>i. blk s (lh_block s i)"] c2(4)
    unfolding s3(6) iw home_ws_def by simp
  have "{c. nrefs s3 c \<noteq> 0} \<subseteq> {c. nrefs s2 c \<noteq> 0}" unfolding s3(5) by auto
  then have "card {c. nrefs s3 c \<noteq> 0} \<le> card {c. nrefs s2 c \<noteq> 0}" by (intro card_mono) simp_all
  then have few3: "card {c. nrefs ?s3 c \<noteq> 0} < NBUF" using wf2(2) unfolding klog_upd_simps by linarith
  obtain t where t: "write_head ?s3 = Ok () t" "copied p ?s3 ?st (header 0 (lh_block s) (header1 s)) t" "nrefs t = nrefs s3"
    using write_head_spec [of p ?s3] s3(2,4) st3 b3 few3 by (auto simp: count_def)
  then have ct: "bio_ok p t" "bio_frame ?s3 t" "idle_bufs t" "blk t = (blk s3)(?st := header 0 (lh_block s) (header1 s))"
    "disk_writes t = (?st, header 0 (lh_block s) (header1 s)) # disk_writes s3" by (auto simp: copied_def)
  have run: "commit s = Ok () t"
    using n s1(1) s2(1) s3(1) t(1) by (simp add: commit_def nlog_def count_def)
  have fr: "bio_frame s s3" using bio_frame_trans [OF bio_frame_trans [OF s1(3) c2(2)] s3(3)] .
  have "bio_frame (s\<lparr>lh_n := 0\<rparr>) ?s3"
  proof -
    obtain bf sl dw pr where e: "s3 = s\<lparr>bufs := bf, sleeplocks := sl, disk_writes := dw, procs := pr\<rparr>"
      using fr unfolding bio_frame_def by blast
    have "?s3 = (s\<lparr>lh_n := 0\<rparr>)\<lparr>bufs := bf, sleeplocks := sl, disk_writes := dw, procs := pr\<rparr>" by (simp add: e)
    then show ?thesis
    proof (rule bio_frameI)
      have "mycpu (s\<lparr>lh_n := 0\<rparr>) = mycpu s" by (simp add: machine_defs)
      then show "procs_same (s\<lparr>lh_n := 0\<rparr>) ?s3" using fr by (simp add: bio_frame_def procs_same_def)
      show "sleeplocks ?s3 l = sleeplocks (s\<lparr>lh_n := 0\<rparr>) l" if "\<forall>b. l \<noteq> buf_lock b" for l
        using fr that by (simp add: bio_frame_def)
    qed
  qed
  then have "bio_frame (s\<lparr>lh_n := 0\<rparr>) t" using bio_frame_trans ct(2) by blast
  moreover have "disk_writes t = commit_ws s @ disk_writes s"
    using ct(5) s3(7) iw c2(5) s1(7) by (simp add: commit_ws_def)
  moreover have "blk t = disk_after (blk s) (commit_ws s)"
    using ct(4) s3(6) iw c2(4) s1(6) by (simp add: commit_ws_def disk_after_append)
  ultimately show ?thesis using run ct t(3) s3(5) s2(3) s1(5) f1 f2 by (intro exI [of _ t]) simp
qed

section \<open>Recovery\<close>

text \<open>
  What recovery makes of a disk \<open>D\<close> whose log starts at block \<open>st\<close>: the blocks that the header lists are
  copied from the log to their home locations.
\<close>

definition rec_n :: "uint \<Rightarrow> (uint \<Rightarrow> uchar list) \<Rightarrow> nat" where
  "rec_n st D = count (get32 (D st) 0)"

definition rec_home :: "uint \<Rightarrow> (uint \<Rightarrow> uchar list) \<Rightarrow> nat \<Rightarrow> uint" where
  "rec_home st D i = get32 (D st) (4 + 4 * i)"

definition recover_disk :: "uint \<Rightarrow> (uint \<Rightarrow> uchar list) \<Rightarrow> uint \<Rightarrow> uchar list" where
  "recover_disk st D =
     disk_after D (rev (map (\<lambda>i. (rec_home st D i, D (st + of_nat i + 1))) [0..<rec_n st D]))"

text \<open>The header on the disk is one that a commit has written.\<close>

definition log_disk_ok :: "uint \<Rightarrow> (uint \<Rightarrow> uchar list) \<Rightarrow> bool" where
  "log_disk_ok st D \<longleftrightarrow> length (D st) = BSIZE \<and> rec_n st D < LOGSIZE \<and> inj_on (rec_home st D) {..<rec_n st D} \<and>
     (\<forall>i < rec_n st D. rec_home st D i \<noteq> st \<and> (\<forall>j < rec_n st D. rec_home st D i \<noteq> st + of_nat j + 1))"

lemma log_disk_ok_empty: "get32 (D st) 0 = 0 \<Longrightarrow> length (D st) = BSIZE \<Longrightarrow> log_disk_ok st D"
  by (simp add: log_disk_ok_def rec_n_def count_def LOGSIZE_def MAXOPBLOCKS_def)

lemma recover_empty: "get32 (D st) 0 = 0 \<Longrightarrow> recover_disk st D = D"
  by (simp add: recover_disk_def rec_n_def count_def)

definition log_area :: "'a klog_scheme \<Rightarrow> uint set" where
  "log_area s = insert (log_start s) (log_blk s ` {0..<nlog s})"

lemma suffix_rev_map:
  assumes "rev (map f [0..<n]) = later @ don"
  shows "\<exists>k \<le> n. don = rev (map f [0..<k])"
proof -
  have "don = drop (length later) (rev (map f [0..<n]))" using assms by simp
  also have "\<dots> = rev (take (n - length later) (map f [0..<n]))" by (simp add: rev_drop drop_rev)
  also have "\<dots> = rev (map f [0..<n - length later])" by (simp add: take_map)
  finally show ?thesis by (intro exI [of _ "n - length later"]) simp
qed

text \<open>The disk after the first writes of a commit, and what recovery makes of it.\<close>

lemma crash_before_header:
  assumes wf: "log_wf s" and h0: "get32 (D (log_start s)) 0 = 0" and k: "k \<le> nlog s"
    and E: "E = disk_after D (rev (map (\<lambda>i. (log_blk s i, f i)) [0..<k]))" and len: "length (D (log_start s)) = BSIZE"
  shows "log_disk_ok (log_start s) E" "c \<notin> log_area s \<Longrightarrow> recover_disk (log_start s) E c = D c"
proof -
  have sub: "log_blk s ` {0..<k} \<subseteq> log_blk s ` {0..<nlog s}" using k by auto
  have "log_start s \<notin> log_blk s ` {0..<k}" using log_area_fresh(1) [OF wf] sub by blast
  then have es: "E (log_start s) = D (log_start s)" unfolding E by (rule disk_after_map(1))
  then show "log_disk_ok (log_start s) E" using h0 len by (intro log_disk_ok_empty) simp_all
  show "recover_disk (log_start s) E c = D c" if c: "c \<notin> log_area s"
  proof -
    have "recover_disk (log_start s) E = E" using h0 es by (intro recover_empty) simp
    moreover have "c \<notin> log_blk s ` {0..<k}" using c sub by (auto simp: log_area_def)
    then have "E c = D c" unfolding E by (rule disk_after_map(1))
    ultimately show ?thesis by simp
  qed
qed

lemma crash_after_header:
  assumes wf: "log_wf s" and k: "k \<le> nlog s"
    and H: "count (lh_n s) = nlog s" "get32 H 0 = lh_n s" "\<And>i. i < nlog s \<Longrightarrow> get32 H (4 + 4 * i) = lh_block s i"
    and D1: "D1 = disk_after D (log_ws (blk s) s 0)"
    and E: "E = disk_after (D1(log_start s := H)) (home_ws s k)"
    and cl: "\<And>c. c \<notin> lh_block s ` {0..<nlog s} \<Longrightarrow> D c = blk s c" and len: "length H = BSIZE"
  shows "log_disk_ok (log_start s) E" "c \<notin> log_area s \<Longrightarrow> recover_disk (log_start s) E c = blk s c"
proof -
  let ?st = "log_start s"
  have sub: "lh_block s ` {0..<k} \<subseteq> lh_block s ` {0..<nlog s}" using k by auto
  have "?st \<notin> lh_block s ` {0..<k}" using log_area_fresh(4) [OF wf] sub by blast
  then have Est: "E ?st = H" unfolding E home_ws_def by (subst disk_after_map(1)) auto
  have Elb: "E (log_blk s i) = blk s (lh_block s i)" if "i < nlog s" for i
  proof -
    have "log_blk s i \<notin> lh_block s ` {0..<k}" using log_area_fresh(3) [OF wf that k] .
    then have "E (log_blk s i) = (D1(?st := H)) (log_blk s i)" unfolding E home_ws_def by (rule disk_after_map(1))
    also have "\<dots> = D1 (log_blk s i)" using log_blk_neq(2) [of i 0 s] that wf by (simp add: log_wf_def)
    also have "\<dots> = blk s (lh_block s i)"
      unfolding D1 log_ws_def using disk_after_map(2) [OF log_blk_inj [OF wf]] that by simp
    finally show ?thesis .
  qed
  have n: "rec_n ?st E = nlog s" using Est H by (simp add: rec_n_def)
  have ws: "map (\<lambda>i. (rec_home ?st E i, E (?st + of_nat i + 1))) [0..<rec_n ?st E] =
      map (\<lambda>i. (lh_block s i, blk s (lh_block s i))) [0..<nlog s]"
    unfolding n using Est H(3) Elb by (auto simp: rec_home_def log_blk_def)
  have inj: "inj_on (lh_block s) {0..<nlog s}" using wf by (simp add: log_wf_def atLeast0LessThan)
  have rh: "rec_home ?st E i = lh_block s i" if "i < nlog s" for i using Est H(3) that by (simp add: rec_home_def)
  have "inj_on (rec_home ?st E) {..<nlog s}"
    using inj rh by (subst inj_on_cong [of _ _ "lh_block s"]) (auto simp: atLeast0LessThan)
  then show "log_disk_ok ?st E"
    unfolding log_disk_ok_def n using wf Est len rh log_wfD(1,3) [OF wf] by (simp add: log_wf_def log_blk_def)
  show "recover_disk ?st E c = blk s c" if c: "c \<notin> log_area s"
  proof (cases "c \<in> lh_block s ` {0..<nlog s}")
    case True
    then obtain i where i: "i < nlog s" "c = lh_block s i" by auto
    then show ?thesis unfolding recover_disk_def ws using disk_after_map(2) [OF inj] by simp
  next
    case False
    then have "recover_disk ?st E c = E c" unfolding recover_disk_def ws by (rule disk_after_map(1))
    also have "\<dots> = (D1(?st := H)) c" unfolding E home_ws_def by (rule disk_after_map(1)) (use False sub in blast)
    also have "\<dots> = D1 c" using c by (auto simp: log_area_def)
    also have "\<dots> = D c" unfolding D1 log_ws_def by (rule disk_after_map(1)) (use c in \<open>simp add: log_area_def\<close>)
    finally show ?thesis using cl [OF False] by simp
  qed
qed

section \<open>Adding a block to the transaction\<close>

lemma absorb_loop_eq:
  "absorb_loop n i f c = (case find (\<lambda>j. f j = c) [i..<i + n] of Some j \<Rightarrow> j | None \<Rightarrow> i + n)"
  by (induction n arbitrary: i) (simp_all add: upt_conv_Cons del: upt_Suc split: option.splits)

lemma bpin_nested:
  "calm s \<Longrightarrow> l \<noteq> bcache_lock \<Longrightarrow>
   bpin b (acquired l s) = Ok () (acquired l (upd_buf b (\<lambda>x. x\<lparr>b_refcnt := b_refcnt x + 1\<rparr>) s))"
  by (simp add: bpin_def acquire_eq release_acquired calm_simps)

lemma find_upt_None: "find P [0..<n] = None \<longleftrightarrow> (\<forall>j < n. \<not> P j)"
  by (auto simp: find_None_iff)

lemma find_upt_Some: "find P [0..<n] = Some j \<Longrightarrow> j < n \<and> P j"
  using find_Some_mem [of P "[0..<n]" j] by simp

text \<open>What \<open>log_write\<close> may change.\<close>

definition log_frame :: "'a klog_scheme \<Rightarrow> 'a klog_scheme \<Rightarrow> bool" where
  "log_frame s t \<longleftrightarrow> (\<exists>bf n bl. t = s\<lparr>bufs := bf, lh_n := n, lh_block := bl\<rparr>)"

lemma log_write_spec:
  fixes s :: "'a klog_scheme"
  assumes ok: "bio_ok p s" and h: "holder s c = Some b" "nrefs s c \<noteq> 0" "nrefs s c < 2 ^ 31"
    and room: "nlog s < LOGSIZE - 1" "0 \<le> sint (lh_n s)" "int (nlog s) < sint (log_size s - 1)" "1 \<le> sint (log_outstanding s)"
  shows "\<exists>t. log_write b s = Ok () t \<and> bio_ok p t \<and> blk t = blk s \<and> disk_writes t = disk_writes s \<and> disk t = disk s \<and>
    holder t = holder s \<and> sleeplocks t = sleeplocks s \<and> procs t = procs s \<and> mycpu t = mycpu s \<and>
    log_start t = log_start s \<and> log_dev t = log_dev s \<and> log_frame s t \<and> 0 \<le> sint (lh_n t) \<and> (\<forall>i. b_valid (bufs t i) = b_valid (bufs s i)) \<and>
    (if c \<in> lh_block s ` {..<nlog s}
     then nlog t = nlog s \<and> (\<forall>i < nlog s. lh_block t i = lh_block s i) \<and> nrefs t = nrefs s
     else nlog t = Suc (nlog s) \<and> lh_block t (nlog s) = c \<and> (\<forall>i < nlog s. lh_block t i = lh_block s i) \<and>
       nrefs t = (nrefs s)(c := Suc (nrefs s c)))"
proof -
  have cm: "calm s" "cpu_proc (mycpu s) = Some p" "bcache_inv s" using ok by (auto simp: bio_ok_def)
  have cb: "b_blockno (bufs s b) = c" using holder_iff [OF cm(3)] h(1) by (simp add: caches_def)
  have n: "sint (lh_n s) = int (nlog s)" using room(2) by (simp add: nlog_def count_def)
  have g: "\<not> (int LOGSIZE \<le> sint (lh_n s) \<or> sint (log_size s - 1) \<le> sint (lh_n s))" "\<not> sint (log_outstanding s) < 1"
    using room n by auto
  have cn: "count (lh_n s) = nlog s" by (simp add: nlog_def)
  show ?thesis
  proof (cases "find (\<lambda>j. lh_block s j = c) [0..<nlog s]")
    case (Some j)
    then have j: "j < nlog s" "lh_block s j = c" using find_upt_Some by blast+
    have same: "(lh_block s)(j := c) = lh_block s" using j(2) by auto
    have "log_write b s = Ok () (s\<lparr>lh_block := (lh_block s)(j := c)\<rparr>)"
      using g Some n j(1) cm(1)
      by (simp add: log_write_def calm_acquire calm_release klog_lock_upd absorb_loop_eq cn cb Let_def)
    then have "log_write b s = Ok () s" unfolding same by simp
    moreover have "c \<in> lh_block s ` {..<nlog s}" using j by auto
    moreover have "log_frame s s" unfolding log_frame_def by (rule exI [of _ "bufs s"], rule exI [of _ "lh_n s"], rule exI [of _ "lh_block s"]) simp
    ultimately show ?thesis using ok room(2) by auto
  next
    case None
    then have nin: "c \<notin> lh_block s ` {..<nlog s}" by (auto simp: find_upt_None)
    let ?u = "upd_buf b (\<lambda>x. x\<lparr>b_refcnt := b_refcnt x + 1\<rparr>) s"
    define t where "t = ?u\<lparr>lh_block := (lh_block s)(nlog s := c), lh_n := lh_n s + 1\<rparr>"
    have cu: "(upd_buf b f (s\<lparr>lh_block := g\<rparr>)) = (upd_buf b f s)\<lparr>lh_block := g\<rparr>" for f g by (simp add: upd_buf_def)
    have run: "log_write b s = Ok () t"
      using g None n cm(1)
      by (simp add: log_write_def calm_acquire calm_release klog_lock_upd absorb_loop_eq cn cb Let_def bpin_nested cu t_def)
         (simp add: upd_buf_def)
    have nr: "nrefs s c = unat (b_refcnt (bufs s b))" using h(1) by (simp add: nrefs_def)
    then have up: "unat (b_refcnt (bufs s b) + 1) = Suc (nrefs s c)" using h(3) by (simp add: unat_word_ariths)
    then have nz: "b_refcnt (bufs s b) + 1 \<noteq> 0" by auto
    note w = upd_held [OF ok h(1,2), where f = "\<lambda>x. x\<lparr>b_refcnt := b_refcnt x + 1\<rparr>", OF _ _ _ _ _ refl]
    have bu: "blk ?u = blk s" using w(9) nz h(1) by (simp add: blk_def fun_eq_iff)
    have nt: "nlog t = Suc (nlog s)" "0 \<le> sint (lh_n t)"
    proof -
      have "sint (lh_n s + 1) = sint (lh_n s) + 1"
        using room(1) n sint_add_small [of "lh_n s" 1] by (simp add: LOGSIZE_def MAXOPBLOCKS_def)
      moreover have "nlog t = nat (sint (lh_n s + 1))" by (simp add: t_def nlog_def count_def)
      moreover have "lh_n t = lh_n s + 1" by (simp add: t_def)
      ultimately show "nlog t = Suc (nlog s)" "0 \<le> sint (lh_n t)" unfolding n by simp_all
    qed
    have bt: "bio_ok p t" using w(1) nz by (simp add: t_def)
    have nrt: "nrefs t = (nrefs s)(c := Suc (nrefs s c))" using w(10) nz up by (simp add: t_def)
    have rest: "blk t = blk s" "disk_writes t = disk_writes s" "disk t = disk s" "holder t = holder s" "sleeplocks t = sleeplocks s"
      "procs t = procs s" "mycpu t = mycpu s" "log_start t = log_start s" "log_dev t = log_dev s" "\<forall>i. b_valid (bufs t i) = b_valid (bufs s i)"
      "\<forall>i < nlog s. lh_block t i = lh_block s i" "lh_block t (nlog s) = c"
      using bu w(3) nz by (simp_all add: t_def) (simp_all add: upd_buf_def)
    have "t = s\<lparr>bufs := bufs t, lh_n := lh_n t, lh_block := lh_block t\<rparr>" by (simp add: t_def upd_buf_def)
    then have "log_frame s t" unfolding log_frame_def by blast
    then show ?thesis using run nin nt bt nrt rest by (intro exI [of _ t]) simp
  qed
qed

section \<open>The disk during and after a commit\<close>

definition commit_pre :: "'a klog_scheme \<Rightarrow> bool" where
  "commit_pre s \<longleftrightarrow> log_wf s \<and> length (blk s (log_start s)) = BSIZE \<and> get32 (disk s (log_start s)) 0 = 0 \<and>
     (\<forall>c. c \<notin> lh_block s ` {0..<nlog s} \<longrightarrow> blk s c = disk s c)"

lemma commit_headers:
  assumes "commit_pre s"
  shows "length (header1 s) = BSIZE" "get32 (header1 s) 0 = lh_n s" "\<And>j. j < nlog s \<Longrightarrow> get32 (header1 s) (4 + 4 * j) = lh_block s j"
    "length (header 0 (lh_block s) (header1 s)) = BSIZE" "get32 (header 0 (lh_block s) (header1 s)) 0 = 0"
proof -
  have n: "count (lh_n s) \<le> LOGSIZE" "count (lh_n s) = nlog s" using assms by (auto simp: log_wf_def nlog_def commit_pre_def)
  have "length (blk s (log_start s)) = BSIZE" using assms by (simp add: commit_pre_def)
  note h1 = header_get [OF n(1) this, where f = "lh_block s", folded header1_def, unfolded n(2)]
  show "length (header1 s) = BSIZE" "get32 (header1 s) 0 = lh_n s" "\<And>j. j < nlog s \<Longrightarrow> get32 (header1 s) (4 + 4 * j) = lh_block s j"
    using h1 by simp_all
  show "length (header 0 (lh_block s) (header1 s)) = BSIZE" "get32 (header 0 (lh_block s) (header1 s)) 0 = 0"
    using header_get(1,2) [of 0 "header1 s"] h1(1) by (simp_all add: count_def)
qed

lemma commit_disk_eq:
  "disk_after D (commit_ws s) =
     (disk_after ((disk_after D (log_ws (blk s) s 0))(log_start s := header1 s)) (home_ws s (nlog s)))
       (log_start s := header 0 (lh_block s) (header1 s))"
  by (simp add: commit_ws_def disk_after_append)

lemma commit_final:
  assumes "commit_pre s" "c \<notin> log_area s"
  shows "disk_after (disk s) (commit_ws s) c = blk s c"
proof (cases "c \<in> lh_block s ` {0..<nlog s}")
  case True
  have inj: "inj_on (lh_block s) {0..<nlog s}" using assms(1) by (simp add: commit_pre_def log_wf_def atLeast0LessThan)
  from True obtain i where i: "i < nlog s" "c = lh_block s i" by auto
  then show ?thesis unfolding commit_disk_eq home_ws_def using disk_after_map(2) [OF inj] assms(2) by (auto simp: log_area_def)
next
  case False
  let ?D1 = "disk_after (disk s) (log_ws (blk s) s 0)"
  have "disk_after (?D1(log_start s := header1 s)) (home_ws s (nlog s)) c = (?D1(log_start s := header1 s)) c"
    using False unfolding home_ws_def by (rule disk_after_map(1))
  also have "\<dots> = ?D1 c" using assms(2) by (auto simp: log_area_def)
  also have "\<dots> = disk s c" unfolding log_ws_def by (rule disk_after_map(1)) (use assms(2) in \<open>simp add: log_area_def\<close>)
  finally show ?thesis unfolding commit_disk_eq using assms False by (auto simp: log_area_def commit_pre_def)
qed

lemma commit_prefixes:
  assumes pre: "commit_pre s" and d: "commit_ws s = later @ don"
  shows "log_disk_ok (log_start s) (disk_after (disk s) don) \<and>
    ((\<forall>c. c \<notin> log_area s \<longrightarrow> recover_disk (log_start s) (disk_after (disk s) don) c = disk s c) \<or>
     (\<forall>c. c \<notin> log_area s \<longrightarrow> recover_disk (log_start s) (disk_after (disk s) don) c = blk s c))"
proof -
  let ?st = "log_start s"
  have wf: "log_wf s" and e: "get32 (disk s ?st) 0 = 0" and n: "count (lh_n s) = nlog s"
    using pre by (auto simp: commit_pre_def nlog_def)
  have cl: "disk s c = blk s c" if "c \<notin> lh_block s ` {0..<nlog s}" for c using pre that by (simp add: commit_pre_def)
  have len: "length (disk s ?st) = BSIZE" using pre cl log_area_fresh(4) [OF wf] by (auto simp: commit_pre_def)
  note h = commit_headers [OF pre]
  note after = crash_after_header [OF wf _ n h(2,3) refl refl cl h(1)]
  consider "don = commit_ws s"
    | l d' where "home_ws s (nlog s) = l @ d'" "don = d' @ (?st, header1 s) # log_ws (blk s) s 0"
    | l where "log_ws (blk s) s 0 = l @ don"
    using d unfolding commit_ws_def
    by (auto simp: Cons_eq_append_conv append_eq_append_conv2)
  then show ?thesis
  proof cases
    case 1
    have "recover_disk ?st (disk_after (disk s) (commit_ws s)) = disk_after (disk s) (commit_ws s)"
      by (rule recover_empty) (simp add: commit_disk_eq h)
    moreover have "log_disk_ok ?st (disk_after (disk s) (commit_ws s))"
      by (rule log_disk_ok_empty) (simp_all add: commit_disk_eq h)
    ultimately show ?thesis using commit_final [OF pre] 1 by simp
  next
    case (2 l d')
    then obtain k where k: "k \<le> nlog s" "d' = home_ws s k" using suffix_rev_map unfolding home_ws_def by blast
    have "disk_after (disk s) don = disk_after ((disk_after (disk s) (log_ws (blk s) s 0))(?st := header1 s)) (home_ws s k)"
      by (simp add: 2(2) k(2) disk_after_append)
    then show ?thesis using after [OF k(1)] by simp
  next
    case (3 l)
    then obtain k where k: "k \<le> nlog s" "don = rev (map (\<lambda>i. (log_blk s i, blk s (lh_block s i))) [0..<k])"
      using suffix_rev_map unfolding log_ws_def by blast
    then show ?thesis using crash_before_header [of s "disk s", OF wf e k(1) refl len] by simp
  qed
qed

end
