(* ===== verification/Log_Tx.thy ===== *)
theory Log_Tx
  imports Log_Crash
begin

text \<open>
  Transactions as the file system sees them: between \<open>begin_op\<close> and \<open>end_op\<close> a process reads blocks
  with \<open>bread\<close>, changes them with \<open>log_write\<close> and lets them go with \<open>brelse\<close>. The predicate \<open>tx\<close> holds of the
  states in between; each of the three calls keeps it, with a known effect on the contents of the blocks and no
  write to the disk.
\<close>

section \<open>The state inside a transaction\<close>

text \<open>The blocks of the transaction.\<close>

definition logged :: "'a klog_scheme \<Rightarrow> uint set" where
  "logged s = lh_block s ` {..<nlog s}"

text \<open>Process \<open>p\<close> holds the buffers of the blocks \<open>H\<close>, and may still take \<open>n\<close> buffers or log \<open>n\<close> blocks.\<close>

definition tx :: "nat \<Rightarrow> nat \<Rightarrow> uint set \<Rightarrow> 'a klog_scheme \<Rightarrow> bool" where
  "tx p n H s \<longleftrightarrow> bio_ok p s \<and> log_dev s = ROOTDEV \<and> 0 \<le> sint (lh_n s) \<and> 1 \<le> sint (log_outstanding s) \<and>
     finite H \<and> nlog s + card H + n < NBUF \<and> int (nlog s + card H + n) < sint (log_size s - 1) \<and>
     inj_on (lh_block s) {..<nlog s} \<and>
     (\<forall>c. nrefs s c = of_bool (c \<in> logged s) + of_bool (c \<in> H)) \<and>
     (\<forall>c \<in> H. \<exists>b. holder s c = Some b \<and> held p s b \<and> b_valid (bufs s b)) \<and>
     (\<forall>b < NBUF. sl_locked (sleeplocks s (buf_lock b)) \<longrightarrow> (\<exists>c \<in> H. holder s c = Some b)) \<and>
     (\<forall>c. c \<notin> logged s \<longrightarrow> blk s c = disk s c)"

definition tx_frame :: "'a klog_scheme \<Rightarrow> 'a klog_scheme \<Rightarrow> bool" where
  "tx_frame s t \<longleftrightarrow>
     (\<exists>bf sl pr n bl. t = s\<lparr>bufs := bf, sleeplocks := sl, procs := pr, lh_n := n, lh_block := bl\<rparr>) \<and>
     procs_same s t \<and> (\<forall>l. (\<forall>b. l \<noteq> buf_lock b) \<longrightarrow> sleeplocks t l = sleeplocks s l) \<and> logged s \<subseteq> logged t"

lemma tx_frameI:
  assumes "t = s\<lparr>bufs := bf, sleeplocks := sl, procs := pr, lh_n := n, lh_block := bl\<rparr>" "procs_same s t"
    "\<And>l. \<forall>b. l \<noteq> buf_lock b \<Longrightarrow> sleeplocks t l = sleeplocks s l" "logged s \<subseteq> logged t"
  shows "tx_frame s t"
  unfolding tx_frame_def using assms by blast

lemma tx_frame_refl [simp]: "tx_frame s s"
  by (rule tx_frameI [where bf = "bufs s" and sl = "sleeplocks s" and pr = "procs s" and n = "lh_n s" and bl = "lh_block s"]) simp_all

lemma tx_frame_mycpu: "tx_frame s t \<Longrightarrow> mycpu t = mycpu s"
  by (auto simp: tx_frame_def machine_defs)

lemma tx_frame_trans [trans]:
  fixes s t u :: "'a klog_scheme"
  assumes "tx_frame s t" "tx_frame t u"
  shows "tx_frame s u"
proof -
  obtain bf sl pr n bl bf' sl' pr' n' bl' where
    "t = s\<lparr>bufs := bf, sleeplocks := sl, procs := pr, lh_n := n, lh_block := bl\<rparr>"
    "u = t\<lparr>bufs := bf', sleeplocks := sl', procs := pr', lh_n := n', lh_block := bl'\<rparr>"
    using assms unfolding tx_frame_def by blast
  then have "u = s\<lparr>bufs := bf', sleeplocks := sl', procs := pr', lh_n := n', lh_block := bl'\<rparr>" by simp
  moreover have "procs_same s u"
    using assms procs_same_trans [of s t u] tx_frame_mycpu [OF assms(1)] unfolding tx_frame_def by blast
  ultimately show ?thesis using assms by (intro tx_frameI) (auto simp: tx_frame_def)
qed

lemma tx_frame_views:
  assumes "tx_frame s t"
  shows "disk_writes t = disk_writes s" "disk_image t = disk_image s" "disk t = disk s" "log_dev t = log_dev s"
    "log_start t = log_start s" "log_size t = log_size s" "log_outstanding t = log_outstanding s" "log_committing t = log_committing s"
  using assms by (auto simp: tx_frame_def disk_def)

lemma bio_frame_tx:
  fixes s t :: "'a klog_scheme"
  assumes "bio_frame s t" "disk_writes t = disk_writes s"
  shows "tx_frame s t" "logged t = logged s"
proof -
  obtain bf sl dw pr where e: "t = s\<lparr>bufs := bf, sleeplocks := sl, disk_writes := dw, procs := pr\<rparr>"
    using assms(1) unfolding bio_frame_def by blast
  show l: "logged t = logged s" using bio_frame_klog [OF assms(1)] klog_frame_views [OF assms(1)] by (simp add: logged_def)
  have "t = s\<lparr>bufs := bufs t, sleeplocks := sleeplocks t, procs := procs t, lh_n := lh_n t, lh_block := lh_block t\<rparr>"
    using assms(2) by (simp add: e)
  then show "tx_frame s t" using assms(1) l by (intro tx_frameI) (auto simp: bio_frame_def)
qed

lemma tx_weaken: "tx p n H s \<Longrightarrow> m \<le> n \<Longrightarrow> tx p m H s"
  by (auto simp: tx_def)

lemma card_logged: "card (logged s) \<le> nlog s"
  using card_image_le [of "{..<nlog s}" "lh_block s"] by (simp add: logged_def)

lemma tx_few:
  assumes "tx p n H s"
  shows "card {c. nrefs s c \<noteq> 0} + n < NBUF"
proof -
  have "{c. nrefs s c \<noteq> 0} = logged s \<union> H" using assms by (auto simp: tx_def)
  then show ?thesis using card_Un_le [of "logged s" H] card_logged [of s] assms by (simp add: tx_def)
qed

section \<open>The three calls\<close>

lemma tx_bread:
  fixes s :: "'a klog_scheme"
  assumes tx: "tx p (Suc n) H s" and c: "c \<notin> H"
  shows "\<exists>b u. bread ROOTDEV c s = Ok b u \<and> holder u c = Some b \<and> b_data (bufs u b) = blk s c \<and> tx p n (insert c H) u \<and>
    blk u = blk s \<and> tx_frame s u \<and> logged u = logged s \<and> (\<forall>c' \<in> H. holder u c' = holder s c')"
proof -
  note T = tx [unfolded tx_def]
  have ok: "bio_ok p s" using T by blast
  have lk: "\<forall>b. holder s c = Some b \<longrightarrow> \<not> sl_locked (sleeplocks s (buf_lock b))"
  proof (intro allI impI notI)
    fix b assume b: "holder s c = Some b" "sl_locked (sleeplocks s (buf_lock b))"
    then obtain c' where "c' \<in> H" "holder s c' = Some b" using T holder_lt [OF ok b(1)] by blast
    then show False using holder_neq [OF ok b(1), of c' b] c by auto
  qed
  have "\<exists>b < NBUF. b_refcnt (bufs s b) = 0" using free_buffer [of s] ok tx_few [OF tx] by (auto simp: bio_ok_def)
  moreover have "nrefs s c < 2 ^ 32 - 1" using T by simp
  ultimately obtain b u where u: "bread ROOTDEV c s = Ok b u" "bread_post p s c b u" using bread_spec [OF ok lk] by blast
  then have up: "bio_ok p u" "bio_frame s u" "holder u c = Some b" "held p u b" "b_valid (bufs u b)" "blk u = blk s"
    "nrefs u = (nrefs s)(c := Suc (nrefs s c))" "disk_writes u = disk_writes s"
    "\<And>b'. b' \<noteq> b \<Longrightarrow> sleeplocks u (buf_lock b') = sleeplocks s (buf_lock b') \<and> bufs u b' = bufs s b'"
    "\<And>c'. c' \<noteq> c \<Longrightarrow> nrefs s c' \<noteq> 0 \<Longrightarrow> holder u c' = holder s c'" by (auto simp: bread_post_def)
  note f = bio_frame_tx [OF up(2,8)] bio_frame_klog [OF up(2)] klog_frame_views [OF up(2)] tx_frame_views [OF bio_frame_tx(1) [OF up(2,8)]]
  have hs: "holder u c' = holder s c'" if "c' \<in> H" for c' using up(10) [of c'] that c T by auto
  have "\<exists>b. holder u c' = Some b \<and> held p u b \<and> b_valid (bufs u b)" if c': "c' \<in> insert c H" for c'
  proof (cases "c' = c")
    case True
    then show ?thesis using up by blast
  next
    case False
    then have "c' \<in> H" using c' by simp
    then obtain b' where b': "holder s c' = Some b'" "held p s b'" "b_valid (bufs s b')" using T by blast
    have "b' \<noteq> b" using holder_neq [OF up(1) up(3), of c' b'] hs [OF \<open>c' \<in> H\<close>] b'(1) False by auto
    then show ?thesis
      using b' hs [OF \<open>c' \<in> H\<close>] up(9) held_frame [OF up(2) _ _ b'(2)] ok by (simp add: bio_ok_def)
  qed
  moreover have "\<exists>c' \<in> insert c H. holder u c' = Some b'" if "b' < NBUF" "sl_locked (sleeplocks u (buf_lock b'))" for b'
  proof (cases "b' = b")
    case False
    then have "sl_locked (sleeplocks s (buf_lock b'))" using up(9) that by simp
    then show ?thesis using T that(1) hs by fastforce
  qed (use up(3) in blast)
  ultimately have "tx p n (insert c H) u"
    unfolding tx_def using T up(1,6,7) c f by (simp add: f)
  then show ?thesis using u(1) up(3,5,6) f(1,2) hs by (auto simp: data_of)
qed

lemma tx_log_exact:
  fixes s :: "'a klog_scheme"
  assumes tx: "tx p n H s" and c: "c \<in> H" "holder s c = Some b" and room: "c \<in> logged s \<or> n = Suc m" and m: "c \<in> logged s \<Longrightarrow> m = n"
  shows "\<exists>t. log_write b (set_data b d s) = Ok () t \<and> tx p m H t \<and> blk t = (blk s)(c := d) \<and> holder t = holder s \<and>
    logged t = insert c (logged s) \<and> tx_frame s t"
proof -
  have "0 < card H" using tx c(1) by (auto simp: tx_def card_gt_0_iff)
  note T = tx [unfolded tx_def]
  define u where "u = set_data b d s"
  have ok: "bio_ok p s" and n0: "nrefs s c \<noteq> 0" and val: "b_valid (bufs s b)" using T c by auto
  have rc: "unat (b_refcnt (bufs s b)) = nrefs s c" using c(2) by (simp add: nrefs_def)
  then have rn: "b_refcnt (bufs s b) \<noteq> 0" using n0 by auto
  note w = upd_held [OF ok c(2) n0, where f = "\<lambda>x. x\<lparr>b_data := d\<rparr>", OF _ _ _ _ _ u_def [unfolded set_data_def]]
  have u: "bio_ok p u" "holder u = holder s" "sleeplocks u = sleeplocks s" "procs u = procs s" "disk u = disk s"
    "blk u = (blk s)(c := d)" "nrefs u = nrefs s" "disk_writes u = disk_writes s" "mycpu u = mycpu s"
    using w rn val rc by (auto simp: fun_eq_iff u_def set_data_def)
  have k: "lh_n u = lh_n s" "lh_block u = lh_block s" "nlog u = nlog s" "log_size u = log_size s" "logged u = logged s"
    "log_outstanding u = log_outstanding s" "log_dev u = log_dev s" "log_start u = log_start s"
    "\<And>i. b_valid (bufs u i) = b_valid (bufs s i)"
    by (simp_all add: u_def set_data_def upd_buf_def nlog_def logged_def)
  have pre: "nlog u < LOGSIZE - 1" "int (nlog u) < sint (log_size u - 1)" "nrefs u c < 2 ^ 31"
    using T k u \<open>0 < card H\<close> by (auto simp: NBUF_def LOGSIZE_def MAXOPBLOCKS_def)
  have "1 \<le> sint (log_outstanding u)" "0 \<le> sint (lh_n u)" "holder u c = Some b" "nrefs u c \<noteq> 0" using T c u k n0 by auto
  from log_write_spec [OF u(1) this(3,4) pre(3,1) this(2) pre(2) this(1)]
  obtain t where t: "log_write b u = Ok () t" "bio_ok p t" "blk t = blk u" "disk_writes t = disk_writes u" "disk t = disk u"
    "holder t = holder u" "sleeplocks t = sleeplocks u" "procs t = procs u" "mycpu t = mycpu u"
    "log_dev t = log_dev u" "log_frame u t" "0 \<le> sint (lh_n t)" "\<forall>i. b_valid (bufs t i) = b_valid (bufs u i)"
    and nt: "if c \<in> lh_block u ` {..<nlog u}
     then nlog t = nlog u \<and> (\<forall>i < nlog u. lh_block t i = lh_block u i) \<and> nrefs t = nrefs u
     else nlog t = Suc (nlog u) \<and> lh_block t (nlog u) = c \<and> (\<forall>i < nlog u. lh_block t i = lh_block u i) \<and>
       nrefs t = (nrefs u)(c := Suc (nrefs u c))" by blast
  have lt: "logged t = insert c (logged s) \<and> nlog t + m \<le> nlog s + n \<and> inj_on (lh_block t) {..<nlog t} \<and>
      (\<forall>c. nrefs t c = of_bool (c \<in> logged t) + of_bool (c \<in> H))"
  proof (cases "c \<in> logged s")
    case True
    then have isin: "c \<in> lh_block u ` {..<nlog u}" by (simp add: logged_def k)
    have e: "nlog t = nlog s" "\<forall>i < nlog s. lh_block t i = lh_block s i" "nrefs t = nrefs s" using nt isin k u(7) by auto
    have "logged t = logged s" using e by (simp add: logged_def)
    moreover have "inj_on (lh_block t) {..<nlog t}" using T e by (simp add: inj_on_def)
    ultimately show ?thesis using True T e m by auto
  next
    case False
    then have nin: "c \<notin> lh_block u ` {..<nlog u}" by (simp add: logged_def k)
    have e: "nlog t = Suc (nlog s)" "lh_block t (nlog s) = c" "\<forall>i < nlog s. lh_block t i = lh_block s i"
      "nrefs t = (nrefs s)(c := Suc (nrefs s c))" using nt nin k u(7) by (simp_all split: if_splits)
    have l: "logged t = insert c (logged s)" using e by (auto simp: logged_def lessThan_Suc)
    moreover have "inj_on (lh_block t) {..<nlog t}"
    proof -
      have "inj_on (lh_block s) {..<nlog s}" using T by blast
      then have "inj_on (lh_block t) {..<nlog s}" using e(3) by (simp add: inj_on_def)
      moreover have "lh_block t (nlog s) \<notin> lh_block t ` {..<nlog s}" using e(2,3) False by (auto simp: logged_def)
      ultimately show ?thesis by (simp add: e(1) lessThan_Suc)
    qed
    ultimately show ?thesis using T e c False room by auto
  qed
  obtain bf m' bl where f: "t = u\<lparr>bufs := bf, lh_n := m', lh_block := bl\<rparr>" using t(11) unfolding log_frame_def by blast
  have "t = s\<lparr>bufs := bufs t, sleeplocks := sleeplocks t, procs := procs t, lh_n := lh_n t, lh_block := lh_block t\<rparr>"
    by (simp add: f u_def set_data_def upd_buf_def)
  then have fr: "tx_frame s t" by (rule tx_frameI) (use t(7,8) u lt in \<open>auto simp: procs_same_def\<close>)
  have "held p t = held p s" using t(7,8) u by (simp add: held_def [abs_def])
  then have "tx p m H t"
    unfolding tx_def using T t u k lt tx_frame_views [OF fr] by auto
  then show ?thesis using t u lt fr by (auto simp: u_def)
qed

lemma tx_log:
  fixes s :: "'a klog_scheme"
  assumes "tx p (Suc n) H s" "c \<in> H" "holder s c = Some b"
  shows "\<exists>t. log_write b (set_data b d s) = Ok () t \<and> tx p n H t \<and> blk t = (blk s)(c := d) \<and> holder t = holder s \<and>
    logged t = insert c (logged s) \<and> tx_frame s t"
proof (cases "c \<in> logged s")
  case True
  then show ?thesis using tx_log_exact [OF assms(1-3), of "Suc n" d] tx_weaken [of p "Suc n" H _ n] by auto
next
  case False
  then show ?thesis using tx_log_exact [OF assms(1-3), of n d] by auto
qed

lemma tx_brelse:
  fixes s :: "'a klog_scheme"
  assumes tx: "tx p n H s" and c: "c \<in> H" "holder s c = Some b"
  shows "\<exists>t. brelse b s = Ok () t \<and> tx p (Suc n) (H - {c}) t \<and> blk t = blk s \<and> holder t = holder s \<and>
    logged t = logged s \<and> tx_frame s t"
proof -
  note T = tx [unfolded tx_def]
  have ok: "bio_ok p s" "nrefs s c \<noteq> 0" "b_valid (bufs s b)" "held p s b" using T c by auto
  have cl: "nrefs s c = 1 \<longrightarrow> blk s c = disk s c" using T c by auto
  obtain t where t: "brelse b s = Ok () t" "bio_ok p t" "bio_frame s t" "holder t = holder s" "blk t = blk s"
    "nrefs t = (nrefs s)(c := nrefs s c - 1)" "disk_writes t = disk_writes s" "\<not> sl_locked (sleeplocks t (buf_lock b))"
    "\<forall>l. l \<noteq> buf_lock b \<longrightarrow> sleeplocks t l = sleeplocks s l" "\<forall>i. b_valid (bufs t i) = b_valid (bufs s i)"
    using brelse_spec [OF ok(1) c(2) ok(4,2,3) cl] by blast
  note f = bio_frame_tx [OF t(3,7)] bio_frame_klog [OF t(3)] klog_frame_views [OF t(3)] tx_frame_views [OF bio_frame_tx(1) [OF t(3,7)]]
  have "\<exists>b'. holder t c' = Some b' \<and> held p t b' \<and> b_valid (bufs t b')" if c': "c' \<in> H - {c}" for c'
  proof -
    obtain b' where b': "holder s c' = Some b'" "held p s b'" "b_valid (bufs s b')" using T c' by blast
    have "b' \<noteq> b" using holder_neq [OF ok(1) b'(1) c(2)] c' by auto
    then have "held p t b'" using t(9) held_frame [OF t(3) _ _ b'(2)] ok(1) by (simp add: bio_ok_def)
    then show ?thesis using b' t by simp
  qed
  moreover have "\<exists>c' \<in> H - {c}. holder t c' = Some b'" if lk: "b' < NBUF" "sl_locked (sleeplocks t (buf_lock b'))" for b'
  proof -
    have "b' \<noteq> b" using t(8) lk by auto
    then have "sl_locked (sleeplocks s (buf_lock b'))" using t(9) lk by simp
    then obtain c' where "c' \<in> H" "holder s c' = Some b'" using T lk(1) by blast
    then show ?thesis using \<open>b' \<noteq> b\<close> c t(4) by auto
  qed
  moreover have "0 < card H" using T c(1) by (auto simp: card_gt_0_iff)
  ultimately have "tx p (Suc n) (H - {c}) t"
    unfolding tx_def using T t(2,4,5,6) c f by (simp add: f)
  then show ?thesis using t(1,4,5) f(1,2) by blast
qed

section \<open>The interface of the file system\<close>

text \<open>
  A store of blocks: \<open>rd\<close> takes the handle of a block, \<open>wr\<close> gives the block of a handle new contents, \<open>rel\<close>
  gives the handle back. The invariant \<open>ok n H\<close> counts the handles that may still be taken and names the blocks held; the
  blocks \<open>W\<close> may be written, any number of times.
\<close>

locale block_store =
  fixes rd :: "'c \<Rightarrow> 's \<Rightarrow> ('h, 's) res" and wr :: "'h \<Rightarrow> 'v \<Rightarrow> 's \<Rightarrow> (unit, 's) res" and rel :: "'h \<Rightarrow> 's \<Rightarrow> (unit, 's) res"
    and ok :: "nat \<Rightarrow> 'c set \<Rightarrow> 's \<Rightarrow> bool" and W :: "'c set" and val :: "'s \<Rightarrow> 'c \<Rightarrow> 'v" and handle :: "'s \<Rightarrow> 'c \<Rightarrow> 'h option"
    and got :: "'s \<Rightarrow> 'h \<Rightarrow> 'v" and frame :: "'s \<Rightarrow> 's \<Rightarrow> bool"
  assumes rd: "ok (Suc n) H s \<Longrightarrow> c \<notin> H \<Longrightarrow> \<exists>b u. rd c s = Ok b u \<and> handle u c = Some b \<and> got u b = val s c \<and>
      ok n (insert c H) u \<and> val u = val s \<and> frame s u \<and> (\<forall>c' \<in> H. handle u c' = handle s c')"
    and wr: "ok n H s \<Longrightarrow> c \<in> H \<Longrightarrow> c \<in> W \<Longrightarrow> handle s c = Some b \<Longrightarrow> \<exists>u. wr b d s = Ok () u \<and> ok n H u \<and>
      val u = (val s)(c := d) \<and> handle u = handle s \<and> frame s u"
    and rel: "ok n H s \<Longrightarrow> c \<in> H \<Longrightarrow> handle s c = Some b \<Longrightarrow> \<exists>u. rel b s = Ok () u \<and> ok (Suc n) (H - {c}) u \<and>
      val u = val s \<and> handle u = handle s \<and> frame s u"
    and frame_trans: "frame s u \<Longrightarrow> frame u v \<Longrightarrow> frame s v"
begin

lemma peek:
  assumes "ok (Suc n) H s" "c \<notin> H"
  shows "\<exists>b u t. rd c s = Ok b u \<and> got u b = val s c \<and> val u = val s \<and> frame s u \<and>
    rel b u = Ok () t \<and> ok (Suc n) H t \<and> val t = val s \<and> frame s t \<and> (\<forall>c' \<in> H. handle t c' = handle s c')"
proof -
  obtain b u where u: "rd c s = Ok b u" "handle u c = Some b" "got u b = val s c" "ok n (insert c H) u" "val u = val s"
    "frame s u" "\<forall>c' \<in> H. handle u c' = handle s c'" using rd [OF assms] by blast
  then obtain t where t: "rel b u = Ok () t" "ok (Suc n) (insert c H - {c}) t" "val t = val u" "handle t = handle u" "frame u t"
    using rel [OF u(4) _ u(2)] by blast
  have "insert c H - {c} = H" using assms(2) by auto
  then show ?thesis using u t frame_trans [OF u(6) t(5)] by auto
qed

lemma update:
  assumes "ok (Suc n) H s" "c \<notin> H" "c \<in> W"
  shows "\<exists>b u v t. rd c s = Ok b u \<and> got u b = val s c \<and> val u = val s \<and> frame s u \<and> wr b d u = Ok () v \<and> frame s v \<and>
    rel b v = Ok () t \<and> ok (Suc n) H t \<and> val t = (val s)(c := d) \<and> frame s t \<and> (\<forall>c' \<in> H. handle t c' = handle s c')"
proof -
  obtain b u where u: "rd c s = Ok b u" "handle u c = Some b" "got u b = val s c" "ok n (insert c H) u" "val u = val s"
    "frame s u" "\<forall>c' \<in> H. handle u c' = handle s c'" using rd [OF assms(1,2)] by blast
  then obtain v where v: "wr b d u = Ok () v" "ok n (insert c H) v" "val v = (val u)(c := d)" "handle v = handle u" "frame u v"
    using wr [OF u(4) _ assms(3) u(2)] by blast
  then obtain t where t: "rel b v = Ok () t" "ok (Suc n) (insert c H - {c}) t" "val t = val v" "handle t = handle v" "frame v t"
    using rel [OF v(2), of c b] u(2) by auto
  have "insert c H - {c} = H" using assms(2) by auto
  then show ?thesis using u v t frame_trans [OF frame_trans [OF u(6) v(5)] t(5)] frame_trans [OF u(6) v(5)] by auto
qed

end

text \<open>
  The store that a transaction gives to the file system: \<open>W\<close> are the blocks that it has in the log or has room for in the log.
\<close>

definition txw :: "nat \<Rightarrow> uint set \<Rightarrow> nat \<Rightarrow> uint set \<Rightarrow> 'a klog_scheme \<Rightarrow> bool" where
  "txw p W n H s \<longleftrightarrow> finite W \<and> logged s \<subseteq> W \<and> tx p (card (W - logged s) + n) H s"

interpretation txs: block_store "bread ROOTDEV" "\<lambda>b d s. log_write b (set_data b d s)" brelse "txw p W" W blk holder
    "\<lambda>s b. b_data (bufs s b)" tx_frame
  for p W
proof unfold_locales
  fix n H c d b and s :: "'a klog_scheme"
  show "txw p W (Suc n) H s \<Longrightarrow> c \<notin> H \<Longrightarrow> \<exists>b u. bread ROOTDEV c s = Ok b u \<and> holder u c = Some b \<and> b_data (bufs u b) = blk s c \<and>
      txw p W n (insert c H) u \<and> blk u = blk s \<and> tx_frame s u \<and> (\<forall>c' \<in> H. holder u c' = holder s c')"
    using tx_bread [of p "card (W - logged s) + n" H s c] by (auto simp: txw_def)
  show "\<exists>u. log_write b (set_data b d s) = Ok () u \<and> txw p W n H u \<and> blk u = (blk s)(c := d) \<and> holder u = holder s \<and> tx_frame s u"
    if w: "txw p W n H s" "c \<in> H" "c \<in> W" "holder s c = Some b"
  proof (cases "c \<in> logged s")
    case True
    then have "insert c (logged s) = logged s" by auto
    then show ?thesis using tx_log_exact [of p "card (W - logged s) + n" H s c b "card (W - logged s) + n" d] w True
      by (auto simp: txw_def)
  next
    case False
    have "W - logged s = insert c (W - insert c (logged s))" using w(3) False by auto
    moreover have "finite (W - insert c (logged s))" "c \<notin> W - insert c (logged s)" using w(1) by (auto simp: txw_def)
    ultimately have "card (W - logged s) = Suc (card (W - insert c (logged s)))" by (metis card_insert_disjoint)
    then show ?thesis using tx_log_exact [of p "card (W - logged s) + n" H s c b "card (W - insert c (logged s)) + n" d] w False
      by (auto simp: txw_def)
  qed
  show "txw p W n H s \<Longrightarrow> c \<in> H \<Longrightarrow> holder s c = Some b \<Longrightarrow> \<exists>u. brelse b s = Ok () u \<and> txw p W (Suc n) (H - {c}) u \<and>
      blk u = blk s \<and> holder u = holder s \<and> tx_frame s u"
    using tx_brelse [of p "card (W - logged s) + n" H s c b] by (auto simp: txw_def)
qed (rule tx_frame_trans)

end
