(* ===== verification/Log_Op.thy ===== *)
theory Log_Op
  imports Log_Tx
begin

text \<open>
  Whole transactions: from the idle log through \<open>begin_op\<close> to the state of a transaction, and through
  \<open>end_op\<close> back to the idle log; the recovery at boot; and the properties of the log.
\<close>

section \<open>Between transactions\<close>

definition log_region :: "'a klog_scheme \<Rightarrow> uint set" where
  "log_region s = insert (log_start s) (log_blk s ` {..<min LOGSIZE (count (log_size s - 1))})"

text \<open>No transaction is open, no buffer is in use, the log on the disk is empty; a transaction may log \<open>n\<close> blocks.\<close>

definition log_idle :: "nat \<Rightarrow> nat \<Rightarrow> 'a klog_scheme \<Rightarrow> bool" where
  "log_idle p n s \<longleftrightarrow> bio_ok p s \<and> (\<forall>b < NBUF. \<not> sl_locked (sleeplocks s (buf_lock b))) \<and> (\<forall>c. nrefs s c = 0) \<and>
     log_dev s = ROOTDEV \<and> lh_n s = 0 \<and> log_outstanding s = 0 \<and> \<not> log_committing s \<and>
     n < NBUF \<and> int n < sint (log_size s - 1) \<and>
     length (disk s (log_start s)) = BSIZE \<and> get32 (disk s (log_start s)) 0 = 0"

definition op_frame :: "'a klog_scheme \<Rightarrow> 'a klog_scheme \<Rightarrow> bool" where
  "op_frame s t \<longleftrightarrow>
     (\<exists>bf sl dw pr n bl out com. t = s\<lparr>bufs := bf, sleeplocks := sl, disk_writes := dw, procs := pr, lh_n := n, lh_block := bl,
        log_outstanding := out, log_committing := com\<rparr>) \<and>
     procs_same s t \<and> (\<forall>l. (\<forall>b. l \<noteq> buf_lock b) \<longrightarrow> sleeplocks t l = sleeplocks s l)"

lemma op_frameI:
  assumes "t = s\<lparr>bufs := bf, sleeplocks := sl, disk_writes := dw, procs := pr, lh_n := n, lh_block := bl,
        log_outstanding := out, log_committing := com\<rparr>" "procs_same s t"
    "\<And>l. \<forall>b. l \<noteq> buf_lock b \<Longrightarrow> sleeplocks t l = sleeplocks s l"
  shows "op_frame s t"
  unfolding op_frame_def using assms by blast

lemma op_frame_mycpu: "op_frame s t \<Longrightarrow> mycpu t = mycpu s"
  by (auto simp: op_frame_def machine_defs)

lemma op_frame_trans [trans]:
  fixes s t u :: "'a klog_scheme"
  assumes "op_frame s t" "op_frame t u"
  shows "op_frame s u"
proof -
  obtain bf sl dw pr n bl out com bf' sl' dw' pr' n' bl' out' com' where
    "t = s\<lparr>bufs := bf, sleeplocks := sl, disk_writes := dw, procs := pr, lh_n := n, lh_block := bl,
        log_outstanding := out, log_committing := com\<rparr>"
    "u = t\<lparr>bufs := bf', sleeplocks := sl', disk_writes := dw', procs := pr', lh_n := n', lh_block := bl',
        log_outstanding := out', log_committing := com'\<rparr>"
    using assms unfolding op_frame_def by blast
  then have "u = s\<lparr>bufs := bf', sleeplocks := sl', disk_writes := dw', procs := pr', lh_n := n', lh_block := bl',
        log_outstanding := out', log_committing := com'\<rparr>" by simp
  moreover have "procs_same s u"
    using assms procs_same_trans [of s t u] op_frame_mycpu [OF assms(1)] unfolding op_frame_def by blast
  ultimately show ?thesis by (rule op_frameI) (use assms in \<open>auto simp: op_frame_def\<close>)
qed

lemma tx_op_frame:
  fixes s t :: "'a klog_scheme"
  assumes "tx_frame s t"
  shows "op_frame s t"
proof -
  obtain bf sl pr n bl where "t = s\<lparr>bufs := bf, sleeplocks := sl, procs := pr, lh_n := n, lh_block := bl\<rparr>"
    using assms unfolding tx_frame_def by blast
  then have "t = s\<lparr>bufs := bufs t, sleeplocks := sleeplocks t, disk_writes := disk_writes t, procs := procs t, lh_n := lh_n t,
      lh_block := lh_block t, log_outstanding := log_outstanding t, log_committing := log_committing t\<rparr>" by simp
  then show ?thesis by (rule op_frameI) (use assms in \<open>auto simp: tx_frame_def\<close>)
qed

lemma bio_op_frame:
  fixes s t :: "'a klog_scheme"
  assumes "bio_frame s t"
  shows "op_frame s t"
proof -
  obtain bf sl dw pr where "t = s\<lparr>bufs := bf, sleeplocks := sl, disk_writes := dw, procs := pr\<rparr>"
    using assms unfolding bio_frame_def by blast
  then have "t = s\<lparr>bufs := bufs t, sleeplocks := sleeplocks t, disk_writes := disk_writes t, procs := procs t, lh_n := lh_n t,
      lh_block := lh_block t, log_outstanding := log_outstanding t, log_committing := log_committing t\<rparr>" by simp
  then show ?thesis by (rule op_frameI) (use assms in \<open>auto simp: bio_frame_def\<close>)
qed

lemma begin_op_spec:
  assumes "log_idle p n s"
  shows "begin_op s = Ok () (s\<lparr>log_outstanding := 1\<rparr>)" "tx p n {} (s\<lparr>log_outstanding := 1\<rparr>)"
    "op_frame s (s\<lparr>log_outstanding := 1\<rparr>)" "logged (s\<lparr>log_outstanding := 1\<rparr>) = {}"
proof -
  have c: "calm s" "bcache_inv s" "lh_n s = 0" "log_outstanding s = 0" "\<not> log_committing s" "nlog s = 0"
    "\<And>c. nrefs s c = 0"
    using assms by (auto simp: log_idle_def bio_ok_def nlog_def count_def)
  show "begin_op s = Ok () (s\<lparr>log_outstanding := 1\<rparr>)"
    using c by (simp add: begin_op_def begin_op_loop.simps calm_acquire klog_lock_upd calm_release LOGSIZE_def MAXOPBLOCKS_def)
  have cl: "blk s c = disk s c" for c using unref_clean [OF c(2)] c(7) by blast
  have n1: "nlog (s\<lparr>log_outstanding := 1\<rparr>) = 0" using c(3) by (simp add: nlog_def count_def)
  show "tx p n {} (s\<lparr>log_outstanding := 1\<rparr>)" using assms cl n1
    by (simp add: tx_def log_idle_def logged_def)
  show "logged (s\<lparr>log_outstanding := 1\<rparr>) = {}" using n1 by (simp add: logged_def)
  show "op_frame s (s\<lparr>log_outstanding := 1\<rparr>)"
    by (rule op_frameI [where bf = "bufs s" and sl = "sleeplocks s" and dw = "disk_writes s" and pr = "procs s" and n = "lh_n s"
          and bl = "lh_block s" and out = 1 and com = "log_committing s"]) (simp_all add: procs_same_def)
qed

lemma tx_commit:
  fixes s :: "'a klog_scheme"
  assumes tx: "tx p n {} s" and l: "logged s \<inter> log_region s = {}" and h: "length (disk s (log_start s)) = BSIZE" "get32 (disk s (log_start s)) 0 = 0"
  shows "commit_pre s" "idle_bufs s" "card {c. nrefs s c \<noteq> 0} < NBUF" "\<forall>i < nlog s. nrefs s (lh_block s i) \<noteq> 0"
    "\<forall>i < nlog s. nrefs s (log_blk s i) = 0"
proof -
  note T = tx [unfolded tx_def]
  have n: "nlog s < LOGSIZE" using T by (simp add: NBUF_def LOGSIZE_def MAXOPBLOCKS_def)
  have reg: "lh_block s i \<notin> log_region s" if "i < nlog s" for i using l that by (auto simp: logged_def)
  have lb: "log_blk s j \<in> log_region s" if "j < nlog s" for j using that n T by (auto simp: log_region_def count_def)
  have wf: "log_wf s"
    unfolding log_wf_def
  proof (intro conjI allI impI)
    show "lh_block s i \<noteq> log_start s" if "i < nlog s" for i using reg [OF that] by (auto simp: log_region_def)
    show "lh_block s i \<noteq> log_blk s j" if "i < nlog s" "j < nlog s" for i j using reg [OF that(1)] lb [OF that(2)] by metis
  qed (use T n in auto)
  have st: "log_start s \<notin> logged s" using l by (auto simp: log_region_def)
  then have "length (blk s (log_start s)) = BSIZE" using T h(1) by simp
  then show "commit_pre s" using T wf h by (simp add: commit_pre_def logged_def atLeast0LessThan)
  show "idle_bufs s" using T by (auto simp: idle_bufs_def)
  show "card {c. nrefs s c \<noteq> 0} < NBUF" using tx_few [OF tx] by simp
  show "\<forall>i < nlog s. nrefs s (lh_block s i) \<noteq> 0" using T by (auto simp: logged_def)
  show "\<forall>i < nlog s. nrefs s (log_blk s i) = 0" using T l lb by auto
qed

definition commit_ready :: "nat \<Rightarrow> 'a klog_scheme \<Rightarrow> bool" where
  "commit_ready p s \<longleftrightarrow> bio_ok p s \<and> commit_pre s \<and> idle_bufs s \<and> (\<forall>c. nrefs s c = of_bool (c \<in> logged s)) \<and>
     (\<forall>i < nlog s. nrefs s (log_blk s i) = 0) \<and> 0 \<le> sint (lh_n s)"

lemma commit_ready_upd [simp]:
  "commit_ready p (s\<lparr>log_outstanding := out\<rparr>) = commit_ready p s" "commit_ready p (s\<lparr>log_committing := com\<rparr>) = commit_ready p s"
  by (simp_all add: commit_ready_def commit_pre_def log_wf_def nlog_def log_blk_def logged_def)

lemma log_area_region: "nlog s < LOGSIZE \<Longrightarrow> int (nlog s) < sint (log_size s - 1) \<Longrightarrow> log_area s \<subseteq> log_region s"
  by (auto simp: log_area_def log_region_def count_def)

lemma commit_run:
  fixes s :: "'a klog_scheme"
  assumes r: "commit_ready p s"
  shows "\<exists>t. commit s = Ok () t \<and> bio_ok p t \<and> idle_bufs t \<and> (\<forall>c. nrefs t c = 0) \<and> lh_n t = 0 \<and>
    (\<forall>c. c \<notin> log_area s \<longrightarrow> disk t c = blk s c) \<and> length (disk t (log_start s)) = BSIZE \<and> get32 (disk t (log_start s)) 0 = 0 \<and>
    bio_frame (s\<lparr>lh_n := 0\<rparr>) t \<and> disk_writes t = (if nlog s = 0 then [] else commit_ws s) @ disk_writes s"
proof (cases "nlog s = 0")
  case True
  note R = r [unfolded commit_ready_def commit_pre_def]
  have "sint (lh_n s) = sint (0 :: int32)" using True R by (simp add: nlog_def count_def)
  then have n0: "lh_n s = 0" by (metis signed_word_eqI)
  have "disk s c = blk s c" for c using R True by simp
  moreover have "s\<lparr>lh_n := 0\<rparr> = s" using n0 by (cases s) simp
  then have "bio_frame (s\<lparr>lh_n := 0\<rparr>) s" by (simp only: bio_frame_refl)
  ultimately show ?thesis using R True n0 by (intro exI [of _ s]) (auto simp: commit_def logged_def)
next
  case False
  note R = r [unfolded commit_ready_def]
  have wf: "log_wf s" using R by (simp add: commit_pre_def)
  have "{c. nrefs s c \<noteq> 0} = logged s" using R by auto
  then have few: "card {c. nrefs s c \<noteq> 0} < NBUF" using card_logged [of s] wf by (simp add: log_wf_def NBUF_def LOGSIZE_def MAXOPBLOCKS_def)
  have pin: "\<forall>i < nlog s. nrefs s (lh_block s i) \<noteq> 0" using R by (auto simp: logged_def)
  obtain t where t: "commit s = Ok () t" "bio_ok p t" "bio_frame (s\<lparr>lh_n := 0\<rparr>) t" "idle_bufs t"
    "disk_writes t = commit_ws s @ disk_writes s" "blk t = disk_after (blk s) (commit_ws s)"
    "nrefs t = (\<lambda>c. nrefs s c - (if c \<in> lh_block s ` {0..<nlog s} then 1 else 0))"
    using commit_spec [of p s] R wf few pin False by auto
  have fr: "disk t = disk_after (disk s) (commit_ws s)" using disk_frame [OF t(3)] t(5) by simp
  have "\<forall>c. nrefs t c = 0" unfolding t(7) using R by (simp add: logged_def atLeast0LessThan)
  moreover have "lh_n t = 0" using bio_frame_klog(4) [OF t(3)] by simp
  moreover have "length (disk t (log_start s)) = BSIZE" "get32 (disk t (log_start s)) 0 = 0"
    unfolding fr commit_disk_eq using commit_headers(4,5) [of s] R by simp_all
  moreover have "\<forall>c. c \<notin> log_area s \<longrightarrow> disk t c = blk s c" unfolding fr using commit_final [of s] R by blast
  ultimately show ?thesis using t False by (intro exI [of _ t]) simp
qed

lemma wake_views [simp]:
  fixes s :: "'a klog_scheme"
  shows "bio_ok p (wake chn s) = bio_ok p s" "blk (wake chn s) = blk s" "nrefs (wake chn s) = nrefs s"
    "idle_bufs (wake chn s) = idle_bufs s" "disk (wake chn s) = disk s" "holder (wake chn s) = holder s"
  by (rule bio_views_cong; simp add: wake_def)+

lemma tx_ready:
  assumes "tx p n {} s" "logged s \<inter> log_region s = {}" "length (disk s (log_start s)) = BSIZE" "get32 (disk s (log_start s)) 0 = 0"
  shows "commit_ready p s"
  using tx_commit [OF assms] assms(1) by (simp add: commit_ready_def tx_def)

lemma disk_after_cases: "disk_after D ws c = D c \<or> (\<exists>d. (c, d) \<in> set ws \<and> disk_after D ws c = d)"
  by (induction ws) auto

lemma commit_sizes:
  assumes "commit_pre s" "\<forall>c. length (blk s c) = BSIZE" "\<forall>c. c \<notin> log_area s \<longrightarrow> disk_after (disk s) (commit_ws s) c = blk s c"
  shows "length (disk_after (disk s) (commit_ws s) c) = BSIZE"
proof (cases "c \<in> log_area s")
  case True
  have "c \<notin> lh_block s ` {0..<nlog s}" using True assms(1) by (auto simp: log_area_def commit_pre_def log_wf_def)
  then have "length (disk s c) = BSIZE" using assms(1,2) by (metis commit_pre_def)
  moreover have "length d = BSIZE" if "(c, d) \<in> set (commit_ws s)" for d
    using that assms(2) commit_headers(1,4) [OF assms(1)] by (auto simp: commit_ws_def home_ws_def log_ws_def)
  ultimately show ?thesis using disk_after_cases [of "disk s" "commit_ws s" c] by auto
qed (use assms in simp)

lemma end_op_spec:
  fixes s :: "'a klog_scheme"
  assumes tx: "tx p n {} s" and l: "logged s \<inter> log_region s = {}" and h: "length (disk s (log_start s)) = BSIZE" "get32 (disk s (log_start s)) 0 = 0"
    and o: "log_outstanding s = 1" "\<not> log_committing s" and m: "m < NBUF" "int m < sint (log_size s - 1)"
  shows "\<exists>t. end_op s = Ok () t \<and> log_idle p m t \<and> op_frame s t \<and> (\<forall>c. c \<notin> log_region s \<longrightarrow> disk t c = blk s c \<and> blk t c = blk s c) \<and>
    ((\<forall>c. length (blk s c) = BSIZE) \<longrightarrow> (\<forall>c. length (blk t c) = BSIZE))"
proof -
  define s' where "s' = s\<lparr>log_outstanding := 0, log_committing := True\<rparr>"
  have cm: "calm s" "log_dev s = ROOTDEV" using tx by (simp_all add: tx_def bio_ok_def)
  have r: "commit_ready p s'" using tx_ready [OF tx l h] by (simp add: s'_def)
  obtain t where t: "commit s' = Ok () t" "bio_ok p t" "idle_bufs t" "\<forall>c. nrefs t c = 0" "lh_n t = 0"
    "\<forall>c. c \<notin> log_area s' \<longrightarrow> disk t c = blk s' c" "length (disk t (log_start s')) = BSIZE" "get32 (disk t (log_start s')) 0 = 0"
    "bio_frame (s'\<lparr>lh_n := 0\<rparr>) t" "disk_writes t = (if nlog s' = 0 then [] else commit_ws s') @ disk_writes s'" using commit_run [OF r] by blast
  note f = bio_frame_klog [OF t(9)]
  define u where "u = wake ChanLog (t\<lparr>log_committing := False\<rparr>)"
  have ct: "calm t" "calm s'" "calm u" using t(2) cm(1) by (simp_all add: bio_ok_def s'_def u_def)
  have "end_op s = Ok () u"
    using cm(1) o t(1) ct
    by (simp add: end_op_def calm_acquire klog_lock_upd calm_release calm_wakeup Let_def s'_def [symmetric] u_def [symmetric])
  moreover have "log_idle p m u"
    using t f m o cm(2) by (simp add: log_idle_def u_def s'_def idle_bufs_def) (simp add: wake_def)
  moreover have "op_frame s u"
  proof -
    have "op_frame s (s'\<lparr>lh_n := 0\<rparr>)"
      by (rule op_frameI [where bf = "bufs s" and sl = "sleeplocks s" and dw = "disk_writes s" and pr = "procs s" and n = 0
          and bl = "lh_block s" and out = 0 and com = True]) (simp_all add: procs_same_def s'_def)
    also have "op_frame (s'\<lparr>lh_n := 0\<rparr>) t" using bio_op_frame [OF t(9)] .
    also have "op_frame t u"
      by (rule op_frameI [where bf = "bufs t" and sl = "sleeplocks t" and dw = "disk_writes t" and pr = "procs u" and n = "lh_n t"
          and bl = "lh_block t" and out = "log_outstanding t" and com = False])
         (simp_all add: procs_same_def u_def wake_def, auto simp: woken_def)
    finally show ?thesis .
  qed
  moreover have "disk u c = blk s c \<and> blk u c = blk s c" if "c \<notin> log_region s" for c
  proof -
    have "log_region s' = log_region s" by (simp add: s'_def log_region_def log_blk_def)
    moreover have "nlog s' < LOGSIZE" using r by (simp add: commit_ready_def commit_pre_def log_wf_def)
    moreover have "int (nlog s') < sint (log_size s' - 1)" using tx by (simp add: tx_def s'_def nlog_def)
    ultimately have "disk t c = blk s' c" using t(6) log_area_region [of s'] that by blast
    moreover have "blk t c = disk t c" using unref_clean [of t c] t(2,4) by (simp add: bio_ok_def)
    ultimately show ?thesis by (simp add: u_def s'_def)
  qed
  moreover have "length (blk u c) = BSIZE" if sz: "\<forall>c. length (blk s c) = BSIZE" for c
  proof -
    have bs: "blk s' = blk s" by (simp add: s'_def)
    have "disk t = disk_after (disk s') (if nlog s' = 0 then [] else commit_ws s')" using disk_frame [OF t(9)] t(10) by simp
    then have "length (disk t c) = BSIZE"
      using commit_sizes [of s' c] r t(6) sz bs unfolding commit_ready_def by (cases "nlog s' = 0") (simp_all add: commit_pre_def)
    moreover have "blk t c = disk t c" using unref_clean [of t c] t(2,4) by (simp add: bio_ok_def)
    ultimately show ?thesis by (simp add: u_def)
  qed
  ultimately show ?thesis by blast
qed

section \<open>Recovery at boot\<close>

definition boot_log :: "nat \<Rightarrow> 'a klog_scheme \<Rightarrow> bool" where
  "boot_log p s \<longleftrightarrow> bio_ok p s \<and> idle_bufs s \<and> (\<forall>c. nrefs s c = 0) \<and> log_dev s = ROOTDEV"

lemma read_head_loop_eq:
  "i + n \<le> LOGSIZE \<Longrightarrow> \<exists>f. read_head_loop n i data s = Ok () (s\<lparr>lh_block := f\<rparr>) \<and>
     (\<forall>j. f j = (if i \<le> j \<and> j < i + n then get32 data (4 + 4 * j) else lh_block s j))"
proof (induction n arbitrary: i s)
  case 0
  have "s = s\<lparr>lh_block := lh_block s\<rparr>" by simp
  then show ?case by (intro exI [of _ "lh_block s"]) auto
next
  case (Suc n)
  let ?s = "s\<lparr>lh_block := (lh_block s)(i := get32 data (4 + 4 * i))\<rparr>"
  obtain f where f: "read_head_loop n (Suc i) data ?s = Ok () (?s\<lparr>lh_block := f\<rparr>)"
    "\<forall>j. f j = (if Suc i \<le> j \<and> j < Suc i + n then get32 data (4 + 4 * j) else lh_block ?s j)"
    using Suc.IH [of "Suc i" ?s] Suc.prems by auto
  have "read_head_loop (Suc n) i data s = Ok () (s\<lparr>lh_block := f\<rparr>)" using f(1) Suc.prems by simp
  moreover have "f j = (if i \<le> j \<and> j < i + Suc n then get32 data (4 + 4 * j) else lh_block s j)" for j
    using f(2) [rule_format, of j] by auto
  ultimately show ?case by blast
qed

lemma boot_bread:
  fixes s :: "'a klog_scheme"
  assumes "boot_log p s"
  shows "\<exists>b u. bread ROOTDEV c s = Ok b u \<and> bread_post p s c b u"
proof -
  have s: "bio_ok p s" "idle_bufs s" "\<forall>c. nrefs s c = 0" using assms by (auto simp: boot_log_def)
  have "\<forall>b. holder s c = Some b \<longrightarrow> \<not> sl_locked (sleeplocks s (buf_lock b))"
    using s(2) holder_lt [OF s(1)] by (auto simp: idle_bufs_def)
  moreover have "\<exists>b < NBUF. b_refcnt (bufs s b) = 0" using free_buffer [of s] s by (simp add: bio_ok_def NBUF_def)
  ultimately show ?thesis using bread_spec [OF s(1)] s(3) by simp
qed

lemma read_head_spec:
  fixes s :: "'a klog_scheme"
  assumes b: "boot_log p s" and d: "log_disk_ok (log_start s) (disk s)"
  shows "\<exists>t. read_head s = Ok () t \<and> boot_log p t \<and> blk t = blk s \<and> disk_writes t = disk_writes s \<and> nlog t = rec_n (log_start s) (disk s) \<and>
    (\<forall>i < nlog t. lh_block t i = rec_home (log_start s) (disk s) i) \<and> op_frame s t"
proof -
  have s: "bio_ok p s" "idle_bufs s" "\<And>c. nrefs s c = 0" "log_dev s = ROOTDEV" using b by (auto simp: boot_log_def)
  let ?x = "log_start s" let ?h = "disk s ?x"
  have cl: "blk s c = disk s c" for c using unref_clean [of s c] s(1,3) by (simp add: bio_ok_def)
  obtain b u where u: "bread ROOTDEV ?x s = Ok b u" "bread_post p s ?x b u" using boot_bread [OF b] by blast
  then have up: "bio_ok p u" "bio_frame s u" "holder u ?x = Some b" "held p u b" "b_valid (bufs u b)" "blk u = blk s"
    "nrefs u = (nrefs s)(?x := Suc (nrefs s ?x))" "disk_writes u = disk_writes s"
    "\<And>b'. b' \<noteq> b \<Longrightarrow> sleeplocks u (buf_lock b') = sleeplocks s (buf_lock b')"
    by (auto simp: bread_post_def)
  have dt: "b_data (bufs u b) = ?h" using data_of [OF up(3,5)] up(6) cl by simp
  have n: "count (get32 ?h 0) \<le> LOGSIZE" using d by (simp add: log_disk_ok_def rec_n_def)
  let ?u = "u\<lparr>lh_n := get32 ?h 0\<rparr>"
  obtain f where f: "read_head_loop (count (get32 ?h 0)) 0 ?h ?u = Ok () (?u\<lparr>lh_block := f\<rparr>)"
    "\<forall>j. f j = (if j < count (get32 ?h 0) then get32 ?h (4 + 4 * j) else lh_block ?u j)"
    using read_head_loop_eq [of 0 "count (get32 ?h 0)" ?h ?u] n by auto
  define v where "v = ?u\<lparr>lh_block := f\<rparr>"
  have v: "bio_ok p v" "holder v ?x = Some b" "held p v b" "nrefs v = nrefs u" "b_valid (bufs v b)" "blk v = blk u" "disk v = disk u"
    "sleeplocks v = sleeplocks u" "disk_writes v = disk_writes u"
    using up by (simp_all add: v_def held_def)
  have du: "disk u = disk s" using disk_frame [OF up(2)] up(8) by (simp add: disk_def)
  obtain t where t: "brelse b v = Ok () t" "bio_ok p t" "bio_frame v t" "holder t = holder v" "blk t = blk v"
    "nrefs t = (nrefs v)(?x := nrefs v ?x - 1)" "disk_writes t = disk_writes v" "\<not> sl_locked (sleeplocks t (buf_lock b))"
    "\<forall>l. l \<noteq> buf_lock b \<longrightarrow> sleeplocks t l = sleeplocks v l"
    using brelse_spec [OF v(1,2,3) _ v(5)] v up(6,7) cl du by auto
  have run: "read_head s = Ok () t"
    using u(1) s(4) f(1) t(1) dt by (simp add: read_head_def Let_def v_def)
  have nt: "nrefs t c = 0" for c using t(6) v(4) up(7) s(3) by simp
  have "\<not> sl_locked (sleeplocks t (buf_lock i))" if "i < NBUF" for i
    using that t(8,9) v(8) up(9) s(2) by (cases "i = b") (simp_all add: idle_bufs_def)
  then have id: "idle_bufs t" using nt by (simp add: idle_bufs_def)
  note k = bio_frame_klog [OF t(3)] bio_frame_klog [OF up(2)]
  have bt: "boot_log p t" using t(2) id nt k s(4) by (simp add: boot_log_def v_def)
  have "op_frame u v"
    by (rule op_frameI [where bf = "bufs u" and sl = "sleeplocks u" and dw = "disk_writes u" and pr = "procs u" and n = "get32 ?h 0"
          and bl = f and out = "log_outstanding u" and com = "log_committing u"]) (simp_all add: procs_same_def v_def)
  then have "op_frame s t"
    using op_frame_trans [OF op_frame_trans [OF bio_op_frame [OF up(2)]] bio_op_frame [OF t(3)]] by blast
  moreover have "nlog t = rec_n ?x (disk s)" using k by (simp add: nlog_def v_def rec_n_def)
  moreover have "lh_block t i = rec_home ?x (disk s) i" if "i < nlog t" for i
    using that k f(2) by (simp add: nlog_def v_def rec_home_def)
  ultimately show ?thesis using run bt t(5,7) v(6,9) up(6,8) by (intro exI [of _ t]) simp
qed

lemma recover_spec:
  fixes s :: "'a klog_scheme"
  assumes b: "boot_log p s" and d: "log_disk_ok (log_start s) (disk s)"
  shows "\<exists>t. recover_from_log s = Ok () t \<and> boot_log p t \<and> lh_n t = 0 \<and> op_frame s t \<and>
    (\<forall>c. c \<noteq> log_start s \<longrightarrow> disk t c = recover_disk (log_start s) (disk s) c) \<and>
    length (disk t (log_start s)) = BSIZE \<and> get32 (disk t (log_start s)) 0 = 0"
proof -
  let ?x = "log_start s" let ?D = "disk s"
  obtain u where u: "read_head s = Ok () u" "boot_log p u" "blk u = blk s" "disk_writes u = disk_writes s" "nlog u = rec_n ?x ?D"
    "\<forall>i < nlog u. lh_block u i = rec_home ?x ?D i" "op_frame s u" using read_head_spec [OF assms] by blast
  have su: "log_start u = ?x" "disk u = ?D" using u(4,7) by (auto simp: op_frame_def disk_def)
  have U: "bio_ok p u" "idle_bufs u" "\<And>c. nrefs u c = 0" "log_dev u = ROOTDEV" using u(2) by (auto simp: boot_log_def)
  have cl: "blk u = ?D" using unref_clean [of u] U(1,3) su(2) by (auto simp: bio_ok_def)
  have wf: "log_wf u"
  proof -
    have "inj_on (lh_block u) {..<nlog u}" using d u(5,6) by (subst inj_on_cong [of _ _ "rec_home ?x ?D"]) (auto simp: log_disk_ok_def)
    then show ?thesis using d u(5,6) U(4) su by (simp add: log_wf_def log_disk_ok_def log_blk_def)
  qed
  obtain v where v: "install_loop 0 True u = Ok () v" "bio_ok p v" "bio_frame u v" "idle_bufs v" "\<And>c. nrefs v c = 0"
    "disk_writes v = inst_ws ?D u 0 @ disk_writes u"
    using install_loop_spec [OF U(1,2) wf, of True 0] U(3) cl by (auto simp: NBUF_def)
  have dv: "disk v = recover_disk ?x ?D"
  proof -
    have "inst_ws ?D u 0 = rev (map (\<lambda>i. (rec_home ?x ?D i, ?D (?x + of_nat i + 1))) [0..<rec_n ?x ?D])"
      using u(5,6) su by (auto simp: inst_ws_def log_blk_def)
    then show ?thesis using disk_frame [OF v(3)] v(6) su(2) by (simp add: recover_disk_def)
  qed
  note k = bio_frame_klog [OF v(3)]
  have clv: "blk v = disk v" using unref_clean [of v] v(2,5) by (auto simp: bio_ok_def)
  have hv: "disk v ?x = ?D ?x"
    unfolding dv recover_disk_def by (rule disk_after_map(1)) (use d in \<open>auto simp: log_disk_ok_def\<close>)
  have lenv: "length (disk v ?x) = BSIZE" using d hv by (simp add: log_disk_ok_def)
  let ?v = "v\<lparr>lh_n := 0\<rparr>" let ?H = "header 0 (lh_block v) (disk v ?x)"
  obtain t where t: "write_head ?v = Ok () t" "copied p ?v ?x ?H t" "nrefs t = nrefs v"
    using write_head_spec [of p ?v] v(2,4,5) k U(4) su clv by (auto simp: count_def LOGSIZE_def MAXOPBLOCKS_def NBUF_def)
  then have c: "bio_ok p t" "bio_frame ?v t" "idle_bufs t" "disk_writes t = (?x, ?H) # disk_writes v"
    by (auto simp: copied_def)
  have dt: "disk t = (disk v)(?x := ?H)" using disk_frame [OF c(2), of "[(?x, ?H)]"] c(4) by simp
  have H: "length ?H = BSIZE" "get32 ?H 0 = 0" using header_get(1,2) [of 0 "disk v ?x"] lenv by (simp_all add: count_def)
  have run: "recover_from_log s = Ok () t" using u(1) v(1) t(1) by (simp add: recover_from_log_def install_trans_def)
  note kt = bio_frame_klog [OF c(2)]
  have "boot_log p t" using c t(3) v(5) kt k U(4) by (simp add: boot_log_def)
  moreover have "lh_n t = 0" using kt by simp
  moreover have "op_frame s t"
  proof -
    have "op_frame v ?v"
      by (rule op_frameI [where bf = "bufs v" and sl = "sleeplocks v" and dw = "disk_writes v" and pr = "procs v" and n = 0
          and bl = "lh_block v" and out = "log_outstanding v" and com = "log_committing v"]) (simp_all add: procs_same_def)
    then show ?thesis using op_frame_trans [OF op_frame_trans [OF op_frame_trans [OF u(7) bio_op_frame [OF v(3)]]] bio_op_frame [OF c(2)]] by blast
  qed
  ultimately show ?thesis using run dt dv H by (intro exI [of _ t]) simp
qed

section \<open>A machine with an empty log\<close>

lemma log_region_bound: "log_start s = 2 \<Longrightarrow> c \<in> log_region s \<Longrightarrow> 2 \<le> unat c \<and> unat c < 33 \<and> unat c < 3 + count (log_size s - 1)"
proof -
  assume a: "log_start s = 2" "c \<in> log_region s"
  then consider "c = 2" | i where "c = 3 + of_nat i" "i < 30" "i < count (log_size s - 1)"
    by (auto simp: log_region_def log_blk_def LOGSIZE_def MAXOPBLOCKS_def)
  then show ?thesis
  proof cases
    case (2 i)
    then show ?thesis using unat_add_lt [of "3 :: uint" i] by simp
  qed simp
qed

definition boot_klog :: "(uint \<Rightarrow> uchar list) \<Rightarrow> klog" where
  "boot_klog img = kbio.extend (boot_bio img) (klog.fields 2 30 0 False ROOTDEV 0 (\<lambda>_. 0))"

lemma boot_klog_views:
  "bio_ok 1 (boot_klog img)" "b < NBUF \<Longrightarrow> \<not> sl_locked (sleeplocks (boot_klog img) (buf_lock b))" "nrefs (boot_klog img) c = 0"
  "disk (boot_klog img) = img" "log_start (boot_klog img) = 2" "log_size (boot_klog img) = 30" "log_outstanding (boot_klog img) = 0"
  "\<not> log_committing (boot_klog img)" "log_dev (boot_klog img) = ROOTDEV" "lh_n (boot_klog img) = 0"
proof -
  have e: "bufs (boot_klog img) = bufs (boot_bio img)" "sleeplocks (boot_klog img) = sleeplocks (boot_bio img)"
    "disk_image (boot_klog img) = disk_image (boot_bio img)" "disk_writes (boot_klog img) = disk_writes (boot_bio img)"
    "calm (boot_klog img) = calm (boot_bio img)" "mycpu (boot_klog img) = mycpu (boot_bio img)"
    by (simp_all add: boot_klog_def kbio.defs klog.defs calm_def machine_defs)
  note v = bio_views_cong [OF e]
  show "bio_ok 1 (boot_klog img)" "nrefs (boot_klog img) c = 0" "disk (boot_klog img) = img"
    using boot_bio_ok [where img = img] v by simp_all
  show "b < NBUF \<Longrightarrow> \<not> sl_locked (sleeplocks (boot_klog img) (buf_lock b))" using boot_bio_ok(2) e(2) by simp
  show "log_start (boot_klog img) = 2" "log_size (boot_klog img) = 30" "log_outstanding (boot_klog img) = 0"
    "\<not> log_committing (boot_klog img)" "log_dev (boot_klog img) = ROOTDEV" "lh_n (boot_klog img) = 0"
    by (simp_all add: boot_klog_def kbio.defs klog.defs)
qed

definition zero_disk :: "uint \<Rightarrow> uchar list" where
  "zero_disk c = replicate BSIZE 0"

lemma zero_disk_simps [simp]: "length (zero_disk c) = BSIZE" "get32 (zero_disk c) 0 = 0"
  by (simp_all add: zero_disk_def get32_def BSIZE_def)

lemma boot_klog_idle: "log_idle 1 28 (boot_klog zero_disk)"
  using boot_klog_views [where img = zero_disk] by (simp add: log_idle_def NBUF_def)

lemma boot_klog_boot: "boot_log 1 (boot_klog img)"
  using boot_klog_views [where img = img] by (simp add: boot_log_def idle_bufs_def)

text \<open>A transaction that has changed one block.\<close>

lemma demo_tx:
  "\<exists>s :: klog. tx 1 27 {} s \<and> logged s = {100} \<and> log_start s = 2 \<and> disk s = zero_disk \<and> blk s 100 = replicate BSIZE 1 \<and>
     tx_frame ((boot_klog zero_disk)\<lparr>log_outstanding := 1\<rparr>) s"
proof -
  let ?s = "(boot_klog zero_disk)\<lparr>log_outstanding := 1\<rparr>"
  note b = begin_op_spec [OF boot_klog_idle]
  have t0: "tx 1 (Suc 27) {} ?s" using b(2) by simp
  obtain b u where u: "bread ROOTDEV 100 ?s = Ok b u" "holder u 100 = Some b" "tx 1 27 {100} u" "tx_frame ?s u" "logged u = logged ?s"
    using tx_bread [OF t0, of 100] by auto
  have t1: "tx 1 (Suc 26) {100} u" using u(3) by simp
  obtain v where v: "tx 1 26 {100} v" "blk v = (blk u)(100 := replicate BSIZE 1)" "holder v = holder u" "logged v = insert 100 (logged u)" "tx_frame u v"
    using tx_log [OF t1 _ u(2), of "replicate BSIZE 1"] by auto
  obtain t where t: "tx 1 27 {} t" "blk t = blk v" "logged t = logged v" "tx_frame v t"
    using tx_brelse [OF v(1), of 100 b] u(2) v(3) by auto
  have fr: "tx_frame ?s t" using tx_frame_trans [OF tx_frame_trans [OF u(4) v(5)] t(4)] .
  then show ?thesis using t v u b(4) tx_frame_views [OF fr] boot_klog_views [where img = zero_disk] by (intro exI [of _ t]) simp
qed

section \<open>Properties\<close>

text \<open>C1: Committing a transaction is atomic, whenever the machine stops. Let the blocks of a transaction be
  changed in the cache, with an empty log on the disk and none of them inside the log. \<open>commit\<close> returns, and
  then the disk holds the new contents. If instead the machine stops after any number of the disk
  writes of \<open>commit\<close> and boots with that disk, \<open>recover_from_log\<close> returns and leaves an empty log, and either all
  blocks outside the log have their contents from before the transaction, or all have those from after it.\<close>

theorem commit_crash_atomic:
  fixes s :: "'a klog_scheme"
  assumes "tx p n {} s" "logged s \<inter> log_region s = {}" "length (disk s (log_start s)) = BSIZE" "get32 (disk s (log_start s)) 0 = 0"
  shows "\<exists>t ws. commit s = Ok () t \<and> disk_writes t = ws @ disk_writes s \<and> (\<forall>c. c \<notin> log_region s \<longrightarrow> disk t c = blk s c) \<and>
    (\<forall>later done r :: 'a klog_scheme. ws = later @ done \<and> boot_log q r \<and> log_start r = log_start s \<and> disk r = disk_after (disk s) done \<longrightarrow>
       (\<exists>r'. recover_from_log r = Ok () r' \<and> get32 (disk r' (log_start s)) 0 = 0 \<and>
         ((\<forall>c. c \<notin> log_region s \<longrightarrow> disk r' c = disk s c) \<or> (\<forall>c. c \<notin> log_region s \<longrightarrow> disk r' c = blk s c))))"
proof -
  have rd: "commit_ready p s" by (rule tx_ready [OF assms])
  then have pre: "commit_pre s" by (simp add: commit_ready_def)
  define ws where "ws = (if nlog s = 0 then [] else commit_ws s)"
  obtain t where t: "commit s = Ok () t" "\<forall>c. c \<notin> log_area s \<longrightarrow> disk t c = blk s c" "disk_writes t = ws @ disk_writes s"
    using commit_run [OF rd] unfolding ws_def by blast
  have reg: "log_area s \<subseteq> log_region s" using pre assms(1) by (intro log_area_region) (simp_all add: commit_pre_def log_wf_def tx_def)
  have st: "log_start s \<in> log_region s" by (simp add: log_region_def)
  have "\<exists>r'. recover_from_log r = Ok () r' \<and> get32 (disk r' (log_start s)) 0 = 0 \<and>
         ((\<forall>c. c \<notin> log_region s \<longrightarrow> disk r' c = disk s c) \<or> (\<forall>c. c \<notin> log_region s \<longrightarrow> disk r' c = blk s c))"
    if r: "ws = later @ don" "boot_log q r" "log_start r = log_start s" "disk r = disk_after (disk s) don"
    for later don and r :: "'a klog_scheme"
  proof -
    have pf: "log_disk_ok (log_start s) (disk r) \<and>
      ((\<forall>c. c \<notin> log_area s \<longrightarrow> recover_disk (log_start s) (disk r) c = disk s c) \<or>
       (\<forall>c. c \<notin> log_area s \<longrightarrow> recover_disk (log_start s) (disk r) c = blk s c))"
    proof (cases "nlog s = 0")
      case True
      then have "disk r = disk s" using r(1,4) by (simp add: ws_def)
      then show ?thesis using assms(3,4) log_disk_ok_empty [of "disk s"] recover_empty [of "disk s"] by simp
    next
      case False
      then show ?thesis using commit_prefixes [OF pre, of later don] r(1,4) by (simp add: ws_def)
    qed
    then obtain r' where "recover_from_log r = Ok () r'" "get32 (disk r' (log_start s)) 0 = 0"
      "\<forall>c. c \<noteq> log_start s \<longrightarrow> disk r' c = recover_disk (log_start s) (disk r) c"
      using recover_spec [OF r(2)] r(3) by auto
    then show ?thesis using pf reg st by (intro exI [of _ r']) (metis subsetD)
  qed
  then show ?thesis using t reg by blast
qed

theorem commit_crash_atomic_witness:
  "\<exists>(s :: klog) t r'. commit s = Ok () t \<and> disk s 100 = replicate BSIZE 0 \<and> disk t 100 = replicate BSIZE 1 \<and>
     recover_from_log (boot_klog zero_disk) = Ok () r' \<and>
     (disk r' 100 = replicate BSIZE 0 \<or> disk r' 100 = replicate BSIZE 1)"
proof -
  obtain s :: klog where s: "tx 1 27 {} s" "logged s = {100}" "log_start s = 2" "disk s = zero_disk" "blk s 100 = replicate BSIZE 1"
    using demo_tx by blast
  have reg: "(100 :: uint) \<notin> log_region s"
    using log_region_bound [OF s(3), of 100] by auto
  have pre: "logged s \<inter> log_region s = {}" "length (disk s (log_start s)) = BSIZE" "get32 (disk s (log_start s)) 0 = 0"
    using s reg by auto
  obtain t ws where t: "commit s = Ok () t" "\<forall>c. c \<notin> log_region s \<longrightarrow> disk t c = blk s c"
    and cr: "\<forall>later done r :: klog. ws = later @ done \<and> boot_log 1 r \<and> log_start r = log_start s \<and> disk r = disk_after (disk s) done \<longrightarrow>
       (\<exists>r'. recover_from_log r = Ok () r' \<and> get32 (disk r' (log_start s)) 0 = 0 \<and>
         ((\<forall>c. c \<notin> log_region s \<longrightarrow> disk r' c = disk s c) \<or> (\<forall>c. c \<notin> log_region s \<longrightarrow> disk r' c = blk s c)))"
    using commit_crash_atomic [OF s(1) pre, of 1] by blast
  obtain r' where "recover_from_log (boot_klog zero_disk) = Ok () r'" "disk r' 100 = disk s 100 \<or> disk r' 100 = blk s 100"
    using cr [rule_format, of ws "[]" "boot_klog zero_disk"] boot_klog_boot boot_klog_views [where img = zero_disk] s(3,4) reg by auto
  then show ?thesis
    using t reg s by (intro exI [of _ s] exI [of _ t] exI [of _ r']) (auto simp: zero_disk_def)
qed

text \<open>C2: A transaction is durable when \<open>end_op\<close> returns. On an idle log \<open>begin_op\<close> opens a transaction without
  waiting; however the transaction then changes blocks outside the log through the cache, \<open>end_op\<close>
  returns, the disk holds the changed contents of every block outside the log, and the log is idle again.\<close>

theorem transaction_durable:
  fixes s :: "'a klog_scheme"
  assumes "log_idle p n s"
  shows "\<exists>t. begin_op s = Ok () t \<and> tx p n {} t \<and> blk t = blk s \<and>
    (\<forall>m u. tx p m {} u \<and> tx_frame t u \<and> logged u \<inter> log_region s = {} \<longrightarrow>
       (\<exists>v. end_op u = Ok () v \<and> log_idle p n v \<and> (\<forall>c. c \<notin> log_region s \<longrightarrow> disk v c = blk u c \<and> blk v c = blk u c)))"
proof -
  let ?t = "s\<lparr>log_outstanding := 1\<rparr>"
  note b = begin_op_spec [OF assms]
  have "\<exists>v. end_op u = Ok () v \<and> log_idle p n v \<and> (\<forall>c. c \<notin> log_region s \<longrightarrow> disk v c = blk u c \<and> blk v c = blk u c)"
    if u: "tx p m {} u" "tx_frame ?t u" "logged u \<inter> log_region s = {}" for m u
  proof -
    note f = tx_frame_views [OF u(2)]
    have "log_region u = log_region s" using f by (simp add: log_region_def log_blk_def [abs_def])
    then show ?thesis using end_op_spec [OF u(1), of n] u(3) f assms by (auto simp: log_idle_def)
  qed
  then show ?thesis using b by (intro exI [of _ ?t]) auto
qed

theorem transaction_durable_witness:
  "\<exists>(u :: klog) v. begin_op (boot_klog zero_disk) = Ok () ((boot_klog zero_disk)\<lparr>log_outstanding := 1\<rparr>) \<and>
     tx_frame ((boot_klog zero_disk)\<lparr>log_outstanding := 1\<rparr>) u \<and> end_op u = Ok () v \<and> disk u 100 = replicate BSIZE 0 \<and>
     disk v 100 = replicate BSIZE 1"
proof -
  let ?t = "(boot_klog zero_disk)\<lparr>log_outstanding := 1\<rparr>"
  obtain u :: klog where u: "tx 1 27 {} u" "logged u = {100}" "disk u = zero_disk" "blk u 100 = replicate BSIZE 1" "tx_frame ?t u"
    using demo_tx by blast
  have reg: "(100 :: uint) \<notin> log_region (boot_klog zero_disk)"
    using log_region_bound [OF boot_klog_views(5), of 100] by auto
  obtain t where t: "begin_op (boot_klog zero_disk) = Ok () t"
    "\<forall>m u. tx 1 m {} u \<and> tx_frame t u \<and> logged u \<inter> log_region (boot_klog zero_disk) = {} \<longrightarrow>
       (\<exists>v. end_op u = Ok () v \<and> log_idle 1 28 v \<and>
          (\<forall>c. c \<notin> log_region (boot_klog zero_disk) \<longrightarrow> disk v c = blk u c \<and> blk v c = blk u c))"
    using transaction_durable [OF boot_klog_idle] by blast
  have e: "t = ?t" using t(1) begin_op_spec(1) [OF boot_klog_idle] by simp
  obtain v where "end_op u = Ok () v" "disk v 100 = blk u 100"
    using t(2) [rule_format, of 27 u] u e reg by auto
  then show ?thesis using t(1) e u by (intro exI [of _ u] exI [of _ v]) (simp add: zero_disk_def)
qed

end
