(* ===== verification/Fs.thy ===== *)
theory Fs
  imports Log_Op
begin

text \<open>
  The file system (\<open>kernel/fs.c\<close>): block allocator, inodes, file contents, directories and path names, on top
  of the log and the buffer cache. A pointer to an inode is its index in the table. The structures the code overlays on
  a block are read and written at their offsets: a \<open>dinode\<close> has 64 bytes, a \<open>dirent\<close> 16. A source or
  destination of \<open>readi\<close> and \<open>writei\<close> is an address or a local variable of the caller; of a local variable the
  model keeps the bytes stored so far, or still to be read.
\<close>

unbundle bit_operations_syntax

section \<open>Data\<close>

definition ROOTINO :: uint where "ROOTINO = 1"
definition FSMAGIC :: uint where "FSMAGIC = 0x10203040"
definition NDIRECT :: nat where "NDIRECT = 12"
definition NINDIRECT :: nat where "NINDIRECT = BSIZE div 4"
definition MAXFILE :: nat where "MAXFILE = NDIRECT + NINDIRECT"
definition IPB :: nat where "IPB = BSIZE div 64"
definition BPB :: nat where "BPB = BSIZE * 8"
definition DIRSIZ :: nat where "DIRSIZ = 14"
definition NINODE :: nat where "NINODE = 50"

definition T_DIR :: ushort where "T_DIR = 1"
definition T_FILE :: ushort where "T_FILE = 2"
definition T_DEVICE :: ushort where "T_DEVICE = 3"

record superblock =
  sb_magic :: uint
  sb_size :: uint
  sb_nblocks :: uint
  sb_ninodes :: uint
  sb_nlog :: uint
  sb_logstart :: uint
  sb_inodestart :: uint
  sb_bmapstart :: uint

record inode =
  i_dev :: uint
  i_inum :: uint
  i_ref :: int32
  i_valid :: bool
  i_type :: ushort
  i_major :: ushort
  i_minor :: ushort
  i_nlink :: ushort
  i_size :: uint
  i_addrs :: "nat \<Rightarrow> uint"

record kstat =
  st_dev :: uint
  st_ino :: uint
  st_type :: ushort
  st_nlink :: ushort
  st_size :: uint64

record kfs = klog +
  sb :: superblock
  itable :: "nat \<Rightarrow> inode"

definition IBLOCK :: "uint \<Rightarrow> superblock \<Rightarrow> uint" where
  "IBLOCK i x = i div of_nat IPB + sb_inodestart x"

definition BBLOCK :: "uint \<Rightarrow> superblock \<Rightarrow> uint" where
  "BBLOCK b x = b div of_nat BPB + sb_bmapstart x"

definition upd_inode :: "nat \<Rightarrow> (inode \<Rightarrow> inode) \<Rightarrow> 'a kfs_scheme \<Rightarrow> 'a kfs_scheme" where
  "upd_inode ip f s = s\<lparr>itable := (itable s)(ip := f (itable s ip))\<rparr>"

text \<open>A value of a byte-string function that reads past the end of its argument is undefined behaviour.\<close>

definition defined :: "'b option \<Rightarrow> 's \<Rightarrow> ('b, 's) res" where
  "defined x s = (case x of None \<Rightarrow> Undef | Some a \<Rightarrow> Ok a s)"

section \<open>Super block\<close>

definition readsb :: "uint \<Rightarrow> 'a kfs_scheme \<Rightarrow> (unit, 'a kfs_scheme) res" where
  "readsb dev s =
    bind (bread dev 1 s) (\<lambda>bp s.
    let d = b_data (bufs s bp);
        s = s\<lparr>sb := \<lparr>sb_magic = get32 d 0, sb_size = get32 d 4, sb_nblocks = get32 d 8, sb_ninodes = get32 d 12,
              sb_nlog = get32 d 16, sb_logstart = get32 d 20, sb_inodestart = get32 d 24, sb_bmapstart = get32 d 28\<rparr>\<rparr>
    in brelse bp s)"

definition fsinit :: "uint \<Rightarrow> 'a kfs_scheme \<Rightarrow> (unit, 'a kfs_scheme) res" where
  "fsinit dev s =
    bind (readsb dev s) (\<lambda>_ s.
    if sb_magic (sb s) \<noteq> FSMAGIC then Panic ''invalid file system''
    else initlog dev (sb_logstart (sb s)) (sb_nlog (sb s)) s)"

section \<open>Blocks\<close>

definition bzero :: "uint \<Rightarrow> uint \<Rightarrow> 'a klog_scheme \<Rightarrow> (unit, 'a klog_scheme) res" where
  "bzero dev bno s =
    bind (bread dev bno s) (\<lambda>bp s.
    let s = set_data bp (replicate BSIZE 0) s in
    bind (log_write bp s) (\<lambda>_ s. brelse bp s))"

text \<open>The bit of block \<open>bi\<close> in a block of the free map.\<close>

definition bit_mask :: "nat \<Rightarrow> uchar" where
  "bit_mask bi = push_bit (bi mod 8) 1"

definition bit_used :: "uchar list \<Rightarrow> nat \<Rightarrow> bool" where
  "bit_used data bi \<longleftrightarrow> (data ! (bi div 8)) AND bit_mask bi \<noteq> 0"

text \<open>The inner loop of \<open>balloc\<close>: the first free bit, if any.\<close>

fun balloc_scan :: "nat \<Rightarrow> nat \<Rightarrow> nat \<Rightarrow> uchar list \<Rightarrow> nat option" where
  "balloc_scan 0 bi limit data = None"
| "balloc_scan (Suc k) bi limit data =
    (if bi < BPB \<and> bi < limit then
       if \<not> bit_used data bi then Some bi else balloc_scan k (Suc bi) limit data
     else None)"

text \<open>The outer loop; \<open>b\<close> is an \<open>int\<close>, whose overflow is undefined.\<close>

function balloc_loop :: "nat \<Rightarrow> uint \<Rightarrow> 'a kfs_scheme \<Rightarrow> (uint, 'a kfs_scheme) res" where
  "balloc_loop b dev s =
    (if b < unat (sb_size (sb s)) then
       if 2 ^ 31 \<le> b + BPB then Undef
       else
       bind (bread dev (BBLOCK (of_nat b) (sb s)) s) (\<lambda>bp s.
       case balloc_scan BPB 0 (unat (sb_size (sb s)) - b) (b_data (bufs s bp)) of
         Some bi \<Rightarrow>
           let d = b_data (bufs s bp);
               s = set_data bp (d[bi div 8 := (d ! (bi div 8)) OR bit_mask bi]) s
           in bind (log_write bp s) (\<lambda>_ s.
              bind (brelse bp s) (\<lambda>_ s.
              bind (bzero dev (of_nat (b + bi)) s) (\<lambda>_ s. Ok (of_nat (b + bi)) s)))
       | None \<Rightarrow> bind (brelse bp s) (\<lambda>_ s. balloc_loop (b + BPB) dev s))
     else Panic ''balloc: out of blocks'')"
  by pat_completeness auto
termination by (relation "measure (\<lambda>(b, dev, s). 2 ^ 31 - b)") (auto simp: BPB_def BSIZE_def)

declare balloc_loop.simps [simp del]

definition balloc :: "uint \<Rightarrow> 'a kfs_scheme \<Rightarrow> (uint, 'a kfs_scheme) res" where
  "balloc dev s = balloc_loop 0 dev s"

definition bfree :: "uint \<Rightarrow> uint \<Rightarrow> 'a kfs_scheme \<Rightarrow> (unit, 'a kfs_scheme) res" where
  "bfree dev b s =
    bind (bread dev (BBLOCK b (sb s)) s) (\<lambda>bp s.
    let bi = unat b mod BPB; d = b_data (bufs s bp) in
    if \<not> bit_used d bi then Panic ''freeing free block''
    else
      let s = set_data bp (d[bi div 8 := (d ! (bi div 8)) AND NOT (bit_mask bi)]) s in
      bind (log_write bp s) (\<lambda>_ s. brelse bp s))"

section \<open>Inodes\<close>

fun iinit_loop :: "nat \<Rightarrow> 'a kfs_scheme \<Rightarrow> 'a kfs_scheme" where
  "iinit_loop 0 s = s"
| "iinit_loop (Suc i) s = initsleeplock (inode_lock i) ''inode'' (iinit_loop i s)"

definition iinit :: "'a kfs_scheme \<Rightarrow> 'a kfs_scheme" where
  "iinit s = iinit_loop NINODE (initlock itable_lock ''itable'' s)"

text \<open>The loop of \<open>iget\<close> from entry \<open>i\<close> on: the entry found, or the first empty one.\<close>

fun iget_scan :: "nat \<Rightarrow> nat \<Rightarrow> uint \<Rightarrow> uint \<Rightarrow> nat option \<Rightarrow> (nat \<Rightarrow> inode) \<Rightarrow> nat + nat option" where
  "iget_scan 0 i dev inum emp tab = Inr emp"
| "iget_scan (Suc k) i dev inum emp tab =
    (if 0 < sint (i_ref (tab i)) \<and> i_dev (tab i) = dev \<and> i_inum (tab i) = inum then Inl i
     else iget_scan k (Suc i) dev inum (if emp = None \<and> i_ref (tab i) = 0 then Some i else emp) tab)"

definition iget :: "uint \<Rightarrow> uint \<Rightarrow> 'a kfs_scheme \<Rightarrow> (nat, 'a kfs_scheme) res" where
  "iget dev inum s =
    bind (acquire itable_lock s) (\<lambda>_ s.
    case iget_scan NINODE 0 dev inum None (itable s) of
      Inl ip \<Rightarrow>
        let s = upd_inode ip (\<lambda>i. i\<lparr>i_ref := i_ref i + 1\<rparr>) s in
        bind (release itable_lock s) (\<lambda>_ s. Ok ip s)
    | Inr None \<Rightarrow> Panic ''iget: no inodes''
    | Inr (Some ip) \<Rightarrow>
        let s = upd_inode ip (\<lambda>i. i\<lparr>i_dev := dev, i_inum := inum, i_ref := 1, i_valid := False\<rparr>) s in
        bind (release itable_lock s) (\<lambda>_ s. Ok ip s))"

text \<open>Offset of a \<open>dinode\<close> in its block, and its fields there.\<close>

definition dip_off :: "uint \<Rightarrow> nat" where
  "dip_off inum = (unat inum mod IPB) * 64"

fun put_addrs :: "nat \<Rightarrow> nat \<Rightarrow> (nat \<Rightarrow> uint) \<Rightarrow> uchar list \<Rightarrow> uchar list" where
  "put_addrs 0 off a d = d"
| "put_addrs (Suc k) off a d = put32 (off + 12 + 4 * k) (a k) (put_addrs k off a d)"

definition put_dinode :: "nat \<Rightarrow> inode \<Rightarrow> uchar list \<Rightarrow> uchar list" where
  "put_dinode off i d =
    put_addrs (NDIRECT + 1) off (i_addrs i)
     (put32 (off + 8) (i_size i) (put16 (off + 6) (i_nlink i) (put16 (off + 4) (i_minor i)
     (put16 (off + 2) (i_major i) (put16 off (i_type i) d)))))"

definition get_dinode :: "nat \<Rightarrow> uchar list \<Rightarrow> inode \<Rightarrow> inode" where
  "get_dinode off d i =
    i\<lparr>i_type := get16 d off, i_major := get16 d (off + 2), i_minor := get16 d (off + 4), i_nlink := get16 d (off + 6),
      i_size := get32 d (off + 8), i_addrs := \<lambda>k. if k \<le> NDIRECT then get32 d (off + 12 + 4 * k) else i_addrs i k\<rparr>"

text \<open>The loop of \<open>ialloc\<close>; \<open>inum\<close> is an \<open>int\<close>.\<close>

function ialloc_loop :: "nat \<Rightarrow> uint \<Rightarrow> ushort \<Rightarrow> 'a kfs_scheme \<Rightarrow> (nat, 'a kfs_scheme) res" where
  "ialloc_loop inum dev type s =
    (if inum < unat (sb_ninodes (sb s)) then
       if 2 ^ 31 \<le> inum then Undef
       else
       bind (bread dev (IBLOCK (of_nat inum) (sb s)) s) (\<lambda>bp s.
       let d = b_data (bufs s bp); off = dip_off (of_nat inum) in
       if get16 d off = 0 then
         let s = set_data bp (put16 off type (put_bytes off (replicate 64 0) d)) s in
         bind (log_write bp s) (\<lambda>_ s.
         bind (brelse bp s) (\<lambda>_ s. iget dev (of_nat inum) s))
       else bind (brelse bp s) (\<lambda>_ s. ialloc_loop (Suc inum) dev type s))
     else Panic ''ialloc: no inodes'')"
  by pat_completeness auto
termination by (relation "measure (\<lambda>(i, dev, ty, s). 2 ^ 31 - i)") auto

declare ialloc_loop.simps [simp del]

definition ialloc :: "uint \<Rightarrow> ushort \<Rightarrow> 'a kfs_scheme \<Rightarrow> (nat, 'a kfs_scheme) res" where
  "ialloc dev type s = ialloc_loop 1 dev type s"

definition iupdate :: "nat \<Rightarrow> 'a kfs_scheme \<Rightarrow> (unit, 'a kfs_scheme) res" where
  "iupdate ip s =
    bind (bread (i_dev (itable s ip)) (IBLOCK (i_inum (itable s ip)) (sb s)) s) (\<lambda>bp s.
    let i = itable s ip;
        s = set_data bp (put_dinode (dip_off (i_inum i)) i (b_data (bufs s bp))) s
    in bind (log_write bp s) (\<lambda>_ s. brelse bp s))"

definition idup :: "nat \<Rightarrow> 'a kfs_scheme \<Rightarrow> (nat, 'a kfs_scheme) res" where
  "idup ip s =
    bind (acquire itable_lock s) (\<lambda>_ s.
    let s = upd_inode ip (\<lambda>i. i\<lparr>i_ref := i_ref i + 1\<rparr>) s in
    bind (release itable_lock s) (\<lambda>_ s. Ok ip s))"

definition ilock :: "nat option \<Rightarrow> 'a kfs_scheme \<Rightarrow> (unit, 'a kfs_scheme) res" where
  "ilock ipo s =
    (case ipo of
       None \<Rightarrow> Panic ''ilock''
     | Some ip \<Rightarrow>
         if sint (i_ref (itable s ip)) < 1 then Panic ''ilock''
         else
           bind (acquiresleep (inode_lock ip) s) (\<lambda>_ s.
           if \<not> i_valid (itable s ip) then
             bind (bread (i_dev (itable s ip)) (IBLOCK (i_inum (itable s ip)) (sb s)) s) (\<lambda>bp s.
             let s = upd_inode ip (get_dinode (dip_off (i_inum (itable s ip))) (b_data (bufs s bp))) s in
             bind (brelse bp s) (\<lambda>_ s.
             let s = upd_inode ip (\<lambda>i. i\<lparr>i_valid := True\<rparr>) s in
             if i_type (itable s ip) = 0 then Panic ''ilock: no type'' else Ok () s))
           else Ok () s))"

definition iunlock :: "nat option \<Rightarrow> 'a kfs_scheme \<Rightarrow> (unit, 'a kfs_scheme) res" where
  "iunlock ipo s =
    (case ipo of
       None \<Rightarrow> Panic ''iunlock''
     | Some ip \<Rightarrow>
         bind (holdingsleep (inode_lock ip) s) (\<lambda>h s.
         if \<not> h \<or> sint (i_ref (itable s ip)) < 1 then Panic ''iunlock''
         else releasesleep (inode_lock ip) s))"

section \<open>Contents\<close>

definition bmap :: "nat \<Rightarrow> uint \<Rightarrow> 'a kfs_scheme \<Rightarrow> (uint, 'a kfs_scheme) res" where
  "bmap ip bn s =
    (if unat bn < NDIRECT then
       let addr = i_addrs (itable s ip) (unat bn) in
       if addr = 0 then
         bind (balloc (i_dev (itable s ip)) s) (\<lambda>addr s.
         Ok addr (upd_inode ip (\<lambda>i. i\<lparr>i_addrs := (i_addrs i)(unat bn := addr)\<rparr>) s))
       else Ok addr s
     else
       let bn = unat bn - NDIRECT in
       if bn < NINDIRECT then
         bind (if i_addrs (itable s ip) NDIRECT = 0 then
                 bind (balloc (i_dev (itable s ip)) s) (\<lambda>addr s.
                 Ok addr (upd_inode ip (\<lambda>i. i\<lparr>i_addrs := (i_addrs i)(NDIRECT := addr)\<rparr>) s))
               else Ok (i_addrs (itable s ip) NDIRECT) s) (\<lambda>addr s.
         bind (bread (i_dev (itable s ip)) addr s) (\<lambda>bp s.
         let addr = get32 (b_data (bufs s bp)) (4 * bn) in
         bind (if addr = 0 then
                 bind (balloc (i_dev (itable s ip)) s) (\<lambda>addr s.
                 let s = set_data bp (put32 (4 * bn) addr (b_data (bufs s bp))) s in
                 bind (log_write bp s) (\<lambda>_ s. Ok addr s))
               else Ok addr s) (\<lambda>addr s.
         bind (brelse bp s) (\<lambda>_ s. Ok addr s))))
       else Panic ''bmap: out of range'')"

fun itrunc_direct :: "nat \<Rightarrow> nat \<Rightarrow> nat \<Rightarrow> 'a kfs_scheme \<Rightarrow> (unit, 'a kfs_scheme) res" where
  "itrunc_direct 0 i ip s = Ok () s"
| "itrunc_direct (Suc k) i ip s =
    bind (if i_addrs (itable s ip) i \<noteq> 0 then
            bind (bfree (i_dev (itable s ip)) (i_addrs (itable s ip) i) s) (\<lambda>_ s.
            Ok () (upd_inode ip (\<lambda>x. x\<lparr>i_addrs := (i_addrs x)(i := 0)\<rparr>) s))
          else Ok () s) (\<lambda>_ s. itrunc_direct k (Suc i) ip s)"

fun itrunc_indirect :: "nat \<Rightarrow> nat \<Rightarrow> nat \<Rightarrow> nat \<Rightarrow> 'a kfs_scheme \<Rightarrow> (unit, 'a kfs_scheme) res" where
  "itrunc_indirect 0 j bp ip s = Ok () s"
| "itrunc_indirect (Suc k) j bp ip s =
    bind (if get32 (b_data (bufs s bp)) (4 * j) \<noteq> 0
          then bfree (i_dev (itable s ip)) (get32 (b_data (bufs s bp)) (4 * j)) s else Ok () s) (\<lambda>_ s.
    itrunc_indirect k (Suc j) bp ip s)"

definition itrunc :: "nat \<Rightarrow> 'a kfs_scheme \<Rightarrow> (unit, 'a kfs_scheme) res" where
  "itrunc ip s =
    bind (itrunc_direct NDIRECT 0 ip s) (\<lambda>_ s.
    bind (if i_addrs (itable s ip) NDIRECT \<noteq> 0 then
            bind (bread (i_dev (itable s ip)) (i_addrs (itable s ip) NDIRECT) s) (\<lambda>bp s.
            bind (itrunc_indirect NINDIRECT 0 bp ip s) (\<lambda>_ s.
            bind (brelse bp s) (\<lambda>_ s.
            bind (bfree (i_dev (itable s ip)) (i_addrs (itable s ip) NDIRECT) s) (\<lambda>_ s.
            Ok () (upd_inode ip (\<lambda>x. x\<lparr>i_addrs := (i_addrs x)(NDIRECT := 0)\<rparr>) s)))))
          else Ok () s) (\<lambda>_ s.
    iupdate ip (upd_inode ip (\<lambda>x. x\<lparr>i_size := 0\<rparr>) s)))"

definition iput :: "nat \<Rightarrow> 'a kfs_scheme \<Rightarrow> (unit, 'a kfs_scheme) res" where
  "iput ip s =
    bind (acquire itable_lock s) (\<lambda>_ s.
    bind (if i_ref (itable s ip) = 1 \<and> i_valid (itable s ip) \<and> i_nlink (itable s ip) = 0 then
            bind (acquiresleep (inode_lock ip) s) (\<lambda>_ s.
            bind (release itable_lock s) (\<lambda>_ s.
            bind (itrunc ip s) (\<lambda>_ s.
            bind (iupdate ip (upd_inode ip (\<lambda>x. x\<lparr>i_type := 0\<rparr>) s)) (\<lambda>_ s.
            let s = upd_inode ip (\<lambda>x. x\<lparr>i_valid := False\<rparr>) s in
            bind (releasesleep (inode_lock ip) s) (\<lambda>_ s. acquire itable_lock s)))))
          else Ok () s) (\<lambda>_ s.
    release itable_lock (upd_inode ip (\<lambda>x. x\<lparr>i_ref := i_ref x - 1\<rparr>) s)))"

definition iunlockput :: "nat \<Rightarrow> 'a kfs_scheme \<Rightarrow> (unit, 'a kfs_scheme) res" where
  "iunlockput ip s = bind (iunlock (Some ip) s) (\<lambda>_ s. iput ip s)"

definition stati :: "nat \<Rightarrow> 'a kfs_scheme \<Rightarrow> kstat" where
  "stati ip s =
    (let i = itable s ip in
     \<lparr>st_dev = i_dev i, st_ino = i_inum i, st_type = i_type i, st_nlink = i_nlink i, st_size = ucast (i_size i)\<rparr>)"

datatype iobuf = IoAddr kaddr | IoLocal "uchar list"

fun kaddr_add :: "kaddr \<Rightarrow> nat \<Rightarrow> kaddr" where
  "kaddr_add (UserAddr a) n = UserAddr (a + of_nat n)"
| "kaddr_add (KernAddr a) n = KernAddr (a + of_nat n)"

definition io_out :: "iobuf \<Rightarrow> uchar list \<Rightarrow> 'a kproc_scheme \<Rightarrow> (int32 \<times> iobuf, 'a kproc_scheme) res" where
  "io_out dst src s =
    (case dst of
       IoAddr a \<Rightarrow> bind (either_copyout a src s) (\<lambda>r s. Ok (r, IoAddr (kaddr_add a (length src))) s)
     | IoLocal bs \<Rightarrow> bind (myproc s) (\<lambda>_ s. Ok (0, IoLocal (bs @ src)) s))"

definition io_in :: "iobuf \<Rightarrow> nat \<Rightarrow> 'a kproc_scheme \<Rightarrow> (int32 \<times> uchar list \<times> iobuf, 'a kproc_scheme) res" where
  "io_in src n s =
    (case src of
       IoAddr a \<Rightarrow> bind (either_copyin a n s) (\<lambda>r s. Ok (fst r, snd r, IoAddr (kaddr_add a n)) s)
     | IoLocal bs \<Rightarrow>
         if length bs < n then Undef
         else bind (myproc s) (\<lambda>_ s. Ok (0, take n bs, IoLocal (drop n bs)) s))"

definition chunk :: "uint \<Rightarrow> uint \<Rightarrow> uint \<Rightarrow> uint" where
  "chunk n tot off =
    (let a = n - tot; b = of_nat BSIZE - off mod of_nat BSIZE in if a < b then a else b)"

lemma chunk_bounds:
  assumes "tot < n"
  shows "0 < unat (chunk n tot off)" "unat (chunk n tot off) \<le> unat n - unat tot" "unat (chunk n tot off) \<le> BSIZE"
    "unat (tot + chunk n tot off) = unat tot + unat (chunk n tot off)"
    "unat (chunk n tot off) = min (unat n - unat tot) (BSIZE - unat off mod BSIZE)"
proof -
  have m: "unat (off mod of_nat BSIZE) = unat off mod BSIZE" by (simp add: unat_mod BSIZE_def)
  have lt: "unat off mod BSIZE < BSIZE" by (simp add: BSIZE_def)
  have "off mod of_nat BSIZE \<le> of_nat BSIZE" using m lt by (simp add: word_le_nat_alt BSIZE_def)
  then have b: "unat (of_nat BSIZE - off mod of_nat BSIZE) = BSIZE - unat off mod BSIZE"
    using m by (simp add: unat_sub BSIZE_def)
  have a: "unat (n - tot) = unat n - unat tot" using assms by (simp add: unat_sub)
  show e: "unat (chunk n tot off) = min (unat n - unat tot) (BSIZE - unat off mod BSIZE)"
    using a b by (simp add: chunk_def Let_def word_less_nat_alt min_def)
  have tn: "unat tot < unat n" "unat n < 2 ^ 32" using assms unsigned_less [of n, where ?'a = nat] by (simp_all add: word_less_nat_alt)
  show "0 < unat (chunk n tot off)" "unat (chunk n tot off) \<le> unat n - unat tot" "unat (chunk n tot off) \<le> BSIZE"
    unfolding e using tn(1) lt by auto
  then show "unat (tot + chunk n tot off) = unat tot + unat (chunk n tot off)"
    using tn unat_add_lt [of tot "unat (chunk n tot off)"] by simp
qed

lemma chunk_measure: "tot < n \<Longrightarrow> unat n - unat (tot + chunk n tot off) < unat n - unat tot"
  using chunk_bounds(1,2,4) [of tot n off] by linarith

function readi_loop ::
  "nat \<Rightarrow> iobuf \<Rightarrow> uint \<Rightarrow> uint \<Rightarrow> uint \<Rightarrow> 'a kfs_scheme \<Rightarrow> (int32 \<times> iobuf, 'a kfs_scheme) res" where
  "readi_loop ip dst off tot n s =
    (if tot < n then
       bind (bmap ip (off div of_nat BSIZE) s) (\<lambda>addr s.
       bind (bread (i_dev (itable s ip)) addr s) (\<lambda>bp s.
       let m = chunk n tot off in
       bind (io_out dst (take (unat m) (drop (unat (off mod of_nat BSIZE)) (b_data (bufs s bp)))) s) (\<lambda>(r, dst) s.
       if r = -1 then bind (brelse bp s) (\<lambda>_ s. Ok (-1, dst) s)
       else bind (brelse bp s) (\<lambda>_ s. readi_loop ip dst (off + m) (tot + m) n s))))
     else Ok (tot, dst) s)"
  by pat_completeness auto
termination
  by (relation "measure (\<lambda>(ip, dst, off, tot, n, s). unat n - unat tot)") (auto intro: chunk_measure)

declare readi_loop.simps [simp del]

definition readi :: "nat \<Rightarrow> iobuf \<Rightarrow> uint \<Rightarrow> uint \<Rightarrow> 'a kfs_scheme \<Rightarrow> (int32 \<times> iobuf, 'a kfs_scheme) res" where
  "readi ip dst off n s =
    (let size = i_size (itable s ip) in
     if size < off \<or> off + n < off then Ok (0, dst) s
     else
       let n = (if size < off + n then size - off else n)
       in readi_loop ip dst off 0 n s)"

function writei_loop ::
  "nat \<Rightarrow> iobuf \<Rightarrow> uint \<Rightarrow> uint \<Rightarrow> uint \<Rightarrow> 'a kfs_scheme \<Rightarrow> (uint \<times> uint, 'a kfs_scheme) res" where
  "writei_loop ip src off tot n s =
    (if tot < n then
       bind (bmap ip (off div of_nat BSIZE) s) (\<lambda>addr s.
       bind (bread (i_dev (itable s ip)) addr s) (\<lambda>bp s.
       let m = chunk n tot off in
       bind (io_in src (unat m) s) (\<lambda>(r, bs, src) s.
       let s = set_data bp (put_bytes (unat (off mod of_nat BSIZE)) bs (b_data (bufs s bp))) s in
       if r = -1 then bind (brelse bp s) (\<lambda>_ s. Ok (tot, off) s)
       else
         bind (log_write bp s) (\<lambda>_ s.
         bind (brelse bp s) (\<lambda>_ s. writei_loop ip src (off + m) (tot + m) n s)))))
     else Ok (tot, off) s)"
  by pat_completeness auto
termination
  by (relation "measure (\<lambda>(ip, src, off, tot, n, s). unat n - unat tot)") (auto intro: chunk_measure)

declare writei_loop.simps [simp del]

definition writei :: "nat \<Rightarrow> iobuf \<Rightarrow> uint \<Rightarrow> uint \<Rightarrow> 'a kfs_scheme \<Rightarrow> (int32, 'a kfs_scheme) res" where
  "writei ip src off n s =
    (if i_size (itable s ip) < off \<or> off + n < off then Ok (-1) s
     else if of_nat (MAXFILE * BSIZE) < off + n then Ok (-1) s
     else
       bind (writei_loop ip src off 0 n s) (\<lambda>(tot, off) s.
       let s = (if i_size (itable s ip) < off then upd_inode ip (\<lambda>i. i\<lparr>i_size := off\<rparr>) s else s) in
       bind (iupdate ip s) (\<lambda>_ s. Ok tot s)))"

section \<open>Directories\<close>

definition namecmp :: "uchar list \<Rightarrow> uchar list \<Rightarrow> int option" where
  "namecmp s t = strncmp s t DIRSIZ"

definition de_inum :: "uchar list \<Rightarrow> ushort" where
  "de_inum de = get16 de 0"

definition de_name :: "uchar list \<Rightarrow> uchar list" where
  "de_name de = drop 2 de"

text \<open>One \<open>readi\<close> of a directory entry into a local variable.\<close>

definition read_dirent :: "nat \<Rightarrow> uint \<Rightarrow> string \<Rightarrow> 'a kfs_scheme \<Rightarrow> (uchar list, 'a kfs_scheme) res" where
  "read_dirent dp off msg s =
    bind (readi dp (IoLocal []) off 16 s) (\<lambda>(r, buf) s.
    if r \<noteq> 16 then Panic msg
    else case buf of IoLocal de \<Rightarrow> Ok de s | IoAddr a \<Rightarrow> Undef)"

text \<open>The loop of \<open>dirlookup\<close>. After a successful \<open>readi\<close> the offset cannot wrap.\<close>

function dirlookup_loop ::
  "nat \<Rightarrow> nat \<Rightarrow> uchar list \<Rightarrow> 'a kfs_scheme \<Rightarrow> ((nat \<times> uint) option, 'a kfs_scheme) res" where
  "dirlookup_loop off dp name s =
    (if off < unat (i_size (itable s dp)) then
       bind (read_dirent dp (of_nat off) ''dirlookup read'' s) (\<lambda>de s.
       if de_inum de = 0 then
         if off < 2 ^ 32 then dirlookup_loop (off + 16) dp name s else Undef
       else
         bind (defined (namecmp name (de_name de)) s) (\<lambda>c s.
         if c = 0 then bind (iget (i_dev (itable s dp)) (ucast (de_inum de)) s) (\<lambda>ip s. Ok (Some (ip, of_nat off)) s)
         else if off < 2 ^ 32 then dirlookup_loop (off + 16) dp name s else Undef))
     else Ok None s)"
  by pat_completeness auto
termination by (relation "measure (\<lambda>(off, dp, name, s). 2 ^ 32 - off)") auto

declare dirlookup_loop.simps [simp del]

definition dirlookup :: "nat \<Rightarrow> uchar list \<Rightarrow> 'a kfs_scheme \<Rightarrow> ((nat \<times> uint) option, 'a kfs_scheme) res" where
  "dirlookup dp name s =
    (if i_type (itable s dp) \<noteq> T_DIR then Panic ''dirlookup not DIR'' else dirlookup_loop 0 dp name s)"

text \<open>The search of \<open>dirlink\<close> for an empty entry.\<close>

function dirlink_loop :: "nat \<Rightarrow> nat \<Rightarrow> 'a kfs_scheme \<Rightarrow> (uint, 'a kfs_scheme) res" where
  "dirlink_loop off dp s =
    (if off < unat (i_size (itable s dp)) then
       bind (read_dirent dp (of_nat off) ''dirlink read'' s) (\<lambda>de s.
       if de_inum de = 0 then Ok (of_nat off) s
       else if off < 2 ^ 32 then dirlink_loop (off + 16) dp s else Undef)
     else Ok (of_nat off) s)"
  by pat_completeness auto
termination by (relation "measure (\<lambda>(off, dp, s). 2 ^ 32 - off)") auto

declare dirlink_loop.simps [simp del]

definition dirlink :: "nat \<Rightarrow> uchar list \<Rightarrow> uint \<Rightarrow> 'a kfs_scheme \<Rightarrow> (int32, 'a kfs_scheme) res" where
  "dirlink dp name inum s =
    bind (dirlookup dp name s) (\<lambda>r s.
    case r of
      Some (ip, _) \<Rightarrow> bind (iput ip s) (\<lambda>_ s. Ok (-1) s)
    | None \<Rightarrow>
        bind (dirlink_loop 0 dp s) (\<lambda>off s.
        bind (defined (strncpy (replicate DIRSIZ 0) name DIRSIZ) s) (\<lambda>nm s.
        bind (writei dp (IoLocal (bytes16 (ucast inum) @ nm)) off 16 s) (\<lambda>r s.
        if r \<noteq> 16 then Panic ''dirlink'' else Ok 0 s))))"

section \<open>Paths\<close>

definition slash :: uchar where "slash = 47"

fun skip_slashes :: "uchar list \<Rightarrow> uchar list option" where
  "skip_slashes [] = None"
| "skip_slashes (c # path) = (if c = slash then skip_slashes path else Some (c # path))"

fun take_elem :: "uchar list \<Rightarrow> (uchar list \<times> uchar list) option" where
  "take_elem [] = None"
| "take_elem (c # path) =
    (if c \<noteq> slash \<and> c \<noteq> 0 then map_option (\<lambda>(e, rest). (c # e, rest)) (take_elem path) else Some ([], c # path))"

text \<open>\<open>Some None\<close> is the null pointer; otherwise the rest of the path and the new contents of \<open>name\<close>.\<close>

definition skipelem :: "uchar list \<Rightarrow> uchar list \<Rightarrow> (uchar list \<times> uchar list) option option" where
  "skipelem path name =
    (case skip_slashes path of
       None \<Rightarrow> None
     | Some s \<Rightarrow>
         if hd s = 0 then Some None
         else
           (case take_elem s of
              None \<Rightarrow> None
            | Some (elem, rest) \<Rightarrow>
                let name = (if DIRSIZ \<le> length elem then put_bytes 0 (take DIRSIZ elem) name
                            else put_bytes 0 (elem @ [0]) name)
                in map_option (\<lambda>rest. Some (rest, name)) (skip_slashes rest)))"

lemma skip_slashes_length: "skip_slashes p = Some q \<Longrightarrow> length q \<le> length p \<and> q \<noteq> [] \<and> hd q \<noteq> slash"
  by (induction p) (auto split: if_splits)

lemma take_elem_length: "take_elem p = Some (e, r) \<Longrightarrow> p = e @ r \<and> (\<forall>c \<in> set e. c \<noteq> slash \<and> c \<noteq> 0) \<and> r \<noteq> [] \<and> (hd r = slash \<or> hd r = 0)"
  by (induction p arbitrary: e r) (auto split: if_splits)

lemma skipelem_length: "skipelem p name = Some (Some (q, name')) \<Longrightarrow> length q < length p"
proof -
  assume h: "skipelem p name = Some (Some (q, name'))"
  then obtain s e r where s: "skip_slashes p = Some s" "hd s \<noteq> 0" "take_elem s = Some (e, r)" "skip_slashes r = Some q"
    by (auto simp: skipelem_def Let_def split: option.splits if_splits)
  have "e \<noteq> []" using s skip_slashes_length [OF s(1)] take_elem_length [OF s(3)] by auto
  then show ?thesis using s skip_slashes_length [OF s(1)] skip_slashes_length [OF s(4)] take_elem_length [OF s(3)]
    by (cases e) auto
qed

function namex_loop ::
  "uchar list \<Rightarrow> bool \<Rightarrow> uchar list \<Rightarrow> nat \<Rightarrow> 'a kfs_scheme \<Rightarrow> (nat option \<times> uchar list, 'a kfs_scheme) res" where
  "namex_loop path nameiparent name ip s =
    (case skipelem path name of
       None \<Rightarrow> Undef
     | Some None \<Rightarrow>
         if nameiparent then bind (iput ip s) (\<lambda>_ s. Ok (None, name) s) else Ok (Some ip, name) s
     | Some (Some (path, name)) \<Rightarrow>
         bind (ilock (Some ip) s) (\<lambda>_ s.
         if i_type (itable s ip) \<noteq> T_DIR then bind (iunlockput ip s) (\<lambda>_ s. Ok (None, name) s)
         else if nameiparent \<and> hd path = 0 then bind (iunlock (Some ip) s) (\<lambda>_ s. Ok (Some ip, name) s)
         else
           bind (dirlookup ip name s) (\<lambda>r s.
           case r of
             None \<Rightarrow> bind (iunlockput ip s) (\<lambda>_ s. Ok (None, name) s)
           | Some (nxt, _) \<Rightarrow> bind (iunlockput ip s) (\<lambda>_ s. namex_loop path nameiparent name nxt s))))"
  by pat_completeness auto
termination by (relation "measure (\<lambda>(path, np, name, ip, s). length path)") (auto simp: skipelem_length)

declare namex_loop.simps [simp del]

definition namex ::
  "uchar list \<Rightarrow> bool \<Rightarrow> uchar list \<Rightarrow> 'a kfs_scheme \<Rightarrow> (nat option \<times> uchar list, 'a kfs_scheme) res" where
  "namex path nameiparent name s =
    (case path of
       [] \<Rightarrow> Undef
     | c # _ \<Rightarrow>
         bind (if c = slash then iget ROOTDEV ROOTINO s
               else
                 bind (myproc s) (\<lambda>po s.
                 case po of
                   None \<Rightarrow> Undef
                 | Some p \<Rightarrow> (case p_cwd (procs s p) of None \<Rightarrow> Undef | Some cwd \<Rightarrow> idup cwd s))) (\<lambda>ip s.
         namex_loop path nameiparent name ip s))"

definition namei :: "uchar list \<Rightarrow> 'a kfs_scheme \<Rightarrow> (nat option, 'a kfs_scheme) res" where
  "namei path s = bind (namex path False (replicate DIRSIZ 0) s) (\<lambda>(ip, _) s. Ok ip s)"

definition nameiparent :: "uchar list \<Rightarrow> uchar list \<Rightarrow> 'a kfs_scheme \<Rightarrow> (nat option \<times> uchar list, 'a kfs_scheme) res" where
  "nameiparent path name s = namex path True name s"

end
