(* ===== verification/Fs_Block.thy ===== *)
theory Fs_Block
  imports Fs
begin

text \<open>
  The block allocator of \<open>kernel/fs.c\<close> against its abstract view, the set of blocks whose bit in the free map is set:
  \<open>balloc\<close> takes the first free block and zeroes it, \<open>bfree\<close> gives a block back, nothing else changes.
\<close>

unbundle bit_operations_syntax

section \<open>Frames\<close>

lemma tx_frame_kfs:
  fixes s t :: "'a kfs_scheme"
  assumes "tx_frame s t"
  shows "sb t = sb s" "itable t = itable s"
  using assms by (auto simp: tx_frame_def)

lemma tx_frame_mem: "tx_frame s t \<Longrightarrow> mem t = mem s"
  by (auto simp: tx_frame_def)

lemma tx_cong:
  assumes "bufs t = bufs s" "\<And>b. sleeplocks t (buf_lock b) = sleeplocks s (buf_lock b)" "disk_image t = disk_image s"
    "disk_writes t = disk_writes s" "calm t = calm s" "mycpu t = mycpu s" "\<And>j. p_pid (procs t j) = p_pid (procs s j)"
    "lh_n t = lh_n s" "lh_block t = lh_block s" "log_size t = log_size s" "log_dev t = log_dev s" "log_outstanding t = log_outstanding s"
  shows "tx p n H t = tx p n H s" "txw p W n H t = txw p W n H s" "blk t = blk s" "holder t = holder s" "logged t = logged s"
proof -
  show h: "holder t = holder s" using assms by (simp add: holder_def [abs_def])
  have d: "disk t = disk s" using assms by (simp add: disk_def)
  show b: "blk t = blk s" using h d assms by (simp add: blk_def [abs_def] cong: option.case_cong if_cong)
  have r: "nrefs t = nrefs s" using h assms by (simp add: nrefs_def [abs_def] cong: option.case_cong)
  have i: "bcache_inv t = bcache_inv s" using d assms by (simp add: bcache_inv_def)
  have n: "nlog t = nlog s" using assms by (simp add: nlog_def)
  show l: "logged t = logged s" using n assms by (simp add: logged_def)
  show x: "tx p n H t = tx p n H s" for n
    using h d b r i n l assms by (simp add: tx_def bio_ok_def held_def)
  show "txw p W n H t = txw p W n H s" using x l by (simp add: txw_def)
qed

lemma kfs_upd_simps [simp]:
  "tx p n H (s\<lparr>itable := it\<rparr>) = tx p n H s" "txw p W n H (s\<lparr>itable := it\<rparr>) = txw p W n H s" "blk (s\<lparr>itable := it\<rparr>) = blk s"
  "holder (s\<lparr>itable := it\<rparr>) = holder s" "logged (s\<lparr>itable := it\<rparr>) = logged s"
  by (rule tx_cong; simp add: calm_def machine_defs)+

lemma upd_inode_simps [simp]:
  "tx p n H (upd_inode ip f s) = tx p n H s" "txw p W n H (upd_inode ip f s) = txw p W n H s" "blk (upd_inode ip f s) = blk s"
  "holder (upd_inode ip f s) = holder s" "logged (upd_inode ip f s) = logged s" "sb (upd_inode ip f s) = sb s"
  "itable (upd_inode ip f s) = (itable s)(ip := f (itable s ip))" "sleeplocks (upd_inode ip f s) = sleeplocks s"
  "procs (upd_inode ip f s) = procs s" "mycpu (upd_inode ip f s) = mycpu s" "calm (upd_inode ip f s) = calm s" "bufs (upd_inode ip f s) = bufs s"
  by (simp_all add: upd_inode_def calm_def machine_defs)

lemma inode_sleeplock_simps [simp]:
  "tx p n H (sl_take (inode_lock ip) pid s) = tx p n H s" "txw p W n H (sl_take (inode_lock ip) pid s) = txw p W n H s"
  "blk (sl_take (inode_lock ip) pid s) = blk s" "holder (sl_take (inode_lock ip) pid s) = holder s"
  "logged (sl_take (inode_lock ip) pid s) = logged s"
  "tx p n H (sl_drop (inode_lock ip) s) = tx p n H s" "txw p W n H (sl_drop (inode_lock ip) s) = txw p W n H s"
  "blk (sl_drop (inode_lock ip) s) = blk s" "holder (sl_drop (inode_lock ip) s) = holder s"
  "logged (sl_drop (inode_lock ip) s) = logged s"
  by (rule tx_cong; simp add: sl_take_def sl_drop_def wake_def woken_def calm_def machine_defs)+

lemma sl_kfs_simps [simp]:
  "sb (sl_take lk pid s) = sb s" "itable (sl_take lk pid s) = itable s" "sb (sl_drop lk s) = sb s" "itable (sl_drop lk s) = itable s"
  by (simp_all add: sl_take_def sl_drop_def wake_def)

text \<open>What the operations on inodes leave alone: they change the inode table besides the blocks.\<close>

definition fs_frame :: "'a kfs_scheme \<Rightarrow> 'a kfs_scheme \<Rightarrow> bool" where
  "fs_frame s t \<longleftrightarrow> tx_frame (s\<lparr>itable := itable t\<rparr>) t"

lemma tx_frame_itable:
  fixes s t :: "'a kfs_scheme"
  assumes "tx_frame s t"
  shows "tx_frame (s\<lparr>itable := it\<rparr>) (t\<lparr>itable := it\<rparr>)"
proof -
  obtain bf sl pr n bl where e: "t = s\<lparr>bufs := bf, sleeplocks := sl, procs := pr, lh_n := n, lh_block := bl\<rparr>"
    using assms unfolding tx_frame_def by blast
  then have "t\<lparr>itable := it\<rparr> = s\<lparr>itable := it, bufs := bf, sleeplocks := sl, procs := pr, lh_n := n, lh_block := bl\<rparr>" by simp
  then show ?thesis
    by (rule tx_frameI) (use assms in \<open>auto simp: tx_frame_def procs_same_def machine_defs\<close>)
qed

lemma fs_frame_tx: "tx_frame s t \<Longrightarrow> fs_frame s t"
  using tx_frame_itable [of s t "itable t"] by (simp add: fs_frame_def)

lemma fs_frame_refl [simp]: "fs_frame s s" "fs_frame s (upd_inode ip f s)" "fs_frame s (s\<lparr>itable := it\<rparr>)"
  by (simp_all add: fs_frame_def upd_inode_def)

lemma fs_frame_trans [trans]:
  fixes s t u :: "'a kfs_scheme"
  assumes "fs_frame s t" "fs_frame t u"
  shows "fs_frame s u"
  using tx_frame_trans [OF tx_frame_itable [OF assms(1) [unfolded fs_frame_def], of "itable u"]] assms(2)
  by (simp add: fs_frame_def)

lemma fs_frame_views:
  fixes s t :: "'a kfs_scheme"
  assumes "fs_frame s t"
  shows "sb t = sb s" "mycpu t = mycpu s" "mem t = mem s" "sleeplocks t (inode_lock ip) = sleeplocks s (inode_lock ip)"
    "p_pid (procs t j) = p_pid (procs s j)" "cpu_proc (mycpu s) = Some i \<Longrightarrow> procs t i = procs s i" "disk t = disk s"
    "log_start t = log_start s" "log_size t = log_size s" "log_outstanding t = log_outstanding s" "logged s \<subseteq> logged t"
proof -
  note a = assms [unfolded fs_frame_def]
  show "sb t = sb s" "disk t = disk s" "log_start t = log_start s" "log_size t = log_size s" "log_outstanding t = log_outstanding s"
    using tx_frame_kfs [OF a] tx_frame_views [OF a] by (simp_all add: disk_def)
  show "mycpu t = mycpu s" using tx_frame_mycpu [OF a] by (simp add: machine_defs)
  show "mem t = mem s" using tx_frame_mem [OF a] by simp
  show "sleeplocks t (inode_lock ip) = sleeplocks s (inode_lock ip)" "logged s \<subseteq> logged t" using a by (simp_all add: tx_frame_def)
  have ps: "procs_same (s\<lparr>itable := itable t\<rparr>) t" using a by (simp add: tx_frame_def)
  then have "procs t j = (procs s j)\<lparr>p_state := p_state (procs t j)\<rparr>" by (simp add: procs_same_def)
  then show "p_pid (procs t j) = p_pid (procs s j)" by (metis proc.select_convs(5) proc.update_convs(1) proc.surjective proc.simps(1))
  show "cpu_proc (mycpu s) = Some i \<Longrightarrow> procs t i = procs s i" using ps by (simp add: procs_same_def machine_defs)
qed

lemma tx_calm: "tx p n H s \<Longrightarrow> calm s \<and> cpu_proc (mycpu s) = Some p" "txw p W n H s \<Longrightarrow> calm s \<and> cpu_proc (mycpu s) = Some p"
  by (simp_all add: txw_def tx_def bio_ok_def)

section \<open>Bits\<close>

lemma bit_used_iff: "bit_used d i \<longleftrightarrow> bit (d ! (i div 8)) (i mod 8)"
  by (simp add: bit_used_def bit_mask_def push_bit_of_1 and_exp_eq_0_iff_not_bit)

lemma bit_mask_bit: "bit (bit_mask i) k \<longleftrightarrow> k = i mod 8"
  by (auto simp: bit_mask_def bit_simps)

lemma div_mod_8_cong: "i div 8 = j div 8 \<Longrightarrow> i mod 8 = j mod 8 \<Longrightarrow> i = (j :: nat)"
  by (metis div_mult_mod_eq)

definition set_used :: "nat \<Rightarrow> uchar list \<Rightarrow> uchar list" where
  "set_used i d = d[i div 8 := (d ! (i div 8)) OR bit_mask i]"

definition set_free :: "nat \<Rightarrow> uchar list \<Rightarrow> uchar list" where
  "set_free i d = d[i div 8 := (d ! (i div 8)) AND NOT (bit_mask i)]"

lemma length_set_used [simp]: "length (set_used i d) = length d" "length (set_free i d) = length d"
  by (simp_all add: set_used_def set_free_def)

lemma bit_used_set_used:
  assumes "length d = BSIZE" "i < BPB"
  shows "bit_used (set_used i d) j \<longleftrightarrow> j = i \<or> bit_used d j"
proof (cases "j div 8 = i div 8")
  case True
  then show ?thesis using assms
    by (auto simp: bit_used_iff set_used_def bit_mask_bit bit_or_iff BPB_def nth_list_update dest: div_mod_8_cong)
qed (auto simp: bit_used_iff set_used_def)

lemma bit_used_set_free:
  assumes "length d = BSIZE" "i < BPB"
  shows "bit_used (set_free i d) j \<longleftrightarrow> j \<noteq> i \<and> bit_used d j"
proof (cases "j div 8 = i div 8")
  case True
  have "j mod 8 < 8" by simp
  then show ?thesis using assms True
    by (auto simp: bit_used_iff set_free_def bit_mask_bit bit_and_iff bit_not_iff BPB_def nth_list_update dest: div_mod_8_cong)
qed (auto simp: bit_used_iff set_free_def)

lemma set_free_set_used:
  assumes "length d = BSIZE" "i < BPB" "\<not> bit_used d i"
  shows "set_free i (set_used i d) = d"
proof -
  have l: "i div 8 < length d" using assms by (simp add: BPB_def)
  have "(d ! (i div 8) OR bit_mask i) AND NOT (bit_mask i) = d ! (i div 8)"
    using assms(3) by (intro bit_word_eqI) (auto simp: bit_simps bit_mask_bit bit_used_iff)
  then show ?thesis using l by (simp add: set_free_def set_used_def)
qed

section \<open>Search\<close>

lemma balloc_scan_found:
  assumes "bi \<le> j" "j < bi + k" "j < BPB" "j < limit" "\<not> bit_used d j" "\<And>i. bi \<le> i \<Longrightarrow> i < j \<Longrightarrow> bit_used d i"
  shows "balloc_scan k bi limit d = Some j"
  using assms
proof (induction k arbitrary: bi)
  case (Suc k)
  show ?case
  proof (cases "bi = j")
    case False
    then show ?thesis using Suc.IH [of "Suc bi"] Suc.prems by simp
  qed (use Suc.prems in simp)
qed simp

lemma balloc_scan_none:
  assumes "\<And>i. bi \<le> i \<Longrightarrow> i < BPB \<Longrightarrow> i < limit \<Longrightarrow> bit_used d i"
  shows "balloc_scan k bi limit d = None"
  using assms by (induction k arbitrary: bi) auto

section \<open>The set of blocks in use\<close>

definition used :: "'a kfs_scheme \<Rightarrow> nat \<Rightarrow> bool" where
  "used s b \<longleftrightarrow> bit_used (blk s (BBLOCK (of_nat b) (sb s))) (b mod BPB)"

abbreviation nblk :: "'a kfs_scheme \<Rightarrow> nat" where
  "nblk s \<equiv> unat (sb_size (sb s))"

text \<open>
  The layout of the disk as far as the allocator depends on it: blocks have their size, the blocks of the map lie on the
  disk, are in use, and the size leaves room for the \<open>int\<close> that counts blocks.
\<close>

definition map_ok :: "'a kfs_scheme \<Rightarrow> bool" where
  "map_ok s \<longleftrightarrow> (\<forall>c. length (blk s c) = BSIZE) \<and> nblk s + BPB \<le> 2 ^ 31 \<and>
     (\<forall>b < nblk s. unat (BBLOCK (of_nat b) (sb s)) < nblk s \<and> used s (unat (BBLOCK (of_nat b) (sb s))))"

lemma BBLOCK_nat:
  assumes "b < 2 ^ 32"
  shows "BBLOCK (of_nat b) x = of_nat (b div BPB) + sb_bmapstart x"
proof -
  have "(of_nat b :: uint) div of_nat BPB = of_nat (b div BPB)"
    using assms by (simp add: word_unat_eq_iff unat_div unat_of_nat BPB_def BSIZE_def)
  then show ?thesis by (simp add: BBLOCK_def)
qed

lemma BBLOCK_eq_iff:
  assumes "b < 2 ^ 32" "c < 2 ^ 32"
  shows "BBLOCK (of_nat b) x = BBLOCK (of_nat c) x \<longleftrightarrow> b div BPB = c div BPB"
proof -
  have "b div BPB < 2 ^ 32" "c div BPB < 2 ^ 32"
    using assms div_le_dividend [of b BPB] div_le_dividend [of c BPB] by linarith+
  then have "(of_nat (b div BPB) :: uint) = of_nat (c div BPB) \<longleftrightarrow> b div BPB = c div BPB"
    by (simp add: word_unat_eq_iff unat_of_nat)
  then show ?thesis using assms by (simp add: BBLOCK_nat)
qed

lemma nblk_less: "b < nblk s \<Longrightarrow> b < 2 ^ 32"
  using unsigned_less [of "sb_size (sb s)", where ?'a = nat] by simp

lemma used_in_chunk:
  fixes s :: "'a kfs_scheme"
  assumes "b mod BPB = 0" "b \<le> i" "i < b + BPB" "i < nblk s"
  shows "used s i \<longleftrightarrow> bit_used (blk s (BBLOCK (of_nat b) (sb s))) (i - b)" "BBLOCK (of_nat i) (sb s) = BBLOCK (of_nat b) (sb s)"
    "i mod BPB = i - b"
proof -
  obtain k where k: "b = BPB * k" using assms(1) by auto
  obtain j where j: "i = BPB * k + j" "j < BPB" using assms(2,3) k by (metis add_less_cancel_left le_Suc_ex)
  have d: "i div BPB = b div BPB" "i mod BPB = i - b" using j k by simp_all
  show e: "BBLOCK (of_nat i) (sb s) = BBLOCK (of_nat b) (sb s)"
    using BBLOCK_eq_iff [of i b "sb s"] nblk_less [of i s] assms d by simp
  show "i mod BPB = i - b" by fact
  show "used s i \<longleftrightarrow> bit_used (blk s (BBLOCK (of_nat b) (sb s))) (i - b)" by (simp add: used_def e d(2))
qed

section \<open>balloc\<close>

lemma bzero_spec:
  fixes s :: "'a kfs_scheme"
  assumes "txw p W (Suc n) H s" "c \<notin> H" "c \<in> W"
  shows "\<exists>t. bzero ROOTDEV c s = Ok () t \<and> txw p W (Suc n) H t \<and> blk t = (blk s)(c := replicate BSIZE 0) \<and> tx_frame s t \<and>
    (\<forall>c' \<in> H. holder t c' = holder s c')"
  using txs.update [OF assms, where d = "replicate BSIZE 0"] by (auto simp: bzero_def Let_def)

text \<open>The effect of taking block \<open>a\<close>.\<close>

definition blk_taken :: "'a kfs_scheme \<Rightarrow> nat \<Rightarrow> uint \<Rightarrow> uchar list" where
  "blk_taken s a = (let m = BBLOCK (of_nat a) (sb s) in (blk s)(m := set_used (a mod BPB) (blk s m), of_nat a := replicate BSIZE 0))"

lemma balloc_loop_spec:
  fixes s :: "'a kfs_scheme"
  assumes "txw p W (Suc n) H s" "map_ok s" "b mod BPB = 0" "b \<le> a" "a < nblk s" "\<not> used s a" "\<And>i. b \<le> i \<Longrightarrow> i < a \<Longrightarrow> used s i"
    "BBLOCK (of_nat a) (sb s) \<in> W" "of_nat a \<in> W" "of_nat a \<notin> H" "\<And>i. i \<le> a \<Longrightarrow> BBLOCK (of_nat i) (sb s) \<notin> H"
  shows "\<exists>t. balloc_loop b ROOTDEV s = Ok (of_nat a) t \<and> txw p W (Suc n) H t \<and> blk t = blk_taken s a \<and> tx_frame s t \<and>
    (\<forall>c \<in> H. holder t c = holder s c)"
  using assms
proof (induction "a - b" arbitrary: b s rule: less_induct)
  case less
  note A = less.prems
  let ?m = "BBLOCK (of_nat b) (sb s)"
  have b: "b < nblk s" "\<not> 2 ^ 31 \<le> b + BPB" "?m \<notin> H" using A(2,4,5,11) by (auto simp: map_ok_def)
  note u = used_in_chunk [OF A(3), where s = s]
  show ?case
  proof (cases "a < b + BPB")
    case True
    note ua = u [OF A(4) True A(5)]
    have "balloc_scan BPB 0 (nblk s - b) (blk s ?m) = Some (a - b)"
    proof (rule balloc_scan_found)
      show "bit_used (blk s ?m) i" if "0 \<le> i" "i < a - b" for i
        using u(1) [of "b + i"] A(7) [of "b + i"] that True A(5) by simp
    qed (use True A ua in auto)
    moreover have "?m \<in> W" using A(8) ua by simp
    then obtain bp u v t where r: "bread ROOTDEV ?m s = Ok bp u" "b_data (bufs u bp) = blk s ?m" "tx_frame s u"
      "log_write bp (set_data bp (set_used (a - b) (blk s ?m)) u) = Ok () v" "brelse bp v = Ok () t" "txw p W (Suc n) H t"
      "blk t = (blk s)(?m := set_used (a - b) (blk s ?m))" "tx_frame s t" "\<forall>c \<in> H. holder t c = holder s c"
      using txs.update [OF A(1) b(3), where d = "set_used (a - b) (blk s ?m)"] by blast
    moreover obtain w where "bzero ROOTDEV (of_nat a) t = Ok () w" "txw p W (Suc n) H w" "blk w = (blk t)(of_nat a := replicate BSIZE 0)"
      "tx_frame t w" "\<forall>c \<in> H. holder w c = holder t c" using bzero_spec [OF r(6) A(10,9)] by blast
    moreover have "tx_frame s w" using tx_frame_trans [OF r(8)] calculation by blast
    moreover have "blk w = blk_taken s a" using calculation ua by (simp add: blk_taken_def Let_def)
    ultimately show ?thesis
      using b A(4) tx_frame_kfs [OF r(3)] by (simp add: balloc_loop.simps [of b] set_used_def)
  next
    case False
    have "balloc_scan BPB 0 (nblk s - b) (blk s ?m) = None"
    proof (rule balloc_scan_none)
      show "bit_used (blk s ?m) i" if "0 \<le> i" "i < BPB" "i < nblk s - b" for i
        using u(1) [of "b + i"] A(7) [of "b + i"] that False by simp
    qed
    moreover obtain bp u t where r: "bread ROOTDEV ?m s = Ok bp u" "b_data (bufs u bp) = blk s ?m" "tx_frame s u" "brelse bp u = Ok () t"
      "txw p W (Suc n) H t" "blk t = blk s" "tx_frame s t" "\<forall>c \<in> H. holder t c = holder s c"
      using txs.peek [OF A(1) b(3)] by blast
    moreover have k: "sb t = sb s" "map_ok t = map_ok s" "\<And>i. used t i = used s i" "blk_taken t a = blk_taken s a"
      using tx_frame_kfs [OF r(7)] r(6) by (simp_all add: map_ok_def used_def blk_taken_def)
    have mm: "a - (b + BPB) < a - b" "(b + BPB) mod BPB = 0" using False A(3) by (auto simp: BPB_def BSIZE_def)
    moreover obtain w where "balloc_loop (b + BPB) ROOTDEV t = Ok (of_nat a) w" "txw p W (Suc n) H w" "blk w = blk_taken s a" "tx_frame t w"
      "\<forall>c \<in> H. holder w c = holder t c"
      using less.hyps [OF mm(1) r(5) _ mm(2)] A False k by auto
    moreover have "tx_frame s w" using tx_frame_trans [OF r(7)] calculation by blast
    ultimately show ?thesis
      using b tx_frame_kfs [OF r(3)] by (simp add: balloc_loop.simps [of b])
  qed
qed


lemma balloc_loop_full:
  fixes s :: "'a kfs_scheme"
  assumes "txw p W (Suc n) H s" "map_ok s" "b mod BPB = 0" "\<And>i. b \<le> i \<Longrightarrow> i < nblk s \<Longrightarrow> used s i"
    "\<And>i. i < nblk s \<Longrightarrow> BBLOCK (of_nat i) (sb s) \<notin> H"
  shows "balloc_loop b ROOTDEV s = Panic ''balloc: out of blocks''"
  using assms
proof (induction "nblk s - b" arbitrary: b s rule: less_induct)
  case less
  note A = less.prems
  let ?m = "BBLOCK (of_nat b) (sb s)"
  show ?case
  proof (cases "b < nblk s")
    case True
    have b: "\<not> 2 ^ 31 \<le> b + BPB" "?m \<notin> H" using A(2,5) True by (auto simp: map_ok_def)
    have "balloc_scan BPB 0 (nblk s - b) (blk s ?m) = None"
    proof (rule balloc_scan_none)
      show "bit_used (blk s ?m) i" if "0 \<le> i" "i < BPB" "i < nblk s - b" for i
        using used_in_chunk(1) [OF A(3), of "b + i" s] A(4) [of "b + i"] that by simp
    qed
    moreover obtain bp u t where r: "bread ROOTDEV ?m s = Ok bp u" "b_data (bufs u bp) = blk s ?m" "tx_frame s u" "brelse bp u = Ok () t"
      "txw p W (Suc n) H t" "blk t = blk s" "tx_frame s t"
      using txs.peek [OF A(1) b(2)] by blast
    moreover have k: "sb t = sb s" "map_ok t = map_ok s" "\<And>i. used t i = used s i"
      using tx_frame_kfs [OF r(7)] r(6) by (simp_all add: map_ok_def used_def)
    have mm: "nblk t - (b + BPB) < nblk s - b" "(b + BPB) mod BPB = 0" using True A(3) k by (auto simp: BPB_def BSIZE_def)
    have "balloc_loop (b + BPB) ROOTDEV t = Panic ''balloc: out of blocks''"
      using less.hyps [OF mm(1) r(5) _ mm(2)] A k by auto
    ultimately show ?thesis using True b tx_frame_kfs [OF r(3)] by (simp add: balloc_loop.simps [of b])
  qed (simp add: balloc_loop.simps [of b])
qed

text \<open>What a new block does to the map.\<close>

lemma blk_taken_map:
  fixes s t :: "'a kfs_scheme"
  assumes "map_ok s" "a < nblk s" "\<not> used s a" "blk t = blk_taken s a" "sb t = sb s"
  shows "\<And>i. i < nblk s \<Longrightarrow> used t i \<longleftrightarrow> i = a \<or> used s i" "map_ok t" "blk t (of_nat a) = replicate BSIZE 0"
    "\<And>c. c \<noteq> of_nat a \<Longrightarrow> c \<noteq> BBLOCK (of_nat a) (sb s) \<Longrightarrow> blk t c = blk s c"
    "\<And>c. length (blk t c) = BSIZE" "i < nblk s \<Longrightarrow> BBLOCK (of_nat i) (sb s) \<noteq> of_nat a"
proof -
  let ?m = "BBLOCK (of_nat a) (sb s)"
  note a32 = nblk_less [OF assms(2)]
  have len: "\<And>c. length (blk s c) = BSIZE" using assms(1) by (simp add: map_ok_def)
  have ne: "BBLOCK (of_nat i) (sb s) \<noteq> of_nat a" if "i < nblk s" for i
  proof
    assume e: "BBLOCK (of_nat i) (sb s) = of_nat a"
    then have "unat (BBLOCK (of_nat i) (sb s)) = a" using a32 by (simp add: unat_of_nat)
    then show False using assms(1,3) that by (auto simp: map_ok_def)
  qed
  then show "i < nblk s \<Longrightarrow> BBLOCK (of_nat i) (sb s) \<noteq> of_nat a" .
  have m: "blk t ?m = set_used (a mod BPB) (blk s ?m)" using ne [OF assms(2)] assms(4) by (simp add: blk_taken_def Let_def)
  show o: "c \<noteq> of_nat a \<Longrightarrow> c \<noteq> ?m \<Longrightarrow> blk t c = blk s c" for c using assms(4) by (simp add: blk_taken_def Let_def)
  show z: "blk t (of_nat a) = replicate BSIZE 0" using assms(4) by (simp add: blk_taken_def Let_def)
  show l: "length (blk t c) = BSIZE" for c using o [of c] m z len by (cases "c = of_nat a"; cases "c = ?m") auto
  show u: "used t i \<longleftrightarrow> i = a \<or> used s i" if i: "i < nblk s" for i
  proof (cases "BBLOCK (of_nat i) (sb s) = ?m")
    case True
    have "i mod BPB = a mod BPB \<longleftrightarrow> i = a"
      using True BBLOCK_eq_iff [OF nblk_less [OF i] a32] by (metis div_mult_mod_eq)
    moreover have "a mod BPB < BPB" by (simp add: BPB_def BSIZE_def)
    ultimately show ?thesis using True m bit_used_set_used [OF len, of "a mod BPB"] by (simp add: used_def assms(5))
  next
    case False
    then show ?thesis using o [OF ne [OF i]] by (auto simp: used_def assms(5))
  qed
  show "map_ok t" using l assms(1,5) u by (simp add: map_ok_def)
qed

lemma balloc_spec:
  fixes s :: "'a kfs_scheme"
  assumes "txw p W (Suc n) H s" "map_ok s" "a < nblk s" "\<not> used s a" "\<And>i. i < a \<Longrightarrow> used s i"
    "BBLOCK (of_nat a) (sb s) \<in> W" "of_nat a \<in> W" "of_nat a \<notin> H" "\<And>i. i \<le> a \<Longrightarrow> BBLOCK (of_nat i) (sb s) \<notin> H"
  shows "\<exists>t. balloc ROOTDEV s = Ok (of_nat a) t \<and> txw p W (Suc n) H t \<and> blk t = blk_taken s a \<and> tx_frame s t \<and>
    (\<forall>c \<in> H. holder t c = holder s c)"
  unfolding balloc_def using balloc_loop_spec [OF assms(1,2) _ _ assms(3,4,5,6,7,8,9), of 0] by simp

section \<open>bfree\<close>

lemma unat_mod_BPB: "unat (b :: uint) mod BPB < BPB"
  by (simp add: BPB_def BSIZE_def)

lemma bfree_spec:
  fixes s :: "'a kfs_scheme"
  assumes "txw p W (Suc n) H s" "used s (unat b)" "BBLOCK b (sb s) \<in> W" "BBLOCK b (sb s) \<notin> H"
  shows "\<exists>t. bfree ROOTDEV b s = Ok () t \<and> txw p W (Suc n) H t \<and>
    blk t = (blk s)(BBLOCK b (sb s) := set_free (unat b mod BPB) (blk s (BBLOCK b (sb s)))) \<and> tx_frame s t \<and>
    (\<forall>c \<in> H. holder t c = holder s c)"
  using txs.update [OF assms(1,4,3), where d = "set_free (unat b mod BPB) (blk s (BBLOCK b (sb s)))"] assms(2)
  by (auto simp: bfree_def Let_def set_free_def used_def)

lemma bfree_free:
  fixes s :: "'a kfs_scheme"
  assumes "txw p W (Suc n) H s" "\<not> used s (unat b)" "BBLOCK b (sb s) \<notin> H"
  shows "bfree ROOTDEV b s = Panic ''freeing free block''"
  using txs.peek [OF assms(1,3)] assms(2) by (auto simp: bfree_def Let_def used_def)

section \<open>A disk made by \<open>mkfs\<close>\<close>

text \<open>
  The layout that \<open>mkfs\<close> gives to a disk of 1000 blocks: log at 2, inodes at 32, free map at 45, data from 46 on. Of the
  blocks, the first 48 are in use. The state is inside a transaction of process 1.
\<close>

definition demo_sb :: superblock where
  "demo_sb = \<lparr>sb_magic = FSMAGIC, sb_size = 1000, sb_nblocks = 954, sb_ninodes = 200, sb_nlog = 30, sb_logstart = 2,
     sb_inodestart = 32, sb_bmapstart = 45\<rparr>"

definition demo_disk :: "uint \<Rightarrow> uchar list" where
  "demo_disk = zero_disk(45 := replicate 6 255 @ replicate (BSIZE - 6) 0)"

definition bare_inode :: inode where
  "bare_inode = \<lparr>i_dev = 0, i_inum = 0, i_ref = 0, i_valid = False, i_type = 0, i_major = 0, i_minor = 0, i_nlink = 0, i_size = 0,
     i_addrs = \<lambda>_. 0\<rparr>"

definition idle_fs :: "(uint \<Rightarrow> uchar list) \<Rightarrow> (nat \<Rightarrow> inode) \<Rightarrow> kfs" where
  "idle_fs img it = klog.extend (boot_klog img) (kfs.fields demo_sb it)"

definition demo_fs :: "(uint \<Rightarrow> uchar list) \<Rightarrow> (nat \<Rightarrow> inode) \<Rightarrow> kfs" where
  "demo_fs img it = (idle_fs img it)\<lparr>log_outstanding := 1\<rparr>"

lemma idle_fs_simps:
  "sb (idle_fs img it) = demo_sb" "itable (idle_fs img it) = it" "disk (idle_fs img it) = img" "bio_ok 1 (idle_fs img it)"
  "b < NBUF \<Longrightarrow> \<not> sl_locked (sleeplocks (idle_fs img it) (buf_lock b))" "nrefs (idle_fs img it) c = 0" "log_start (idle_fs img it) = 2"
  "log_size (idle_fs img it) = 30" "log_outstanding (idle_fs img it) = 0" "\<not> log_committing (idle_fs img it)"
  "log_dev (idle_fs img it) = ROOTDEV" "lh_n (idle_fs img it) = 0" "blk (idle_fs img it) = img"
proof -
  have e: "bufs (idle_fs img it) = bufs (boot_klog img)" "sleeplocks (idle_fs img it) = sleeplocks (boot_klog img)"
    "disk_image (idle_fs img it) = disk_image (boot_klog img)" "disk_writes (idle_fs img it) = disk_writes (boot_klog img)"
    "calm (idle_fs img it) = calm (boot_klog img)" "mycpu (idle_fs img it) = mycpu (boot_klog img)"
    by (simp_all add: idle_fs_def klog.defs kfs.defs calm_def machine_defs)
  note v = bio_views_cong [OF e] boot_klog_views [where img = img]
  show ok: "bio_ok 1 (idle_fs img it)" and n: "nrefs (idle_fs img it) c = 0" for c using v by simp_all
  show d: "disk (idle_fs img it) = img" using v by simp
  show "blk (idle_fs img it) = img" using unref_clean [of "idle_fs img it"] ok n d by (simp add: bio_ok_def fun_eq_iff)
  show "b < NBUF \<Longrightarrow> \<not> sl_locked (sleeplocks (idle_fs img it) (buf_lock b))" using v e(2) by simp
  have "log_start (boot_klog img) = 2" "log_size (boot_klog img) = 30" "log_outstanding (boot_klog img) = 0"
    "\<not> log_committing (boot_klog img)" "log_dev (boot_klog img) = ROOTDEV" "lh_n (boot_klog img) = 0" using v by simp_all
  then show "log_start (idle_fs img it) = 2" "log_size (idle_fs img it) = 30" "log_outstanding (idle_fs img it) = 0"
    "\<not> log_committing (idle_fs img it)" "log_dev (idle_fs img it) = ROOTDEV" "lh_n (idle_fs img it) = 0"
    "sb (idle_fs img it) = demo_sb" "itable (idle_fs img it) = it"
    by (simp_all add: idle_fs_def klog.defs kfs.defs)
qed

lemma demo_fs_views:
  assumes "length (img 2) = BSIZE" "get32 (img 2) 0 = 0"
  shows "log_idle 1 28 (idle_fs img it)" "finite W \<Longrightarrow> card W + n \<le> 28 \<Longrightarrow> txw 1 W n {} (demo_fs img it)"
    "sb (demo_fs img it) = demo_sb" "itable (demo_fs img it) = it" "blk (demo_fs img it) = img" "logged (demo_fs img it) = {}"
proof -
  show i: "log_idle 1 28 (idle_fs img it)"
    using idle_fs_simps [where img = img and it = it] assms by (simp add: log_idle_def NBUF_def)
  note b = begin_op_spec [OF i, folded demo_fs_def]
  show "logged (demo_fs img it) = {}" by (fact b(4))
  then show "finite W \<Longrightarrow> card W + n \<le> 28 \<Longrightarrow> txw 1 W n {} (demo_fs img it)"
    using tx_weaken [OF b(2)] by (simp add: txw_def)
  show "sb (demo_fs img it) = demo_sb" "itable (demo_fs img it) = it" using idle_fs_simps [where img = img and it = it] by (simp_all add: demo_fs_def)
  have "blk (demo_fs img it) = blk (idle_fs img it)"
    by (rule bio_views_cong) (simp_all add: demo_fs_def calm_def machine_defs)
  then show "blk (demo_fs img it) = img" using idle_fs_simps [where img = img and it = it] by simp
qed

lemma demo_disk_simps [simp]:
  "length (demo_disk c) = BSIZE" "get32 (demo_disk 2) 0 = 0" "c \<noteq> 45 \<Longrightarrow> demo_disk c = replicate BSIZE 0"
  by (auto simp: demo_disk_def BSIZE_def zero_disk_def get32_def)

lemmas demo_views = demo_fs_views [where img = demo_disk, OF demo_disk_simps(1,2)]

lemma demo_used: "i < 1000 \<Longrightarrow> used (demo_fs demo_disk it) i \<longleftrightarrow> i < 48"
proof -
  assume i: "i < 1000"
  have "bit_used (demo_disk 45) i \<longleftrightarrow> i < 48"
  proof (cases "i < 48")
    case True
    have "bit (255 :: uchar) (i mod 8)" using bit_mask_iff [of 8 "i mod 8", where ?'a = uchar] by (simp add: mask_eq_exp_minus_1)
    moreover have "i div 8 < 6" using True by linarith
    ultimately show ?thesis using True by (simp add: bit_used_iff demo_disk_def nth_append)
  qed (use i in \<open>auto simp: bit_used_iff demo_disk_def nth_append BSIZE_def\<close>)
  moreover have "BBLOCK (of_nat i) demo_sb = 45" using i BBLOCK_nat [of i demo_sb] by (simp add: demo_sb_def BPB_def BSIZE_def)
  ultimately show ?thesis using i demo_views [where it = it] by (simp add: used_def BPB_def BSIZE_def)
qed

lemma demo_map_ok: "map_ok (demo_fs demo_disk it)"
proof -
  have "BBLOCK (of_nat i) demo_sb = 45" if "i < 1000" for i
    using that BBLOCK_nat [of i demo_sb] by (simp add: demo_sb_def BPB_def BSIZE_def)
  then show ?thesis
    using demo_views [where it = it] demo_used [of 45 it] by (simp add: map_ok_def demo_sb_def BPB_def BSIZE_def)
qed


section \<open>Properties\<close>

text \<open>C12: Let a transaction have room in the log for the first free block \<open>a\<close> and for its block of the free map. Then
\<open>balloc\<close> returns \<open>a\<close>, now in use and filled with zeros; every other block keeps its status, and no block but \<open>a\<close> and the block
of the map changes. When every block is in use, \<open>balloc\<close> panics.\<close>

theorem balloc_first_free:
  fixes s :: "'a kfs_scheme"
  assumes "txw p W (Suc n) {} s" "map_ok s"
  shows "((\<forall>i < nblk s. used s i) \<longrightarrow> balloc ROOTDEV s = Panic ''balloc: out of blocks'') \<and>
    (\<forall>a < nblk s. \<not> used s a \<and> (\<forall>i < a. used s i) \<and> {of_nat a, BBLOCK (of_nat a) (sb s)} \<subseteq> W \<longrightarrow>
      (\<exists>t. balloc ROOTDEV s = Ok (of_nat a) t \<and> txw p W (Suc n) {} t \<and> map_ok t \<and> blk t (of_nat a) = replicate BSIZE 0 \<and>
        (\<forall>i < nblk s. used t i \<longleftrightarrow> i = a \<or> used s i) \<and>
        (\<forall>c. c \<notin> {of_nat a, BBLOCK (of_nat a) (sb s)} \<longrightarrow> blk t c = blk s c) \<and> tx_frame s t))"
proof (intro conjI impI allI)
  show "balloc ROOTDEV s = Panic ''balloc: out of blocks''" if "\<forall>i < nblk s. used s i"
    unfolding balloc_def using balloc_loop_full [OF assms, of 0] that by simp
  fix a
  assume a: "a < nblk s" and "\<not> used s a \<and> (\<forall>i < a. used s i) \<and> {of_nat a, BBLOCK (of_nat a) (sb s)} \<subseteq> W"
  then have b: "\<not> used s a" "\<And>i. i < a \<Longrightarrow> used s i" "BBLOCK (of_nat a) (sb s) \<in> W" "of_nat a \<in> W" by auto
  obtain t where t: "balloc ROOTDEV s = Ok (of_nat a) t" "txw p W (Suc n) {} t" "blk t = blk_taken s a" "tx_frame s t"
    using balloc_spec [OF assms a b] by auto
  show "\<exists>t. balloc ROOTDEV s = Ok (of_nat a) t \<and> txw p W (Suc n) {} t \<and> map_ok t \<and> blk t (of_nat a) = replicate BSIZE 0 \<and>
      (\<forall>i < nblk s. used t i \<longleftrightarrow> i = a \<or> used s i) \<and>
      (\<forall>c. c \<notin> {of_nat a, BBLOCK (of_nat a) (sb s)} \<longrightarrow> blk t c = blk s c) \<and> tx_frame s t"
    using t blk_taken_map [OF assms(2) a b(1) t(3) tx_frame_kfs(1) [OF t(4)]] by (intro exI [of _ t]) simp
qed

theorem balloc_first_free_witness:
  "\<exists>t. balloc ROOTDEV (demo_fs demo_disk (\<lambda>_. bare_inode)) = Ok 48 t \<and> blk t 48 = replicate BSIZE 0 \<and> used t 48 \<and> \<not> used t 49"
proof -
  let ?s = "demo_fs demo_disk (\<lambda>_. bare_inode)"
  have w: "txw 1 {45, 48} (Suc 0) {} ?s" by (rule demo_views) simp_all
  have v: "sb ?s = demo_sb" by (simp add: demo_views)
  moreover have "BBLOCK 48 demo_sb = 45" using BBLOCK_nat [of 48 demo_sb] by (simp add: demo_sb_def BPB_def BSIZE_def)
  moreover have "nblk ?s = 1000" using v by (simp add: demo_sb_def)
  ultimately have pre: "48 < nblk ?s" "\<not> used ?s 48 \<and> (\<forall>i < 48. used ?s i) \<and> {of_nat 48, BBLOCK (of_nat 48) (sb ?s)} \<subseteq> {45, 48}"
    using demo_used by simp_all
  obtain t where "balloc ROOTDEV ?s = Ok 48 t" "blk t 48 = replicate BSIZE 0" "\<forall>i < nblk ?s. used t i \<longleftrightarrow> i = 48 \<or> used ?s i"
    using conjunct2 [OF balloc_first_free [OF w demo_map_ok], THEN spec, THEN mp, THEN mp, OF pre] by auto
  then show ?thesis using demo_used [of 49] v by (simp add: demo_sb_def)
qed

text \<open>C13: \<open>bfree\<close> undoes \<open>balloc\<close>: freeing the block just allocated gives back the free map, byte by byte. Freeing a block that
is free already is a panic.\<close>

theorem bfree_undoes_balloc:
  fixes s t :: "'a kfs_scheme"
  assumes "txw p W (Suc n) {} s" "map_ok s" "a < nblk s" "\<not> used s a" "\<forall>i < a. used s i" "{of_nat a, BBLOCK (of_nat a) (sb s)} \<subseteq> W"
  shows "bfree ROOTDEV (of_nat a) s = Panic ''freeing free block'' \<and>
    (\<exists>u. bind (balloc ROOTDEV s) (\<lambda>b. bfree ROOTDEV b) = Ok () u \<and> txw p W (Suc n) {} u \<and>
      blk u = (blk s)(of_nat a := replicate BSIZE 0) \<and> (\<forall>i < nblk s. used u i = used s i))"
proof
  let ?m = "BBLOCK (of_nat a) (sb s)"
  have a: "unat (of_nat a :: uint) = a" using nblk_less [OF assms(3)] by (simp add: unat_of_nat)
  show "bfree ROOTDEV (of_nat a) s = Panic ''freeing free block''" using bfree_free [OF assms(1)] assms(4) a by simp
  obtain t where t: "balloc ROOTDEV s = Ok (of_nat a) t" "txw p W (Suc n) {} t" "blk t = blk_taken s a" "tx_frame s t"
    using balloc_spec [OF assms(1-4)] assms(5,6) by auto
  have sbt: "sb t = sb s" using tx_frame_kfs [OF t(4)] by simp
  note m = blk_taken_map [OF assms(2-4) t(3) sbt]
  obtain u where u: "bfree ROOTDEV (of_nat a) t = Ok () u" "txw p W (Suc n) {} u" "tx_frame t u"
    "blk u = (blk t)(?m := set_free (a mod BPB) (blk t ?m))"
    using bfree_spec [OF t(2), of "of_nat a"] m(1) [OF assms(3)] assms(6) a sbt by auto
  have ne: "?m \<noteq> of_nat a" using m(6) [OF assms(3)] .
  have "a mod BPB < BPB" by (simp add: BPB_def BSIZE_def)
  then have "set_free (a mod BPB) (blk t ?m) = blk s ?m"
    using set_free_set_used [of "blk s ?m" "a mod BPB"] assms(2,4) t(3) ne by (simp add: blk_taken_def Let_def map_ok_def used_def)
  then have b: "blk u = (blk s)(of_nat a := replicate BSIZE 0)" using u(4) t(3) ne by (auto simp: blk_taken_def Let_def fun_eq_iff)
  moreover have "used u i = used s i" if "i < nblk s" for i
    using b m(6) [OF that] tx_frame_kfs [OF u(3)] sbt by (simp add: used_def)
  ultimately show "\<exists>u. bind (balloc ROOTDEV s) (\<lambda>b. bfree ROOTDEV b) = Ok () u \<and> txw p W (Suc n) {} u \<and>
      blk u = (blk s)(of_nat a := replicate BSIZE 0) \<and> (\<forall>i < nblk s. used u i = used s i)"
    using t(1) u(1,2) by auto
qed

theorem bfree_undoes_balloc_witness:
  "\<exists>u. bind (balloc ROOTDEV (demo_fs demo_disk (\<lambda>_. bare_inode))) (\<lambda>b. bfree ROOTDEV b) = Ok () u \<and> blk u = demo_disk"
proof -
  let ?s = "demo_fs demo_disk (\<lambda>_. bare_inode)"
  have w: "txw 1 {45, 48} (Suc 0) {} ?s" by (rule demo_views) simp_all
  have v: "sb ?s = demo_sb" "blk ?s = demo_disk" by (simp_all add: demo_views)
  moreover have "BBLOCK 48 demo_sb = 45" using BBLOCK_nat [of 48 demo_sb] by (simp add: demo_sb_def BPB_def BSIZE_def)
  moreover have "nblk ?s = 1000" using v by (simp add: demo_sb_def)
  moreover have "demo_disk(48 := replicate BSIZE 0) = demo_disk" by (auto simp: fun_eq_iff)
  ultimately show ?thesis
    using bfree_undoes_balloc [OF w demo_map_ok, of 48] demo_used by auto
qed

end
