(* ===== verification/Fs_Inode.thy ===== *)
theory Fs_Inode
  imports Fs_Block
begin

text \<open>
  Inodes of \<open>kernel/fs.c\<close>: the bytes of a \<open>dinode\<close> in its block, \<open>iupdate\<close> and \<open>ilock\<close> as writing and reading them back, and
  the block map of a file, \<open>bmap\<close>.
\<close>

section \<open>The bytes of an inode\<close>

lemma nth_put32:
  "off + 4 \<le> length d \<Longrightarrow> i < length d \<Longrightarrow> put32 off w d ! i = (if off \<le> i \<and> i < off + 4 then bytes32 w ! (i - off) else d ! i)"
  using nth_put_bytes [of off "bytes32 w" d i] by (simp add: put32_def)

lemma nth_put16:
  "off + 2 \<le> length d \<Longrightarrow> i < length d \<Longrightarrow> put16 off w d ! i = (if off \<le> i \<and> i < off + 2 then bytes16 w ! (i - off) else d ! i)"
  using nth_put_bytes [of off "bytes16 w" d i] by (simp add: put16_def)

lemma get_mixed:
  "off + 2 \<le> length d \<Longrightarrow> off' + 4 \<le> length d \<Longrightarrow> off' + 4 \<le> off \<or> off + 2 \<le> off' \<Longrightarrow> get32 (put16 off v d) off' = get32 d off'"
  "off + 4 \<le> length d \<Longrightarrow> off' + 2 \<le> length d \<Longrightarrow> off' + 2 \<le> off \<or> off + 4 \<le> off' \<Longrightarrow> get16 (put32 off w d) off' = get16 d off'"
  by (rule get_cong; auto simp: nth_put16 nth_put32)+

lemma length_put_addrs [simp]:
  "off + 12 + 4 * n \<le> length d \<Longrightarrow> length (put_addrs n off a d) = length d"
  by (induction n) simp_all

lemma nth_put_addrs:
  "off + 12 + 4 * n \<le> length d \<Longrightarrow> i < length d \<Longrightarrow> i < off + 12 \<or> off + 12 + 4 * n \<le> i \<Longrightarrow> put_addrs n off a d ! i = d ! i"
  by (induction n) (auto simp: nth_put32)

lemma get_put_addrs:
  "off + 12 + 4 * n \<le> length d \<Longrightarrow> k < n \<Longrightarrow> get32 (put_addrs n off a d) (off + 12 + 4 * k) = a k"
proof (induction n)
  case (Suc n)
  then show ?case
    by (cases "k = n") (simp_all add: get32_put32)
qed simp

lemma put_addrs_other:
  assumes "off + 12 + 4 * n \<le> length d"
  shows "off' + 2 \<le> off + 12 \<or> off + 12 + 4 * n \<le> off' \<Longrightarrow> off' + 2 \<le> length d \<Longrightarrow> get16 (put_addrs n off a d) off' = get16 d off'"
    "off' + 4 \<le> off + 12 \<or> off + 12 + 4 * n \<le> off' \<Longrightarrow> off' + 4 \<le> length d \<Longrightarrow> get32 (put_addrs n off a d) off' = get32 d off'"
  using assms by (auto intro!: get_cong nth_put_addrs)

lemma length_put_dinode [simp]: "off + 64 \<le> length d \<Longrightarrow> length (put_dinode off i d) = length d"
  by (simp add: put_dinode_def NDIRECT_def)

lemma get_put_dinode:
  assumes "off + 64 \<le> length d"
  shows "get_dinode off (put_dinode off i d) j =
    j\<lparr>i_type := i_type i, i_major := i_major i, i_minor := i_minor i, i_nlink := i_nlink i, i_size := i_size i,
      i_addrs := \<lambda>k. if k \<le> NDIRECT then i_addrs i k else i_addrs j k\<rparr>"
  using assms unfolding get_dinode_def put_dinode_def
  by (simp add: put_addrs_other get_put_addrs NDIRECT_def get_mixed get16_put16 get32_put32 cong: if_cong)

lemma nth_put_dinode:
  assumes "off + 64 \<le> length d" "i < length d" "i < off \<or> off + 64 \<le> i"
  shows "put_dinode off x d ! i = d ! i"
  using assms unfolding put_dinode_def by (auto simp: nth_put_addrs nth_put16 nth_put32 NDIRECT_def)

text \<open>The other inodes of the block stay as they are.\<close>

lemma put_dinode_other:
  assumes "off + 64 \<le> length d" "off' + 64 \<le> length d" "off' + 64 \<le> off \<or> off + 64 \<le> off'"
  shows "get_dinode off' (put_dinode off i d) j = get_dinode off' d j"
proof -
  have n: "put_dinode off i d ! k = d ! k" if "off' \<le> k" "k < off' + 64" for k using nth_put_dinode [OF assms(1), of k i] that assms by auto
  have a: "get16 (put_dinode off i d) (off' + k) = get16 d (off' + k)" if "k + 2 \<le> 64" for k using that by (intro get_cong n) auto
  have "get32 (put_dinode off i d) (off' + k) = get32 d (off' + k)" if "k + 4 \<le> 64" for k using that by (intro get_cong n) auto
  then show ?thesis
    using a a [of 0] a [of 2] by (simp add: get_dinode_def NDIRECT_def add.assoc cong: if_cong)
qed

lemma dip_off_le: "dip_off inum + 64 \<le> BSIZE"
proof -
  have "unat inum mod IPB < IPB" by (simp add: IPB_def BSIZE_def)
  then show ?thesis by (simp add: dip_off_def IPB_def BSIZE_def)
qed

section \<open>\<open>iupdate\<close> and \<open>ilock\<close>\<close>

lemma iupdate_spec:
  fixes s :: "'a kfs_scheme"
  assumes "txw p W (Suc n) H s" "i_dev (itable s ip) = ROOTDEV" "IBLOCK (i_inum (itable s ip)) (sb s) \<in> W"
    "IBLOCK (i_inum (itable s ip)) (sb s) \<notin> H"
  shows "\<exists>t. iupdate ip s = Ok () t \<and> txw p W (Suc n) H t \<and> tx_frame s t \<and> (\<forall>c \<in> H. holder t c = holder s c) \<and>
    blk t = (blk s)(IBLOCK (i_inum (itable s ip)) (sb s) :=
      put_dinode (dip_off (i_inum (itable s ip))) (itable s ip) (blk s (IBLOCK (i_inum (itable s ip)) (sb s))))"
proof -
  let ?c = "IBLOCK (i_inum (itable s ip)) (sb s)"
  let ?d = "put_dinode (dip_off (i_inum (itable s ip))) (itable s ip) (blk s ?c)"
  obtain b u v t where r: "bread ROOTDEV ?c s = Ok b u" "b_data (bufs u b) = blk s ?c" "tx_frame s u" "log_write b (set_data b ?d u) = Ok () v"
    "brelse b v = Ok () t" "txw p W (Suc n) H t" "blk t = (blk s)(?c := ?d)" "tx_frame s t" "\<forall>c \<in> H. holder t c = holder s c"
    using txs.update [OF assms(1,4,3), where d = ?d] by blast
  then show ?thesis using assms(2) tx_frame_kfs [OF r(3)] by (simp add: iupdate_def Let_def)
qed

lemma ilock_valid:
  fixes s :: "'a kfs_scheme"
  assumes "calm s" "cpu_proc (mycpu s) = Some p" "\<not> sl_locked (sleeplocks s (inode_lock ip))" "1 \<le> sint (i_ref (itable s ip))" "i_valid (itable s ip)"
  shows "ilock (Some ip) s = Ok () (sl_take (inode_lock ip) (p_pid (procs s p)) s)"
  using assms by (simp add: ilock_def acquiresleep_free)

lemma ilock_load:
  fixes s :: "'a kfs_scheme"
  assumes "txw p W (Suc n) H s" "\<not> sl_locked (sleeplocks s (inode_lock ip))" "1 \<le> sint (i_ref (itable s ip))" "\<not> i_valid (itable s ip)"
    "i_dev (itable s ip) = ROOTDEV" "IBLOCK (i_inum (itable s ip)) (sb s) \<notin> H"
    "i = get_dinode (dip_off (i_inum (itable s ip))) (blk s (IBLOCK (i_inum (itable s ip)) (sb s))) (itable s ip)"
  shows "i_type i = 0 \<Longrightarrow> ilock (Some ip) s = Panic ''ilock: no type''"
    "i_type i \<noteq> 0 \<Longrightarrow> \<exists>t. ilock (Some ip) s = Ok () t \<and> txw p W (Suc n) H t \<and> blk t = blk s \<and> sb t = sb s \<and>
      itable t = (itable s)(ip := i\<lparr>i_valid := True\<rparr>) \<and>
      sl_locked (sleeplocks t (inode_lock ip)) \<and> sl_pid (sleeplocks t (inode_lock ip)) = p_pid (procs t p) \<and>
      fs_frame (sl_take (inode_lock ip) (p_pid (procs s p)) s) t"
proof -
  let ?c = "IBLOCK (i_inum (itable s ip)) (sb s)"
  define s' where "s' = sl_take (inode_lock ip) (p_pid (procs s p)) s"
  have s': "txw p W (Suc n) H s'" "itable s' = itable s" "sb s' = sb s" "blk s' = blk s" using assms(1) by (simp_all add: s'_def)
  have ls: "sl_locked (sleeplocks s' (inode_lock ip))" "sl_pid (sleeplocks s' (inode_lock ip)) = p_pid (procs s' p)" "mycpu s' = mycpu s"
    by (simp_all add: s'_def sl_take_def)
  have acq: "acquiresleep (inode_lock ip) s = Ok () s'"
    using assms(2) tx_calm(2) [OF assms(1)] by (simp add: acquiresleep_free s'_def)
  obtain b u where r: "bread ROOTDEV ?c s' = Ok b u" "holder u ?c = Some b" "b_data (bufs u b) = blk s ?c" "txw p W n (insert ?c H) u"
    "blk u = blk s" "tx_frame s' u" using txs.rd [OF s'(1) assms(6)] s'(4) by auto
  have ku: "itable u = itable s" "sb u = sb s" using tx_frame_kfs [OF r(6)] s' by simp_all
  define v where "v = upd_inode ip (\<lambda>_. i) u"
  obtain t where t: "brelse b v = Ok () t" "txw p W (Suc n) (insert ?c H - {?c}) t" "blk t = blk v" "tx_frame v t"
    using txs.rel [of p W n "insert ?c H" v ?c b] r(2,4) by (auto simp: v_def)
  have kt: "itable t = (itable s)(ip := i)" "sb t = sb s" "blk t = blk s" using tx_frame_kfs [OF t(4)] t(3) ku r(5) by (simp_all add: v_def)
  have run: "ilock (Some ip) s = (if i_type i = 0 then Panic ''ilock: no type'' else Ok () (upd_inode ip (\<lambda>i. i\<lparr>i_valid := True\<rparr>) t))"
    using assms(3-5) acq r(1) t(1) s' ku r(3) kt assms(7) by (simp add: ilock_def Let_def v_def upd_inode_def)
  show "i_type i = 0 \<Longrightarrow> ilock (Some ip) s = Panic ''ilock: no type''" using run by simp
  have H: "insert ?c H - {?c} = H" using assms(6) by auto
  have fv: "fs_frame s' v" using fs_frame_trans [OF fs_frame_tx [OF r(6)], of v] by (simp add: v_def)
  have "fs_frame s' (upd_inode ip (\<lambda>i. i\<lparr>i_valid := True\<rparr>) t)"
    using fs_frame_trans [OF fs_frame_trans [OF fv fs_frame_tx [OF t(4)]], of "upd_inode ip (\<lambda>i. i\<lparr>i_valid := True\<rparr>) t"] by simp
  note fr = this fs_frame_views [OF this]
  then show "i_type i \<noteq> 0 \<Longrightarrow> \<exists>t. ilock (Some ip) s = Ok () t \<and> txw p W (Suc n) H t \<and> blk t = blk s \<and> sb t = sb s \<and>
      itable t = (itable s)(ip := i\<lparr>i_valid := True\<rparr>) \<and>
      sl_locked (sleeplocks t (inode_lock ip)) \<and> sl_pid (sleeplocks t (inode_lock ip)) = p_pid (procs t p) \<and>
      fs_frame (sl_take (inode_lock ip) (p_pid (procs s p)) s) t"
    using run t(2) kt H ls fr(1) fr(5) [of ip] fr(6) [of p] by (auto simp: s'_def)
qed

end
