(* ===== verification/Fs_Map.thy ===== *)
theory Fs_Map
  imports Fs_Inode
begin

text \<open>
  The blocks of a file: \<open>iaddr s ip n\<close> is the disk block of the \<open>n\<close>-th block of inode \<open>ip\<close>, zero if there is none. The
  theory says what a well-formed file system is and shows that \<open>bmap\<close> returns that block, or allocates a fresh one that is filled with
  zeros, and changes nothing else.
\<close>

section \<open>Free blocks\<close>

definition free_list :: "'a kfs_scheme \<Rightarrow> nat list" where
  "free_list s = filter (\<lambda>b. \<not> used s b) [0..<nblk s]"

lemma filter_upt_Cons:
  assumes "filter P [0..<n] = a # as"
  shows "a < n" "P a" "\<forall>i < a. \<not> P i" "filter (\<lambda>i. P i \<and> i \<noteq> a) [0..<n] = as"
proof -
  have s: "set (a # as) = {i. i < n \<and> P i}" using assms [symmetric] by auto
  then show "a < n" "P a" by auto
  have so: "sorted (a # as)" "distinct (a # as)" using assms [symmetric] by (simp_all add: sorted_wrt_filter)
  show "\<forall>i < a. \<not> P i"
  proof (intro allI impI notI)
    fix i assume i: "i < a" "P i"
    then have "i \<in> set (a # as)" using s \<open>a < n\<close> by auto
    then show False using so(1) i(1) by auto
  qed
  have "filter (\<lambda>i. P i \<and> i \<noteq> a) [0..<n] = filter (\<lambda>i. i \<noteq> a) (filter P [0..<n])" by (simp add: conj_commute)
  also have "\<dots> = as" using so(2) by (auto simp: assms intro!: filter_True)
  finally show "filter (\<lambda>i. P i \<and> i \<noteq> a) [0..<n] = as" .
qed

section \<open>Well-formed file systems\<close>

definition ind :: "'a kfs_scheme \<Rightarrow> nat \<Rightarrow> uint" where
  "ind s ip = i_addrs (itable s ip) NDIRECT"

definition iaddr :: "'a kfs_scheme \<Rightarrow> nat \<Rightarrow> nat \<Rightarrow> uint" where
  "iaddr s ip n =
    (if n < NDIRECT then i_addrs (itable s ip) n
     else if ind s ip = 0 then 0 else get32 (blk s (ind s ip)) (4 * (n - NDIRECT)))"

definition meta :: "'a kfs_scheme \<Rightarrow> uint set" where
  "meta s = {BBLOCK (of_nat b) (sb s) | b. b < nblk s} \<union> {IBLOCK i (sb s) | i. i < sb_ninodes (sb s)}"

lemma metaI: "i < nblk s \<Longrightarrow> BBLOCK (of_nat i) (sb s) \<in> meta s" "k < sb_ninodes (sb s) \<Longrightarrow> IBLOCK k (sb s) \<in> meta s"
  by (auto simp: meta_def)

text \<open>The free map and the blocks of the inodes are in use and apart from each other, and block 0 is never free.\<close>

definition fs_ok :: "'a kfs_scheme \<Rightarrow> bool" where
  "fs_ok s \<longleftrightarrow> map_ok s \<and> 0 < nblk s \<and> used s 0 \<and> (\<forall>c \<in> meta s. unat c < nblk s \<and> used s (unat c)) \<and>
     (\<forall>b < nblk s. \<forall>i < sb_ninodes (sb s). IBLOCK i (sb s) \<noteq> BBLOCK (of_nat b) (sb s))"

definition data_block :: "'a kfs_scheme \<Rightarrow> uint \<Rightarrow> bool" where
  "data_block s c \<longleftrightarrow> unat c < nblk s \<and> used s (unat c) \<and> c \<notin> meta s"

definition fblocks :: "'a kfs_scheme \<Rightarrow> nat \<Rightarrow> uint set" where
  "fblocks s ip = insert (ind s ip) (iaddr s ip ` {..<MAXFILE}) - {0}"

text \<open>The blocks of a file are data blocks, and no two of them are the same.\<close>

definition file_ok :: "'a kfs_scheme \<Rightarrow> nat \<Rightarrow> bool" where
  "file_ok s ip \<longleftrightarrow> i_dev (itable s ip) = ROOTDEV \<and> i_inum (itable s ip) < sb_ninodes (sb s) \<and>
     unat (i_size (itable s ip)) \<le> MAXFILE * BSIZE \<and> (\<forall>c \<in> fblocks s ip. data_block s c) \<and>
     (\<forall>m < MAXFILE. iaddr s ip m \<noteq> 0 \<longrightarrow> iaddr s ip m \<noteq> ind s ip \<and> (\<forall>n < MAXFILE. iaddr s ip m = iaddr s ip n \<longrightarrow> m = n))"

text \<open>The contents of a block of a file; a block not yet allocated counts as zeros.\<close>

definition fblock :: "'a kfs_scheme \<Rightarrow> nat \<Rightarrow> nat \<Rightarrow> uchar list" where
  "fblock s ip n = (if iaddr s ip n = 0 then replicate BSIZE 0 else blk s (iaddr s ip n))"

text \<open>Outside the file, the free map and the inodes, data stays as it is.\<close>

definition others_same :: "nat \<Rightarrow> 'a kfs_scheme \<Rightarrow> 'a kfs_scheme \<Rightarrow> bool" where
  "others_same ip s t \<longleftrightarrow> (\<forall>c. data_block s c \<and> c \<notin> fblocks s ip \<longrightarrow> blk t c = blk s c \<and> c \<notin> fblocks t ip) \<and>
     (\<forall>c. data_block s c \<longrightarrow> data_block t c)"

lemma others_same_refl [simp]: "others_same ip s s"
  by (simp add: others_same_def)

lemma others_same_trans [trans]: "others_same ip s t \<Longrightarrow> others_same ip t u \<Longrightarrow> others_same ip s u"
  by (auto simp: others_same_def)

lemma iaddr_file: "file_ok s ip \<Longrightarrow> n < MAXFILE \<Longrightarrow> iaddr s ip n \<noteq> 0 \<Longrightarrow> data_block s (iaddr s ip n)"
  "file_ok s ip \<Longrightarrow> ind s ip \<noteq> 0 \<Longrightarrow> data_block s (ind s ip)"
  by (auto simp: file_ok_def fblocks_def)

section \<open>Allocation\<close>

lemma balloc_fs:
  fixes s :: "'a kfs_scheme"
  assumes "txw p W (Suc n) H s" "fs_ok s" "free_list s = a # fs" "of_nat a \<in> W" "BBLOCK (of_nat a) (sb s) \<in> W"
    "\<And>c. c \<in> H \<Longrightarrow> data_block s c" and x: "x = of_nat a"
  shows "\<exists>t. balloc ROOTDEV s = Ok x t \<and> txw p W (Suc n) H t \<and> tx_frame s t \<and> (\<forall>c \<in> H. holder t c = holder s c) \<and> fs_ok t \<and>
    free_list t = fs \<and> x \<noteq> 0 \<and> data_block t x \<and> \<not> used s (unat x) \<and> blk t x = replicate BSIZE 0 \<and>
    (\<forall>c. data_block s c \<longrightarrow> data_block t c \<and> blk t c = blk s c)"
proof -
  have ok: "map_ok s" "0 < nblk s" "used s 0" "\<And>c. c \<in> meta s \<Longrightarrow> unat c < nblk s \<and> used s (unat c)" using assms(2) by (auto simp: fs_ok_def)
  note f = filter_upt_Cons [OF assms(3) [unfolded free_list_def]]
  have a: "a < nblk s" "\<not> used s a" "\<And>i. i < a \<Longrightarrow> used s i" using f by auto
  have ua: "unat x = a" using nblk_less [OF a(1)] x by (simp add: unat_of_nat)
  have h: "of_nat a \<notin> H" "\<And>i. i \<le> a \<Longrightarrow> BBLOCK (of_nat i) (sb s) \<notin> H"
  proof -
    show "of_nat a \<notin> H" using assms(6) [of "of_nat a"] a(2) ua x by (auto simp: data_block_def)
    show "BBLOCK (of_nat i) (sb s) \<notin> H" if "i \<le> a" for i using assms(6) [of "BBLOCK (of_nat i) (sb s)"] that a(1)
      metaI(1) [of i s] by (auto simp: data_block_def)
  qed
  obtain t where t: "balloc ROOTDEV s = Ok x t" "txw p W (Suc n) H t" "blk t = blk_taken s a" "tx_frame s t"
    "\<forall>c \<in> H. holder t c = holder s c" using balloc_spec [OF assms(1) ok(1) a assms(5,4) h] x by auto
  have sb: "sb t = sb s" using tx_frame_kfs [OF t(4)] by simp
  note m = blk_taken_map [OF ok(1) a(1,2) t(3) sb]
  have mt: "meta t = meta s" using sb by (simp add: meta_def)
  have "x \<notin> meta s" using ok(4) [of x] ua a(2) by auto
  then have "data_block t x" using a(1) m(1) [OF a(1)] ua by (simp add: data_block_def mt sb)
  moreover have "fs_ok t" using assms(2) m(1,2) mt sb by (simp add: fs_ok_def)
  moreover have "free_list t = fs"
  proof -
    have "free_list t = filter (\<lambda>i. \<not> used s i \<and> i \<noteq> a) [0..<nblk s]" using m(1) by (auto simp: free_list_def sb intro!: filter_cong)
    then show ?thesis using f(4) by simp
  qed
  moreover have "x \<noteq> 0" using ua ok(3) a(2) by auto
  moreover have "data_block t c \<and> blk t c = blk s c" if "data_block s c" for c
  proof
    show "data_block t c" using that m(1) by (simp add: data_block_def mt sb)
    have "BBLOCK (of_nat a) (sb s) \<in> meta s" using a(1) by (rule metaI)
    then have "c \<noteq> of_nat a" "c \<noteq> BBLOCK (of_nat a) (sb s)" using that a(2) ua x by (auto simp: data_block_def)
    then show "blk t c = blk s c" using m(4) by simp
  qed
  ultimately show ?thesis using t a ua m(3) x by auto
qed


section \<open>Growing a file\<close>

lemma file_ok_grow:
  fixes s t :: "'a kfs_scheme"
  assumes "file_ok s ip" "\<And>m. m < MAXFILE \<Longrightarrow> iaddr t ip m = (if m = n then a else iaddr s ip m)" "ind t ip = ind s ip" "n < MAXFILE"
    "\<not> used s (unat a)" "data_block t a" "\<And>c. data_block s c \<Longrightarrow> data_block t c" "sb t = sb s"
    "itable t ip = (itable s ip)\<lparr>i_addrs := f\<rparr>" "iaddr s ip n = 0" "a \<noteq> 0"
  shows "file_ok t ip" "fblocks t ip = insert a (fblocks s ip)"
proof -
  have "iaddr t ip ` {..<MAXFILE} = insert a (iaddr s ip ` ({..<MAXFILE} - {n}))" using assms(2,4) by (auto simp: image_iff)
  moreover have "insert 0 (iaddr s ip ` ({..<MAXFILE} - {n})) = insert 0 (iaddr s ip ` {..<MAXFILE})" using assms(10) by auto
  ultimately show fb: "fblocks t ip = insert a (fblocks s ip)" using assms(3,11) by (auto simp: fblocks_def)
  have fresh: "a \<notin> fblocks s ip" using assms(1,5) by (auto simp: file_ok_def data_block_def)
  have F: "\<forall>c \<in> fblocks s ip. data_block s c"
    "\<And>m k. m < MAXFILE \<Longrightarrow> iaddr s ip m \<noteq> 0 \<Longrightarrow> iaddr s ip m \<noteq> ind s ip \<and> (\<forall>k < MAXFILE. iaddr s ip m = iaddr s ip k \<longrightarrow> m = k)"
    using assms(1) by (auto simp: file_ok_def)
  have "iaddr t ip m \<noteq> ind t ip \<and> (\<forall>k < MAXFILE. iaddr t ip m = iaddr t ip k \<longrightarrow> m = k)" if m: "m < MAXFILE" "iaddr t ip m \<noteq> 0" for m
  proof (cases "m = n")
    case True
    have "a \<noteq> iaddr s ip k" if "k < MAXFILE" for k using fresh that assms(11) by (auto simp: fblocks_def)
    moreover have "a \<noteq> ind s ip" using fresh assms(11) by (auto simp: fblocks_def)
    ultimately show ?thesis using True assms(2,3,4) by auto
  next
    case False
    then have e: "iaddr t ip m = iaddr s ip m" "iaddr s ip m \<noteq> 0" using assms(2) m by auto
    moreover have "a \<noteq> iaddr s ip m" using fresh m(1) e(2) by (auto simp: fblocks_def)
    ultimately show ?thesis using F(2) [OF m(1)] assms(2,3) by auto
  qed
  then show "file_ok t ip" using assms(1,6-9) F(1) fb by (auto simp: file_ok_def)
qed

lemma file_ok_ind:
  fixes s t :: "'a kfs_scheme"
  assumes "file_ok s ip" "\<And>m. m < MAXFILE \<Longrightarrow> iaddr t ip m = iaddr s ip m" "ind t ip = a" "ind s ip = 0"
    "\<not> used s (unat a)" "data_block t a" "\<And>c. data_block s c \<Longrightarrow> data_block t c" "sb t = sb s"
    "itable t ip = (itable s ip)\<lparr>i_addrs := f\<rparr>" "a \<noteq> 0"
  shows "file_ok t ip" "fblocks t ip = insert a (fblocks s ip)"
proof -
  have im: "iaddr t ip ` {..<MAXFILE} = iaddr s ip ` {..<MAXFILE}" using assms(2) by (auto simp: image_iff)
  then show fb: "fblocks t ip = insert a (fblocks s ip)" using assms(3,4,10) by (auto simp: fblocks_def)
  have fresh: "a \<notin> fblocks s ip" using assms(1,5) by (auto simp: file_ok_def data_block_def)
  have "iaddr s ip m \<noteq> a" if "m < MAXFILE" for m using fresh assms(10) that by (auto simp: fblocks_def)
  then show "file_ok t ip" using assms fb by (auto simp: file_ok_def)
qed

section \<open>\<open>bmap\<close>\<close>

text \<open>\<open>bmap_post\<close>: what a call of \<open>bmap\<close> for block \<open>n\<close> does, if it takes \<open>k\<close> blocks from the free list.\<close>

definition bmap_post :: "nat \<Rightarrow> nat \<Rightarrow> nat \<Rightarrow> 'a kfs_scheme \<Rightarrow> 'a kfs_scheme \<Rightarrow> bool" where
  "bmap_post ip n k s t \<longleftrightarrow> fs_ok t \<and> file_ok t ip \<and> free_list t = drop k (free_list s) \<and>
     (\<forall>m < MAXFILE. m \<noteq> n \<longrightarrow> iaddr t ip m = iaddr s ip m) \<and> (iaddr s ip n \<noteq> 0 \<longrightarrow> iaddr t ip n = iaddr s ip n) \<and>
     (\<forall>m < MAXFILE. fblock t ip m = fblock s ip m) \<and> (ind s ip \<noteq> 0 \<longrightarrow> ind t ip = ind s ip) \<and>
     (\<exists>f. itable t = (itable s)(ip := (itable s ip)\<lparr>i_addrs := f\<rparr>)) \<and> fs_frame s t \<and> others_same ip s t \<and>
     fblocks t ip \<subseteq> fblocks s ip \<union> of_nat ` set (take k (free_list s))"

text \<open>The blocks that may be taken: \<open>k\<close> of them, with their blocks of the map.\<close>

definition room :: "uint set \<Rightarrow> nat \<Rightarrow> 'a kfs_scheme \<Rightarrow> bool" where
  "room W k s \<longleftrightarrow> k \<le> length (free_list s) \<and>
     (\<forall>a \<in> set (take k (free_list s)). of_nat a \<in> W \<and> BBLOCK (of_nat a) (sb s) \<in> W)"

lemma room_Suc:
  assumes "room W (Suc k) s"
  obtains a fs where "free_list s = a # fs" "of_nat a \<in> W" "BBLOCK (of_nat a) (sb s) \<in> W"
  using assms by (cases "free_list s") (auto simp: room_def)

lemma room_le: "room W k s \<Longrightarrow> j \<le> k \<Longrightarrow> room W j s"
  using set_take_subset_set_take [of j k "free_list s"] by (auto simp: room_def)

lemma room_drop: "room W (j + k) s \<Longrightarrow> free_list t = drop j (free_list s) \<Longrightarrow> sb t = sb s \<Longrightarrow> room W k t"
  by (auto simp: room_def take_add)

lemma blk_size: "fs_ok s \<Longrightarrow> length (blk s c) = BSIZE"
  by (simp add: fs_ok_def map_ok_def)

lemma iaddr_cong:
  assumes "itable t ip = (itable s ip)\<lparr>i_addrs := f\<rparr>" "f NDIRECT = ind s ip" "ind s ip \<noteq> 0 \<Longrightarrow> blk t (ind s ip) = blk s (ind s ip)"
  shows "iaddr t ip m = (if m < NDIRECT then f m else iaddr s ip m)" "ind t ip = ind s ip"
  using assms by (auto simp: iaddr_def ind_def)


lemma fresh_not_file: "file_ok s ip \<Longrightarrow> \<not> used s (unat x) \<Longrightarrow> x \<notin> fblocks s ip"
  by (auto simp: file_ok_def data_block_def)

lemma data_block_upd [simp]: "data_block (upd_inode ip f s) c = data_block s c" "fs_ok (upd_inode ip f s) = fs_ok s"
    "free_list (upd_inode ip f s) = free_list s"
  by (simp_all add: data_block_def used_def meta_def fs_ok_def map_ok_def free_list_def)

lemma MAXFILE_eq: "MAXFILE = 268" "NDIRECT = 12" "NINDIRECT = 256" "BSIZE = 1024"
  by (simp_all add: MAXFILE_def NDIRECT_def NINDIRECT_def BSIZE_def)

text \<open>A fresh block becomes block \<open>n\<close> of the file, directly or through the indirect block.\<close>

lemma bmap_post_new:
  fixes s t :: "'a kfs_scheme"
  assumes "fs_ok s" "file_ok s ip" "n < MAXFILE" "iaddr s ip n = 0" "free_list s = a # fs"
    "fs_ok t" "free_list t = fs" "x = of_nat a" "x \<noteq> 0" "data_block t x" "\<not> used s (unat x)" "blk t x = replicate BSIZE 0"
    "\<And>c. data_block s c \<Longrightarrow> data_block t c" "\<And>c. data_block s c \<Longrightarrow> c \<noteq> ind s ip \<or> ind s ip = 0 \<Longrightarrow> blk t c = blk s c"
    "\<And>m. m < MAXFILE \<Longrightarrow> iaddr t ip m = (if m = n then x else iaddr s ip m)" "ind t ip = ind s ip"
    "itable t = (itable s)(ip := (itable s ip)\<lparr>i_addrs := f\<rparr>)" "fs_frame s t"
  shows "bmap_post ip n 1 s t"
proof -
  have sb: "sb t = sb s" using fs_frame_views [OF assms(18)] by simp
  have g: "file_ok t ip" "fblocks t ip = insert x (fblocks s ip)"
    using file_ok_grow [OF assms(2,15,16,3,11,10,13) sb _ assms(4,9), of f] assms(17) by simp_all
  have nx: "x \<notin> fblocks s ip" using fresh_not_file [OF assms(2,11)] .
  have "fblock t ip m = fblock s ip m" if m: "m < MAXFILE" for m
  proof (cases "m = n")
    case False
    have "blk t (iaddr s ip m) = blk s (iaddr s ip m)" if "iaddr s ip m \<noteq> 0"
      using assms(14) iaddr_file(1) [OF assms(2) m that] assms(2) m that by (auto simp: file_ok_def)
    then show ?thesis using False m assms(15) by (simp add: fblock_def)
  qed (use assms in \<open>simp add: fblock_def\<close>)
  moreover have "blk t c = blk s c \<and> c \<notin> fblocks t ip" if c: "data_block s c" "c \<notin> fblocks s ip" for c
  proof -
    have "ind s ip \<noteq> 0 \<longrightarrow> ind s ip \<in> fblocks s ip" by (simp add: fblocks_def)
    moreover have "c \<noteq> x" using c(1) assms(11) by (auto simp: data_block_def)
    ultimately show ?thesis using assms(14) [OF c(1)] c g(2) by auto
  qed
  then have "others_same ip s t" using assms(13) by (simp add: others_same_def)
  ultimately show ?thesis using assms g by (auto simp: bmap_post_def)
qed


lemma bmap_direct_new:
  fixes s :: "'a kfs_scheme"
  assumes "txw p W (Suc j) {} s" "fs_ok s" "file_ok s ip" "n < NDIRECT" "iaddr s ip n = 0" "room W 1 s"
  shows "\<exists>t. bmap ip (of_nat n) s = Ok (iaddr t ip n) t \<and> txw p W (Suc j) {} t \<and> iaddr t ip n \<noteq> 0 \<and> bmap_post ip n 1 s t"
proof -
  obtain a fs where a: "free_list s = a # fs" "of_nat a \<in> W" "BBLOCK (of_nat a) (sb s) \<in> W"
    using room_Suc [of W 0 s] assms(6) by auto
  define x :: uint where "x = of_nat a"
  obtain t where t: "balloc ROOTDEV s = Ok x t" "txw p W (Suc j) {} t" "tx_frame s t" "fs_ok t" "free_list t = fs" "x \<noteq> 0"
    "data_block t x" "\<not> used s (unat x)" "blk t x = replicate BSIZE 0" "\<And>c. data_block s c \<Longrightarrow> data_block t c \<and> blk t c = blk s c"
    using balloc_fs [OF assms(1,2) a _ x_def] by auto
  define f where "f = (i_addrs (itable s ip))(n := x)"
  define u where "u = upd_inode ip (\<lambda>i. i\<lparr>i_addrs := (i_addrs i)(n := x)\<rparr>) t"
  have it: "itable u = (itable s)(ip := (itable s ip)\<lparr>i_addrs := f\<rparr>)" using tx_frame_kfs [OF t(3)] by (simp add: u_def f_def)
  have n: "unat (of_nat n :: uint) = n" "n < MAXFILE" using assms(4) by (simp_all add: unat_of_nat MAXFILE_eq)
  have dev: "i_dev (itable s ip) = ROOTDEV" using assms(3) by (simp add: file_ok_def)
  have b: "blk u = blk t" "\<And>c. data_block u c = data_block t c" by (simp_all add: u_def)
  have ia: "iaddr u ip m = (if m < NDIRECT then f m else iaddr s ip m)" "ind u ip = ind s ip" for m
    using iaddr_cong [where t = u and ip = ip and s = s and f = f] it iaddr_file(2) [OF assms(3)] t(10) assms(4) b by (auto simp: f_def ind_def)
  have "fs_frame s u" using fs_frame_trans [OF fs_frame_tx [OF t(3)], of u] by (simp add: u_def)
  then have "bmap_post ip n 1 s u"
    using bmap_post_new [OF assms(2,3) n(2) assms(5) a(1) _ _ x_def t(6) _ t(8), of u f] t b it ia assms(4)
    by (auto simp: u_def f_def iaddr_def)
  moreover have "bmap ip (of_nat n) s = Ok (iaddr u ip n) u" "iaddr u ip n \<noteq> 0"
    using assms(4,5) n t(1,6) ia(1) [of n] dev by (simp_all add: bmap_def iaddr_def Let_def u_def f_def)
  ultimately show ?thesis using t(2) by (intro exI [of _ u]) (simp add: u_def)
qed

text \<open>The part of \<open>bmap\<close> that goes through the indirect block \<open>addr\<close>.\<close>

definition bmap_entry :: "nat \<Rightarrow> nat \<Rightarrow> uint \<Rightarrow> 'a kfs_scheme \<Rightarrow> (uint, 'a kfs_scheme) res" where
  "bmap_entry ip bn addr s =
    bind (bread (i_dev (itable s ip)) addr s) (\<lambda>bp s.
    let addr = get32 (b_data (bufs s bp)) (4 * bn) in
    bind (if addr = 0 then
            bind (balloc (i_dev (itable s ip)) s) (\<lambda>addr s.
            let s = set_data bp (put32 (4 * bn) addr (b_data (bufs s bp))) s in
            bind (log_write bp s) (\<lambda>_ s. Ok addr s))
          else Ok addr s) (\<lambda>addr s.
    bind (brelse bp s) (\<lambda>_ s. Ok addr s)))"

lemma bmap_indirect:
  assumes "NDIRECT \<le> n" "n < MAXFILE"
  shows "bmap ip (of_nat n) s =
    bind (if ind s ip = 0 then
            bind (balloc (i_dev (itable s ip)) s) (\<lambda>addr s.
            Ok addr (upd_inode ip (\<lambda>i. i\<lparr>i_addrs := (i_addrs i)(NDIRECT := addr)\<rparr>) s))
          else Ok (ind s ip) s) (\<lambda>addr s. bmap_entry ip (n - NDIRECT) addr s)"
proof -
  have "unat (of_nat n :: uint) = n" "n - NDIRECT < NINDIRECT" using assms by (auto simp: unat_of_nat MAXFILE_eq)
  then show ?thesis using assms by (simp add: bmap_def bmap_entry_def ind_def Let_def)
qed


lemma tx_held_data:
  assumes "txw p W n H s" "c \<in> H" "holder s c = Some b"
  shows "b_data (bufs s b) = blk s c"
  using assms by (auto simp: txw_def tx_def blk_def)

text \<open>Storing to a block that is not part of the map keeps the map.\<close>

lemma fs_ok_write:
  fixes s t :: "'a kfs_scheme"
  assumes "fs_ok s" "blk t = (blk s)(c := d)" "sb t = sb s" "length d = BSIZE" "c \<notin> {BBLOCK (of_nat b) (sb s) | b. b < nblk s}"
  shows "\<And>i. i < nblk s \<Longrightarrow> used t i = used s i" "fs_ok t" "free_list t = free_list s" "\<And>x. data_block t x = data_block s x"
proof -
  show u: "used t i = used s i" if "i < nblk s" for i using that assms by (auto simp: used_def)
  have m: "meta t = meta s" by (simp add: meta_def assms(3))
  show "data_block t x = data_block s x" for x using u m assms(3) by (auto simp: data_block_def)
  show "free_list t = free_list s" using u by (auto simp: free_list_def assms(3) intro!: filter_cong)
  show "fs_ok t" using u m assms by (auto simp: fs_ok_def map_ok_def)
qed


lemma bmap_post_same:
  fixes s t :: "'a kfs_scheme"
  assumes "fs_ok s" "file_ok s ip" "blk t = blk s" "tx_frame s t"
  shows "bmap_post ip n 0 s t" "\<And>m. iaddr t ip m = iaddr s ip m" "fs_ok t" "file_ok t ip" "free_list t = free_list s"
proof -
  note k = tx_frame_kfs [OF assms(4)]
  show ia: "iaddr t ip m = iaddr s ip m" for m using k assms(3) by (simp add: iaddr_def ind_def)
  have u: "used t = used s" "meta t = meta s" "ind t ip = ind s ip" using k assms(3) by (simp_all add: used_def [abs_def] meta_def ind_def)
  show f: "free_list t = free_list s" using u k by (simp add: free_list_def)
  have db: "data_block t = data_block s" using u k by (simp add: data_block_def [abs_def])
  have fb: "fblocks t ip = fblocks s ip" "fblock t ip = fblock s ip" using ia u assms(3) by (simp_all add: fblocks_def fblock_def fun_eq_iff)
  show "fs_ok t" using assms(1) u k assms(3) by (simp add: fs_ok_def map_ok_def)
  moreover show "file_ok t ip" using assms(2) u k fb ia db by (simp add: file_ok_def)
  moreover have "\<exists>f. itable t = (itable s)(ip := (itable s ip)\<lparr>i_addrs := f\<rparr>)" using k by (intro exI [of _ "i_addrs (itable s ip)"]) simp
  moreover have "others_same ip s t" using assms(3) db fb by (simp add: others_same_def)
  ultimately show "bmap_post ip n 0 s t" unfolding bmap_post_def using f ia u fb fs_frame_tx [OF assms(4)] by simp
qed

lemma bmap_entry_old:
  fixes s :: "'a kfs_scheme"
  assumes "txw p W (Suc j) {} s" "fs_ok s" "file_ok s ip" "NDIRECT \<le> n" "ind s ip \<noteq> 0" "iaddr s ip n \<noteq> 0"
  shows "\<exists>t. bmap_entry ip (n - NDIRECT) (ind s ip) s = Ok (iaddr t ip n) t \<and> txw p W (Suc j) {} t \<and> iaddr t ip n \<noteq> 0 \<and>
    bmap_post ip n 0 s t \<and> blk t = blk s \<and> tx_frame s t"
proof -
  obtain b u t where r: "bread ROOTDEV (ind s ip) s = Ok b u" "b_data (bufs u b) = blk s (ind s ip)" "brelse b u = Ok () t" "txw p W (Suc j) {} t"
    "blk t = blk s" "tx_frame s t" using txs.peek [OF assms(1), of "ind s ip"] by auto
  note k = bmap_post_same [OF assms(2,3) r(5,6)]
  have "i_dev (itable s ip) = ROOTDEV" using assms(3) by (simp add: file_ok_def)
  moreover have "get32 (blk s (ind s ip)) (4 * (n - NDIRECT)) = iaddr s ip n" using assms(4,5) by (simp add: iaddr_def)
  ultimately have "bmap_entry ip (n - NDIRECT) (ind s ip) s = Ok (iaddr s ip n) t" using r assms(6) by (simp add: bmap_entry_def Let_def)
  then show ?thesis using r(4-6) k assms(6) by (intro exI [of _ t]) simp
qed

lemma bmap_entry_new:
  fixes s :: "'a kfs_scheme"
  assumes "txw p W (Suc (Suc j)) {} s" "fs_ok s" "file_ok s ip" "NDIRECT \<le> n" "n < MAXFILE" "ind s ip \<noteq> 0" "iaddr s ip n = 0"
    "room W 1 s" "ind s ip \<in> W"
  shows "\<exists>t. bmap_entry ip (n - NDIRECT) (ind s ip) s = Ok (iaddr t ip n) t \<and> txw p W (Suc (Suc j)) {} t \<and> iaddr t ip n \<noteq> 0 \<and>
    bmap_post ip n 1 s t"
proof -
  let ?c = "ind s ip" and ?o = "4 * (n - NDIRECT)"
  have dc: "data_block s ?c" using iaddr_file(2) [OF assms(3,6)] .
  have dev: "i_dev (itable s ip) = ROOTDEV" using assms(3) by (simp add: file_ok_def)
  obtain b u where u: "bread ROOTDEV ?c s = Ok b u" "holder u ?c = Some b" "b_data (bufs u b) = blk s ?c" "txw p W (Suc j) {?c} u"
    "blk u = blk s" "tx_frame s u" using txs.rd [OF assms(1), of ?c] by auto
  note su = bmap_post_same [OF assms(2,3) u(5,6)]
  have ku: "itable u = itable s" "sb u = sb s" "data_block u = data_block s" "used u = used s"
    using tx_frame_kfs [OF u(6)] u(5) by (simp_all add: data_block_def [abs_def] used_def [abs_def] meta_def)
  obtain a fs where a: "free_list s = a # fs" "of_nat a \<in> W" "BBLOCK (of_nat a) (sb s) \<in> W"
    using room_Suc [of W 0 s] assms(8) by auto
  define x :: uint where "x = of_nat a"
  obtain v where v: "balloc ROOTDEV u = Ok x v" "txw p W (Suc j) {?c} v" "tx_frame u v" "holder v ?c = Some b" "fs_ok v" "free_list v = fs" "x \<noteq> 0"
    "data_block v x" "\<not> used s (unat x)" "blk v x = replicate BSIZE 0" "\<And>c. data_block s c \<Longrightarrow> data_block v c \<and> blk v c = blk s c"
    using balloc_fs [OF u(4) su(3), of a fs x] su(5) a x_def ku dc u(2,5) by auto
  have bd: "b_data (bufs v b) = blk s ?c" using tx_held_data [OF v(2) _ v(4)] v(11) [OF dc] by simp
  define d where "d = put32 ?o x (blk s ?c)"
  obtain w where w: "log_write b (set_data b d v) = Ok () w" "txw p W (Suc j) {?c} w" "blk w = (blk v)(?c := d)" "holder w = holder v" "tx_frame v w"
    using txs.wr [OF v(2) _ assms(9) v(4)] by auto
  obtain t where t: "brelse b w = Ok () t" "txw p W (Suc (Suc j)) {} t" "blk t = blk w" "tx_frame w t"
    using txs.rel [OF w(2), of ?c b] w(4) v(4) by auto
  have fr: "tx_frame s t" using tx_frame_trans [OF tx_frame_trans [OF tx_frame_trans [OF u(6) v(3)] w(5)] t(4)] .
  note kt = tx_frame_kfs [OF fr]
  have len: "length (blk s ?c) = BSIZE" "?o + 4 \<le> BSIZE" using blk_size [OF assms(2)] assms(4,5) by (auto simp: MAXFILE_eq)
  have bt: "blk t = (blk v)(?c := d)" "sb t = sb v" using t(3) w(3) kt ku tx_frame_kfs [OF v(3)] by simp_all
  have nb: "?c \<notin> {BBLOCK (of_nat b) (sb v) | b. b < nblk v}" using v(11) [OF dc] by (auto simp: data_block_def meta_def)
  note ft = fs_ok_write [OF v(5) bt _ nb]
  have ft': "fs_ok t" "free_list t = fs" "\<And>c. data_block t c = data_block v c" using ft len v(6) by (simp_all add: d_def)
  have cx: "?c \<noteq> x" using dc v(9) by (auto simp: data_block_def)
  have ia: "iaddr t ip m = (if m = n then x else iaddr s ip m)" if "m < MAXFILE" for m
  proof (cases "m < NDIRECT")
    case False
    have "4 * (m - NDIRECT) + 4 \<le> BSIZE" using that by (auto simp: MAXFILE_eq)
    moreover have "m \<noteq> n \<Longrightarrow> 4 * (m - NDIRECT) + 4 \<le> ?o \<or> ?o + 4 \<le> 4 * (m - NDIRECT)" using False assms(4) by (auto simp: MAXFILE_eq)
    ultimately have "get32 d (4 * (m - NDIRECT)) = (if m = n then x else get32 (blk s ?c) (4 * (m - NDIRECT)))"
      using get32_put32 [of ?o "blk s ?c" "4 * (m - NDIRECT)" x] len False assms(4) by (auto simp: d_def)
    then show ?thesis using False assms(4,6) kt bt(1) by (simp add: iaddr_def ind_def)
  qed (use assms(4) kt in \<open>simp add: iaddr_def\<close>)
  have "bmap_post ip n 1 s t"
  proof (rule bmap_post_new [OF assms(2,3,5,7) a(1) ft'(1,2) x_def v(7)])
    show "data_block t x" "\<And>c. data_block s c \<Longrightarrow> data_block t c" "\<not> used s (unat x)" using ft'(3) v(8,9,11) by simp_all
    show "blk t x = replicate BSIZE 0" using bt(1) v(10) cx by simp
    show "itable t = (itable s)(ip := (itable s ip)\<lparr>i_addrs := i_addrs (itable s ip)\<rparr>)" "ind t ip = ind s ip" using kt by (simp_all add: ind_def)
    show "data_block s c \<Longrightarrow> c \<noteq> ind s ip \<or> ind s ip = 0 \<Longrightarrow> blk t c = blk s c" for c using bt(1) v(11) assms(6) by auto
  qed (use ia fs_frame_tx [OF fr] in auto)
  moreover have "bmap_entry ip (n - NDIRECT) ?c s = Ok x t"
    using u(1,3) v(1) w(1) t(1) dev ku bd assms(4,6,7) by (simp add: bmap_entry_def Let_def iaddr_def d_def)
  ultimately show ?thesis using t(2) ia [OF assms(5)] v(7) by (intro exI [of _ t]) simp
qed


lemma bmap_ind_new:
  fixes s :: "'a kfs_scheme"
  assumes "txw p W (Suc j) {} s" "fs_ok s" "file_ok s ip" "NDIRECT \<le> n" "n < MAXFILE" "ind s ip = 0" "room W 1 s"
  shows "\<exists>t. bind (balloc (i_dev (itable s ip)) s) (\<lambda>addr s. Ok addr (upd_inode ip (\<lambda>i. i\<lparr>i_addrs := (i_addrs i)(NDIRECT := addr)\<rparr>) s)) =
      Ok (ind t ip) t \<and> txw p W (Suc j) {} t \<and> ind t ip \<noteq> 0 \<and> ind t ip \<in> W \<and> iaddr t ip n = 0 \<and> bmap_post ip n 1 s t"
proof -
  obtain a fs where a: "free_list s = a # fs" "of_nat a \<in> W" "BBLOCK (of_nat a) (sb s) \<in> W"
    using room_Suc [of W 0 s] assms(7) by auto
  define x :: uint where "x = of_nat a"
  obtain t where t: "balloc ROOTDEV s = Ok x t" "txw p W (Suc j) {} t" "tx_frame s t" "fs_ok t" "free_list t = fs" "x \<noteq> 0"
    "data_block t x" "\<not> used s (unat x)" "blk t x = replicate BSIZE 0" "\<And>c. data_block s c \<Longrightarrow> data_block t c \<and> blk t c = blk s c"
    using balloc_fs [OF assms(1,2) a _ x_def] by auto
  define f where "f = (i_addrs (itable s ip))(NDIRECT := x)"
  define u where "u = upd_inode ip (\<lambda>i. i\<lparr>i_addrs := (i_addrs i)(NDIRECT := x)\<rparr>) t"
  have it: "itable u = (itable s)(ip := (itable s ip)\<lparr>i_addrs := f\<rparr>)" "blk u = blk t" "sb u = sb s"
    using tx_frame_kfs [OF t(3)] by (simp_all add: u_def f_def)
  have dev: "i_dev (itable s ip) = ROOTDEV" using assms(3) by (simp add: file_ok_def)
  have iu: "ind u ip = x" using it by (simp add: ind_def f_def)
  have z: "get32 (replicate BSIZE 0) (4 * (m - NDIRECT)) = 0" if "m < MAXFILE" for m
    using that by (simp add: get32_def MAXFILE_eq)
  have ia: "iaddr u ip m = iaddr s ip m" if "m < MAXFILE" for m
    using z [OF that] it iu t(6,9) assms(6) by (simp add: iaddr_def f_def)
  note g = file_ok_ind [OF assms(3) ia iu assms(6) t(8) _ _ it(3) _ t(6), of f]
  have fr: "fs_frame s u" using fs_frame_trans [OF fs_frame_tx [OF t(3)], of u] by (simp add: u_def)
  have db: "\<And>c. data_block u c = data_block t c" "fs_ok u" "free_list u = fs" using t(4,5) by (simp_all add: u_def)
  have g: "file_ok u ip" "fblocks u ip = insert x (fblocks s ip)" using g t(7,10) it db(1) by simp_all
  have "fblock u ip m = fblock s ip m" if m: "m < MAXFILE" for m
    using ia [OF m] it(2) t(10) iaddr_file(1) [OF assms(3) m] by (simp add: fblock_def)
  moreover have "others_same ip s u"
    unfolding others_same_def using t(8,10) g(2) it(2) db(1) by (auto simp: data_block_def)
  ultimately have "bmap_post ip n 1 s u"
    using ia g db a(1) x_def it(1) fr assms(5,6) by (auto simp: bmap_post_def)
  moreover have "iaddr s ip n = 0" using assms(4,6) by (simp add: iaddr_def)
  ultimately show ?thesis using t(1,2) dev iu ia [OF assms(5)] t(6) a(2) x_def by (intro exI [of _ u]) (simp add: u_def)
qed

lemma bmap_postD:
  assumes "bmap_post ip n k s t"
  shows "fs_ok t" "file_ok t ip" "free_list t = drop k (free_list s)" "\<And>m. m < MAXFILE \<Longrightarrow> m \<noteq> n \<Longrightarrow> iaddr t ip m = iaddr s ip m"
    "iaddr s ip n \<noteq> 0 \<Longrightarrow> iaddr t ip n = iaddr s ip n" "\<And>m. m < MAXFILE \<Longrightarrow> fblock t ip m = fblock s ip m" "ind s ip \<noteq> 0 \<Longrightarrow> ind t ip = ind s ip"
    "\<exists>f. itable t = (itable s)(ip := (itable s ip)\<lparr>i_addrs := f\<rparr>)" "fs_frame s t" "others_same ip s t" "sb t = sb s"
    "fblocks t ip \<subseteq> fblocks s ip \<union> of_nat ` set (take k (free_list s))"
  using assms fs_frame_views(1) [of s t] by (simp_all add: bmap_post_def)

lemma bmap_post_trans:
  fixes s t u :: "'a kfs_scheme"
  assumes "bmap_post ip n j s t" "bmap_post ip n k t u" "iaddr t ip n = iaddr s ip n"
  shows "bmap_post ip n (j + k) s u"
proof -
  note a = bmap_postD [OF assms(1)] and b = bmap_postD [OF assms(2)]
  obtain f g where f: "itable t = (itable s)(ip := (itable s ip)\<lparr>i_addrs := f\<rparr>)" "itable u = (itable t)(ip := (itable t ip)\<lparr>i_addrs := g\<rparr>)"
    using a(8) b(8) by blast
  have "itable u = (itable s)(ip := (itable s ip)\<lparr>i_addrs := g\<rparr>)" using f by simp
  then have "\<exists>g. itable u = (itable s)(ip := (itable s ip)\<lparr>i_addrs := g\<rparr>)" by blast
  moreover have "fblocks u ip \<subseteq> fblocks s ip \<union> of_nat ` set (take (j + k) (free_list s))"
    using a(12) b(12) unfolding a(3) take_add by auto
  moreover have "iaddr s ip n \<noteq> 0 \<longrightarrow> iaddr u ip n = iaddr s ip n" using a(5) b(5) by auto
  moreover have "ind s ip \<noteq> 0 \<longrightarrow> ind u ip = ind s ip" using a(7) b(7) by auto
  ultimately show ?thesis unfolding bmap_post_def
    using a(3,4,6) b(1-4,6) fs_frame_trans [OF a(9) b(9)] others_same_trans [OF a(10) b(10)] by (simp add: add.commute)
qed

text \<open>The number of blocks a call takes from the free list.\<close>

definition bmap_need :: "'a kfs_scheme \<Rightarrow> nat \<Rightarrow> nat \<Rightarrow> nat" where
  "bmap_need s ip n = of_bool (iaddr s ip n = 0) + of_bool (NDIRECT \<le> n \<and> ind s ip = 0)"

lemma bmap_spec:
  fixes s :: "'a kfs_scheme"
  assumes "txw p W (Suc (Suc j)) {} s" "fs_ok s" "file_ok s ip" "n < MAXFILE" "room W (bmap_need s ip n) s"
    "NDIRECT \<le> n \<Longrightarrow> iaddr s ip n = 0 \<Longrightarrow> ind s ip \<noteq> 0 \<Longrightarrow> ind s ip \<in> W"
  shows "\<exists>t. bmap ip (of_nat n) s = Ok (iaddr t ip n) t \<and> txw p W (Suc (Suc j)) {} t \<and> iaddr t ip n \<noteq> 0 \<and>
    bmap_post ip n (bmap_need s ip n) s t"
proof (cases "n < NDIRECT")
  case True
  show ?thesis
  proof (cases "iaddr s ip n = 0")
    case z: True
    then show ?thesis using bmap_direct_new [OF assms(1-3) True z] assms(5) True by (simp add: bmap_need_def)
  next
    case False
    have "unat (of_nat n :: uint) = n" using True by (simp add: unat_of_nat MAXFILE_eq)
    then have "bmap ip (of_nat n) s = Ok (iaddr s ip n) s" using False True by (simp add: bmap_def iaddr_def Let_def)
    then show ?thesis using bmap_post_same(1) [OF assms(2,3) refl tx_frame_refl] False True assms(1) by (simp add: bmap_need_def)
  qed
next
  case False
  then have n: "NDIRECT \<le> n" by simp
  show ?thesis
  proof (cases "ind s ip = 0")
    case True
    then have z: "iaddr s ip n = 0" using n by (simp add: iaddr_def)
    have r: "room W (1 + 1) s" using assms(5) True n z by (simp add: bmap_need_def)
    then have "room W 1 s" by (rule room_le) simp
    then obtain t where t: "bind (balloc (i_dev (itable s ip)) s) (\<lambda>addr s. Ok addr (upd_inode ip (\<lambda>i. i\<lparr>i_addrs := (i_addrs i)(NDIRECT := addr)\<rparr>) s)) =
        Ok (ind t ip) t" "txw p W (Suc (Suc j)) {} t" "ind t ip \<noteq> 0" "ind t ip \<in> W" "iaddr t ip n = 0" "bmap_post ip n 1 s t"
      using bmap_ind_new [OF assms(1-3) n assms(4) True] by blast
    note ok = bmap_postD(1,2,3,11) [OF t(6)]
    obtain u where u: "bmap_entry ip (n - NDIRECT) (ind t ip) t = Ok (iaddr u ip n) u" "txw p W (Suc (Suc j)) {} u" "iaddr u ip n \<noteq> 0" "bmap_post ip n 1 t u"
      using bmap_entry_new [OF t(2) ok(1,2) n assms(4) t(3,5) room_drop [OF r ok(3,4)] t(4)] by blast
    have "bmap_post ip n (1 + 1) s u" using bmap_post_trans [OF t(6) u(4)] t(5) z by simp
    then show ?thesis using u t(1) True n z assms(4) by (auto simp: bmap_indirect bmap_need_def)
  next
    case False
    then show ?thesis
      using bmap_entry_old [OF assms(1-3) n False] bmap_entry_new [OF assms(1-3) n assms(4) False] assms(5,6) n
      by (cases "iaddr s ip n = 0") (auto simp: bmap_indirect bmap_need_def assms(4))
  qed
qed


text \<open>A block that is there already is only looked up.\<close>

lemma bmap_old:
  fixes s :: "'a kfs_scheme"
  assumes "txw p W (Suc j) {} s" "fs_ok s" "file_ok s ip" "n < MAXFILE" "iaddr s ip n \<noteq> 0"
  shows "\<exists>t. bmap ip (of_nat n) s = Ok (iaddr s ip n) t \<and> txw p W (Suc j) {} t \<and> blk t = blk s \<and> tx_frame s t"
proof (cases "n < NDIRECT")
  case True
  have "unat (of_nat n :: uint) = n" using True by (simp add: unat_of_nat MAXFILE_eq)
  then show ?thesis using assms(1,5) True by (simp add: bmap_def iaddr_def Let_def)
next
  case False
  then have n: "NDIRECT \<le> n" "ind s ip \<noteq> 0" using assms(5) by (auto simp: iaddr_def)
  obtain t where t: "bmap_entry ip (n - NDIRECT) (ind s ip) s = Ok (iaddr t ip n) t" "txw p W (Suc j) {} t" "blk t = blk s" "tx_frame s t"
    using bmap_entry_old [OF assms(1-3) n assms(5)] by blast
  then show ?thesis using bmap_post_same(2) [OF assms(2,3) t(3,4)] n assms(4) by (intro exI [of _ t]) (simp add: bmap_indirect)
qed

lemma bmap_post_W:
  fixes s t :: "'a kfs_scheme"
  assumes "bmap_post ip n k s t" "room W k s" "n < MAXFILE"
  shows "iaddr s ip n = 0 \<Longrightarrow> iaddr t ip n \<noteq> 0 \<Longrightarrow> iaddr t ip n \<in> W" "ind s ip = 0 \<Longrightarrow> ind t ip \<noteq> 0 \<Longrightarrow> ind t ip \<in> W"
proof -
  note p = bmap_postD [OF assms(1)]
  have W: "x \<in> W" if "x \<in> fblocks t ip" "x \<notin> fblocks s ip" for x using p(12) that assms(2) by (auto simp: room_def)
  have F: "\<And>m. m < MAXFILE \<Longrightarrow> iaddr t ip m \<noteq> 0 \<Longrightarrow> iaddr t ip m \<noteq> ind t ip"
    "\<And>m l. m < MAXFILE \<Longrightarrow> l < MAXFILE \<Longrightarrow> iaddr t ip m \<noteq> 0 \<Longrightarrow> iaddr t ip m = iaddr t ip l \<Longrightarrow> m = l"
    using p(2) by (auto simp: file_ok_def)
  show "iaddr t ip n \<in> W" if z: "iaddr s ip n = 0" "iaddr t ip n \<noteq> 0"
  proof (rule W)
    show "iaddr t ip n \<in> fblocks t ip" using z assms(3) by (simp add: fblocks_def)
    have "iaddr s ip m \<noteq> iaddr t ip n" if "m < MAXFILE" for m using F(2) [OF that assms(3)] p(4) [OF that] z by (cases "m = n") auto
    moreover have "ind s ip \<noteq> iaddr t ip n" using F(1) [OF assms(3)] p(7) z by auto
    ultimately show "iaddr t ip n \<notin> fblocks s ip" unfolding fblocks_def by (metis DiffE image_iff insertE lessThan_iff)
  qed
  show "ind t ip \<in> W" if z: "ind s ip = 0" "ind t ip \<noteq> 0"
  proof (rule W)
    show "ind t ip \<in> fblocks t ip" using z by (simp add: fblocks_def)
    have "iaddr s ip m \<noteq> ind t ip" if "m < MAXFILE" for m using F(1) [OF that] p(4) [OF that] p(5) z by (cases "m = n") auto
    then show "ind t ip \<notin> fblocks s ip" using z unfolding fblocks_def by (metis DiffE image_iff insertE lessThan_iff)
  qed
qed

text \<open>Writing one block of a file.\<close>

lemma file_write:
  fixes s t :: "'a kfs_scheme"
  assumes "fs_ok s" "file_ok s ip" "n < MAXFILE" "iaddr s ip n \<noteq> 0" "blk t = (blk s)(iaddr s ip n := d)" "tx_frame s t" "length d = BSIZE"
  shows "fs_ok t" "file_ok t ip" "\<And>m. m < MAXFILE \<Longrightarrow> iaddr t ip m = iaddr s ip m" "ind t ip = ind s ip" "free_list t = free_list s"
    "\<And>m. m < MAXFILE \<Longrightarrow> fblock t ip m = (if m = n then d else fblock s ip m)" "others_same ip s t" "fblocks t ip = fblocks s ip"
proof -
  let ?c = "iaddr s ip n"
  note k = tx_frame_kfs [OF assms(6)]
  have c: "data_block s ?c" "?c \<noteq> ind s ip" using iaddr_file(1) [OF assms(2-4)] assms(2-4) by (auto simp: file_ok_def)
  note w = fs_ok_write [OF assms(1,5) k(1) assms(7)]
  have nb: "?c \<notin> {BBLOCK (of_nat b) (sb s) | b. b < nblk s}" using c by (auto simp: data_block_def meta_def)
  then show "fs_ok t" "free_list t = free_list s" using w by simp_all
  have db: "\<And>x. data_block t x = data_block s x" using w(4) nb by simp
  show ia: "iaddr t ip m = iaddr s ip m" for m using k c assms(5) by (simp add: iaddr_def ind_def)
  show i: "ind t ip = ind s ip" using k by (simp add: ind_def)
  show fb: "fblocks t ip = fblocks s ip" using ia i by (simp add: fblocks_def)
  show "fblock t ip m = (if m = n then d else fblock s ip m)" if "m < MAXFILE" for m
    using ia assms(2-5) that by (auto simp: fblock_def file_ok_def)
  show "file_ok t ip" using assms(2) k ia i fb db by (simp add: file_ok_def)
  have "?c \<in> fblocks s ip" using assms(3,4) by (simp add: fblocks_def)
  then show "others_same ip s t" using assms(5) fb db by (auto simp: others_same_def)
qed


text \<open>Writing a block of inodes, and changing the size of an inode.\<close>

lemma inode_write:
  fixes s t :: "'a kfs_scheme"
  assumes "fs_ok s" "i < sb_ninodes (sb s)" "blk t = (blk s)(IBLOCK i (sb s) := d)" "tx_frame s t" "length d = BSIZE" "file_ok s ip"
  shows "fs_ok t" "file_ok t ip" "\<And>m. m < MAXFILE \<Longrightarrow> iaddr t ip m = iaddr s ip m" "ind t ip = ind s ip" "free_list t = free_list s"
    "\<And>m. m < MAXFILE \<Longrightarrow> fblock t ip m = fblock s ip m" "others_same ip s t"
proof -
  let ?c = "IBLOCK i (sb s)"
  note k = tx_frame_kfs [OF assms(4)]
  have nb: "?c \<notin> {BBLOCK (of_nat b) (sb s) | b. b < nblk s}" using assms(1,2) by (auto simp: fs_ok_def)
  note w = fs_ok_write [OF assms(1,3) k(1) assms(5) nb]
  show "fs_ok t" "free_list t = free_list s" by (fact w(2), fact w(3))
  have nd: "\<not> data_block s ?c" using metaI(2) [OF assms(2)] by (simp add: data_block_def)
  have b: "blk t c = blk s c" if "data_block s c" for c using that nd assms(3) by auto
  show i: "ind t ip = ind s ip" using k by (simp add: ind_def)
  show ia: "iaddr t ip m = iaddr s ip m" for m using k i b iaddr_file(2) [OF assms(6)] by (simp add: iaddr_def)
  have fb: "fblocks t ip = fblocks s ip" using ia i by (simp add: fblocks_def)
  show "fblock t ip m = fblock s ip m" if "m < MAXFILE" for m using ia b iaddr_file(1) [OF assms(6) that] by (simp add: fblock_def)
  show "file_ok t ip" using assms(6) k ia i fb w(4) by (simp add: file_ok_def)
  show "others_same ip s t" using b fb w(4) by (simp add: others_same_def)
qed

lemma size_upd:
  fixes s :: "'a kfs_scheme" and z :: uint and ip :: nat
  defines "t \<equiv> upd_inode ip (\<lambda>i. i\<lparr>i_size := z\<rparr>) s"
  assumes "file_ok s ip" "unat z \<le> MAXFILE * BSIZE"
  shows "file_ok t ip" "iaddr t ip m = iaddr s ip m" "ind t ip = ind s ip" "fblock t ip m = fblock s ip m" "others_same ip s t"
proof -
  show i: "ind t ip = ind s ip" and ia: "iaddr t ip m = iaddr s ip m" for m by (simp_all add: t_def ind_def iaddr_def)
  show "fblock t ip m = fblock s ip m" using ia by (simp add: fblock_def t_def)
  have fb: "fblocks t ip = fblocks s ip" using ia i by (simp add: fblocks_def)
  show "file_ok t ip" using assms(2,3) i ia fb by (simp add: file_ok_def t_def)
  show "others_same ip s t" using fb by (simp add: others_same_def t_def)
qed

end
