(* ===== verification/Fs_Content.thy ===== *)
theory Fs_Content
  imports Fs_Map Vm_User
begin

text \<open>
  The contents of a file as a sequence of bytes. \<open>writei\<close> replaces the bytes from its offset on and extends the file when it
  writes past the end; \<open>readi\<close> returns the bytes. Where the bytes come from is an interface (\<open>io_source\<close>): a
  local variable of the kernel, or the memory of the process.
\<close>

section \<open>Bytes\<close>

definition fbyte :: "'a kfs_scheme \<Rightarrow> nat \<Rightarrow> nat \<Rightarrow> uchar" where
  "fbyte s ip i = fblock s ip (i div BSIZE) ! (i mod BSIZE)"

abbreviation fsize :: "'a kfs_scheme \<Rightarrow> nat \<Rightarrow> nat" where
  "fsize s ip \<equiv> unat (i_size (itable s ip))"

definition contents :: "'a kfs_scheme \<Rightarrow> nat \<Rightarrow> uchar list" where
  "contents s ip = map (fbyte s ip) [0..<fsize s ip]"

text \<open>A file without holes: every block below its size is allocated.\<close>

definition filled :: "'a kfs_scheme \<Rightarrow> nat \<Rightarrow> bool" where
  "filled s ip \<longleftrightarrow> (\<forall>n < MAXFILE. n * BSIZE < fsize s ip \<longrightarrow> iaddr s ip n \<noteq> 0)"

text \<open>The inode on the disk agrees with the one in memory.\<close>

definition synced :: "'a kfs_scheme \<Rightarrow> nat \<Rightarrow> bool" where
  "synced s ip \<longleftrightarrow>
    get_dinode (dip_off (i_inum (itable s ip))) (blk s (IBLOCK (i_inum (itable s ip)) (sb s))) (itable s ip) = itable s ip"

lemma off_div: "(off :: uint) div of_nat BSIZE = of_nat (unat off div BSIZE)"
proof -
  have "unat off div 1024 < 2 ^ 32" using unsigned_less [of off, where ?'a = nat] by (simp add: less_mult_imp_div_less)
  then show ?thesis by (simp add: word_unat_eq_iff unat_div unat_of_nat BSIZE_def)
qed

lemma off_mod: "unat ((off :: uint) mod of_nat BSIZE) = unat off mod BSIZE"
  by (simp add: unat_mod BSIZE_def)

lemma fblock_size: "fs_ok s \<Longrightarrow> length (fblock s ip n) = BSIZE"
  by (simp add: fblock_def blk_size)

lemma block_bytes:
  assumes "length b = BSIZE" "m \<le> BSIZE - off mod BSIZE"
  shows "take m (drop (off mod BSIZE) b) = map (\<lambda>i. b ! (i mod BSIZE)) [off..<off + m]"
proof (rule nth_equalityI)
  have "off mod BSIZE < BSIZE" by (simp add: BSIZE_def)
  then show l: "length (take m (drop (off mod BSIZE) b)) = length (map (\<lambda>i. b ! (i mod BSIZE)) [off..<off + m])" using assms by simp
  fix i assume "i < length (take m (drop (off mod BSIZE) b))"
  then have "i < m" "off mod BSIZE + i < BSIZE" using assms by auto
  then have "(off + i) mod BSIZE = off mod BSIZE + i" by (metis mod_add_left_eq mod_less)
  then show "take m (drop (off mod BSIZE) b) ! i = map (\<lambda>i. b ! (i mod BSIZE)) [off..<off + m] ! i"
    using \<open>i < m\<close> \<open>off mod BSIZE + i < BSIZE\<close> assms(1) by simp
qed

lemma map_upt_split: "m \<le> l \<Longrightarrow> map f [a..<a + m] @ map f [a + m..<a + l] = map f [a..<a + l]"
  using upt_add_eq_append [of a "a + m" "l - m"] by (simp flip: map_append)

lemma block_range:
  assumes "off \<le> i" "i < off + m" "m \<le> BSIZE - off mod BSIZE"
  shows "i div BSIZE = off div BSIZE" "i mod BSIZE = off mod BSIZE + (i - off)"
proof -
  have b: "0 < BSIZE" "off mod BSIZE < BSIZE" by (simp_all add: BSIZE_def)
  have "i = off div BSIZE * BSIZE + (off mod BSIZE + (i - off))" "off mod BSIZE + (i - off) < BSIZE" using assms b by simp_all
  then show "i div BSIZE = off div BSIZE" "i mod BSIZE = off mod BSIZE + (i - off)"
    by (metis b(1) div_mult_self3 div_less add.right_neutral less_not_refl, metis mod_mult_self3 mod_less)
qed

lemma chunk_step:
  fixes off n tot :: uint
  defines "m \<equiv> chunk n tot off"
  assumes "tot < n" "unat off + (unat n - unat tot) \<le> MAXFILE * BSIZE"
  shows "unat off div BSIZE < MAXFILE" "unat off div BSIZE * BSIZE < unat off + (unat n - unat tot)" "unat (off + m) = unat off + unat m"
    "unat (off + m) + (unat n - unat (tot + m)) = unat off + (unat n - unat tot)" "tot + m \<le> n"
    "unat n - unat (tot + m) = unat n - unat tot - unat m" "unat m \<le> unat n - unat tot" "unat m = min (unat n - unat tot) (BSIZE - unat off mod BSIZE)"
proof -
  note ch = chunk_bounds [OF assms(2), of off, folded m_def]
  have lt: "unat tot < unat n" using assms(2) by (simp add: word_less_nat_alt)
  have "unat off < MAXFILE * BSIZE" using assms(3) lt by simp
  then show "unat off div BSIZE < MAXFILE" by (simp add: less_mult_imp_div_less)
  show "unat off div BSIZE * BSIZE < unat off + (unat n - unat tot)"
    using lt div_times_less_eq_dividend [of "unat off" BSIZE] by linarith
  have "unat off + unat m < 2 ^ 32" using assms(3) ch(2) by (simp add: MAXFILE_eq)
  then show off: "unat (off + m) = unat off + unat m" by (simp add: unat_word_ariths)
  show rest: "unat n - unat (tot + m) = unat n - unat tot - unat m" using ch(4) by simp
  show "unat (off + m) + (unat n - unat (tot + m)) = unat off + (unat n - unat tot)" using off rest ch(2) by simp
  show "tot + m \<le> n" using ch(2,4) lt by (simp add: word_le_nat_alt)
  show "unat m \<le> unat n - unat tot" "unat m = min (unat n - unat tot) (BSIZE - unat off mod BSIZE)" using ch by simp_all
qed

section \<open>\<open>readi\<close>\<close>

lemma readi_loop_spec:
  fixes s :: "'a kfs_scheme"
  assumes "txw p W (Suc j) {} s" "fs_ok s" "file_ok s ip" "tot \<le> n" "unat off + (unat n - unat tot) \<le> MAXFILE * BSIZE"
    "\<And>k. k < MAXFILE \<Longrightarrow> k * BSIZE < unat off + (unat n - unat tot) \<Longrightarrow> iaddr s ip k \<noteq> 0"
  shows "\<exists>t. readi_loop ip (IoLocal bs) off tot n s = Ok (n, IoLocal (bs @ map (fbyte s ip) [unat off..<unat off + (unat n - unat tot)])) t \<and>
    txw p W (Suc j) {} t \<and> blk t = blk s \<and> tx_frame s t"
  using assms
proof (induction "unat n - unat tot" arbitrary: bs off tot s rule: less_induct)
  case less
  note A = less.prems
  show ?case
  proof (cases "tot < n")
    case False
    then have "tot = n" using A(4) by simp
    then show ?thesis using A(1) by (simp add: readi_loop.simps [of ip "IoLocal bs"])
  next
    case True
    let ?k = "unat off div BSIZE" and ?m = "chunk n tot off"
    note ch = chunk_step [OF True A(5)]
    note k = ch(1,2) and off = ch(3) and pre = ch(4) and le = ch(5)
    define a where "a = iaddr s ip ?k"
    have a0: "a \<noteq> 0" using A(6) k by (simp add: a_def)
    obtain t where t: "bmap ip (off div of_nat BSIZE) s = Ok a t" "txw p W (Suc j) {} t" "blk t = blk s" "tx_frame s t"
      using bmap_old [OF A(1-3) k(1)] a0 unfolding off_div a_def by blast
    obtain b u where r: "bread ROOTDEV a t = Ok b u" "holder u a = Some b" "b_data (bufs u b) = blk s a" "txw p W j {a} u" "blk u = blk s" "tx_frame t u"
      using txs.rd [OF t(2), of a] t(3) by auto
    obtain v where v: "brelse b u = Ok () v" "txw p W (Suc j) {} v" "blk v = blk s" "tx_frame u v"
      using txs.rel [OF r(4) _ r(2)] r(5) by auto
    have fr: "tx_frame s v" using tx_frame_trans [OF tx_frame_trans [OF t(4) r(6)] v(4)] .
    note sv = bmap_post_same [OF A(2,3) v(3) fr]
    have dev: "i_dev (itable t ip) = ROOTDEV" using A(3) tx_frame_kfs [OF t(4)] by (simp add: file_ok_def)
    have fbv: "fbyte v ip = fbyte s ip" using sv(2) v(3) by (simp add: fbyte_def fblock_def fun_eq_iff)
    define src where "src = map (fbyte s ip) [unat off..<unat off + unat ?m]"
    have src: "take (unat ?m) (drop (unat (off mod of_nat BSIZE)) (b_data (bufs u b))) = src"
    proof -
      have "src = map (\<lambda>i. blk s a ! (i mod BSIZE)) [unat off..<unat off + unat ?m]"
        unfolding src_def
      proof (rule map_cong [OF refl])
        fix i assume "i \<in> set [unat off..<unat off + unat ?m]"
        then have "i div BSIZE = ?k" using block_range(1) [of "unat off" i "unat ?m"] ch(8) by simp
        then show "fbyte s ip i = blk s a ! (i mod BSIZE)" using a0 by (simp add: fbyte_def fblock_def a_def)
      qed
      then show ?thesis unfolding off_mod r(3) using block_bytes [OF blk_size [OF A(2)], of "unat ?m" "unat off" a] ch(8) by simp
    qed
    have io: "io_out (IoLocal bs) src u = Ok (0, IoLocal (bs @ src)) u" using tx_calm(2) [OF r(4)] by (simp add: io_out_def calm_myproc)
    have "\<exists>w. readi_loop ip (IoLocal (bs @ src)) (off + ?m) (tot + ?m) n v =
        Ok (n, IoLocal ((bs @ src) @ map (fbyte v ip) [unat (off + ?m)..<unat (off + ?m) + (unat n - unat (tot + ?m))])) w \<and>
      txw p W (Suc j) {} w \<and> blk w = blk v \<and> tx_frame v w"
      by (rule less.hyps [OF chunk_measure [OF True] v(2) sv(3,4) le]) (use A(5,6) sv(2) pre in auto)
    then obtain w where w: "readi_loop ip (IoLocal (bs @ src)) (off + ?m) (tot + ?m) n v =
        Ok (n, IoLocal ((bs @ src) @ map (fbyte v ip) [unat (off + ?m)..<unat (off + ?m) + (unat n - unat (tot + ?m))])) w"
      "txw p W (Suc j) {} w" "blk w = blk v" "tx_frame v w" by blast
    have "src @ map (fbyte v ip) [unat (off + ?m)..<unat (off + ?m) + (unat n - unat (tot + ?m))] =
        map (fbyte s ip) [unat off..<unat off + (unat n - unat tot)]"
      unfolding pre unfolding fbv src_def off by (rule map_upt_split [OF ch(7)])
    moreover have "readi_loop ip (IoLocal bs) off tot n s = readi_loop ip (IoLocal (bs @ src)) (off + ?m) (tot + ?m) n v"
      using True t(1) r(1) dev src io v(1) by (simp add: readi_loop.simps [of ip "IoLocal bs"] Let_def)
    ultimately show ?thesis using w v(3) tx_frame_trans [OF fr w(4)] by (intro exI [of _ w]) simp
  qed
qed


lemma readi_spec:
  fixes s :: "'a kfs_scheme"
  assumes "txw p W (Suc j) {} s" "fs_ok s" "file_ok s ip" "filled s ip" "unat off \<le> fsize s ip" "unat off + unat n < 2 ^ 32"
  shows "\<exists>t. readi ip (IoLocal []) off n s =
      Ok (of_nat (min (unat n) (fsize s ip - unat off)), IoLocal (take (unat n) (drop (unat off) (contents s ip)))) t \<and>
    txw p W (Suc j) {} t \<and> blk t = blk s \<and> tx_frame s t"
proof -
  let ?size = "i_size (itable s ip)"
  define n' where "n' = (if ?size < off + n then ?size - off else n)"
  have le: "\<not> ?size < off" "\<not> off + n < off" using assms(5,6) by (simp_all add: word_less_nat_alt unat_word_ariths)
  have un: "unat n' = min (unat n) (fsize s ip - unat off)"
    using assms(5,6) le(1) by (auto simp: n'_def word_less_nat_alt unat_word_ariths unat_sub word_le_nat_alt)
  have max: "fsize s ip \<le> MAXFILE * BSIZE" using assms(3) by (simp add: file_ok_def)
  have pre: "unat off + (unat n' - unat (0 :: uint)) \<le> MAXFILE * BSIZE" "\<And>k. k < MAXFILE \<Longrightarrow> k * BSIZE < unat off + (unat n' - unat (0 :: uint)) \<Longrightarrow> iaddr s ip k \<noteq> 0"
    using un max assms(4,5) by (auto simp: filled_def)
  obtain t where t: "readi_loop ip (IoLocal []) off 0 n' s =
      Ok (n', IoLocal ([] @ map (fbyte s ip) [unat off..<unat off + (unat n' - unat (0 :: uint))])) t"
    "txw p W (Suc j) {} t" "blk t = blk s" "tx_frame s t"
    using readi_loop_spec [OF assms(1-3) _ pre, of "[]"] by auto
  have "map (fbyte s ip) [unat off..<unat off + unat n'] = take (unat n) (drop (unat off) (contents s ip))"
    using assms(5) un by (simp add: contents_def drop_map take_map min_def)
  moreover have "n' = of_nat (min (unat n) (fsize s ip - unat off))" unfolding un [symmetric] by simp
  ultimately show ?thesis using t le by (auto simp: readi_def Let_def n'_def)
qed


section \<open>\<open>writei\<close>\<close>

text \<open>The number of blocks that \<open>len\<close> bytes from \<open>off\<close> on touch.\<close>

definition nspan :: "nat \<Rightarrow> nat \<Rightarrow> nat" where
  "nspan off len = (if len = 0 then 0 else (off + len - 1) div BSIZE - off div BSIZE + 1)"

lemma nspan_step:
  assumes "0 < len" "m = min len (BSIZE - off mod BSIZE)"
  shows "nspan off len = Suc (nspan (off + m) (len - m))" "m < len \<Longrightarrow> (off + m) div BSIZE = Suc (off div BSIZE)"
proof -
  have b: "0 < BSIZE" "off mod BSIZE < BSIZE" by (simp_all add: BSIZE_def)
  show d: "(off + m) div BSIZE = Suc (off div BSIZE)" if "m < len"
  proof -
    have "off = BSIZE * (off div BSIZE) + off mod BSIZE" by simp
    moreover have "m = BSIZE - off mod BSIZE" using that assms(2) by simp
    ultimately have "off + m = BSIZE * (off div BSIZE) + BSIZE" using b(2) by linarith
    then have "off + m = BSIZE * Suc (off div BSIZE)" by simp
    then show ?thesis using b(1) by (metis nonzero_mult_div_cancel_left less_numeral_extra(3))
  qed
  show "nspan off len = Suc (nspan (off + m) (len - m))"
  proof (cases "m < len")
    case True
    have "off div BSIZE < (off + len - 1) div BSIZE"
      using d [OF True] div_le_mono [of "off + m" "off + len - 1" BSIZE] True by linarith
    then show ?thesis using True d [OF True] assms(1) by (simp add: nspan_def)
  next
    case False
    then have "m = len" using assms(2) by simp
    then have "(off + len - 1) div BSIZE = off div BSIZE" using block_range(1) [of off "off + len - 1" len] assms by simp
    then show ?thesis using False assms(1,2) by (simp add: nspan_def)
  qed
qed

lemma nspan_sum:
  assumes "0 < len" "m = min len (BSIZE - off mod BSIZE)"
  shows "(off + m) div BSIZE + nspan (off + m) (len - m) \<le> off div BSIZE + nspan off len"
proof (cases "m < len")
  case True
  then show ?thesis using nspan_step [OF assms] by simp
next
  case False
  then have "m = len" using assms(2) by simp
  have b: "0 < BSIZE" "off mod BSIZE < BSIZE" by (simp_all add: BSIZE_def)
  have "off = off div BSIZE * BSIZE + off mod BSIZE" by simp
  moreover have "m \<le> BSIZE - off mod BSIZE" using assms(2) by simp
  ultimately have "off + m \<le> off div BSIZE * BSIZE + BSIZE" using b(2) by linarith
  then have "off + m \<le> Suc (off div BSIZE) * BSIZE" by simp
  then have "(off + m) div BSIZE \<le> Suc (off div BSIZE)" using div_le_mono [of "off + m" "Suc (off div BSIZE) * BSIZE" BSIZE] b(1)
    by (metis nonzero_mult_div_cancel_right less_numeral_extra(3))
  then show ?thesis using nspan_step [OF assms] \<open>m = len\<close> by (simp add: nspan_def)
qed

lemma nspan_bound: "off + len \<le> N * BSIZE \<Longrightarrow> k < off div BSIZE + nspan off len \<Longrightarrow> off div BSIZE \<le> k \<Longrightarrow> k < N"
proof (cases "len = 0")
  case False
  assume a: "off + len \<le> N * BSIZE" "k < off div BSIZE + nspan off len"
  have "off div BSIZE \<le> (off + len - 1) div BSIZE" using False by (intro div_le_mono) simp
  then have "k \<le> (off + len - 1) div BSIZE" using a(2) False by (simp add: nspan_def)
  moreover have "(off + len - 1) div BSIZE < N" using a(1) False by (intro less_mult_imp_div_less) simp
  ultimately show ?thesis by simp
qed (simp add: nspan_def)

text \<open>The number of blocks that writing to the \<open>cnt\<close> blocks from \<open>lo\<close> on takes from the free list.\<close>

definition wneed :: "'a kfs_scheme \<Rightarrow> nat \<Rightarrow> nat \<Rightarrow> nat \<Rightarrow> nat" where
  "wneed s ip lo cnt = card {k \<in> {lo..<lo + cnt}. iaddr s ip k = 0} + of_bool (ind s ip = 0 \<and> 0 < cnt \<and> NDIRECT < lo + cnt)"

lemma wneed_0 [simp]: "wneed s ip lo 0 = 0"
  by (simp add: wneed_def)

lemma wneed_card: "card {k \<in> {lo..<lo + Suc c}. P k} = of_bool (P lo) + card {k \<in> {Suc lo..<Suc lo + c}. P k}"
proof -
  have "{k \<in> {lo..<lo + Suc c}. P k} = (if P lo then {lo} else {}) \<union> {k \<in> {Suc lo..<Suc lo + c}. P k}"
    by (auto simp: not_less_eq_eq le_less)
  then show ?thesis by (auto simp: card_insert_if)
qed

lemma wneed_step:
  assumes "\<And>m. m < MAXFILE \<Longrightarrow> m \<noteq> lo \<Longrightarrow> iaddr w ip m = iaddr s ip m" "ind s ip \<noteq> 0 \<Longrightarrow> ind w ip = ind s ip"
    "NDIRECT \<le> lo \<Longrightarrow> ind w ip \<noteq> 0" "lo + Suc c \<le> MAXFILE"
  shows "bmap_need s ip lo + wneed w ip (Suc lo) c \<le> wneed s ip lo (Suc c)"
proof -
  define X where "X = card {k \<in> {Suc lo..<Suc lo + c}. iaddr s ip k = 0}"
  have e: "{k \<in> {Suc lo..<Suc lo + c}. iaddr w ip k = 0} = {k \<in> {Suc lo..<Suc lo + c}. iaddr s ip k = 0}" using assms(1,4) by auto
  have "wneed s ip lo (Suc c) = of_bool (iaddr s ip lo = 0) + X + of_bool (ind s ip = 0 \<and> NDIRECT < lo + Suc c)"
    unfolding wneed_def wneed_card X_def by simp
  moreover have "wneed w ip (Suc lo) c = X + of_bool (ind w ip = 0 \<and> 0 < c \<and> NDIRECT < Suc lo + c)" unfolding wneed_def e X_def ..
  ultimately show ?thesis using assms(2,3) by (auto simp: bmap_need_def)
qed

lemma bmap_need_le: "0 < cnt \<Longrightarrow> bmap_need s ip lo \<le> wneed s ip lo cnt"
proof -
  assume "0 < cnt"
  then obtain c where c: "cnt = Suc c" by (cases cnt) auto
  show ?thesis unfolding c wneed_def wneed_card bmap_need_def by simp
qed

text \<open>There are free blocks for all the blocks below \<open>K\<close> that the file lacks. Writing below \<open>K\<close> keeps that.\<close>

definition space :: "nat \<Rightarrow> nat \<Rightarrow> 'a kfs_scheme \<Rightarrow> bool" where
  "space ip K s \<longleftrightarrow> wneed s ip 0 K \<le> length (free_list s)"

lemma wneed_cong:
  assumes "\<And>m. m < MAXFILE \<Longrightarrow> iaddr t ip m = iaddr s ip m" "ind t ip = ind s ip" "lo + c \<le> MAXFILE"
  shows "wneed t ip lo c = wneed s ip lo c"
proof -
  have "{k \<in> {lo..<lo + c}. iaddr t ip k = 0} = {k \<in> {lo..<lo + c}. iaddr s ip k = 0}" using assms(1,3) by auto
  then show ?thesis using assms(2) by (simp add: wneed_def)
qed

lemma wneed_mono: "lo + c \<le> K \<Longrightarrow> wneed s ip lo c \<le> wneed s ip 0 K"
  unfolding wneed_def by (intro add_mono card_mono) auto

lemma bmap_space:
  fixes s t :: "'a kfs_scheme"
  assumes "bmap_post ip n (bmap_need s ip n) s t" "iaddr t ip n \<noteq> 0" "n < K" "K \<le> MAXFILE" "space ip K s"
  shows "space ip K t"
proof -
  note p = bmap_postD [OF assms(1)]
  let ?Z = "\<lambda>s. {k \<in> {0..<0 + K}. iaddr s ip k = 0}"
  have "iaddr t ip k = 0 \<longleftrightarrow> iaddr s ip k = 0 \<and> k \<noteq> n" if "k < K" for k using p(4) [of k] assms(2,4) that by (cases "k = n") auto
  then have "?Z t = ?Z s - {n}" by auto
  then have c: "card (?Z t) + of_bool (iaddr s ip n = 0) = card (?Z s)"
    using assms(3) card_Suc_Diff1 [of "?Z s" n] by (cases "iaddr s ip n = 0") auto
  have "ind t ip \<noteq> 0" if "NDIRECT \<le> n" using assms(2) that by (auto simp: iaddr_def)
  then have "of_bool (ind t ip = 0 \<and> 0 < K \<and> NDIRECT < 0 + K) + of_bool (NDIRECT \<le> n \<and> ind s ip = 0) \<le>
      (of_bool (ind s ip = 0 \<and> 0 < K \<and> NDIRECT < 0 + K) :: nat)" using p(7) assms(3) by auto
  then have "wneed t ip 0 K + bmap_need s ip n \<le> wneed s ip 0 K" using c unfolding wneed_def bmap_need_def by linarith
  then show ?thesis using assms(5) p(3) by (simp add: space_def)
qed

text \<open>The effect of writing the bytes \<open>bs\<close> at \<open>off\<close>.\<close>

definition wrote :: "nat \<Rightarrow> nat \<Rightarrow> uchar list \<Rightarrow> 'a kfs_scheme \<Rightarrow> 'a kfs_scheme \<Rightarrow> bool" where
  "wrote ip off bs s t \<longleftrightarrow> fs_ok t \<and> file_ok t ip \<and>
     (\<forall>i < MAXFILE * BSIZE. fbyte t ip i = (if off \<le> i \<and> i < off + length bs then bs ! (i - off) else fbyte s ip i)) \<and>
     (\<forall>k < MAXFILE. iaddr s ip k \<noteq> 0 \<longrightarrow> iaddr t ip k \<noteq> 0) \<and>
     (\<forall>i. off \<le> i \<and> i < off + length bs \<longrightarrow> iaddr t ip (i div BSIZE) \<noteq> 0) \<and>
     (\<exists>f. itable t = (itable s)(ip := (itable s ip)\<lparr>i_addrs := f\<rparr>)) \<and> fs_frame s t \<and> others_same ip s t \<and>
     (\<forall>K \<le> MAXFILE. off + length bs \<le> K * BSIZE \<and> space ip K s \<longrightarrow> space ip K t)"

lemma wrote_nil: "fs_ok s \<Longrightarrow> file_ok s ip \<Longrightarrow> wrote ip off [] s s"
  by (auto simp: wrote_def intro!: exI [of _ "i_addrs (itable s ip)"])

lemma wroteD:
  assumes "wrote ip off bs s t"
  shows "fs_ok t" "file_ok t ip"
    "\<And>i. i < MAXFILE * BSIZE \<Longrightarrow> fbyte t ip i = (if off \<le> i \<and> i < off + length bs then bs ! (i - off) else fbyte s ip i)"
    "\<And>k. k < MAXFILE \<Longrightarrow> iaddr s ip k \<noteq> 0 \<Longrightarrow> iaddr t ip k \<noteq> 0" "\<And>i. off \<le> i \<Longrightarrow> i < off + length bs \<Longrightarrow> iaddr t ip (i div BSIZE) \<noteq> 0"
    "\<exists>f. itable t = (itable s)(ip := (itable s ip)\<lparr>i_addrs := f\<rparr>)" "fs_frame s t" "others_same ip s t" "sb t = sb s"
    "\<And>K. K \<le> MAXFILE \<Longrightarrow> off + length bs \<le> K * BSIZE \<Longrightarrow> space ip K s \<Longrightarrow> space ip K t"
  using assms fs_frame_views(1) [of s t] by (simp_all add: wrote_def)

lemma wrote_append:
  fixes s t u :: "'a kfs_scheme"
  assumes "wrote ip off bs s t" "wrote ip (off + length bs) cs t u" "off + length bs + length cs \<le> MAXFILE * BSIZE"
  shows "wrote ip off (bs @ cs) s u"
proof -
  note a = wroteD [OF assms(1)] and b = wroteD [OF assms(2)]
  obtain f g where "itable t = (itable s)(ip := (itable s ip)\<lparr>i_addrs := f\<rparr>)" "itable u = (itable t)(ip := (itable t ip)\<lparr>i_addrs := g\<rparr>)"
    using a(6) b(6) by blast
  then have it: "itable u = (itable s)(ip := (itable s ip)\<lparr>i_addrs := g\<rparr>)" by simp
  have "iaddr u ip (i div BSIZE) \<noteq> 0" if "off \<le> i" "i < off + length (bs @ cs)" for i
  proof (cases "i < off + length bs")
    case True
    have "i div BSIZE < MAXFILE" using that assms(3) by (simp add: less_mult_imp_div_less)
    then show ?thesis using a(5) [OF that(1) True] b(4) by simp
  next
    case False
    then show ?thesis using b(5) [of i] that by simp
  qed
  moreover have "fbyte u ip i = (if off \<le> i \<and> i < off + length (bs @ cs) then (bs @ cs) ! (i - off) else fbyte s ip i)" if "i < MAXFILE * BSIZE" for i
    using a(3) [OF that] b(3) [OF that] by (auto simp: nth_append diff_diff_eq)
  moreover have "space ip K u" if "K \<le> MAXFILE" "off + length (bs @ cs) \<le> K * BSIZE" "space ip K s" for K
    using a(10) [of K] b(10) [of K] that by simp
  ultimately show ?thesis unfolding wrote_def
    using it b(1,2) a(4) b(4) fs_frame_trans [OF a(7) b(7)] others_same_trans [OF a(8) b(8)] by auto
qed


lemma write_step:
  fixes s t u :: "'a kfs_scheme" and off :: nat
  defines "k \<equiv> off div BSIZE"
  assumes "bmap_post ip k (bmap_need s ip k) s t" "iaddr t ip k \<noteq> 0" "k < MAXFILE" "tx_frame t u" "length bs \<le> BSIZE - off mod BSIZE"
    "blk u = (blk t)(iaddr t ip k := put_bytes (off mod BSIZE) bs (blk t (iaddr t ip k)))" "bs \<noteq> []"
  shows "wrote ip off bs s u" "\<And>m. m < MAXFILE \<Longrightarrow> iaddr u ip m = iaddr t ip m" "ind u ip = ind t ip" "free_list u = free_list t"
proof -
  note p = bmap_postD [OF assms(2)]
  have b: "off mod BSIZE < BSIZE" "0 < BSIZE" by (simp_all add: BSIZE_def)
  have "off mod BSIZE + length bs \<le> BSIZE" using assms(6) b(1) by linarith
  then have fit: "off mod BSIZE + length bs \<le> length (blk t (iaddr t ip k))" using blk_size [OF p(1)] by simp
  then have len: "length (put_bytes (off mod BSIZE) bs (blk t (iaddr t ip k))) = BSIZE" using blk_size [OF p(1)] by simp
  note w = file_write [OF p(1,2) assms(4,3,7,5) len]
  show "\<And>m. m < MAXFILE \<Longrightarrow> iaddr u ip m = iaddr t ip m" "ind u ip = ind t ip" "free_list u = free_list t" using w by simp_all
  have bt: "fbyte u ip i = (if off \<le> i \<and> i < off + length bs then bs ! (i - off) else fbyte s ip i)" if i: "i < MAXFILE * BSIZE" for i
  proof -
    have m: "i div BSIZE < MAXFILE" "i mod BSIZE < BSIZE" using i b(2) by (simp_all add: less_mult_imp_div_less)
    show ?thesis
    proof (cases "i div BSIZE = k")
      case False
      then have "\<not> (off \<le> i \<and> i < off + length bs)" using block_range(1) [of off i "length bs"] assms(6) by (auto simp: k_def)
      then show ?thesis using False w(6) [OF m(1)] p(6) [OF m(1)] by (auto simp: fbyte_def)
    next
      case True
      have i': "i = k * BSIZE + i mod BSIZE" "off = k * BSIZE + off mod BSIZE" using True unfolding k_def by (metis div_mult_mod_eq)+
      have "fbyte u ip i = put_bytes (off mod BSIZE) bs (fblock t ip k) ! (i mod BSIZE)"
        using w(6) [OF m(1)] True assms(3) by (simp add: fbyte_def fblock_def)
      also have "\<dots> = (if off mod BSIZE \<le> i mod BSIZE \<and> i mod BSIZE < off mod BSIZE + length bs then bs ! (i mod BSIZE - off mod BSIZE)
          else fblock t ip k ! (i mod BSIZE))"
        using nth_put_bytes [of "off mod BSIZE" bs "fblock t ip k" "i mod BSIZE"] fit m(2) assms(3) blk_size [OF p(1)] by (simp add: fblock_def)
      also have "\<dots> = (if off \<le> i \<and> i < off + length bs then bs ! (i - off) else fbyte s ip i)"
      proof -
        have "off mod BSIZE \<le> i mod BSIZE \<longleftrightarrow> off \<le> i" "i mod BSIZE < off mod BSIZE + length bs \<longleftrightarrow> i < off + length bs"
          "off \<le> i \<Longrightarrow> i mod BSIZE - off mod BSIZE = i - off" using i' by linarith+
        then show ?thesis using p(6) [OF assms(4)] True by (auto simp: fbyte_def)
      qed
      finally show ?thesis .
    qed
  qed
  have old: "iaddr u ip m \<noteq> 0" if "m < MAXFILE" "iaddr s ip m \<noteq> 0" for m
    using that w(3) [OF that(1)] p(4) [OF that(1)] p(5) by (cases "m = k") auto
  have new: "iaddr u ip (i div BSIZE) \<noteq> 0" if "off \<le> i" "i < off + length bs" for i
    using block_range(1) [OF that] assms(3,4,6) w(3) [of k] by (simp add: k_def)
  have "\<exists>f. itable u = (itable s)(ip := (itable s ip)\<lparr>i_addrs := f\<rparr>)" using p(8) tx_frame_kfs [OF assms(5)] by simp
  moreover have "space ip K u" if "K \<le> MAXFILE" "off + length bs \<le> K * BSIZE" "bs \<noteq> []" "space ip K s" for K
  proof -
    have "0 < length bs" using that(3) by simp
    then have "off < K * BSIZE" using that(2) by linarith
    then have "k < K" unfolding k_def by (rule less_mult_imp_div_less)
    then have "space ip K t" using bmap_space [OF assms(2,3)] that by simp
    moreover have "wneed u ip 0 K = wneed t ip 0 K" by (rule wneed_cong) (use w that in simp_all)
    ultimately show ?thesis using w(5) by (simp add: space_def)
  qed
  ultimately show "wrote ip off bs s u"
    unfolding wrote_def using w bt old new assms(8) fs_frame_trans [OF p(9) fs_frame_tx [OF assms(5)]] others_same_trans [OF p(10) w(7)] by simp
qed

text \<open>
  A source of bytes: the first \<open>m\<close> of them can be copied out, which leaves a source of the others, and the
  operations of the file system do not disturb it.
\<close>

locale io_source =
  fixes gives :: "iobuf \<Rightarrow> uchar list \<Rightarrow> 'a kfs_scheme \<Rightarrow> bool"
  assumes take: "gives src bs s \<Longrightarrow> calm s \<Longrightarrow> m \<le> length bs \<Longrightarrow> \<exists>src'. io_in src m s = Ok (0, take m bs, src') s \<and> gives src' (drop m bs) s"
    and frame: "gives src bs s \<Longrightarrow> fs_frame s t \<Longrightarrow> gives src bs t"
begin

lemma writei_loop_spec:
  assumes "txw p W (Suc (Suc j)) {} s" "fs_ok s" "file_ok s ip" "gives src bs s" "length bs = unat n - unat tot" "tot \<le> n"
    "unat off + length bs \<le> MAXFILE * BSIZE" "room W (wneed s ip (unat off div BSIZE) (nspan (unat off) (length bs))) s"
    "\<And>k. unat off div BSIZE \<le> k \<Longrightarrow> k < unat off div BSIZE + nspan (unat off) (length bs) \<Longrightarrow> iaddr s ip k \<noteq> 0 \<Longrightarrow> iaddr s ip k \<in> W"
    "NDIRECT < unat off div BSIZE + nspan (unat off) (length bs) \<Longrightarrow> ind s ip \<noteq> 0 \<Longrightarrow> ind s ip \<in> W"
  shows "\<exists>t. writei_loop ip src off tot n s = Ok (n, off + (n - tot)) t \<and> txw p W (Suc (Suc j)) {} t \<and> wrote ip (unat off) bs s t"
  using assms
proof (induction "length bs" arbitrary: bs src off tot s rule: less_induct)
  case less
  note A = less.prems
  show ?case
  proof (cases "tot < n")
    case False
    then have "tot = n" "bs = []" using A(5,6) by auto
    then show ?thesis using A(1) wrote_nil [OF A(2,3)] by (simp add: writei_loop.simps [of ip src])
  next
    case True
    let ?k = "unat off div BSIZE" and ?m = "chunk n tot off" and ?o = "unat off mod BSIZE"
    have A7: "unat off + (unat n - unat tot) \<le> MAXFILE * BSIZE" using A(5,7) by simp
    note ch = chunk_step [OF True A7]
    have l0: "0 < length bs" using True A(5) by (simp add: word_less_nat_alt)
    have m: "unat ?m = min (length bs) (BSIZE - ?o)" "unat ?m \<le> length bs" "0 < unat ?m"
      using ch(7,8) A(5) chunk_bounds(1) [OF True, of off] by (simp_all only:)
    note sp = nspan_step [OF l0 m(1)]
    let ?need = "bmap_need s ip ?k"
    have rm: "room W ?need s" by (rule room_le [OF A(8)]) (simp add: bmap_need_le sp(1))
    obtain t where t: "bmap ip (off div of_nat BSIZE) s = Ok (iaddr t ip ?k) t" "txw p W (Suc (Suc j)) {} t" "iaddr t ip ?k \<noteq> 0" "bmap_post ip ?k ?need s t"
      using bmap_spec [OF A(1-3) ch(1) rm] A(10) sp(1) unfolding off_div by auto
    note p = bmap_postD [OF t(4)]
    define a where "a = iaddr t ip ?k"
    have aW: "a \<in> W"
    proof (cases "iaddr s ip ?k = 0")
      case True
      then show ?thesis using bmap_post_W(1) [OF t(4) rm ch(1)] t(3) by (simp add: a_def)
    next
      case False
      then show ?thesis using p(5) A(9) [of ?k] sp(1) by (simp add: a_def)
    qed
    have dev: "i_dev (itable t ip) = ROOTDEV" using p(2) by (simp add: file_ok_def)
    obtain b u where r: "bread ROOTDEV a t = Ok b u" "holder u a = Some b" "b_data (bufs u b) = blk t a" "txw p W (Suc j) {a} u" "blk u = blk t" "tx_frame t u"
      using txs.rd [OF t(2), of a] by auto
    have "gives src bs u" using frame [OF frame [OF A(4) p(9)] fs_frame_tx [OF r(6)]] .
    then obtain src' where io: "io_in src (unat ?m) u = Ok (0, take (unat ?m) bs, src') u" "gives src' (drop (unat ?m) bs) u"
      using take [OF _ _ m(2)] tx_calm(2) [OF r(4)] by blast
    define d where "d = put_bytes ?o (take (unat ?m) bs) (blk t a)"
    obtain v where v: "log_write b (set_data b d u) = Ok () v" "txw p W (Suc j) {a} v" "blk v = (blk t)(a := d)" "holder v = holder u" "tx_frame u v"
      using txs.wr [OF r(4) _ aW r(2)] r(5) by auto
    obtain w where w: "brelse b v = Ok () w" "txw p W (Suc (Suc j)) {} w" "blk w = (blk t)(a := d)" "tx_frame v w"
      using txs.rel [OF v(2), of a b] v(3,4) r(2) by auto
    have fr: "tx_frame t w" using tx_frame_trans [OF tx_frame_trans [OF r(6) v(5)] w(4)] .
    have lt: "length (take (unat ?m) bs) = unat ?m" using m(2) by simp
    note st = write_step [OF t(4,3) ch(1) fr, of "take (unat ?m) bs"]
    have st': "wrote ip (unat off) (take (unat ?m) bs) s w" "\<And>m. m < MAXFILE \<Longrightarrow> iaddr w ip m = iaddr t ip m" "ind w ip = ind t ip" "free_list w = free_list t"
      using st lt m(1,3) w(3) l0 by (simp_all add: a_def d_def)
    note q = wroteD [OF st'(1)]
    have kn: "NDIRECT \<le> ?k \<Longrightarrow> ind w ip \<noteq> 0" using t(3) st'(3) by (auto simp: iaddr_def)
    have "?need + wneed w ip ((unat off + unat ?m) div BSIZE) (nspan (unat off + unat ?m) (length bs - unat ?m))
      \<le> wneed s ip ?k (nspan (unat off) (length bs))"
    proof (cases "unat ?m < length bs")
      case True
      have "?k + nspan (unat off) (length bs) - 1 < MAXFILE" using nspan_bound [OF A(7), of "?k + nspan (unat off) (length bs) - 1"] sp(1) by simp
      then have "?k + Suc (nspan (unat off + unat ?m) (length bs - unat ?m)) \<le> MAXFILE" using sp(1) by simp
      from wneed_step [OF _ _ kn this, where s = s] show ?thesis using st'(2,3) p(4,7) sp(1) sp(2) [OF True] by simp
    next
      case False
      then show ?thesis using bmap_need_le [of "nspan (unat off) (length bs)" s ip ?k] sp(1) by (simp add: nspan_def)
    qed
    note ind = this
    have "\<exists>x. writei_loop ip src' (off + ?m) (tot + ?m) n w = Ok (n, off + ?m + (n - (tot + ?m))) x \<and> txw p W (Suc (Suc j)) {} x \<and>
      wrote ip (unat (off + ?m)) (drop (unat ?m) bs) w x"
    proof (rule less.hyps [OF _ w(2) q(1,2)])
      show "length (drop (unat ?m) bs) < length bs" "length (drop (unat ?m) bs) = unat n - unat (tot + ?m)" "tot + ?m \<le> n"
        using m(2,3) l0 ch(5,6) A(5) by simp_all
      show "gives src' (drop (unat ?m) bs) w" using frame [OF io(2) fs_frame_tx [OF tx_frame_trans [OF v(5) w(4)]]] .
      show "unat (off + ?m) + length (drop (unat ?m) bs) \<le> MAXFILE * BSIZE" using ch(3) m(2) A(7) by simp
      have "room W (wneed w ip ((unat off + unat ?m) div BSIZE) (nspan (unat off + unat ?m) (length bs - unat ?m))) w"
        by (rule room_drop [OF room_le [OF A(8) ind]]) (simp_all add: p(3) st'(4) q(9))
      then show "room W (wneed w ip (unat (off + ?m) div BSIZE) (nspan (unat (off + ?m)) (length (drop (unat ?m) bs)))) w" by (simp add: ch(3))
      note ns = nspan_sum [OF l0 m(1)]
      show "iaddr w ip k \<in> W" if k: "unat (off + ?m) div BSIZE \<le> k" "k < unat (off + ?m) div BSIZE + nspan (unat (off + ?m)) (length (drop (unat ?m) bs))"
        "iaddr w ip k \<noteq> 0" for k
      proof -
        have "unat ?m < length bs" using k ch(3) by (cases "unat ?m < length bs") (auto simp: nspan_def)
        then have "Suc ?k \<le> k" "k < ?k + nspan (unat off) (length bs)" using k(1,2) sp(2) ns ch(3) by simp_all
        moreover have "k < MAXFILE" using nspan_bound [OF A(7)] calculation by simp
        ultimately show ?thesis using k(3) st'(2) p(4) [of k] A(9) [of k] by simp
      qed
      show "ind w ip \<in> W" if "NDIRECT < unat (off + ?m) div BSIZE + nspan (unat (off + ?m)) (length (drop (unat ?m) bs))" "ind w ip \<noteq> 0"
      proof (cases "ind s ip = 0")
        case True
        then show ?thesis using bmap_post_W(2) [OF t(4) rm ch(1)] st'(3) that(2) by simp
      next
        case False
        then show ?thesis using A(10) p(7) st'(3) that(1) ns ch(3) by simp
      qed
    qed
    then obtain x where x: "writei_loop ip src' (off + ?m) (tot + ?m) n w = Ok (n, off + ?m + (n - (tot + ?m))) x" "txw p W (Suc (Suc j)) {} x"
      "wrote ip (unat (off + ?m)) (drop (unat ?m) bs) w x" by blast
    have "wrote ip (unat off) (take (unat ?m) bs @ drop (unat ?m) bs) s x"
      by (rule wrote_append [OF st'(1)]) (use x(3) ch(3) lt A(7) m(2) in simp_all)
    moreover have "writei_loop ip src off tot n s = writei_loop ip src' (off + ?m) (tot + ?m) n w"
      using True t(1) r(1,3) dev io(1) v(1) w(1) by (simp add: writei_loop.simps [of ip src] Let_def off_mod d_def a_def)
    moreover have "off + ?m + (n - (tot + ?m)) = off + (n - tot)" by simp
    ultimately show ?thesis using x(1,2) by (intro exI [of _ x]) simp
  qed
qed

text \<open>\<open>writei\<close>: the bytes, the size and the inode on the disk.\<close>

lemma writei_spec:
  fixes bs off ip s
  defines "n \<equiv> unat off + length bs" and "inum \<equiv> i_inum (itable s ip)"
  assumes "txw p W (Suc (Suc j)) {} s" "fs_ok s" "file_ok s ip" "gives src bs s" "unat off \<le> fsize s ip" "n \<le> MAXFILE * BSIZE"
    "room W (wneed s ip (unat off div BSIZE) (nspan (unat off) (length bs))) s" "IBLOCK inum (sb s) \<in> W"
    "\<And>k. unat off div BSIZE \<le> k \<Longrightarrow> k < unat off div BSIZE + nspan (unat off) (length bs) \<Longrightarrow> iaddr s ip k \<noteq> 0 \<Longrightarrow> iaddr s ip k \<in> W"
    "NDIRECT < unat off div BSIZE + nspan (unat off) (length bs) \<Longrightarrow> ind s ip \<noteq> 0 \<Longrightarrow> ind s ip \<in> W"
  shows "\<exists>t f. writei ip src off (of_nat (length bs)) s = Ok (of_nat (length bs)) t \<and> txw p W (Suc (Suc j)) {} t \<and> fs_ok t \<and> file_ok t ip \<and>
    itable t = (itable s)(ip := (itable s ip)\<lparr>i_addrs := f, i_size := of_nat (max (fsize s ip) n)\<rparr>) \<and> fs_frame s t \<and> others_same ip s t \<and>
    (\<forall>i < MAXFILE * BSIZE. fbyte t ip i = (if unat off \<le> i \<and> i < n then bs ! (i - unat off) else fbyte s ip i)) \<and>
    (\<forall>k < MAXFILE. iaddr s ip k \<noteq> 0 \<longrightarrow> iaddr t ip k \<noteq> 0) \<and> (\<forall>i. unat off \<le> i \<and> i < n \<longrightarrow> iaddr t ip (i div BSIZE) \<noteq> 0) \<and> synced t ip \<and>
    (\<forall>K \<le> MAXFILE. n \<le> K * BSIZE \<and> space ip K s \<longrightarrow> space ip K t)"
proof -
  define len :: uint where "len = of_nat (length bs)"
  have len: "unat len = length bs" using assms(8) by (simp add: len_def n_def unat_of_nat MAXFILE_eq)
  have sum: "unat (off + len) = n" using assms(8) len by (simp add: unat_word_ariths n_def MAXFILE_eq)
  have c: "\<not> i_size (itable s ip) < off" "\<not> off + len < off" "\<not> of_nat (MAXFILE * BSIZE) < off + len"
    using assms(7,8) len sum by (simp_all add: word_less_nat_alt n_def MAXFILE_eq)
  obtain t where t: "writei_loop ip src off 0 len s = Ok (len, off + (len - 0)) t" "txw p W (Suc (Suc j)) {} t" "wrote ip (unat off) bs s t"
    using writei_loop_spec [OF assms(3-6), of len 0 off] assms(8-12) len by (auto simp: n_def)
  note q = wroteD [OF t(3)]
  obtain f where f: "itable t = (itable s)(ip := (itable s ip)\<lparr>i_addrs := f\<rparr>)" using q(6) by blast
  define z :: uint where "z = of_nat (max (fsize s ip) n)"
  define u where "u = upd_inode ip (\<lambda>i. i\<lparr>i_size := z\<rparr>) t"
  have "max (fsize s ip) n \<le> MAXFILE * BSIZE" using assms(5,8) by (simp add: file_ok_def)
  then have z: "unat z = max (fsize s ip) n" "unat z \<le> MAXFILE * BSIZE" by (simp_all add: z_def unat_of_nat MAXFILE_eq)
  have u: "(if i_size (itable t ip) < off + len then upd_inode ip (\<lambda>i. i\<lparr>i_size := off + len\<rparr>) t else t) = u"
  proof (cases "fsize s ip < n")
    case True
    then have "z = off + len" using z sum by (simp add: word_unat_eq_iff)
    then show ?thesis using True f sum by (simp add: u_def word_less_nat_alt)
  next
    case False
    then have "z = i_size (itable t ip)" using z f by (simp add: word_unat_eq_iff)
    then have "u = t" by (simp add: u_def upd_inode_def)
    then show ?thesis using False f sum by (simp add: word_less_nat_alt)
  qed
  note su = size_upd [OF q(2) z(2), folded u_def]
  have ku: "itable u = (itable s)(ip := (itable s ip)\<lparr>i_addrs := f, i_size := z\<rparr>)" "sb u = sb s" "fs_ok u" using f q(1,9) by (simp_all add: u_def)
  have inu: "inum < sb_ninodes (sb s)" using assms(5) by (simp add: file_ok_def inum_def)
  have dev: "i_dev (itable u ip) = ROOTDEV" "i_inum (itable u ip) = inum" using ku assms(5) by (simp_all add: file_ok_def inum_def)
  obtain v where v: "iupdate ip u = Ok () v" "txw p W (Suc (Suc j)) {} v" "tx_frame u v"
    "blk v = (blk u)(IBLOCK inum (sb u) := put_dinode (dip_off inum) (itable u ip) (blk u (IBLOCK inum (sb u))))"
    using iupdate_spec [of p W "Suc j" "{}" u ip] t(2) dev ku assms(10) by (auto simp: u_def)
  have "length (put_dinode (dip_off inum) (itable u ip) (blk u (IBLOCK inum (sb u)))) = BSIZE"
    using dip_off_le blk_size [OF ku(3)] by simp
  note w = inode_write [OF ku(3) _ v(4,3) this su(1)]
  have w': "fs_ok v" "file_ok v ip" "others_same ip u v" "\<And>m. m < MAXFILE \<Longrightarrow> iaddr v ip m = iaddr t ip m"
    "\<And>m. m < MAXFILE \<Longrightarrow> fblock v ip m = fblock t ip m" using w inu ku(2) su by simp_all
  have bt: "fbyte v ip i = fbyte t ip i" if "i < MAXFILE * BSIZE" for i using w'(5) that by (simp add: fbyte_def less_mult_imp_div_less)
  have "fs_frame s v" using fs_frame_trans [OF fs_frame_trans [OF q(7), of u] fs_frame_tx [OF v(3)]] by (simp add: u_def)
  moreover have "others_same ip s v" using others_same_trans [OF others_same_trans [OF q(8) su(5)] w'(3)] .
  moreover have "iaddr v ip (i div BSIZE) \<noteq> 0" if "unat off \<le> i" "i < n" for i
    using q(5) [of i] that w'(4) assms(8) by (simp add: n_def less_mult_imp_div_less)
  moreover have "itable v = itable u" using tx_frame_kfs [OF v(3)] by simp
  moreover have "synced v ip"
  proof -
    have "itable v = itable u" "sb v = sb u" using tx_frame_kfs [OF v(3)] by simp_all
    moreover have "get_dinode (dip_off inum) (put_dinode (dip_off inum) i d) i = i" if "length d = BSIZE" for i d
      using get_put_dinode [of "dip_off inum" d i i] dip_off_le [of inum] that by simp
    ultimately show ?thesis using v(4) dev(2) blk_size [OF ku(3)] by (simp add: synced_def)
  qed
  moreover have "space ip K v" if K: "K \<le> MAXFILE" "n \<le> K * BSIZE" "space ip K s" for K
  proof -
    have "wneed v ip 0 K = wneed t ip 0 K" by (rule wneed_cong) (use w su ku K inu in simp_all)
    moreover have "free_list v = free_list t" using w(5) inu ku(2) by (simp add: u_def free_list_def used_def)
    ultimately show ?thesis using q(10) [OF K(1)] K(2,3) by (simp add: space_def n_def)
  qed
  moreover have "writei ip src off len s = Ok len v" using c t(1) u v(1) by (simp add: writei_def Let_def)
  ultimately show ?thesis
    using v(2) w' ku(1) q(3,4) by (intro exI [of _ v] exI [of _ f]) (simp add: bt len_def z_def n_def)
qed

end

lemma tx_frame_kmem:
  assumes "tx_frame s t"
  shows "mem t = mem s" "freelist t = freelist s" "kend t = kend s" "unlocked l t = unlocked l s" "quiet t = quiet s"
  using assms by (auto simp: tx_frame_def machine_defs)

text \<open>The local variables of the kernel and the memory of the running process are sources.\<close>

definition local_source :: "iobuf \<Rightarrow> uchar list \<Rightarrow> 'a kfs_scheme \<Rightarrow> bool" where
  "local_source src bs s \<longleftrightarrow> src = IoLocal bs"

definition user_source :: "nat \<Rightarrow> iobuf \<Rightarrow> uchar list \<Rightarrow> 'a kfs_scheme \<Rightarrow> bool" where
  "user_source p src bs s \<longleftrightarrow>
    (\<exists>va n ps pt. src = IoAddr (UserAddr va) \<and> cpu_proc (mycpu s) = Some p \<and> pt = p_pagetable (procs s p) \<and> uvm_inv pt n ps s \<and>
       top_private (mem s) pt \<and> unat va + length bs < 2 ^ 64 \<and> (\<forall>i < length bs. ubyte (mem s) pt (va + of_nat i) = Some (bs ! i)))"

interpretation local_io: io_source local_source
proof
  fix src bs m and s :: "'a kfs_scheme"
  show "local_source src bs s \<Longrightarrow> calm s \<Longrightarrow> m \<le> length bs \<Longrightarrow> \<exists>src'. io_in src m s = Ok (0, take m bs, src') s \<and> local_source src' (drop m bs) s"
    by (auto simp: local_source_def io_in_def calm_myproc)
qed (simp add: local_source_def)

interpretation user_io: io_source "user_source p" for p
proof
  fix src bs m and s t :: "'a kfs_scheme"
  show "\<exists>src'. io_in src m s = Ok (0, take m bs, src') s \<and> user_source p src' (drop m bs) s"
    if a: "user_source p src bs s" "calm s" "m \<le> length bs"
  proof -
    obtain va n ps pt where u: "src = IoAddr (UserAddr va)" "cpu_proc (mycpu s) = Some p" "pt = p_pagetable (procs s p)" "uvm_inv pt n ps s"
      "top_private (mem s) pt" "unat va + length bs < 2 ^ 64" "\<forall>i < length bs. ubyte (mem s) pt (va + of_nat i) = Some (bs ! i)"
      using a(1) unfolding user_source_def by blast
    obtain r cs where c: "copyin pt [] va m s = Ok (r, cs) s" "length cs \<le> m" "\<forall>i < length cs. ubyte (mem s) pt (va + of_nat i) = Some (cs ! i)"
      "r = 0 \<and> length cs = m \<or> r = -1 \<and> length cs < m \<and> ubyte (mem s) pt (va + of_nat (length cs)) = None"
      using copyin_spec [OF u(4,5), of va m "[]"] u(6) a(3) by auto
    have r: "r = 0" "length cs = m" using c(4) u(7) a(3) by auto
    have "cs = take m bs" using c(3) u(7) r(2) a(3) by (intro nth_equalityI) auto
    moreover have "unat (va + of_nat m) = unat va + m"
      using u(6) a(3) by (simp add: unat_word_ariths unat_of_nat)
    moreover have "ubyte (mem s) pt (va + of_nat m + of_nat i) = Some (bs ! (m + i))" if "i < length bs - m" for i
      using u(7) [rule_format, of "m + i"] that by (simp add: add.assoc)
    ultimately show ?thesis using u(1-6) c(1) r a(2,3)
      by (auto simp: io_in_def either_copyin_def calm_myproc user_source_def intro!: exI [of _ n] exI [of _ ps])
  qed
  show "user_source p src bs t" if a: "user_source p src bs s" "fs_frame s t"
  proof -
    note v = fs_frame_views [OF a(2)]
    have "uvm_inv pt n ps t = uvm_inv pt n ps s" for pt n ps
      using tx_frame_kmem [OF a(2) [unfolded fs_frame_def]]
      by (simp add: uvm_inv_def pt_inv_def kmem_ready_def kmem_inv_def page_ok_def unmap_pre_def machine_defs)
    then show ?thesis using a(1) v(2,3,6) unfolding user_source_def by fastforce
  qed
qed

text \<open>What \<open>writei\<close> may be given: either kind of source.\<close>

definition file_source :: "nat \<Rightarrow> iobuf \<Rightarrow> uchar list \<Rightarrow> 'a kfs_scheme \<Rightarrow> bool" where
  "file_source p src bs s \<longleftrightarrow> local_source src bs s \<or> user_source p src bs s"

interpretation any_io: io_source "file_source p" for p
proof
  fix src bs m and s t :: "'a kfs_scheme"
  show "\<exists>src'. io_in src m s = Ok (0, take m bs, src') s \<and> file_source p src' (drop m bs) s"
    if a: "file_source p src bs s" "calm s" "m \<le> length bs"
    using a(1) local_io.take [OF _ a(2,3)] user_io.take [OF _ a(2,3), of p] unfolding file_source_def by blast
  show "file_source p src bs t" if a: "file_source p src bs s" "fs_frame s t"
    using a(1) local_io.frame [OF _ a(2)] user_io.frame [OF _ a(2), of p] unfolding file_source_def by blast
qed

text \<open>The set \<open>W\<close> of blocks of a transaction is large enough for writing \<open>bs\<close> at \<open>off\<close>.\<close>

definition write_fits :: "uint set \<Rightarrow> nat \<Rightarrow> uint \<Rightarrow> uchar list \<Rightarrow> 'a kfs_scheme \<Rightarrow> bool" where
  "write_fits W ip off bs s \<longleftrightarrow>
     (let lo = unat off div BSIZE; hi = lo + nspan (unat off) (length bs) in
      room W (wneed s ip lo (nspan (unat off) (length bs))) s \<and> IBLOCK (i_inum (itable s ip)) (sb s) \<in> W \<and>
      (\<forall>k \<in> {lo..<hi}. iaddr s ip k \<noteq> 0 \<longrightarrow> iaddr s ip k \<in> W) \<and> (NDIRECT < hi \<and> ind s ip \<noteq> 0 \<longrightarrow> ind s ip \<in> W))"

lemma contents_write:
  assumes "\<forall>i < MAXFILE * BSIZE. fbyte t ip i = (if off \<le> i \<and> i < off + length bs then bs ! (i - off) else fbyte s ip i)"
    "fsize t ip = max (fsize s ip) (off + length bs)" "off \<le> fsize s ip" "fsize t ip \<le> MAXFILE * BSIZE"
  shows "contents t ip = take off (contents s ip) @ bs @ drop (off + length bs) (contents s ip)"
proof (rule nth_equalityI)
  show "length (contents t ip) = length (take off (contents s ip) @ bs @ drop (off + length bs) (contents s ip))"
    using assms(2,3) by (auto simp: contents_def)
  fix i assume "i < length (contents t ip)"
  then have i: "i < fsize t ip" by (simp add: contents_def)
  then show "contents t ip ! i = (take off (contents s ip) @ bs @ drop (off + length bs) (contents s ip)) ! i"
    using assms by (auto simp: contents_def nth_append)
qed

lemma filled_write:
  assumes "filled s ip" "off \<le> fsize s ip" "fsize t ip = max (fsize s ip) (off + len)"
    "\<forall>k < MAXFILE. iaddr s ip k \<noteq> 0 \<longrightarrow> iaddr t ip k \<noteq> 0" "\<forall>i. off \<le> i \<and> i < off + len \<longrightarrow> iaddr t ip (i div BSIZE) \<noteq> 0"
  shows "filled t ip"
  unfolding filled_def
proof (intro allI impI)
  fix k assume k: "k < MAXFILE" "k * BSIZE < fsize t ip"
  show "iaddr t ip k \<noteq> 0"
  proof (cases "k * BSIZE < fsize s ip")
    case True
    then show ?thesis using assms(1,4) k(1) by (simp add: filled_def)
  next
    case False
    then have "off \<le> k * BSIZE" "k * BSIZE < off + len" using assms(2,3) k(2) by auto
    moreover have "k * BSIZE div BSIZE = k" by (simp add: BSIZE_def)
    ultimately show ?thesis using assms(5) [rule_format, of "k * BSIZE"] by simp
  qed
qed


text \<open>An empty file in the inode 2 of the disk made by \<open>mkfs\<close>.\<close>

definition demo_file :: kfs where
  "demo_file = demo_fs demo_disk ((\<lambda>_. bare_inode)(0 := bare_inode\<lparr>i_dev := ROOTDEV, i_inum := 2, i_ref := 1, i_valid := True, i_type := T_FILE, i_nlink := 1\<rparr>))"

lemma demo_BBLOCK: "i < 1000 \<Longrightarrow> BBLOCK (of_nat i) demo_sb = 45"
  using BBLOCK_nat [of i demo_sb] by (simp add: demo_sb_def BPB_def BSIZE_def)

lemma demo_IBLOCK: "i < 200 \<Longrightarrow> 32 \<le> unat (IBLOCK i demo_sb) \<and> unat (IBLOCK i demo_sb) < 45"
proof -
  assume "i < 200"
  then have "unat i < 200" by (simp add: word_less_nat_alt)
  then have "unat (i div 16) < 13" by (simp add: unat_div)
  then show ?thesis by (simp add: IBLOCK_def demo_sb_def IPB_def BSIZE_def unat_word_ariths)
qed

lemma demo_fs_ok: "fs_ok (demo_fs demo_disk it)"
proof -
  have n: "nblk (demo_fs demo_disk it) = 1000" "sb_ninodes (sb (demo_fs demo_disk it)) = 200" "sb (demo_fs demo_disk it) = demo_sb"
    by (simp_all add: demo_views) (simp_all add: demo_sb_def)
  have "unat c < 1000 \<and> used (demo_fs demo_disk it) (unat c)" if "c \<in> meta (demo_fs demo_disk it)" for c
  proof -
    have "c = 45 \<or> (\<exists>i < 200. c = IBLOCK i demo_sb)" using that n demo_BBLOCK by (auto simp: meta_def)
    then have "unat c < 48" using demo_IBLOCK by force
    then show ?thesis using demo_used [of "unat c" it] by simp
  qed
  moreover have "IBLOCK i demo_sb \<noteq> BBLOCK (of_nat b) demo_sb" if "b < 1000" "i < 200" for i b
    using demo_IBLOCK [OF that(2)] demo_BBLOCK [OF that(1)] by auto
  ultimately show ?thesis using demo_map_ok [of it] demo_used [of 0 it] n by (simp add: fs_ok_def)
qed

lemma filter_ge_upt: "m < n \<Longrightarrow> \<exists>xs. filter (\<lambda>i. m \<le> i) [0..<n] = m # xs"
proof -
  assume "m < n"
  then have "[0..<n] = [0..<m] @ m # [Suc m..<n]" using upt_add_eq_append [of 0 m "n - m"] upt_conv_Cons [of m n] by simp
  then show ?thesis by (simp add: filter_True filter_False)
qed

lemma demo_file_views: "itable demo_file 0 = bare_inode\<lparr>i_dev := ROOTDEV, i_inum := 2, i_ref := 1, i_valid := True, i_type := T_FILE, i_nlink := 1\<rparr>"
  "sb demo_file = demo_sb" "fs_ok demo_file" "iaddr demo_file 0 k = 0" "ind demo_file 0 = 0" "fsize demo_file 0 = 0" "file_ok demo_file 0"
  "filled demo_file 0" "contents demo_file 0 = []" "\<exists>fs. free_list demo_file = 48 # fs"
proof -
  show i: "itable demo_file 0 = bare_inode\<lparr>i_dev := ROOTDEV, i_inum := 2, i_ref := 1, i_valid := True, i_type := T_FILE, i_nlink := 1\<rparr>"
    and sb: "sb demo_file = demo_sb" by (simp_all add: demo_file_def demo_views)
  show "fs_ok demo_file" by (simp add: demo_file_def demo_fs_ok)
  show z: "ind demo_file 0 = 0" "fsize demo_file 0 = 0" by (simp_all add: ind_def i bare_inode_def)
  show a: "iaddr demo_file 0 k = 0" for k using z by (simp add: iaddr_def i bare_inode_def)
  show "file_ok demo_file 0" using a z sb by (auto simp: file_ok_def fblocks_def i bare_inode_def demo_sb_def)
  show "filled demo_file 0" "contents demo_file 0 = []" using z by (simp_all add: filled_def contents_def)
  have "\<not> used demo_file i \<longleftrightarrow> 48 \<le> i" if "i < 1000" for i using demo_used [OF that] by (simp add: demo_file_def not_less)
  then have "free_list demo_file = filter (\<lambda>i. 48 \<le> i) [0..<nblk demo_file]"
    unfolding free_list_def using sb by (intro filter_cong) (simp_all add: demo_sb_def)
  then show "\<exists>fs. free_list demo_file = 48 # fs" using filter_ge_upt [of 48 "nblk demo_file"] sb by (simp add: demo_sb_def)
qed


end
