(* ===== verification/Ring.thy ===== *)
theory Ring
  imports Prelude
begin

text \<open>
  Ring buffers with free-running counters, as \<open>kernel/pipe.c\<close>, \<open>kernel/uart.c\<close> and \<open>kernel/console.c\<close> have
  them: the next byte is written at index \<open>w % N\<close> and read at \<open>r % N\<close>, and both counters wrap around at
  the width of their type. The contents are a list; the interface of the queues is the locale \<open>fifo\<close>.
\<close>

section \<open>Contents\<close>

definition ring_list :: "nat \<Rightarrow> (nat \<Rightarrow> 'b) \<Rightarrow> 'a::len word \<Rightarrow> 'a word \<Rightarrow> 'b list" where
  "ring_list N buf r w = map (\<lambda>i. buf (unat (r + of_nat i) mod N)) [0..<unat (w - r)]"

lemma ring_length [simp]: "length (ring_list N buf r w) = unat (w - r)"
  by (simp add: ring_list_def)

lemma ring_empty [simp]: "ring_list N buf r r = []"
  by (simp add: ring_list_def)

lemma unat_mod_add:
  fixes r :: "'a::len word"
  assumes "N dvd 2 ^ LENGTH('a)"
  shows "unat (r + of_nat i) mod N = (unat r + i) mod N"
proof -
  have "unat (r + of_nat i) = (unat r + i) mod 2 ^ LENGTH('a)"
    by (simp add: unat_word_ariths unat_of_nat mod_add_right_eq)
  then show ?thesis using assms by (simp add: mod_mod_cancel)
qed

lemma mod_index_neq:
  fixes a i j N :: nat
  assumes "i < j" "j < i + N"
  shows "(a + i) mod N \<noteq> (a + j) mod N"
proof
  assume "(a + i) mod N = (a + j) mod N"
  then have "(a + j) mod N = (a + i) mod N" by simp
  then have "N dvd (a + j) - (a + i)" using assms mod_eq_dvd_iff_nat [of "a + i" "a + j" N] by simp
  then have "N dvd j - i" by simp
  then show False using assms by (auto dest: dvd_imp_le)
qed

lemma ring_put:
  fixes r w :: "'a::len word"
  assumes d: "N dvd 2 ^ LENGTH('a)" "N < 2 ^ LENGTH('a)" and room: "unat (w - r) < N"
  shows "ring_list N (buf(unat w mod N := c)) r (w + 1) = ring_list N buf r w @ [c]"
proof -
  let ?n = "unat (w - r)"
  have w: "unat w mod N = (unat r + ?n) mod N" using unat_mod_add [OF d(1), of r ?n] by simp
  have "unat (w - r + 1) = Suc ?n" using unat_add_lt [of "w - r" 1] room d(2) by simp
  then have n1: "unat (w + 1 - r) = Suc ?n" by (simp add: algebra_simps)
  have "unat (r + of_nat i) mod N \<noteq> unat w mod N" if "i < ?n" for i
    using mod_index_neq [of i ?n N "unat r"] that room unat_mod_add [OF d(1), of r i] w by simp
  then show ?thesis unfolding ring_list_def n1 using unat_mod_add [OF d(1), of r ?n] w by simp
qed

lemma ring_get:
  fixes r w :: "'a::len word"
  assumes "r \<noteq> w"
  shows "ring_list N buf r w = buf (unat r mod N) # ring_list N buf (r + 1) w"
proof -
  have "w - r \<noteq> 0" using assms by simp
  then have n: "unat (w - r) = Suc (unat (w - (r + 1)))"
    using unat_minus_one [of "w - r"] unat_gt_0 [of "w - r"] by (simp add: diff_diff_add)
  have "[0..<Suc m] = 0 # map Suc [0..<m]" for m by (simp add: map_Suc_upt upt_conv_Cons)
  then show ?thesis unfolding ring_list_def n by (simp add: add.assoc comp_def del: upt_Suc)
qed

lemma ring_full: "unat (w - r) = N \<Longrightarrow> w = r + of_nat N"
  by auto

section \<open>The interface of a bounded queue\<close>

locale fifo =
  fixes put :: "'b \<Rightarrow> 's \<Rightarrow> 's" and get :: "'s \<Rightarrow> 'b \<times> 's" and contents :: "'s \<Rightarrow> 'b list" and cap :: nat
  assumes put: "length (contents s) < cap \<Longrightarrow> contents (put c s) = contents s @ [c]"
    and get: "contents s \<noteq> [] \<Longrightarrow> contents s = fst (get s) # contents (snd (get s))"
begin

fun puts :: "'b list \<Rightarrow> 's \<Rightarrow> 's" where
  "puts [] s = s"
| "puts (c # cs) s = puts cs (put c s)"

fun gets :: "nat \<Rightarrow> 's \<Rightarrow> 'b list \<times> 's" where
  "gets 0 s = ([], s)"
| "gets (Suc n) s = (let (c, s) = get s; (cs, s) = gets n s in (c # cs, s))"

lemma contents_puts: "length (contents s) + length cs \<le> cap \<Longrightarrow> contents (puts cs s) = contents s @ cs"
  by (induction cs arbitrary: s) (simp_all add: put)

lemma contents_gets:
  "n \<le> length (contents s) \<Longrightarrow> fst (gets n s) = take n (contents s) \<and> contents (snd (gets n s)) = drop n (contents s)"
proof (induction n arbitrary: s)
  case (Suc n)
  then have "contents s \<noteq> []" by auto
  from get [OF this] have e: "contents s = fst (get s) # contents (snd (get s))" .
  then have "n \<le> length (contents (snd (get s)))" using Suc.prems by (metis Suc_le_mono length_Cons)
  from Suc.IH [OF this] show ?case by (subst (1 2) e) (simp add: case_prod_beta Let_def)
qed simp

lemma fifo_order:
  assumes "contents s = []" "length cs \<le> cap"
  shows "fst (gets (length cs) (puts cs s)) = cs"
  using contents_gets [of "length cs" "puts cs s"] contents_puts [of s cs] assms by simp

end

end
