(* ===== verification/Uart.thy ===== *)
theory Uart
  imports Fs Ring "HOL-Library.Stream"
begin

text \<open>
  The serial port (\<open>kernel/uart.c\<close>). The device is a 16550: a read of \<open>LSR\<close> has bit 0 set exactly when the receive
  FIFO \<open>uart_rx\<close> holds a byte, a read of \<open>RHR\<close> takes the oldest one; the other bits of \<open>LSR\<close>, among them the one that
  says that the transmitter is idle, are inputs, one for every read. The writes to the registers are
  recorded, oldest first.
\<close>

unbundle bit_operations_syntax

section \<open>State and operations\<close>

definition RHR :: nat where "RHR = 0"
definition THR :: nat where "THR = 0"
definition IER :: nat where "IER = 1"
definition FCR :: nat where "FCR = 2"
definition LCR :: nat where "LCR = 3"
definition IER_RX_ENABLE :: uchar where "IER_RX_ENABLE = 1"
definition IER_TX_ENABLE :: uchar where "IER_TX_ENABLE = 2"
definition FCR_FIFO_ENABLE :: uchar where "FCR_FIFO_ENABLE = 1"
definition FCR_FIFO_CLEAR :: uchar where "FCR_FIFO_CLEAR = 6"
definition LCR_EIGHT_BITS :: uchar where "LCR_EIGHT_BITS = 3"
definition LCR_BAUD_LATCH :: uchar where "LCR_BAUD_LATCH = 128"
definition LSR_RX_READY :: uchar where "LSR_RX_READY = 1"
definition LSR_TX_IDLE :: uchar where "LSR_TX_IDLE = 32"
definition UART_TX_BUF_SIZE :: nat where "UART_TX_BUF_SIZE = 32"

record kuart = kfs +
  uart_tx_buf :: "nat \<Rightarrow> uchar"
  uart_tx_w :: uint64
  uart_tx_r :: uint64
  uart_lsr :: "uchar stream"
  uart_rx :: "uchar list"
  uart_writes :: "(nat \<times> uchar) list"

definition WriteReg :: "nat \<Rightarrow> uchar \<Rightarrow> 'a kuart_scheme \<Rightarrow> 'a kuart_scheme" where
  "WriteReg reg v s = s\<lparr>uart_writes := uart_writes s @ [(reg, v)]\<rparr>"

definition read_LSR :: "'a kuart_scheme \<Rightarrow> uchar \<times> 'a kuart_scheme" where
  "read_LSR s =
    ((shd (uart_lsr s) AND NOT LSR_RX_READY) OR (if uart_rx s = [] then 0 else LSR_RX_READY), s\<lparr>uart_lsr := stl (uart_lsr s)\<rparr>)"

text \<open>The bytes sent.\<close>

definition uart_sent :: "'a kuart_scheme \<Rightarrow> uchar list" where
  "uart_sent s = map snd (filter (\<lambda>(reg, v). reg = THR) (uart_writes s))"

definition uartinit :: "'a kuart_scheme \<Rightarrow> 'a kuart_scheme" where
  "uartinit s =
    (let s = WriteReg IER 0 s;
         s = WriteReg LCR LCR_BAUD_LATCH s;
         s = WriteReg 0 3 s;
         s = WriteReg 1 0 s;
         s = WriteReg LCR LCR_EIGHT_BITS s;
         s = WriteReg FCR (FCR_FIFO_ENABLE OR FCR_FIFO_CLEAR) s;
         s = WriteReg IER (IER_TX_ENABLE OR IER_RX_ENABLE) s
     in initlock uart_tx_lock ''uart'' s)"

definition tx_put :: "uchar \<Rightarrow> 'a kuart_scheme \<Rightarrow> 'a kuart_scheme" where
  "tx_put c s =
    s\<lparr>uart_tx_buf := (uart_tx_buf s)(unat (uart_tx_w s) mod UART_TX_BUF_SIZE := c), uart_tx_w := uart_tx_w s + 1\<rparr>"

definition tx_get :: "'a kuart_scheme \<Rightarrow> uchar \<times> 'a kuart_scheme" where
  "tx_get s = (uart_tx_buf s (unat (uart_tx_r s) mod UART_TX_BUF_SIZE), s\<lparr>uart_tx_r := uart_tx_r s + 1\<rparr>)"

text \<open>The loop of \<open>uartstart\<close>, run for at most as many characters as are buffered.\<close>

fun uartstart_loop :: "nat \<Rightarrow> 'a kuart_scheme \<Rightarrow> (unit, 'a kuart_scheme) res" where
  "uartstart_loop k s =
    (if uart_tx_w s = uart_tx_r s then Ok () s
     else
       (case k of
          0 \<Rightarrow> Spin
        | Suc k \<Rightarrow>
            let (lsr, s) = read_LSR s in
            if lsr AND LSR_TX_IDLE = 0 then Ok () s
            else
              let (c, s) = tx_get s in
              bind (wakeup ChanUart s) (\<lambda>_ s. uartstart_loop k (WriteReg THR c s))))"

declare uartstart_loop.simps [simp del]

definition uartstart :: "'a kuart_scheme \<Rightarrow> (unit, 'a kuart_scheme) res" where
  "uartstart s = uartstart_loop (unat (uart_tx_w s - uart_tx_r s)) s"

function uartputc_loop :: "uchar \<Rightarrow> 'a kuart_scheme \<Rightarrow> (unit, 'a kuart_scheme) res" where
  "uartputc_loop c s =
    (if uart_tx_w s = uart_tx_r s + of_nat UART_TX_BUF_SIZE then
       bind (sleep ChanUart uart_tx_lock s) (\<lambda>_ s. uartputc_loop c s)
     else bind (uartstart (tx_put c s)) (\<lambda>_ s. release uart_tx_lock s))"
  by pat_completeness auto
termination by (relation "measure (\<lambda>_. 0)") (auto simp: sleep_never_returns)

declare uartputc_loop.simps [simp del]

definition uartputc :: "uchar \<Rightarrow> 'a kuart_scheme \<Rightarrow> (unit, 'a kuart_scheme) res" where
  "uartputc c s =
    bind (acquire uart_tx_lock s) (\<lambda>_ s. if panicked s then Spin else uartputc_loop c s)"

definition uartputc_resume :: "nat \<Rightarrow> uchar \<Rightarrow> bool \<Rightarrow> 'a kuart_scheme \<Rightarrow> (unit, 'a kuart_scheme) res" where
  "uartputc_resume p c intena_saved s =
    bind (sleep_resume p uart_tx_lock intena_saved s) (\<lambda>_ s. uartputc_loop c s)"

text \<open>The busy wait of \<open>uartputc_sync\<close>: the later readings of \<open>LSR\<close>, or \<open>None\<close> if the transmitter never is idle.\<close>

partial_function (option) lsr_wait :: "uchar stream \<Rightarrow> uchar stream option" where
  "lsr_wait xs = (if shd xs AND LSR_TX_IDLE = 0 then lsr_wait (stl xs) else Some (stl xs))"

definition uartputc_sync :: "uchar \<Rightarrow> 'a kuart_scheme \<Rightarrow> (unit, 'a kuart_scheme) res" where
  "uartputc_sync c s =
    (let s = push_off s in
     if panicked s then Spin
     else
       (case lsr_wait (uart_lsr s) of
          None \<Rightarrow> Spin
        | Some xs \<Rightarrow> pop_off (WriteReg THR c (s\<lparr>uart_lsr := xs\<rparr>))))"

definition uartgetc :: "'a kuart_scheme \<Rightarrow> (int32 \<times> 'a kuart_scheme)" where
  "uartgetc s =
    (let (lsr, s) = read_LSR s in
     if lsr AND 1 \<noteq> 0 then (ucast (hd (uart_rx s)), s\<lparr>uart_rx := tl (uart_rx s)\<rparr>) else (-1, s))"

section \<open>Lemmas\<close>

lemma kuart_lock_simps [simp]:
  "uart_tx_buf (acquired l s) = uart_tx_buf s"
  "uart_tx_w (acquired l s) = uart_tx_w s"
  "uart_tx_r (acquired l s) = uart_tx_r s"
  "uart_lsr (acquired l s) = uart_lsr s"
  "uart_rx (acquired l s) = uart_rx s"
  "uart_writes (acquired l s) = uart_writes s"
  "unlocked l (s\<lparr>uart_tx_buf := x_uart_tx_buf\<rparr>) = unlocked l s" "calm (s\<lparr>uart_tx_buf := x_uart_tx_buf\<rparr>) = calm s" "mycpu (s\<lparr>uart_tx_buf := x_uart_tx_buf\<rparr>) = mycpu s"
  "unlocked l (s\<lparr>uart_tx_w := x_uart_tx_w\<rparr>) = unlocked l s" "calm (s\<lparr>uart_tx_w := x_uart_tx_w\<rparr>) = calm s" "mycpu (s\<lparr>uart_tx_w := x_uart_tx_w\<rparr>) = mycpu s"
  "unlocked l (s\<lparr>uart_tx_r := x_uart_tx_r\<rparr>) = unlocked l s" "calm (s\<lparr>uart_tx_r := x_uart_tx_r\<rparr>) = calm s" "mycpu (s\<lparr>uart_tx_r := x_uart_tx_r\<rparr>) = mycpu s"
  "unlocked l (s\<lparr>uart_lsr := x_uart_lsr\<rparr>) = unlocked l s" "calm (s\<lparr>uart_lsr := x_uart_lsr\<rparr>) = calm s" "mycpu (s\<lparr>uart_lsr := x_uart_lsr\<rparr>) = mycpu s"
  "unlocked l (s\<lparr>uart_rx := x_uart_rx\<rparr>) = unlocked l s" "calm (s\<lparr>uart_rx := x_uart_rx\<rparr>) = calm s" "mycpu (s\<lparr>uart_rx := x_uart_rx\<rparr>) = mycpu s"
  "unlocked l (s\<lparr>uart_writes := x_uart_writes\<rparr>) = unlocked l s" "calm (s\<lparr>uart_writes := x_uart_writes\<rparr>) = calm s" "mycpu (s\<lparr>uart_writes := x_uart_writes\<rparr>) = mycpu s"
  by (simp_all add: machine_defs calm_def)

lemma kuart_lock_upd [step_eqs]:
  "(acquired l s)\<lparr>uart_tx_buf := x_uart_tx_buf\<rparr> = acquired l (s\<lparr>uart_tx_buf := x_uart_tx_buf\<rparr>)"
  "(acquired l s)\<lparr>uart_tx_w := x_uart_tx_w\<rparr> = acquired l (s\<lparr>uart_tx_w := x_uart_tx_w\<rparr>)"
  "(acquired l s)\<lparr>uart_tx_r := x_uart_tx_r\<rparr> = acquired l (s\<lparr>uart_tx_r := x_uart_tx_r\<rparr>)"
  "(acquired l s)\<lparr>uart_lsr := x_uart_lsr\<rparr> = acquired l (s\<lparr>uart_lsr := x_uart_lsr\<rparr>)"
  "(acquired l s)\<lparr>uart_rx := x_uart_rx\<rparr> = acquired l (s\<lparr>uart_rx := x_uart_rx\<rparr>)"
  "(acquired l s)\<lparr>uart_writes := x_uart_writes\<rparr> = acquired l (s\<lparr>uart_writes := x_uart_writes\<rparr>)"
  by (simp_all add: machine_defs)

definition tx_list :: "'a kuart_scheme \<Rightarrow> uchar list" where
  "tx_list s = ring_list UART_TX_BUF_SIZE (uart_tx_buf s) (uart_tx_r s) (uart_tx_w s)"

interpretation txq: fifo tx_put tx_get tx_list UART_TX_BUF_SIZE
proof unfold_locales
  fix s :: "'a kuart_scheme" and c
  show "length (tx_list s) < UART_TX_BUF_SIZE \<Longrightarrow> tx_list (tx_put c s) = tx_list s @ [c]"
    by (simp add: tx_list_def tx_put_def ring_put UART_TX_BUF_SIZE_def)
  show "tx_list s = fst (tx_get s) # tx_list (snd (tx_get s))" if "tx_list s \<noteq> []"
  proof -
    have "uart_tx_r s \<noteq> uart_tx_w s" using that by (auto simp: tx_list_def)
    then show ?thesis by (simp add: tx_list_def tx_get_def ring_get)
  qed
qed

lemma uart_acquired [simp]:
  "WriteReg r v (acquired l s) = acquired l (WriteReg r v s)" "tx_put c (acquired l s) = acquired l (tx_put c s)"
  "tx_get (acquired l s) = (fst (tx_get s), acquired l (snd (tx_get s)))"
  "read_LSR (acquired l s) = (fst (read_LSR s), acquired l (snd (read_LSR s)))"
  by (simp_all add: WriteReg_def tx_put_def tx_get_def read_LSR_def kuart_lock_upd)

lemma uart_views [simp]:
  "calm (WriteReg r v s) = calm s" "calm (snd (tx_get s)) = calm s" "calm (snd (read_LSR s)) = calm s" "calm (tx_put c s) = calm s"
  "mycpu (WriteReg r v s) = mycpu s" "mycpu (snd (tx_get s)) = mycpu s" "mycpu (snd (read_LSR s)) = mycpu s" "mycpu (tx_put c s) = mycpu s"
  "tx_list (WriteReg r v s) = tx_list s" "tx_list (snd (read_LSR s)) = tx_list s" "tx_list (wake chn s) = tx_list s"
  "uart_sent (snd (read_LSR s)) = uart_sent s" "uart_sent (snd (tx_get s)) = uart_sent s" "uart_sent (tx_put c s) = uart_sent s"
  "uart_sent (wake chn s) = uart_sent s" "uart_sent (WriteReg THR v s) = uart_sent s @ [v]"
  "uart_rx (WriteReg r v s) = uart_rx s" "uart_rx (snd (tx_get s)) = uart_rx s" "uart_rx (snd (read_LSR s)) = uart_rx s"
  "uart_rx (wake chn s) = uart_rx s" "uart_rx (tx_put c s) = uart_rx s"
  "panicked (WriteReg r v s) = panicked s" "panicked (snd (tx_get s)) = panicked s" "panicked (snd (read_LSR s)) = panicked s"
  "panicked (wake chn s) = panicked s" "panicked (tx_put c s) = panicked s"
  "mem (WriteReg r v s) = mem s" "mem (snd (tx_get s)) = mem s" "mem (snd (read_LSR s)) = mem s" "mem (tx_put c s) = mem s"
  by (simp_all add: WriteReg_def tx_get_def read_LSR_def tx_put_def tx_list_def uart_sent_def wake_def)

definition uart_frame :: "'a kuart_scheme \<Rightarrow> 'a kuart_scheme \<Rightarrow> bool" where
  "uart_frame s t \<longleftrightarrow>
     (\<exists>pr bf w r l ws. t = s\<lparr>procs := pr, uart_tx_buf := bf, uart_tx_w := w, uart_tx_r := r, uart_lsr := l, uart_writes := ws\<rparr>) \<and>
     procs_same s t"

lemma uart_frameI:
  assumes "t = s\<lparr>procs := pr, uart_tx_buf := bf, uart_tx_w := w, uart_tx_r := r, uart_lsr := l, uart_writes := ws\<rparr>" "procs_same s t"
  shows "uart_frame s t"
  unfolding uart_frame_def using assms by blast

lemma uart_frame_steps:
  fixes s :: "'a kuart_scheme"
  shows "uart_frame s s" "uart_frame s (WriteReg r v s)" "uart_frame s (snd (tx_get s))" "uart_frame s (snd (read_LSR s))"
    "uart_frame s (tx_put c s)" "uart_frame s (wake chn s)"
proof -
  have e: "uart_frame s t" if "t = s\<lparr>procs := procs t, uart_tx_buf := uart_tx_buf t, uart_tx_w := uart_tx_w t, uart_tx_r := uart_tx_r t,
      uart_lsr := uart_lsr t, uart_writes := uart_writes t\<rparr>" "procs_same s t" for t :: "'a kuart_scheme"
    using that by (rule uart_frameI)
  show "uart_frame s s" "uart_frame s (WriteReg r v s)" "uart_frame s (snd (tx_get s))" "uart_frame s (snd (read_LSR s))"
    "uart_frame s (tx_put c s)"
    by (rule e; simp add: WriteReg_def tx_get_def read_LSR_def tx_put_def procs_same_def)+
  show "uart_frame s (wake chn s)" by (rule e) (simp_all add: wake_def procs_same_wake [unfolded wake_def])
qed

lemma uart_frame_trans [trans]:
  fixes s t u :: "'a kuart_scheme"
  assumes "uart_frame s t" "uart_frame t u"
  shows "uart_frame s u"
proof -
  obtain pr bf w r l ws pr' bf' w' r' l' ws' where
    e: "t = s\<lparr>procs := pr, uart_tx_buf := bf, uart_tx_w := w, uart_tx_r := r, uart_lsr := l, uart_writes := ws\<rparr>"
    "u = t\<lparr>procs := pr', uart_tx_buf := bf', uart_tx_w := w', uart_tx_r := r', uart_lsr := l', uart_writes := ws'\<rparr>"
    using assms unfolding uart_frame_def by blast
  then have "u = s\<lparr>procs := pr', uart_tx_buf := bf', uart_tx_w := w', uart_tx_r := r', uart_lsr := l', uart_writes := ws'\<rparr>" by simp
  moreover have "mycpu t = mycpu s" using e(1) by (simp add: machine_defs)
  then have "procs_same s u" using assms procs_same_trans [of s t u] by (auto simp: uart_frame_def)
  ultimately show ?thesis by (rule uart_frameI)
qed

lemma tx_list_empty: "uart_tx_w s \<noteq> uart_tx_r s \<longleftrightarrow> tx_list s \<noteq> []"
proof -
  have "length (tx_list s) = unat (uart_tx_w s - uart_tx_r s)" by (simp add: tx_list_def)
  then show ?thesis by (metis length_0_conv right_minus_eq unat_eq_zero)
qed

lemma uartstart_loop_spec:
  fixes s :: "'a kuart_scheme"
  assumes "calm s" "length (tx_list s) \<le> k" "\<forall>i. lk \<noteq> proc_lock i"
  shows "\<exists>t. uartstart_loop k (acquired lk s) = Ok () (acquired lk t) \<and> calm t \<and> uart_sent t @ tx_list t = uart_sent s @ tx_list s \<and>
    length (tx_list t) \<le> length (tx_list s) \<and> uart_frame s t"
  using assms
proof (induction k arbitrary: s)
  case 0
  then have "uart_tx_w s = uart_tx_r s" using tx_list_empty [of s] by simp
  then show ?case using 0 by (intro exI [of _ s]) (simp add: uartstart_loop.simps uart_frame_steps)
next
  case (Suc k)
  show ?case
  proof (cases "tx_list s = []")
    case True
    then have "uart_tx_w s = uart_tx_r s" using tx_list_empty [of s] by simp
    then show ?thesis using Suc.prems by (intro exI [of _ s]) (simp add: uartstart_loop.simps uart_frame_steps)
  next
    case ne: False
    then have w: "uart_tx_w s \<noteq> uart_tx_r s" using tx_list_empty [of s] by simp
    let ?s1 = "snd (read_LSR s)"
    show ?thesis
    proof (cases "fst (read_LSR s) AND LSR_TX_IDLE = 0")
      case True
      then show ?thesis using Suc.prems w uart_frame_steps(4)
        by (intro exI [of _ ?s1]) (simp add: uartstart_loop.simps [of "Suc k"] case_prod_beta)
    next
      case False
      let ?c = "fst (tx_get ?s1)" and ?s2 = "snd (tx_get ?s1)"
      let ?s3 = "WriteReg THR ?c (wake ChanUart ?s2)"
      have q: "tx_list s = ?c # tx_list ?s2" using txq.get [of ?s1] ne by simp
      have c3: "calm ?s3" "length (tx_list ?s3) \<le> k" using Suc.prems q by simp_all
      have fr: "uart_frame s ?s3"
        using uart_frame_trans [OF uart_frame_trans [OF uart_frame_trans [OF uart_frame_steps(4) uart_frame_steps(3)] uart_frame_steps(6)]
            uart_frame_steps(2)] .
      obtain t where t: "uartstart_loop k (acquired lk ?s3) = Ok () (acquired lk t)" "calm t"
        "uart_sent t @ tx_list t = uart_sent ?s3 @ tx_list ?s3" "length (tx_list t) \<le> length (tx_list ?s3)" "uart_frame ?s3 t"
        using Suc.IH [OF c3 Suc.prems(3)] by blast
      have "uartstart_loop (Suc k) (acquired lk s) = Ok () (acquired lk t)"
        using w False t(1) Suc.prems(1,3)
        by (simp add: uartstart_loop.simps [of "Suc k"] case_prod_beta calm_wakeup)
      then show ?thesis using t q uart_frame_trans [OF fr t(5)] by (intro exI [of _ t]) simp
    qed
  qed
qed

lemma uartstart_spec:
  assumes "calm s" "\<forall>i. lk \<noteq> proc_lock i"
  shows "\<exists>t. uartstart (acquired lk s) = Ok () (acquired lk t) \<and> calm t \<and> uart_sent t @ tx_list t = uart_sent s @ tx_list s \<and>
    length (tx_list t) \<le> length (tx_list s) \<and> uart_frame s t"
  using uartstart_loop_spec [OF assms(1) _ assms(2), of "unat (uart_tx_w s - uart_tx_r s)"]
  by (simp add: uartstart_def tx_list_def)

lemma uartputc_spec:
  assumes "calm s" "\<not> panicked s" "length (tx_list s) < UART_TX_BUF_SIZE"
  shows "\<exists>t. uartputc c s = Ok () t \<and> calm t \<and> uart_sent t @ tx_list t = uart_sent s @ tx_list s @ [c] \<and>
    length (tx_list t) \<le> Suc (length (tx_list s)) \<and> uart_frame s t"
proof -
  have "uart_tx_w s \<noteq> uart_tx_r s + of_nat UART_TX_BUF_SIZE"
  proof
    assume "uart_tx_w s = uart_tx_r s + of_nat UART_TX_BUF_SIZE"
    then have "length (tx_list s) = UART_TX_BUF_SIZE" by (simp add: tx_list_def UART_TX_BUF_SIZE_def)
    then show False using assms(3) by simp
  qed
  moreover obtain t where t: "uartstart (acquired uart_tx_lock (tx_put c s)) = Ok () (acquired uart_tx_lock t)" "calm t"
    "uart_sent t @ tx_list t = uart_sent (tx_put c s) @ tx_list (tx_put c s)" "length (tx_list t) \<le> length (tx_list (tx_put c s))"
    "uart_frame (tx_put c s) t"
    using uartstart_spec [of "tx_put c s" uart_tx_lock] assms(1) by auto
  ultimately have "uartputc c s = Ok () t"
    using assms(1,2) by (simp add: uartputc_def calm_acquire uartputc_loop.simps calm_release)
  then show ?thesis
    using t txq.put [OF assms(3)] uart_frame_trans [OF uart_frame_steps(5) t(5)] by (intro exI [of _ t]) simp
qed
end
