(* ===== verification/Console.thy ===== *)
theory Console
  imports Uart
begin

text \<open>
  The console (\<open>kernel/console.c\<close>) and the process listing of \<open>kernel/proc.c\<close> that the console prints. The input
  buffer is a ring with three counters: characters are edited between \<open>w\<close> and \<open>e\<close>, and read between \<open>r\<close> and \<open>w\<close>.
\<close>

section \<open>Process listing\<close>

definition cstring :: "uchar list \<Rightarrow> string" where
  "cstring bs = map (\<lambda>b. char_of (unat b)) (takeWhile (\<lambda>b. b \<noteq> 0) bs)"

fun state_name :: "procstate \<Rightarrow> string" where
  "state_name UNUSED = ''unused''"
| "state_name USED = ''???''"
| "state_name SLEEPING = ''sleep ''"
| "state_name RUNNABLE = ''runble''"
| "state_name RUNNING = ''run   ''"
| "state_name ZOMBIE = ''zombie''"

fun procdump_loop :: "nat \<Rightarrow> 'a kproc_scheme \<Rightarrow> (unit, 'a kproc_scheme) res" where
  "procdump_loop 0 s = Ok () s"
| "procdump_loop (Suc n) s =
    (let p = procs s (NPROC - Suc n) in
     bind (if p_state p = UNUSED then Ok () s
           else
             bind (printf (Some ''%d %s %s'')
               [ArgInt (p_pid p), ArgStr (Some (state_name (p_state p))), ArgStr (Some (cstring (p_name p)))] s) (\<lambda>_ s.
             printf (Some ''\<newline>'') [] s)) (\<lambda>_ s. procdump_loop n s))"

definition procdump :: "'a kproc_scheme \<Rightarrow> (unit, 'a kproc_scheme) res" where
  "procdump s = bind (printf (Some ''\<newline>'') [] s) (\<lambda>_ s. procdump_loop NPROC s)"

section \<open>State and operations\<close>

definition INPUT_BUF :: nat where "INPUT_BUF = 128"
definition BACKSPACE :: int32 where "BACKSPACE = 0x100"
definition ctrl_D :: uchar where "ctrl_D = 4"
definition ctrl_H :: uchar where "ctrl_H = 8"
definition ctrl_P :: uchar where "ctrl_P = 16"
definition ctrl_U :: uchar where "ctrl_U = 21"
definition newline_c :: uchar where "newline_c = 10"

record kconsole = kuart +
  cons_buf :: "nat \<Rightarrow> uchar"
  cons_r :: uint
  cons_w :: uint
  cons_e :: uint

definition consputc :: "int32 \<Rightarrow> 'a kuart_scheme \<Rightarrow> (unit, 'a kuart_scheme) res" where
  "consputc c s =
    (if c = BACKSPACE then
       bind (uartputc_sync 8 s) (\<lambda>_ s. bind (uartputc_sync 32 s) (\<lambda>_ s. uartputc_sync 8 s))
     else uartputc_sync (ucast c) s)"

fun consolewrite_loop :: "nat \<Rightarrow> nat \<Rightarrow> kaddr \<Rightarrow> 'a kuart_scheme \<Rightarrow> (int32, 'a kuart_scheme) res" where
  "consolewrite_loop 0 i src s = Ok (of_nat i) s"
| "consolewrite_loop (Suc k) i src s =
    bind (either_copyin (kaddr_add src i) 1 s) (\<lambda>(r, bs) s.
    if r = -1 then Ok (of_nat i) s
    else bind (uartputc (hd bs) s) (\<lambda>_ s. consolewrite_loop k (Suc i) src s))"

definition consolewrite :: "kaddr \<Rightarrow> int32 \<Rightarrow> 'a kuart_scheme \<Rightarrow> (int32, 'a kuart_scheme) res" where
  "consolewrite src n s = consolewrite_loop (nat (sint n)) 0 src s"

lemma sint_dec: "0 < sint (n :: int32) \<Longrightarrow> sint (n - 1) = sint n - 1"
proof -
  assume h: "0 < sint n"
  have "sint n < 2 ^ 31" using sint_lt [of n] by simp
  then have "signed_take_bit 31 (sint n - 1) = sint n - 1" using h by (intro signed_take_bit_int_eq_self) simp_all
  then show ?thesis by (simp add: sint_word_ariths)
qed

definition consoleread_end :: "uint \<Rightarrow> int32 \<Rightarrow> 'a kconsole_scheme \<Rightarrow> (int32, 'a kconsole_scheme) res" where
  "consoleread_end target n s = bind (release cons_lock s) (\<lambda>_ s. Ok (target - n) s)"

function consoleread_loop :: "uint \<Rightarrow> kaddr \<Rightarrow> int32 \<Rightarrow> 'a kconsole_scheme \<Rightarrow> (int32, 'a kconsole_scheme) res" where
  "consoleread_loop target dst n s =
    (if 0 < sint n then
       if cons_r s = cons_w s then
         bind (myproc s) (\<lambda>po s.
         case po of
           None \<Rightarrow> Undef
         | Some p \<Rightarrow>
             if p_killed (procs s p) \<noteq> 0 then bind (release cons_lock s) (\<lambda>_ s. Ok (-1) s)
             else bind (sleep ChanCons cons_lock s) (\<lambda>_ s. consoleread_loop target dst n s))
       else
         let c = cons_buf s (unat (cons_r s) mod INPUT_BUF);
             s = s\<lparr>cons_r := cons_r s + 1\<rparr>
         in
         if c = ctrl_D then
           consoleread_end target n (if n < target then s\<lparr>cons_r := cons_r s - 1\<rparr> else s)
         else
           bind (either_copyout dst [c] s) (\<lambda>r s.
           if r = -1 then consoleread_end target n s
           else if c = newline_c then consoleread_end target (n - 1) s
           else consoleread_loop target (kaddr_add dst 1) (n - 1) s)
     else consoleread_end target n s)"
  by pat_completeness auto
termination
  by (relation "measure (\<lambda>(target, dst, n, s). nat (sint n))") (auto simp: sleep_never_returns sint_dec)

declare consoleread_loop.simps [simp del]

definition consoleread :: "kaddr \<Rightarrow> int32 \<Rightarrow> 'a kconsole_scheme \<Rightarrow> (int32, 'a kconsole_scheme) res" where
  "consoleread dst n s = bind (acquire cons_lock s) (\<lambda>_ s. consoleread_loop n dst n s)"

definition consoleread_resume ::
  "nat \<Rightarrow> uint \<Rightarrow> kaddr \<Rightarrow> int32 \<Rightarrow> bool \<Rightarrow> 'a kconsole_scheme \<Rightarrow> (int32, 'a kconsole_scheme) res" where
  "consoleread_resume p target dst n intena_saved s =
    bind (sleep_resume p cons_lock intena_saved s) (\<lambda>_ s. consoleread_loop target dst n s)"

text \<open>The loop of \<open>^U\<close>, run for at most as many characters as are edited.\<close>

fun kill_line_loop :: "nat \<Rightarrow> 'a kconsole_scheme \<Rightarrow> (unit, 'a kconsole_scheme) res" where
  "kill_line_loop k s =
    (if cons_e s \<noteq> cons_w s \<and> cons_buf s (unat (cons_e s - 1) mod INPUT_BUF) \<noteq> newline_c then
       (case k of
          0 \<Rightarrow> Spin
        | Suc k \<Rightarrow> bind (consputc BACKSPACE (s\<lparr>cons_e := cons_e s - 1\<rparr>)) (\<lambda>_ s. kill_line_loop k s))
     else Ok () s)"

declare kill_line_loop.simps [simp del]

definition cons_store :: "uchar \<Rightarrow> 'a kconsole_scheme \<Rightarrow> 'a kconsole_scheme" where
  "cons_store c s = s\<lparr>cons_buf := (cons_buf s)(unat (cons_e s) mod INPUT_BUF := c), cons_e := cons_e s + 1\<rparr>"

definition consoleintr :: "uchar \<Rightarrow> 'a kconsole_scheme \<Rightarrow> (unit, 'a kconsole_scheme) res" where
  "consoleintr c s =
    bind (acquire cons_lock s) (\<lambda>_ s.
    bind (if c = ctrl_P then procdump s
          else if c = ctrl_U then kill_line_loop (unat (cons_e s - cons_w s)) s
          else if c = ctrl_H \<or> c = 0x7f then
            if cons_e s \<noteq> cons_w s then consputc BACKSPACE (s\<lparr>cons_e := cons_e s - 1\<rparr>) else Ok () s
          else if c \<noteq> 0 \<and> cons_e s - cons_r s < of_nat INPUT_BUF then
            let c = (if c = 13 then newline_c else c) in
            bind (consputc (ucast c) s) (\<lambda>_ s.
            let s = cons_store c s in
            if c = newline_c \<or> c = ctrl_D \<or> cons_e s = cons_r s + of_nat INPUT_BUF then
              wakeup ChanCons (s\<lparr>cons_w := cons_e s\<rparr>)
            else Ok () s)
          else Ok () s) (\<lambda>_ s.
    release cons_lock s))"

text \<open>\<open>uartintr\<close>: every byte of the receive FIFO goes to \<open>consoleintr\<close>, then output is restarted.\<close>

fun uartintr_loop :: "nat \<Rightarrow> 'a kconsole_scheme \<Rightarrow> (unit, 'a kconsole_scheme) res" where
  "uartintr_loop k s =
    (let (c, s) = uartgetc s in
     if c = -1 then Ok () s
     else case k of 0 \<Rightarrow> Spin | Suc k \<Rightarrow> bind (consoleintr (ucast c) s) (\<lambda>_ s. uartintr_loop k s))"

declare uartintr_loop.simps [simp del]

definition uartintr :: "'a kconsole_scheme \<Rightarrow> (unit, 'a kconsole_scheme) res" where
  "uartintr s =
    bind (uartintr_loop (length (uart_rx s)) s) (\<lambda>_ s.
    bind (acquire uart_tx_lock s) (\<lambda>_ s.
    bind (uartstart s) (\<lambda>_ s. release uart_tx_lock s)))"

definition consoleinit :: "'a kconsole_scheme \<Rightarrow> 'a kconsole_scheme" where
  "consoleinit s = uartinit (initlock cons_lock ''cons'' s)"

section \<open>Lemmas\<close>

lemma kconsole_lock_simps [simp]:
  "cons_buf (acquired l s) = cons_buf s"
  "cons_r (acquired l s) = cons_r s"
  "cons_w (acquired l s) = cons_w s"
  "cons_e (acquired l s) = cons_e s"
  "unlocked l (s\<lparr>cons_buf := x_cons_buf\<rparr>) = unlocked l s" "calm (s\<lparr>cons_buf := x_cons_buf\<rparr>) = calm s" "mycpu (s\<lparr>cons_buf := x_cons_buf\<rparr>) = mycpu s"
  "unlocked l (s\<lparr>cons_r := x_cons_r\<rparr>) = unlocked l s" "calm (s\<lparr>cons_r := x_cons_r\<rparr>) = calm s" "mycpu (s\<lparr>cons_r := x_cons_r\<rparr>) = mycpu s"
  "unlocked l (s\<lparr>cons_w := x_cons_w\<rparr>) = unlocked l s" "calm (s\<lparr>cons_w := x_cons_w\<rparr>) = calm s" "mycpu (s\<lparr>cons_w := x_cons_w\<rparr>) = mycpu s"
  "unlocked l (s\<lparr>cons_e := x_cons_e\<rparr>) = unlocked l s" "calm (s\<lparr>cons_e := x_cons_e\<rparr>) = calm s" "mycpu (s\<lparr>cons_e := x_cons_e\<rparr>) = mycpu s"
  by (simp_all add: machine_defs calm_def)

lemma kconsole_lock_upd [step_eqs]:
  "(acquired l s)\<lparr>cons_buf := x_cons_buf\<rparr> = acquired l (s\<lparr>cons_buf := x_cons_buf\<rparr>)"
  "(acquired l s)\<lparr>cons_r := x_cons_r\<rparr> = acquired l (s\<lparr>cons_r := x_cons_r\<rparr>)"
  "(acquired l s)\<lparr>cons_w := x_cons_w\<rparr> = acquired l (s\<lparr>cons_w := x_cons_w\<rparr>)"
  "(acquired l s)\<lparr>cons_e := x_cons_e\<rparr> = acquired l (s\<lparr>cons_e := x_cons_e\<rparr>)"
  by (simp_all add: machine_defs)

end
