(* ===== verification/Pipe.thy ===== *)
theory Pipe
  imports Console
begin

text \<open>
  Pipes (\<open>kernel/pipe.c\<close>) and the state of the file table (\<open>kernel/file.h\<close>). A pipe is named by the address of
  the page that \<open>kalloc\<close> gave for it; its fields are kept in a table by that address.
\<close>

section \<open>State\<close>

definition PIPESIZE :: nat where "PIPESIZE = 512"

record pipe =
  pi_data :: "nat \<Rightarrow> uchar"
  pi_nread :: uint
  pi_nwrite :: uint
  pi_readopen :: bool
  pi_writeopen :: bool

datatype filetype = FD_NONE | FD_PIPE | FD_INODE | FD_DEVICE

record kfile_entry =
  f_type :: filetype
  f_ref :: int32
  f_readable :: bool
  f_writable :: bool
  f_pipe :: uint64
  f_ip :: "nat option"
  f_off :: uint
  f_major :: ushort

record kfile = kconsole +
  pipes :: "uint64 \<Rightarrow> pipe"
  ftable :: "nat \<Rightarrow> kfile_entry"

definition upd_pipe :: "uint64 \<Rightarrow> (pipe \<Rightarrow> pipe) \<Rightarrow> 'a kfile_scheme \<Rightarrow> 'a kfile_scheme" where
  "upd_pipe pi f s = s\<lparr>pipes := (pipes s)(pi := f (pipes s pi))\<rparr>"

definition upd_file :: "nat \<Rightarrow> (kfile_entry \<Rightarrow> kfile_entry) \<Rightarrow> 'a kfile_scheme \<Rightarrow> 'a kfile_scheme" where
  "upd_file f g s = s\<lparr>ftable := (ftable s)(f := g (ftable s f))\<rparr>"

section \<open>Operations\<close>

definition pipe_put :: "uchar \<Rightarrow> pipe \<Rightarrow> pipe" where
  "pipe_put c p = p\<lparr>pi_data := (pi_data p)(unat (pi_nwrite p) mod PIPESIZE := c), pi_nwrite := pi_nwrite p + 1\<rparr>"

definition pipe_get :: "pipe \<Rightarrow> uchar \<times> pipe" where
  "pipe_get p = (pi_data p (unat (pi_nread p) mod PIPESIZE), p\<lparr>pi_nread := pi_nread p + 1\<rparr>)"

definition pipeclose :: "uint64 \<Rightarrow> bool \<Rightarrow> 'a kfile_scheme \<Rightarrow> (unit, 'a kfile_scheme) res" where
  "pipeclose pi writable s =
    bind (acquire (pipe_lock pi) s) (\<lambda>_ s.
    bind (if writable then wakeup (ChanPipeRead pi) (upd_pipe pi (\<lambda>p. p\<lparr>pi_writeopen := False\<rparr>) s)
          else wakeup (ChanPipeWrite pi) (upd_pipe pi (\<lambda>p. p\<lparr>pi_readopen := False\<rparr>) s)) (\<lambda>_ s.
    if \<not> pi_readopen (pipes s pi) \<and> \<not> pi_writeopen (pipes s pi) then
      bind (release (pipe_lock pi) s) (\<lambda>_ s. kfree pi s)
    else release (pipe_lock pi) s))"

text \<open>The loop of \<open>pipewrite\<close>; \<open>k\<close> is \<open>n - i\<close>.\<close>

function pipewrite_loop ::
  "nat \<Rightarrow> nat \<Rightarrow> uint64 \<Rightarrow> uint64 \<Rightarrow> nat \<Rightarrow> 'a kfile_scheme \<Rightarrow> (int32, 'a kfile_scheme) res" where
  "pipewrite_loop k i pi addr pr s =
    (if 0 < k then
       if \<not> pi_readopen (pipes s pi) \<or> p_killed (procs s pr) \<noteq> 0 then
         bind (release (pipe_lock pi) s) (\<lambda>_ s. Ok (-1) s)
       else if pi_nwrite (pipes s pi) = pi_nread (pipes s pi) + of_nat PIPESIZE then
         bind (wakeup (ChanPipeRead pi) s) (\<lambda>_ s.
         bind (sleep (ChanPipeWrite pi) (pipe_lock pi) s) (\<lambda>_ s. pipewrite_loop k i pi addr pr s))
       else
         bind (copyin (p_pagetable (procs s pr)) [] (addr + of_nat i) 1 s) (\<lambda>(r, ch) s.
         if r = -1 then
           bind (wakeup (ChanPipeRead pi) s) (\<lambda>_ s. bind (release (pipe_lock pi) s) (\<lambda>_ s. Ok (of_nat i) s))
         else pipewrite_loop (k - 1) (Suc i) pi addr pr (upd_pipe pi (pipe_put (hd ch)) s))
     else
       bind (wakeup (ChanPipeRead pi) s) (\<lambda>_ s. bind (release (pipe_lock pi) s) (\<lambda>_ s. Ok (of_nat i) s)))"
  by pat_completeness auto
termination
  by (relation "measure (\<lambda>(k, i, pi, addr, pr, s). k)") (auto simp: sleep_never_returns)

declare pipewrite_loop.simps [simp del]

definition pipewrite :: "uint64 \<Rightarrow> uint64 \<Rightarrow> int32 \<Rightarrow> 'a kfile_scheme \<Rightarrow> (int32, 'a kfile_scheme) res" where
  "pipewrite pi addr n s =
    bind (myproc s) (\<lambda>po s.
    case po of
      None \<Rightarrow> Undef
    | Some pr \<Rightarrow> bind (acquire (pipe_lock pi) s) (\<lambda>_ s. pipewrite_loop (nat (sint n)) 0 pi addr pr s))"

definition pipewrite_resume ::
  "nat \<Rightarrow> nat \<Rightarrow> uint64 \<Rightarrow> uint64 \<Rightarrow> nat \<Rightarrow> bool \<Rightarrow> 'a kfile_scheme \<Rightarrow> (int32, 'a kfile_scheme) res" where
  "pipewrite_resume k i pi addr pr intena_saved s =
    bind (sleep_resume pr (pipe_lock pi) intena_saved s) (\<lambda>_ s. pipewrite_loop k i pi addr pr s)"

fun piperead_copy ::
  "nat \<Rightarrow> nat \<Rightarrow> uint64 \<Rightarrow> uint64 \<Rightarrow> nat \<Rightarrow> 'a kfile_scheme \<Rightarrow> (int32, 'a kfile_scheme) res" where
  "piperead_copy 0 i pi addr pr s = Ok (of_nat i) s"
| "piperead_copy (Suc k) i pi addr pr s =
    (if pi_nread (pipes s pi) = pi_nwrite (pipes s pi) then Ok (of_nat i) s
     else
       let (ch, p) = pipe_get (pipes s pi);
           s = upd_pipe pi (\<lambda>_. p) s
       in bind (copyout (p_pagetable (procs s pr)) (addr + of_nat i) [ch] s) (\<lambda>r s.
          if r = -1 then Ok (of_nat i) s else piperead_copy k (Suc i) pi addr pr s))"

function piperead_loop ::
  "int32 \<Rightarrow> uint64 \<Rightarrow> uint64 \<Rightarrow> nat \<Rightarrow> 'a kfile_scheme \<Rightarrow> (int32, 'a kfile_scheme) res" where
  "piperead_loop n pi addr pr s =
    (if pi_nread (pipes s pi) = pi_nwrite (pipes s pi) \<and> pi_writeopen (pipes s pi) then
       if p_killed (procs s pr) \<noteq> 0 then bind (release (pipe_lock pi) s) (\<lambda>_ s. Ok (-1) s)
       else bind (sleep (ChanPipeRead pi) (pipe_lock pi) s) (\<lambda>_ s. piperead_loop n pi addr pr s)
     else
       bind (piperead_copy (nat (sint n)) 0 pi addr pr s) (\<lambda>i s.
       bind (wakeup (ChanPipeWrite pi) s) (\<lambda>_ s.
       bind (release (pipe_lock pi) s) (\<lambda>_ s. Ok i s))))"
  by pat_completeness auto
termination by (relation "measure (\<lambda>_. 0)") (auto simp: sleep_never_returns)

declare piperead_loop.simps [simp del]

definition piperead :: "uint64 \<Rightarrow> uint64 \<Rightarrow> int32 \<Rightarrow> 'a kfile_scheme \<Rightarrow> (int32, 'a kfile_scheme) res" where
  "piperead pi addr n s =
    bind (myproc s) (\<lambda>po s.
    case po of
      None \<Rightarrow> Undef
    | Some pr \<Rightarrow> bind (acquire (pipe_lock pi) s) (\<lambda>_ s. piperead_loop n pi addr pr s))"

definition piperead_resume ::
  "int32 \<Rightarrow> uint64 \<Rightarrow> uint64 \<Rightarrow> nat \<Rightarrow> bool \<Rightarrow> 'a kfile_scheme \<Rightarrow> (int32, 'a kfile_scheme) res" where
  "piperead_resume n pi addr pr intena_saved s =
    bind (sleep_resume pr (pipe_lock pi) intena_saved s) (\<lambda>_ s. piperead_loop n pi addr pr s)"

section \<open>Lemmas\<close>

lemma kfile_lock_simps [simp]:
  "pipes (acquired l s) = pipes s"
  "ftable (acquired l s) = ftable s"
  "unlocked l (s\<lparr>pipes := x_pipes\<rparr>) = unlocked l s" "calm (s\<lparr>pipes := x_pipes\<rparr>) = calm s" "mycpu (s\<lparr>pipes := x_pipes\<rparr>) = mycpu s"
  "unlocked l (s\<lparr>ftable := x_ftable\<rparr>) = unlocked l s" "calm (s\<lparr>ftable := x_ftable\<rparr>) = calm s" "mycpu (s\<lparr>ftable := x_ftable\<rparr>) = mycpu s"
  by (simp_all add: machine_defs calm_def)

lemma kfile_lock_upd [step_eqs]:
  "(acquired l s)\<lparr>pipes := x_pipes\<rparr> = acquired l (s\<lparr>pipes := x_pipes\<rparr>)"
  "(acquired l s)\<lparr>ftable := x_ftable\<rparr> = acquired l (s\<lparr>ftable := x_ftable\<rparr>)"
  by (simp_all add: machine_defs)

end
