(* ===== verification/File.thy ===== *)
theory File
  imports Pipe
begin

text \<open>
  Open files (\<open>kernel/file.c\<close>) and the allocation of a pipe (\<open>pipealloc\<close> of \<open>kernel/pipe.c\<close>). A pointer to a
  file is its index in the table. The device switch has the console at major number 1, as \<open>consoleinit\<close> sets it.
\<close>

section \<open>Operations\<close>

definition NFILE :: nat where "NFILE = 100"
definition NDEV :: nat where "NDEV = 10"
definition CONSOLE :: ushort where "CONSOLE = 1"

definition fileinit :: "'a kfile_scheme \<Rightarrow> 'a kfile_scheme" where
  "fileinit s = initlock ftable_lock ''ftable'' s"

definition filealloc :: "'a kfile_scheme \<Rightarrow> (nat option, 'a kfile_scheme) res" where
  "filealloc s =
    bind (acquire ftable_lock s) (\<lambda>_ s.
    case find (\<lambda>f. f_ref (ftable s f) = 0) [0..<NFILE] of
      Some f \<Rightarrow> bind (release ftable_lock (upd_file f (\<lambda>x. x\<lparr>f_ref := 1\<rparr>) s)) (\<lambda>_ s. Ok (Some f) s)
    | None \<Rightarrow> bind (release ftable_lock s) (\<lambda>_ s. Ok None s))"

definition filedup :: "nat \<Rightarrow> 'a kfile_scheme \<Rightarrow> (nat, 'a kfile_scheme) res" where
  "filedup f s =
    bind (acquire ftable_lock s) (\<lambda>_ s.
    if sint (f_ref (ftable s f)) < 1 then Panic ''filedup''
    else bind (release ftable_lock (upd_file f (\<lambda>x. x\<lparr>f_ref := f_ref x + 1\<rparr>) s)) (\<lambda>_ s. Ok f s))"

definition fileclose :: "nat \<Rightarrow> 'a kfile_scheme \<Rightarrow> (unit, 'a kfile_scheme) res" where
  "fileclose f s =
    bind (acquire ftable_lock s) (\<lambda>_ s.
    if sint (f_ref (ftable s f)) < 1 then Panic ''fileclose''
    else
      let s = upd_file f (\<lambda>x. x\<lparr>f_ref := f_ref x - 1\<rparr>) s in
      if 0 < sint (f_ref (ftable s f)) then release ftable_lock s
      else
        let ff = ftable s f;
            s = upd_file f (\<lambda>x. x\<lparr>f_ref := 0, f_type := FD_NONE\<rparr>) s
        in bind (release ftable_lock s) (\<lambda>_ s.
           if f_type ff = FD_PIPE then pipeclose (f_pipe ff) (f_writable ff) s
           else if f_type ff = FD_INODE \<or> f_type ff = FD_DEVICE then
             bind (begin_op s) (\<lambda>_ s.
             bind (case f_ip ff of None \<Rightarrow> Undef | Some ip \<Rightarrow> iput ip s) (\<lambda>_ s. end_op s))
           else Ok () s))"

definition pipealloc_bad ::
  "nat option \<Rightarrow> nat option \<Rightarrow> 'a kfile_scheme \<Rightarrow> ((nat \<times> nat) option, 'a kfile_scheme) res" where
  "pipealloc_bad f0 f1 s =
    bind (case f0 of None \<Rightarrow> Ok () s | Some f \<Rightarrow> fileclose f s) (\<lambda>_ s.
    bind (case f1 of None \<Rightarrow> Ok () s | Some f \<Rightarrow> fileclose f s) (\<lambda>_ s. Ok None s))"

text \<open>\<open>pipealloc\<close> returns the two files, or \<open>None\<close> for -1.\<close>

definition pipealloc :: "'a kfile_scheme \<Rightarrow> ((nat \<times> nat) option, 'a kfile_scheme) res" where
  "pipealloc s =
    bind (filealloc s) (\<lambda>f0 s.
    case f0 of
      None \<Rightarrow> pipealloc_bad None None s
    | Some r \<Rightarrow>
        bind (filealloc s) (\<lambda>f1 s.
        case f1 of
          None \<Rightarrow> pipealloc_bad f0 None s
        | Some w \<Rightarrow>
            bind (kalloc s) (\<lambda>pi s.
            if pi = 0 then pipealloc_bad f0 f1 s
            else
              let s = upd_pipe pi (\<lambda>p. p\<lparr>pi_nread := 0, pi_nwrite := 0, pi_readopen := True, pi_writeopen := True\<rparr>) s;
                  s = initlock (pipe_lock pi) ''pipe'' s;
                  s = upd_file r (\<lambda>f. f\<lparr>f_type := FD_PIPE, f_readable := True, f_writable := False, f_pipe := pi\<rparr>) s;
                  s = upd_file w (\<lambda>f. f\<lparr>f_type := FD_PIPE, f_readable := False, f_writable := True, f_pipe := pi\<rparr>) s
              in Ok (Some (r, w)) s)))"

text \<open>The bytes of \<open>struct stat\<close>; the 4 bytes of padding before \<open>size\<close> are \<open>pad\<close>.\<close>

definition stat_bytes :: "uchar list \<Rightarrow> kstat \<Rightarrow> uchar list" where
  "stat_bytes pad st =
    bytes32 (st_dev st) @ bytes32 (st_ino st) @ bytes16 (st_type st) @ bytes16 (st_nlink st) @ pad @
    bytes32 (ucast (st_size st)) @ bytes32 (ucast (drop_bit 32 (st_size st)))"

definition filestat :: "uchar list \<Rightarrow> nat \<Rightarrow> uint64 \<Rightarrow> 'a kfile_scheme \<Rightarrow> (int32, 'a kfile_scheme) res" where
  "filestat pad f addr s =
    bind (myproc s) (\<lambda>po s.
    case po of
      None \<Rightarrow> Undef
    | Some p \<Rightarrow>
        if f_type (ftable s f) = FD_INODE \<or> f_type (ftable s f) = FD_DEVICE then
          bind (ilock (f_ip (ftable s f)) s) (\<lambda>_ s.
          let st = stati (the (f_ip (ftable s f))) s in
          bind (iunlock (f_ip (ftable s f)) s) (\<lambda>_ s.
          bind (copyout (p_pagetable (procs s p)) addr (stat_bytes pad st) s) (\<lambda>r s.
          if sint r < 0 then Ok (-1) s else Ok 0 s)))
        else Ok (-1) s)"

text \<open>\<open>devsw[major].read\<close> and \<open>.write\<close>: only the console has them.\<close>

definition dev_ok :: "ushort \<Rightarrow> bool" where
  "dev_ok major \<longleftrightarrow> \<not> (sint major < 0 \<or> int NDEV \<le> sint major \<or> major \<noteq> CONSOLE)"

definition fileread :: "nat \<Rightarrow> uint64 \<Rightarrow> int32 \<Rightarrow> 'a kfile_scheme \<Rightarrow> (int32, 'a kfile_scheme) res" where
  "fileread f addr n s =
    (let ff = ftable s f in
     if \<not> f_readable ff then Ok (-1) s
     else
       (case f_type ff of
          FD_PIPE \<Rightarrow> piperead (f_pipe ff) addr n s
        | FD_DEVICE \<Rightarrow>
            if \<not> dev_ok (f_major ff) then Ok (-1) s else consoleread (UserAddr addr) n s
        | FD_INODE \<Rightarrow>
            bind (ilock (f_ip ff) s) (\<lambda>_ s.
            bind (readi (the (f_ip ff)) (IoAddr (UserAddr addr)) (f_off (ftable s f)) n s) (\<lambda>(r, _) s.
            let s = (if 0 < sint r then upd_file f (\<lambda>x. x\<lparr>f_off := f_off x + r\<rparr>) s else s) in
            bind (iunlock (f_ip ff) s) (\<lambda>_ s. Ok r s)))
        | FD_NONE \<Rightarrow> Panic ''fileread''))"

definition write_max :: nat where
  "write_max = (MAXOPBLOCKS - 1 - 1 - 2) div 2 * BSIZE"

text \<open>The loop of \<open>filewrite\<close> for files on the disk: \<open>i\<close> bytes are written, \<open>k\<close> are left.\<close>

function filewrite_loop :: "nat \<Rightarrow> nat \<Rightarrow> nat \<Rightarrow> uint64 \<Rightarrow> 'a kfile_scheme \<Rightarrow> (nat, 'a kfile_scheme) res" where
  "filewrite_loop k i f addr s =
    (if 0 < k then
       let n1 = min k write_max in
       bind (begin_op s) (\<lambda>_ s.
       bind (ilock (f_ip (ftable s f)) s) (\<lambda>_ s.
       bind (writei (the (f_ip (ftable s f))) (IoAddr (UserAddr (addr + of_nat i))) (f_off (ftable s f)) (of_nat n1) s) (\<lambda>r s.
       let s = (if 0 < sint r then upd_file f (\<lambda>x. x\<lparr>f_off := f_off x + r\<rparr>) s else s) in
       bind (iunlock (f_ip (ftable s f)) s) (\<lambda>_ s.
       bind (end_op s) (\<lambda>_ s.
       if r \<noteq> of_nat n1 then Ok i s else filewrite_loop (k - n1) (i + n1) f addr s)))))
     else Ok i s)"
  by pat_completeness auto
termination
  by (relation "measure (\<lambda>(k, i, f, addr, s). k)") (auto simp: write_max_def MAXOPBLOCKS_def BSIZE_def)

declare filewrite_loop.simps [simp del]

definition filewrite :: "nat \<Rightarrow> uint64 \<Rightarrow> int32 \<Rightarrow> 'a kfile_scheme \<Rightarrow> (int32, 'a kfile_scheme) res" where
  "filewrite f addr n s =
    (let ff = ftable s f in
     if \<not> f_writable ff then Ok (-1) s
     else
       (case f_type ff of
          FD_PIPE \<Rightarrow> pipewrite (f_pipe ff) addr n s
        | FD_DEVICE \<Rightarrow>
            if \<not> dev_ok (f_major ff) then Ok (-1) s else consolewrite (UserAddr addr) n s
        | FD_INODE \<Rightarrow>
            bind (filewrite_loop (nat (sint n)) 0 f addr s) (\<lambda>i s.
            Ok (if int i = sint n then n else -1) s)
        | FD_NONE \<Rightarrow> Panic ''filewrite''))"

end
