(* ===== verification/Uart_Out.thy ===== *)
theory Uart_Out
  imports Uart Fs_Block
begin

text \<open>
  Output through the serial port: the bytes given to \<open>uartputc\<close> leave the device in order and none is lost or
  doubled, however the calls and the interrupts of the transmitter alternate; a writer waits exactly when the buffer is
  full. \<open>uartputc_sync\<close> returns as soon as the transmitter is idle.
\<close>

unbundle bit_operations_syntax

section \<open>A port at rest\<close>

definition demo_uart :: "uchar stream \<Rightarrow> kuart" where
  "demo_uart lsr = kfs.extend (idle_fs demo_disk (\<lambda>_. bare_inode)) (kuart.fields (\<lambda>_. 0) 0 0 lsr [] [])"

lemma binit_loop_keeps: "panicked (binit_loop n s) = panicked s" "mem (binit_loop n s) = mem s"
  by (induction n arbitrary: s) (simp_all add: Let_def upd_buf_def initsleeplock_def initlock_def)

lemma idle_fs_calm: "calm (idle_fs img it)" "cpu_proc (mycpu (idle_fs img it)) = Some 1"
  using idle_fs_simps(4) [of img it] by (simp_all add: bio_ok_def)

lemma idle_fs_panicked [simp]: "\<not> panicked (idle_fs img it)"
  by (simp add: idle_fs_def klog.defs kfs.defs boot_klog_def kbio.defs boot_bio_def binit_def Let_def binit_loop_keeps upd_buf_def initlock_def
      ksleep.defs two_procs_def kproc.defs bare_kernel_def machine_defs)

lemma demo_uart_views:
  "calm (demo_uart lsr)" "cpu_proc (mycpu (demo_uart lsr)) = Some 1" "tx_list (demo_uart lsr) = []" "uart_sent (demo_uart lsr) = []"
  "uart_lsr (demo_uart lsr) = lsr" "\<not> panicked (demo_uart lsr)"
proof -
  have "calm (demo_uart lsr) = calm (idle_fs demo_disk (\<lambda>_. bare_inode))" "mycpu (demo_uart lsr) = mycpu (idle_fs demo_disk (\<lambda>_. bare_inode))"
    by (simp_all add: demo_uart_def kfs.defs kuart.defs calm_def machine_defs)
  then show "calm (demo_uart lsr)" "cpu_proc (mycpu (demo_uart lsr)) = Some 1" by (simp_all add: idle_fs_calm)
  show "\<not> panicked (demo_uart lsr)" using idle_fs_panicked [of demo_disk "\<lambda>_. bare_inode"] by (simp add: demo_uart_def kfs.defs kuart.defs)
qed (simp_all add: demo_uart_def kfs.defs kuart.defs tx_list_def uart_sent_def)

section \<open>Buffered output\<close>

text \<open>A sequence of calls of \<open>uartputc\<close> (\<open>Some c\<close>) and of transmitter interrupts (\<open>None\<close>, the last part of \<open>uartintr\<close>).\<close>

definition tx_intr :: "'a kuart_scheme \<Rightarrow> (unit, 'a kuart_scheme) res" where
  "tx_intr s = bind (acquire uart_tx_lock s) (\<lambda>_ s. bind (uartstart s) (\<lambda>_ s. release uart_tx_lock s))"

fun uart_run :: "uchar option list \<Rightarrow> 'a kuart_scheme \<Rightarrow> (unit, 'a kuart_scheme) res" where
  "uart_run [] s = Ok () s"
| "uart_run (Some c # es) s = bind (uartputc c s) (\<lambda>_. uart_run es)"
| "uart_run (None # es) s = bind (tx_intr s) (\<lambda>_. uart_run es)"

definition written :: "uchar option list \<Rightarrow> uchar list" where
  "written es = List.map_filter id es"

lemma written_simps [simp]: "written [] = []" "written (Some c # es) = c # written es" "written (None # es) = written es"
  by (simp_all add: written_def map_filter_simps)

lemma uart_run_append: "uart_run (es @ fs) s = bind (uart_run es s) (\<lambda>_. uart_run fs)"
  by (induction es s rule: uart_run.induct) (auto simp: bind_assoc intro: bind_cong)

text \<open>The state of a port that is in use by process \<open>p\<close>.\<close>

definition uart_ok :: "nat \<Rightarrow> 'a kuart_scheme \<Rightarrow> bool" where
  "uart_ok p s \<longleftrightarrow> calm s \<and> \<not> panicked s \<and> length (tx_list s) \<le> UART_TX_BUF_SIZE \<and> cpu_proc (mycpu s) = Some p"

lemma uart_frame_ok:
  assumes "uart_frame s t" "uart_ok p s" "calm t" "length (tx_list t) \<le> UART_TX_BUF_SIZE"
  shows "uart_ok p t"
proof -
  have "panicked t = panicked s" "mycpu t = mycpu s" using assms(1) by (auto simp: uart_frame_def machine_defs)
  then show ?thesis using assms by (simp add: uart_ok_def)
qed

lemma tx_intr_spec:
  fixes s :: "'a kuart_scheme"
  assumes "uart_ok p s"
  shows "\<exists>t. tx_intr s = Ok () t \<and> uart_ok p t \<and> uart_sent t @ tx_list t = uart_sent s @ tx_list s"
proof -
  have c: "calm s" using assms by (simp add: uart_ok_def)
  obtain t where t: "uartstart (acquired uart_tx_lock s) = Ok () (acquired uart_tx_lock t)" "calm t"
    "uart_sent t @ tx_list t = uart_sent s @ tx_list s" "length (tx_list t) \<le> length (tx_list s)" "uart_frame s t"
    using uartstart_spec [OF c, of uart_tx_lock] by auto
  then have "tx_intr s = Ok () t" using c by (simp add: tx_intr_def calm_acquire calm_release)
  then show ?thesis using t uart_frame_ok [OF t(5) assms t(2)] assms by (auto simp: uart_ok_def)
qed

lemma uartputc_full:
  fixes s :: "'a kuart_scheme"
  assumes "uart_ok p s" "length (tx_list s) = UART_TX_BUF_SIZE"
  shows "uartputc c s = Swtch (acquired (proc_lock p) (upd_proc p (\<lambda>q. q\<lparr>p_chan := ChanUart, p_state := SLEEPING\<rparr>) s))"
proof -
  have "uart_tx_w s = uart_tx_r s + of_nat UART_TX_BUF_SIZE"
    by (rule ring_full) (use assms(2) in \<open>simp add: tx_list_def\<close>)
  then show ?thesis
    using assms(1) sleep_eq [of s p uart_tx_lock ChanUart] calm_simps [of s]
    by (simp add: uart_ok_def uartputc_def calm_acquire uartputc_loop.simps [of c "acquired uart_tx_lock s"])
qed

lemma uart_run_ok:
  fixes s :: "'a kuart_scheme"
  assumes "uart_ok p s"
  shows "(\<exists>t. uart_run es s = Ok () t \<and> uart_ok p t \<and> uart_sent t @ tx_list t = uart_sent s @ tx_list s @ written es) \<or>
    (\<exists>fs c gs t. es = fs @ Some c # gs \<and> uart_run fs s = Ok () t \<and> uart_ok p t \<and> length (tx_list t) = UART_TX_BUF_SIZE \<and>
      uart_sent t @ tx_list t = uart_sent s @ tx_list s @ written fs)"
  using assms
proof (induction es arbitrary: s)
  case Nil
  then show ?case by simp
next
  case (Cons e es)
  have step: ?case if u: "uart_run [e] s = Ok () u" "uart_ok p u" "uart_sent u @ tx_list u = uart_sent s @ tx_list s @ written [e]" for u
  proof -
    have r: "uart_run (e # fs) s = uart_run fs u" for fs using uart_run_append [of "[e]" fs s] u(1) by simp
    have w: "written (e # fs) = written [e] @ written fs" for fs by (cases e) simp_all
    consider (ok) t where "uart_run es u = Ok () t" "uart_ok p t" "uart_sent t @ tx_list t = uart_sent u @ tx_list u @ written es"
      | (full) fs c gs t where "es = fs @ Some c # gs" "uart_run fs u = Ok () t" "uart_ok p t" "length (tx_list t) = UART_TX_BUF_SIZE"
          "uart_sent t @ tx_list t = uart_sent u @ tx_list u @ written fs"
      using Cons.IH [OF u(2)] by blast
    then show ?thesis
    proof cases
      case ok
      have "uart_sent t @ tx_list t = (uart_sent u @ tx_list u) @ written es" using ok(3) by simp
      also have "\<dots> = uart_sent s @ tx_list s @ written (e # es)" unfolding u(3) w [of es] by simp
      finally show ?thesis using r ok(1,2) by auto
    next
      case full
      have "uart_sent t @ tx_list t = (uart_sent u @ tx_list u) @ written fs" using full(5) by simp
      also have "\<dots> = uart_sent s @ tx_list s @ written (e # fs)" unfolding u(3) w [of fs] by simp
      finally have "uart_sent t @ tx_list t = uart_sent s @ tx_list s @ written (e # fs)" .
      moreover have "e # es = (e # fs) @ Some c # gs" "uart_run (e # fs) s = Ok () t" using full(1,2) r by simp_all
      ultimately show ?thesis using full(3,4) by blast
    qed
  qed
  show ?case
  proof (cases e)
    case None
    then show ?thesis using tx_intr_spec [OF Cons.prems] step by auto
  next
    case (Some c)
    show ?thesis
    proof (cases "length (tx_list s) = UART_TX_BUF_SIZE")
      case True
      then have "e # es = [] @ Some c # es" "uart_run [] s = Ok () s" using Some by simp_all
      then show ?thesis using True Cons.prems by (metis append_Nil2 written_simps(1))
    next
      case False
      then have l: "length (tx_list s) < UART_TX_BUF_SIZE" "calm s" "\<not> panicked s" using Cons.prems by (simp_all add: uart_ok_def)
      obtain t where t: "uartputc c s = Ok () t" "calm t" "uart_sent t @ tx_list t = uart_sent s @ tx_list s @ [c]"
        "length (tx_list t) \<le> Suc (length (tx_list s))" "uart_frame s t" using uartputc_spec [OF l(2,3,1)] by blast
      then have "uart_ok p t" using uart_frame_ok [OF t(5) Cons.prems t(2)] l by simp
      then show ?thesis using step [of t] t Some by simp
    qed
  qed
qed



section \<open>Polled output\<close>

lemma lsr_wait_idle:
  assumes "(xs !! n) AND LSR_TX_IDLE \<noteq> 0" "\<forall>i < n. (xs !! i) AND LSR_TX_IDLE = 0"
  shows "lsr_wait xs = Some (sdrop (Suc n) xs)"
  using assms
proof (induction n arbitrary: xs)
  case 0
  then show ?case by (simp add: lsr_wait.simps [of xs])
next
  case (Suc n)
  have "stl xs !! i AND LSR_TX_IDLE = 0" if "i < n" for i using Suc.prems(2) [rule_format, of "Suc i"] that by simp
  then have "lsr_wait (stl xs) = Some (sdrop (Suc n) (stl xs))" using Suc.IH [of "stl xs"] Suc.prems(1) by simp
  moreover have "shd xs AND LSR_TX_IDLE = 0" using Suc.prems(2) [rule_format, of 0] by simp
  ultimately show ?case by (simp add: lsr_wait.simps [of xs])
qed

lemma lsr_wait_Some: "lsr_wait xs = Some ys \<Longrightarrow> \<exists>n. (xs !! n) AND LSR_TX_IDLE \<noteq> 0"
proof (erule lsr_wait.raw_induct [rotated])
  fix wait and xs ys :: "uchar stream"
  assume 1: "\<And>xs ys. wait xs = Some ys \<Longrightarrow> \<exists>n. (xs !! n) AND LSR_TX_IDLE \<noteq> 0"
    "(if shd xs AND LSR_TX_IDLE = 0 then wait (stl xs) else Some (stl xs)) = Some ys"
  show "\<exists>n. (xs !! n) AND LSR_TX_IDLE \<noteq> 0"
  proof (cases "shd xs AND LSR_TX_IDLE = 0")
    case True
    then obtain n where "(stl xs !! n) AND LSR_TX_IDLE \<noteq> 0" using 1 by auto
    then show ?thesis by (intro exI [of _ "Suc n"]) simp
  next
    case False
    then show ?thesis by (intro exI [of _ 0]) simp
  qed
qed

text \<open>C18: \<open>uartputc_sync\<close> returns exactly when the transmitter becomes idle at some reading of \<open>LSR\<close>: it waits for the first such
reading and no longer, sends its byte and leaves the interrupt state as it was; otherwise it spins for ever.\<close>

theorem uartputc_sync_returns:
  fixes s :: "'a kuart_scheme"
  assumes "calm s" "\<not> panicked s"
  shows "(\<forall>n. (uart_lsr s !! n) AND LSR_TX_IDLE \<noteq> 0 \<and> (\<forall>i < n. (uart_lsr s !! i) AND LSR_TX_IDLE = 0) \<longrightarrow>
      uartputc_sync c s = Ok () (WriteReg THR c (s\<lparr>uart_lsr := sdrop (Suc n) (uart_lsr s)\<rparr>))) \<and>
    ((\<forall>n. (uart_lsr s !! n) AND LSR_TX_IDLE = 0) \<longrightarrow> uartputc_sync c s = Spin)"
proof (intro conjI allI impI)
  have p: "panicked (push_off s) = panicked s" "uart_lsr (push_off s) = uart_lsr s" by (simp_all add: machine_defs)
  have q: "pop_off (WriteReg THR c ((push_off s)\<lparr>uart_lsr := xs\<rparr>)) = Ok () (WriteReg THR c (s\<lparr>uart_lsr := xs\<rparr>))" for xs
  proof -
    have "WriteReg THR c ((push_off s)\<lparr>uart_lsr := xs\<rparr>) = push_off (WriteReg THR c (s\<lparr>uart_lsr := xs\<rparr>))"
      by (simp add: WriteReg_def machine_defs)
    moreover have "calm (WriteReg THR c (s\<lparr>uart_lsr := xs\<rparr>))" using assms(1) by simp
    ultimately show ?thesis using pop_off_push_off calm_simps by metis
  qed
  show "uartputc_sync c s = Ok () (WriteReg THR c (s\<lparr>uart_lsr := sdrop (Suc n) (uart_lsr s)\<rparr>))"
    if "(uart_lsr s !! n) AND LSR_TX_IDLE \<noteq> 0 \<and> (\<forall>i < n. (uart_lsr s !! i) AND LSR_TX_IDLE = 0)" for n
    using that lsr_wait_idle [of "uart_lsr s" n] assms(2) p q by (simp add: uartputc_sync_def Let_def)
  show "uartputc_sync c s = Spin" if a: "\<forall>n. (uart_lsr s !! n) AND LSR_TX_IDLE = 0"
  proof -
    have "lsr_wait (uart_lsr s) = None" using lsr_wait_Some [of "uart_lsr s"] a by (cases "lsr_wait (uart_lsr s)") auto
    then show ?thesis using assms(2) p by (simp add: uartputc_sync_def Let_def)
  qed
qed

theorem uartputc_sync_returns_witness:
  "uartputc_sync 65 (demo_uart (0 ## 0 ## sconst 32)) =
     Ok () (WriteReg THR 65 ((demo_uart (0 ## 0 ## sconst 32))\<lparr>uart_lsr := sconst 32\<rparr>))"
proof -
  let ?s = "demo_uart (0 ## 0 ## sconst 32)"
  have c: "calm ?s" by (simp add: demo_uart_views)
  have n: "\<not> panicked ?s" by (simp add: demo_uart_views)
  have "(uart_lsr ?s !! 2) AND LSR_TX_IDLE \<noteq> 0 \<and> (\<forall>i < 2. (uart_lsr ?s !! i) AND LSR_TX_IDLE = 0)"
  proof -
    have "(32 :: uchar) AND LSR_TX_IDLE \<noteq> 0" by (simp add: LSR_TX_IDLE_def)
    moreover have "(0 ## 0 ## sconst 32) !! 2 = (32 :: uchar)" "\<forall>i < 2. (0 ## 0 ## sconst 32) !! i = (0 :: uchar)"
      by (auto simp: numeral_2_eq_2 less_Suc_eq)
    ultimately show ?thesis by (simp add: demo_uart_views)
  qed
  then have "uartputc_sync 65 ?s = Ok () (WriteReg THR 65 (?s\<lparr>uart_lsr := sdrop (Suc 2) (uart_lsr ?s)\<rparr>))"
    using conjunct1 [OF uartputc_sync_returns [OF c n, of 65], rule_format] by blast
  then show ?thesis by (simp add: demo_uart_views numeral_2_eq_2)
qed

end
