(* ===== verification/User_Mem.thy ===== *)
theory User_Mem
  imports Vm_User Fs_Block
begin

text \<open>
  The memory of the running process as the system calls use it: which bytes it has at its addresses, and that moving one
  byte between the kernel and the process works on them.
\<close>

section \<open>The address space of a process\<close>

definition user_space :: "nat \<Rightarrow> 'a kproc_scheme \<Rightarrow> bool" where
  "user_space p s \<longleftrightarrow>
    (\<exists>n ps. uvm_inv (p_pagetable (procs s p)) n ps s \<and> top_private (mem s) (p_pagetable (procs s p)))"

text \<open>The byte at an address, if the process may access it.\<close>

definition user_byte :: "nat \<Rightarrow> 'a kproc_scheme \<Rightarrow> uint64 \<Rightarrow> uchar option" where
  "user_byte p s va = ubyte (mem s) (p_pagetable (procs s p)) va"

definition user_bytes :: "nat \<Rightarrow> 'a kproc_scheme \<Rightarrow> uint64 \<Rightarrow> uchar list \<Rightarrow> bool" where
  "user_bytes p s va bs \<longleftrightarrow> unat va + length bs < 2 ^ 64 \<and> (\<forall>i < length bs. user_byte p s (va + of_nat i) = Some (bs ! i))"

definition user_room :: "nat \<Rightarrow> 'a kproc_scheme \<Rightarrow> uint64 \<Rightarrow> nat \<Rightarrow> bool" where
  "user_room p s va n \<longleftrightarrow> unat va + n < 2 ^ 64 \<and> (\<forall>i < n. user_byte p s (va + of_nat i) \<noteq> None)"

lemma user_space_cong:
  assumes "mem t = mem s" "freelist t = freelist s" "kend t = kend s" "unlocked kmem_lock t" "quiet t"
    "p_pagetable (procs t p) = p_pagetable (procs s p)"
  shows "user_space p s \<Longrightarrow> user_space p t" "user_byte p t = user_byte p s"
proof -
  have "uvm_inv pt n ps t" if "uvm_inv pt n ps s" for pt n ps
    using that assms by (simp add: uvm_inv_def pt_inv_def kmem_ready_def kmem_inv_def page_ok_def unmap_pre_def)
  then show "user_space p s \<Longrightarrow> user_space p t" using assms unfolding user_space_def by fastforce
  show "user_byte p t = user_byte p s" by (rule ext) (simp add: user_byte_def assms(1,6))
qed

lemma unat_add_nat: "unat (va :: uint64) + n < 2 ^ 64 \<Longrightarrow> i \<le> n \<Longrightarrow> unat (va + of_nat i) = unat va + i"
  by (simp add: unat_word_ariths unat_of_nat)

lemma copyin_byte:
  assumes "user_space p s" "user_byte p s va = Some c" "unat va + 1 < 2 ^ 64"
  shows "copyin (p_pagetable (procs s p)) [] va 1 s = Ok (0, [c]) s"
proof -
  obtain n ps where u: "uvm_inv (p_pagetable (procs s p)) n ps s" "top_private (mem s) (p_pagetable (procs s p))"
    using assms(1) by (auto simp: user_space_def)
  obtain r bs k where c: "copyin (p_pagetable (procs s p)) [] va 1 s = Ok (r, [] @ bs) s" "length bs = k" "k \<le> 1"
    "\<forall>i < k. ubyte (mem s) (p_pagetable (procs s p)) (va + of_nat i) = Some (bs ! i)"
    "r = 0 \<and> k = 1 \<or> r = -1 \<and> k < 1 \<and> ubyte (mem s) (p_pagetable (procs s p)) (va + of_nat k) = None"
    using copyin_spec [OF u assms(3), of "[]"] by blast
  have "r = 0" "k = 1" using c(5) assms(2) by (auto simp: user_byte_def)
  moreover from this have "bs = [c]" using c(2,4) assms(2) by (cases bs) (auto simp: user_byte_def)
  ultimately show ?thesis using c(1) by simp
qed

lemma copyout_byte:
  fixes s :: "'a kproc_scheme"
  assumes "user_space p s" "user_byte p s va \<noteq> None" "unat va + 1 < 2 ^ 64"
  shows "\<exists>m. copyout (p_pagetable (procs s p)) va [c] s = Ok 0 (s\<lparr>mem := m\<rparr>) \<and> user_space p (s\<lparr>mem := m\<rparr>) \<and>
    user_byte p (s\<lparr>mem := m\<rparr>) = (user_byte p s)(va := Some c)"
proof -
  let ?pt = "p_pagetable (procs s p)"
  obtain n ps where u: "uvm_inv ?pt n ps s" "top_private (mem s) ?pt" using assms(1) by (auto simp: user_space_def)
  obtain r t k where c: "copyout ?pt va [c] s = Ok r t" "uvm_inv ?pt n ps t" "top_private (mem t) ?pt" "t = s\<lparr>mem := mem t\<rparr>" "k \<le> 1"
    "\<forall>v. ubyte (mem t) ?pt v = (if unat va \<le> unat v \<and> unat v < unat va + k then Some ([c] ! (unat v - unat va)) else ubyte (mem s) ?pt v)"
    "r = 0 \<and> k = 1 \<or> r = -1 \<and> k < 1 \<and> ubyte (mem s) ?pt (va + of_nat k) = None"
    using copyout_spec [OF u, of va "[c]"] assms(3) by auto
  have k: "r = 0" "k = 1" using c(7) assms(2) by (auto simp: user_byte_def)
  have pt: "procs t = procs s" using arg_cong [OF c(4), of procs] by simp
  have "user_byte p t v = ((user_byte p s)(va := Some c)) v" for v
  proof -
    have "unat va \<le> unat v \<and> unat v < unat va + 1 \<longleftrightarrow> v = va" by (auto simp: word_unat_eq_iff)
    then show ?thesis using c(6) k(2) pt by (simp add: user_byte_def)
  qed
  then have "user_byte p t = (user_byte p s)(va := Some c)" by blast
  moreover have "user_space p t" using c(2,3) pt by (auto simp: user_space_def)
  ultimately show ?thesis using c(1,4) k(1) by metis
qed

section \<open>An example\<close>

text \<open>A state in which process 1 has one page of memory.\<close>

lemma demo_user:
  fixes s :: "'a kproc_scheme"
  assumes "calm s"
  obtains m fl ke where "user_space 1 (s\<lparr>mem := m, freelist := fl, kend := ke, procs := (procs s)(1 := (procs s 1)\<lparr>p_pagetable := 0x80022000\<rparr>)\<rparr>)"
    "user_room 1 (s\<lparr>mem := m, freelist := fl, kend := ke, procs := (procs s)(1 := (procs s 1)\<lparr>p_pagetable := 0x80022000\<rparr>)\<rparr>) 0 4096"
proof -
  obtain k :: kmem and ps where k: "uvm_inv 0x80022000 1 ps k" "top_private (mem k) 0x80022000"
    "\<And>va. unat va < 4096 \<Longrightarrow> ubyte (mem k) 0x80022000 va \<noteq> None" using demo_space by blast
  define t where "t = s\<lparr>mem := mem k, freelist := freelist k, kend := kend k, procs := (procs s)(1 := (procs s 1)\<lparr>p_pagetable := 0x80022000\<rparr>)\<rparr>"
  have "unlocked kmem_lock t" "quiet t" using calm_simps(1,2) [OF assms] by (simp_all add: t_def unlocked_def quiet_def machine_defs)
  then have "uvm_inv 0x80022000 1 ps t"
    using k(1) by (simp add: uvm_inv_def pt_inv_def kmem_ready_def kmem_inv_def page_ok_def unmap_pre_def t_def)
  then have "user_space 1 t" using k(2) unfolding user_space_def by (intro exI [of _ 1] exI [of _ ps]) (simp add: t_def)
  moreover have "user_room 1 t 0 4096" using k(3) by (auto simp: user_room_def user_byte_def t_def unat_of_nat)
  ultimately show ?thesis unfolding t_def by (rule that)
qed

end
