(* ===== verification/Pipe_Fifo.thy ===== *)
theory Pipe_Fifo
  imports Pipe Uart_Out User_Mem
begin

text \<open>
  Pipes as queues of bytes: what a process writes into a pipe is what the reader gets, in order. The ring of the pipe is an
  instance of the interface \<open>fifo\<close>.
\<close>

section \<open>The queue\<close>

definition pipe_list :: "pipe \<Rightarrow> uchar list" where
  "pipe_list p = ring_list PIPESIZE (pi_data p) (pi_nread p) (pi_nwrite p)"

interpretation pipeq: fifo pipe_put pipe_get pipe_list PIPESIZE
proof unfold_locales
  fix p :: pipe and c
  show "length (pipe_list p) < PIPESIZE \<Longrightarrow> pipe_list (pipe_put c p) = pipe_list p @ [c]"
    by (simp add: pipe_list_def pipe_put_def ring_put PIPESIZE_def)
  show "pipe_list p = fst (pipe_get p) # pipe_list (snd (pipe_get p))" if "pipe_list p \<noteq> []"
  proof -
    have "pi_nread p \<noteq> pi_nwrite p" using that by (auto simp: pipe_list_def)
    then show ?thesis by (simp add: pipe_list_def pipe_get_def ring_get)
  qed
qed

lemma pipe_list_empty: "pi_nread p = pi_nwrite p \<longleftrightarrow> pipe_list p = []"
proof -
  have "length (pipe_list p) = unat (pi_nwrite p - pi_nread p)" by (simp add: pipe_list_def)
  then show ?thesis by (metis length_0_conv right_minus_eq unat_eq_zero)
qed

lemma pipe_not_full: "length (pipe_list p) < PIPESIZE \<Longrightarrow> pi_nwrite p \<noteq> pi_nread p + of_nat PIPESIZE"
  by (auto simp: pipe_list_def PIPESIZE_def)

lemma pipe_put_simps [simp]: "pi_readopen (pipe_put c p) = pi_readopen p" "pi_writeopen (pipe_put c p) = pi_writeopen p"
  by (simp_all add: pipe_put_def)

lemma upd_pipe_simps [simp]:
  "upd_pipe pi f (acquired l s) = acquired l (upd_pipe pi f s)" "pipes (upd_pipe pi f s) pi = f (pipes s pi)"
  "calm (upd_pipe pi f s) = calm s" "mycpu (upd_pipe pi f s) = mycpu s" "procs (upd_pipe pi f s) = procs s" "mem (upd_pipe pi f s) = mem s"
  "freelist (upd_pipe pi f s) = freelist s" "kend (upd_pipe pi f s) = kend s" "pi' \<noteq> pi \<Longrightarrow> pipes (upd_pipe pi f s) pi' = pipes s pi'"
  by (simp_all add: upd_pipe_def kfile_lock_upd)

lemma user_acquired:
  assumes "calm s" "l \<noteq> kmem_lock"
  shows "user_space p s \<Longrightarrow> user_space p (acquired l s)" "user_byte p (acquired l s) = user_byte p s"
  using user_space_cong [of "acquired l s" s p] assms calm_simps [OF assms(1)] by simp_all

lemma user_upd_pipe [simp]:
  assumes "calm s"
  shows "user_space p s \<Longrightarrow> user_space p (upd_pipe pi f s)" "user_byte p (upd_pipe pi f s) = user_byte p s"
  using user_space_cong [of "upd_pipe pi f s" s p] assms calm_simps [of "upd_pipe pi f s"] by simp_all

section \<open>Writing\<close>

lemma pipewrite_loop_spec:
  fixes s :: "'a kfile_scheme"
  assumes "calm s" "user_space pr s" "user_bytes pr s (addr + of_nat i) bs" "length (pipe_list (pipes s pi)) + length bs \<le> PIPESIZE"
    "pi_readopen (pipes s pi)" "p_killed (procs s pr) = 0"
  shows "\<exists>p. pipewrite_loop (length bs) i pi addr pr (acquired (pipe_lock pi) s) =
      Ok (of_nat (i + length bs)) (wake (ChanPipeRead pi) (upd_pipe pi (\<lambda>_. p) s)) \<and>
    pipe_list p = pipe_list (pipes s pi) @ bs \<and> pi_readopen p \<and> pi_writeopen p = pi_writeopen (pipes s pi) \<and> pi_nread p = pi_nread (pipes s pi)"
  using assms
proof (induction bs arbitrary: i s)
  case Nil
  then show ?case
    by (intro exI [of _ "pipes s pi"]) (simp add: pipewrite_loop.simps calm_wakeup calm_release upd_pipe_def)
next
  case (Cons c bs)
  let ?l = "pipe_lock pi"
  have b: "user_byte pr s (addr + of_nat i) = Some c" "unat (addr + of_nat i) + 1 < 2 ^ 64"
    using Cons.prems(3) [unfolded user_bytes_def] by (force, simp)
  define u where "u = upd_pipe pi (pipe_put c) s"
  have nf: "length (pipe_list (pipes s pi)) < PIPESIZE" using Cons.prems(4) by simp
  have cu: "calm u" "user_space pr u" "user_byte pr u = user_byte pr s" "pipes u pi = pipe_put c (pipes s pi)" "procs u = procs s"
    using Cons.prems(1,2) by (simp_all add: u_def)
  have ub: "user_bytes pr u (addr + of_nat (Suc i)) bs"
  proof -
    have "user_byte pr s (addr + of_nat (Suc i) + of_nat j) = Some (bs ! j)" if "j < length bs" for j
      using Cons.prems(3) [unfolded user_bytes_def, THEN conjunct2, rule_format, of "Suc j"] that by (simp add: ac_simps)
    moreover have "unat (addr + of_nat (Suc i)) = Suc (unat (addr + of_nat i))"
      using unat_add_nat [of "addr + of_nat i" 1 1] b(2) by (simp add: ac_simps)
    ultimately show ?thesis using Cons.prems(3) cu(3) by (simp add: user_bytes_def)
  qed
  have ps: "pipe_list (pipes u pi) = pipe_list (pipes s pi) @ [c]" using pipeq.put [OF nf] cu(4) by simp
  obtain p where p: "pipewrite_loop (length bs) (Suc i) pi addr pr (acquired ?l u) =
      Ok (of_nat (Suc i + length bs)) (wake (ChanPipeRead pi) (upd_pipe pi (\<lambda>_. p) u))"
    "pipe_list p = pipe_list (pipes u pi) @ bs" "pi_readopen p" "pi_writeopen p = pi_writeopen (pipes u pi)" "pi_nread p = pi_nread (pipes u pi)"
    using Cons.IH [OF cu(1,2) ub] Cons.prems(4-6) ps cu by auto
  have ci: "copyin (p_pagetable (procs s pr)) [] (addr + of_nat i) 1 (acquired ?l s) = Ok (0, [c]) (acquired ?l s)"
    using copyin_byte [of pr "acquired ?l s" "addr + of_nat i" c] user_acquired [OF Cons.prems(1), of ?l pr] Cons.prems(2) b by simp
  have "pipewrite_loop (length (c # bs)) i pi addr pr (acquired ?l s) = pipewrite_loop (length bs) (Suc i) pi addr pr (acquired ?l u)"
    using ci pipe_not_full [OF nf] Cons.prems(5,6) by (simp add: pipewrite_loop.simps [of "Suc (length bs)"] u_def)
  moreover have "upd_pipe pi (\<lambda>_. p) u = upd_pipe pi (\<lambda>_. p) s" by (simp add: u_def upd_pipe_def)
  ultimately show ?case using p ps cu(4) by (intro exI [of _ p]) (simp add: pipe_put_def)
qed

section \<open>Reading\<close>

lemma piperead_copy_spec:
  fixes s :: "'a kfile_scheme" and pi :: uint64
  assumes "calm s" "user_space pr s" "user_room pr s (addr + of_nat i) k"
  defines "n \<equiv> min k (length (pipe_list (pipes s pi)))"
  shows "\<exists>m p. piperead_copy k i pi addr pr (acquired (pipe_lock pi) s) =
      Ok (of_nat (i + n)) (acquired (pipe_lock pi) ((upd_pipe pi (\<lambda>_. p) s)\<lparr>mem := m\<rparr>)) \<and>
    pipe_list p = drop n (pipe_list (pipes s pi)) \<and> pi_readopen p = pi_readopen (pipes s pi) \<and> pi_writeopen p = pi_writeopen (pipes s pi) \<and>
    user_bytes pr (s\<lparr>mem := m\<rparr>) (addr + of_nat i) (take n (pipe_list (pipes s pi))) \<and>
    (\<forall>va. \<not> (unat (addr + of_nat i) \<le> unat va \<and> unat va < unat (addr + of_nat i) + n) \<longrightarrow> user_byte pr (s\<lparr>mem := m\<rparr>) va = user_byte pr s va)"
  using assms(1-3) unfolding n_def
proof (induction k arbitrary: i s)
  case 0
  then show ?case
    by (intro exI [of _ "mem s"] exI [of _ "pipes s pi"]) (simp add: upd_pipe_def user_bytes_def user_room_def)
next
  case (Suc k)
  let ?l = "pipe_lock pi" and ?q = "pipe_list (pipes s pi)"
  show ?case
  proof (cases "?q = []")
    case True
    then have "pi_nread (pipes s pi) = pi_nwrite (pipes s pi)" by (simp add: pipe_list_empty)
    then show ?thesis using True Suc.prems(3)
      by (intro exI [of _ "mem s"] exI [of _ "pipes s pi"]) (simp add: upd_pipe_def user_bytes_def user_room_def)
  next
    case False
    then have ne: "pi_nread (pipes s pi) \<noteq> pi_nwrite (pipes s pi)" by (simp add: pipe_list_empty)
    obtain c p1 where g: "pipe_get (pipes s pi) = (c, p1)" by fastforce
    have q: "?q = c # pipe_list p1" using pipeq.get [OF False] g by simp
    have o1: "pi_readopen p1 = pi_readopen (pipes s pi)" "pi_writeopen p1 = pi_writeopen (pipes s pi)" using g by (auto simp: pipe_get_def)
    let ?v = "addr + of_nat i"
    have r: "user_byte pr s ?v \<noteq> None" "unat ?v + 1 < 2 ^ 64" using Suc.prems(3) [unfolded user_room_def] by (force, simp)
    let ?s1 = "upd_pipe pi (\<lambda>_. p1) s"
    have s1: "calm ?s1" "user_space pr ?s1" "user_byte pr ?s1 = user_byte pr s" using Suc.prems(1,2) by simp_all
    have "user_space pr (acquired ?l ?s1)" "user_byte pr (acquired ?l ?s1) ?v \<noteq> None"
      using user_acquired [OF s1(1), of ?l pr] s1(2,3) r(1) by simp_all
    then obtain m where m: "copyout (p_pagetable (procs (acquired ?l ?s1) pr)) ?v [c] (acquired ?l ?s1) = Ok 0 ((acquired ?l ?s1)\<lparr>mem := m\<rparr>)"
      "user_space pr ((acquired ?l ?s1)\<lparr>mem := m\<rparr>)" "user_byte pr ((acquired ?l ?s1)\<lparr>mem := m\<rparr>) = (user_byte pr (acquired ?l ?s1))(?v := Some c)"
      using copyout_byte [of pr "acquired ?l ?s1" ?v c] r(2) by blast
    define u where "u = ?s1\<lparr>mem := m\<rparr>"
    have au: "(acquired ?l ?s1)\<lparr>mem := m\<rparr> = acquired ?l u" by (simp add: u_def kmem_lock_upd)
    have cu: "calm u" "pipes u pi = p1" using s1(1) by (simp_all add: u_def)
    have bu: "user_byte pr u = (user_byte pr s)(?v := Some c)"
      using m(3) unfolding au using user_acquired(2) [OF cu(1), of ?l pr] user_acquired(2) [OF s1(1), of ?l pr] s1(3) by simp
    have su: "user_space pr u"
      using user_space_cong(1) [of u "acquired ?l u" pr] m(2) calm_simps [OF cu(1)] unfolding au by simp
    have v1: "addr + of_nat (Suc i) = ?v + 1" "unat (?v + 1) = Suc (unat ?v)" using unat_add_nat [of ?v 1 1] r(2) by (simp_all add: ac_simps)
    have rm: "user_room pr u (addr + of_nat (Suc i)) k"
    proof -
      have "user_byte pr s (?v + 1 + of_nat j) \<noteq> None" if "j < k" for j
        using Suc.prems(3) [unfolded user_room_def, THEN conjunct2, rule_format, of "Suc j"] that by (simp add: ac_simps)
      then show ?thesis unfolding v1(1) using Suc.prems(3) bu v1(2) by (auto simp: user_room_def)
    qed
    let ?n = "min k (length (pipe_list p1))"
    obtain m' p where p: "piperead_copy k (Suc i) pi addr pr (acquired ?l u) =
        Ok (of_nat (Suc i + ?n)) (acquired ?l ((upd_pipe pi (\<lambda>_. p) u)\<lparr>mem := m'\<rparr>))"
      "pipe_list p = drop ?n (pipe_list p1)" "pi_readopen p = pi_readopen p1" "pi_writeopen p = pi_writeopen p1"
      "user_bytes pr (u\<lparr>mem := m'\<rparr>) (?v + 1) (take ?n (pipe_list p1))"
      "\<forall>va. \<not> (unat (?v + 1) \<le> unat va \<and> unat va < unat (?v + 1) + ?n) \<longrightarrow> user_byte pr (u\<lparr>mem := m'\<rparr>) va = user_byte pr u va"
      using Suc.IH [OF cu(1) su rm] unfolding cu(2) v1(1) by blast
    have e: "(upd_pipe pi (\<lambda>_. p) u)\<lparr>mem := m'\<rparr> = (upd_pipe pi (\<lambda>_. p) s)\<lparr>mem := m'\<rparr>" by (simp add: u_def upd_pipe_def)
    have f: "user_byte pr (u\<lparr>mem := m'\<rparr>) = user_byte pr (s\<lparr>mem := m'\<rparr>)" by (simp add: user_byte_def [abs_def] u_def)
    have run: "piperead_copy (Suc k) i pi addr pr (acquired ?l s) = piperead_copy k (Suc i) pi addr pr (acquired ?l u)"
      using ne g m(1) au by simp
    have n: "min (Suc k) (length ?q) = Suc ?n" using q by simp
    have "user_bytes pr (s\<lparr>mem := m'\<rparr>) ?v (c # take ?n (pipe_list p1))"
      unfolding user_bytes_def
    proof (intro conjI allI impI)
      show "unat ?v + length (c # take ?n (pipe_list p1)) < 2 ^ 64" using p(5) v1(2) by (simp add: user_bytes_def)
      fix j assume j: "j < length (c # take ?n (pipe_list p1))"
      show "user_byte pr (s\<lparr>mem := m'\<rparr>) (?v + of_nat j) = Some ((c # take ?n (pipe_list p1)) ! j)"
      proof (cases j)
        case 0
        then show ?thesis using p(6) [rule_format, of ?v] v1(2) bu f by simp
      next
        case (Suc j')
        then have "user_byte pr (u\<lparr>mem := m'\<rparr>) (?v + 1 + of_nat j') = Some (take ?n (pipe_list p1) ! j')"
          using p(5) [unfolded user_bytes_def, THEN conjunct2, rule_format, of j'] j by simp
        then show ?thesis using Suc f by (simp add: ac_simps)
      qed
    qed
    moreover have "user_byte pr (s\<lparr>mem := m'\<rparr>) va = user_byte pr s va"
      if "\<not> (unat ?v \<le> unat va \<and> unat va < unat ?v + Suc ?n)" for va
    proof -
      have "va \<noteq> ?v" "\<not> (unat (?v + 1) \<le> unat va \<and> unat va < unat (?v + 1) + ?n)" using that v1(2) by auto
      then show ?thesis using p(6) bu f by (metis fun_upd_other)
    qed
    moreover have "pipe_list p = drop (Suc ?n) ?q" "take (Suc ?n) ?q = c # take ?n (pipe_list p1)" using p(2) q by simp_all
    ultimately show ?thesis unfolding n run p(1) e using p(3,4) o1
      by (intro exI [of _ m'] exI [of _ p]) simp
  qed
qed

section \<open>Properties\<close>

lemma nat_sint: "n < 2 ^ 31 \<Longrightarrow> nat (sint (of_nat n :: int32)) = n"
  by (simp add: signed_of_nat signed_take_bit_int_eq_self)

lemma pipewrite_spec:
  fixes s :: "'a kfile_scheme"
  assumes "calm s" "cpu_proc (mycpu s) = Some pr" "user_space pr s" "user_bytes pr s addr bs"
    "length (pipe_list (pipes s pi)) + length bs \<le> PIPESIZE" "pi_readopen (pipes s pi)" "p_killed (procs s pr) = 0"
  shows "\<exists>p. pipewrite pi addr (of_nat (length bs)) s = Ok (of_nat (length bs)) (wake (ChanPipeRead pi) (upd_pipe pi (\<lambda>_. p) s)) \<and>
    pipe_list p = pipe_list (pipes s pi) @ bs"
proof -
  have "length bs < 2 ^ 31" using assms(5) by (simp add: PIPESIZE_def)
  then show ?thesis
    using pipewrite_loop_spec [OF assms(1,3), of addr 0 bs] assms nat_sint [of "length bs"]
    by (auto simp: pipewrite_def calm_myproc calm_acquire)
qed

lemma piperead_spec:
  fixes s :: "'a kfile_scheme"
  assumes "calm s" "cpu_proc (mycpu s) = Some pr" "user_space pr s" "user_room pr s addr n" "n < 2 ^ 31"
    "pipe_list (pipes s pi) \<noteq> [] \<or> \<not> pi_writeopen (pipes s pi)"
  defines "k \<equiv> min n (length (pipe_list (pipes s pi)))"
  shows "\<exists>m p. piperead pi addr (of_nat n) s = Ok (of_nat k) (wake (ChanPipeWrite pi) ((upd_pipe pi (\<lambda>_. p) s)\<lparr>mem := m\<rparr>)) \<and>
    pipe_list p = drop k (pipe_list (pipes s pi)) \<and> user_bytes pr (s\<lparr>mem := m\<rparr>) addr (take k (pipe_list (pipes s pi)))"
proof -
  let ?l = "pipe_lock pi"
  obtain m p where p: "piperead_copy n 0 pi addr pr (acquired ?l s) = Ok (of_nat k) (acquired ?l ((upd_pipe pi (\<lambda>_. p) s)\<lparr>mem := m\<rparr>))"
    "pipe_list p = drop k (pipe_list (pipes s pi))" "user_bytes pr (s\<lparr>mem := m\<rparr>) addr (take k (pipe_list (pipes s pi)))"
    using piperead_copy_spec [OF assms(1,3), of addr 0 n pi] assms(4) unfolding k_def by auto
  have "\<not> (pi_nread (pipes s pi) = pi_nwrite (pipes s pi) \<and> pi_writeopen (pipes s pi))"
    using assms(6) pipe_list_empty [of "pipes s pi"] by auto
  then have "piperead pi addr (of_nat n) s = Ok (of_nat k) (wake (ChanPipeWrite pi) ((upd_pipe pi (\<lambda>_. p) s)\<lparr>mem := m\<rparr>))"
    using p(1) assms(1,2,5) nat_sint [of n]
    by (auto simp: piperead_def calm_myproc calm_acquire piperead_loop.simps [of _ pi addr pr "acquired ?l s"] calm_wakeup calm_release)
  then show ?thesis using p by blast
qed


definition demo_kfile :: kfile where
  "demo_kfile = kconsole.extend (kuart.extend (demo_uart (sconst 0)) (kconsole.fields (\<lambda>_. 0) 0 0 0))
     (kfile.fields (\<lambda>_. \<lparr>pi_data = \<lambda>_. 0, pi_nread = 0, pi_nwrite = 0, pi_readopen = True, pi_writeopen = True\<rparr>)
       (\<lambda>_. \<lparr>f_type = FD_NONE, f_ref = 0, f_readable = False, f_writable = False, f_pipe = 0, f_ip = None, f_off = 0, f_major = 0\<rparr>))"

lemma demo_kfile_views: "calm demo_kfile" "cpu_proc (mycpu demo_kfile) = Some 1"
  "pipes demo_kfile pi = \<lparr>pi_data = \<lambda>_. 0, pi_nread = 0, pi_nwrite = 0, pi_readopen = True, pi_writeopen = True\<rparr>"
  "procs demo_kfile = procs (demo_uart (sconst 0))"
proof -
  have "calm demo_kfile = calm (demo_uart (sconst 0))" "mycpu demo_kfile = mycpu (demo_uart (sconst 0))"
    by (simp_all add: demo_kfile_def kconsole.defs kuart.defs kfile.defs calm_def machine_defs)
  then show "calm demo_kfile" "cpu_proc (mycpu demo_kfile) = Some 1" by (simp_all add: demo_uart_views)
qed (simp_all add: demo_kfile_def kconsole.defs kuart.defs kfile.defs)

lemma demo_procs: "p_killed (procs (demo_uart lsr) 1) = 0"
proof -
  have "procs (demo_uart lsr) = procs (idle_fs demo_disk (\<lambda>_. bare_inode))" by (simp add: demo_uart_def kfs.defs kuart.defs)
  moreover have "procs (idle_fs demo_disk (\<lambda>_. bare_inode)) = procs (boot_bio demo_disk)"
    by (simp add: idle_fs_def klog.defs kfs.defs boot_klog_def kbio.defs)
  moreover have "procs (boot_bio demo_disk) = procs (two_procs 1 False)"
  proof -
    have "procs (binit_loop n s) = procs s" for n and s :: kbio
      by (induction n arbitrary: s) (simp_all add: Let_def upd_buf_def initsleeplock_def initlock_def)
    then show ?thesis by (simp add: boot_bio_def binit_def Let_def upd_buf_def initlock_def ksleep.defs kbio.defs)
  qed
  ultimately show ?thesis by (simp add: two_procs_simps bare_proc_def)
qed


end
