(* ===== verification/File_Write.thy ===== *)
theory File_Write
  imports File Fs_Content Pipe_Fifo
begin

text \<open>
  Writing to a file through the layers: one iteration of \<open>filewrite\<close> never needs more blocks of the log than
  \<open>begin_op\<close> reserved for it.
\<close>

section \<open>The blocks of one write\<close>

definition write_set :: "nat \<Rightarrow> nat \<Rightarrow> nat \<Rightarrow> 'a kfs_scheme \<Rightarrow> uint set" where
  "write_set ip off len s =
    (let lo = off div BSIZE; c = nspan off len; fresh = take (wneed s ip lo c) (free_list s) in
     insert (IBLOCK (i_inum (itable s ip)) (sb s))
      (iaddr s ip ` {k \<in> {lo..<lo + c}. iaddr s ip k \<noteq> 0} \<union> (if NDIRECT < lo + c \<and> ind s ip \<noteq> 0 then {ind s ip} else {}) \<union>
       of_nat ` set fresh \<union> (\<lambda>a. BBLOCK (of_nat a) (sb s)) ` set fresh))"

lemma write_set_fits:
  assumes "wneed s ip (unat off div BSIZE) (nspan (unat off) (length bs)) \<le> length (free_list s)"
  shows "write_fits (write_set ip (unat off) (length bs) s) ip off bs s"
  using assms unfolding write_fits_def write_set_def room_def Let_def by auto

lemma write_set_finite: "finite (write_set ip off len s)"
  by (simp add: write_set_def Let_def)

lemma nspan_max:
  assumes "len \<le> 3 * BSIZE"
  shows "nspan off len \<le> 4" "nspan off len = 4 \<Longrightarrow> off mod BSIZE \<noteq> 0"
proof -
  have b: "BSIZE = 1024" by (simp add: BSIZE_def)
  have o: "off = off div BSIZE * BSIZE + off mod BSIZE" "off mod BSIZE < BSIZE" by (simp_all add: b)
  have "(off + len - 1) div BSIZE \<le> off div BSIZE + 3"
  proof -
    have "off + len - 1 < (off div BSIZE + 4) * BSIZE" using o assms b unfolding add_mult_distrib by linarith
    then have "(off + len - 1) div BSIZE < off div BSIZE + 4" by (rule less_mult_imp_div_less)
    then show ?thesis by simp
  qed
  then show "nspan off len \<le> 4" by (auto simp: nspan_def le_diff_conv)
  show "off mod BSIZE \<noteq> 0" if "nspan off len = 4"
  proof
    assume z: "off mod BSIZE = 0"
    have p: "0 < len" using that by (auto simp: nspan_def split: if_splits)
    then have "off + len - 1 < (off div BSIZE + 3) * BSIZE" using o z assms b unfolding add_mult_distrib by linarith
    then have "(off + len - 1) div BSIZE < off div BSIZE + 3" by (rule less_mult_imp_div_less)
    moreover have "x - y + 1 \<noteq> 4" if "x < y + 3" for x y :: nat using that by linarith
    ultimately show False using that p unfolding nspan_def by (metis less_irrefl)
  qed
qed

lemma write_set_card:
  fixes s :: "'a kfs_scheme"
  assumes "filled s ip" "off \<le> fsize s ip" "off + len \<le> MAXFILE * BSIZE" "len \<le> write_max"
  shows "card (write_set ip off len s) \<le> MAXOPBLOCKS"
proof -
  let ?lo = "off div BSIZE" and ?c = "nspan off len"
  define A where "A = {k \<in> {?lo..<?lo + ?c}. iaddr s ip k \<noteq> 0}"
  define B where "B = {k \<in> {?lo..<?lo + ?c}. iaddr s ip k = 0}"
  define fresh where "fresh = take (wneed s ip ?lo ?c) (free_list s)"
  define I where "I = (if NDIRECT < ?lo + ?c \<and> ind s ip \<noteq> 0 then {ind s ip} else {})"
  have fin: "finite A" "finite B" "finite I" by (simp_all add: A_def B_def I_def)
  have len: "len \<le> 3 * BSIZE" using assms(4) by (simp add: write_max_def MAXOPBLOCKS_def BSIZE_def)
  note c = nspan_max [OF len, of off]
  have "A \<union> B = {?lo..<?lo + ?c}" "A \<inter> B = {}" by (auto simp: A_def B_def)
  then have ab: "card A + card B = ?c" using card_Un_disjoint [OF fin(1,2)] by simp
  have b3: "card B \<le> 3"
  proof (cases "?c = 4")
    case True
    then have z: "off mod BSIZE \<noteq> 0" using c(2) by simp
    then have "?lo * BSIZE < off" using div_mult_mod_eq [of off BSIZE] by linarith
    then have "?lo * BSIZE < fsize s ip" using assms(2) by simp
    moreover have "?lo < MAXFILE" using nspan_bound [OF assms(3), of ?lo] True by simp
    ultimately have "?lo \<in> A" using assms(1) True by (simp add: filled_def A_def)
    then have "0 < card A" using fin(1) card_gt_0_iff by blast
    then show ?thesis using ab True by simp
  next
    case False
    then show ?thesis using ab c(1) by simp
  qed
  have wn: "wneed s ip ?lo ?c = card B + of_bool (ind s ip = 0 \<and> 0 < ?c \<and> NDIRECT < ?lo + ?c)" by (simp add: wneed_def B_def)
  have cI: "card I = of_bool (NDIRECT < ?lo + ?c \<and> ind s ip \<noteq> 0)" by (simp add: I_def)
  have fr: "card (set fresh) \<le> wneed s ip ?lo ?c" using card_length [of fresh] by (simp add: fresh_def)
  have "card (write_set ip off len s) \<le> Suc (card (iaddr s ip ` A \<union> I \<union> of_nat ` set fresh \<union> (\<lambda>a. BBLOCK (of_nat a) (sb s)) ` set fresh))"
    unfolding write_set_def Let_def A_def [symmetric] I_def [symmetric] fresh_def [symmetric] by (rule card_insert_le_m1) simp_all
  also have "\<dots> \<le> Suc (card A + card I + card (set fresh) + card (set fresh))"
    by (intro Suc_leI le_imp_less_Suc order_trans [OF card_Un_le] add_mono card_image_le) (simp_all add: fin)
  also have "\<dots> \<le> 10"
  proof -
    obtain j :: nat where j: "wneed s ip ?lo ?c = card B + j" "card I + j \<le> 1" using wn cI by (auto simp: of_bool_def split: if_splits)
    then show ?thesis using ab b3 c(1) fr by linarith
  qed
  finally show ?thesis by (simp add: MAXOPBLOCKS_def)
qed

section \<open>What the file is, up to the log\<close>

text \<open>The file system does not read the blocks of the log.\<close>

lemma fs_same:
  fixes s :: "'a kfs_scheme" and t :: "'b kfs_scheme"
  assumes "fs_ok s" "file_ok s ip" "\<And>c. c \<notin> L \<Longrightarrow> blk t c = blk s c" "\<And>c. length (blk t c) = BSIZE" "sb t = sb s" "itable t = itable s"
    "\<And>c. c \<in> L \<Longrightarrow> data_block s c \<and> c \<notin> fblocks s ip"
  shows "fs_ok t" "file_ok t ip" "\<And>m. m < MAXFILE \<Longrightarrow> iaddr t ip m = iaddr s ip m" "\<And>m. m < MAXFILE \<Longrightarrow> fblock t ip m = fblock s ip m"
    "ind t ip = ind s ip" "free_list t = free_list s" "data_block t c = data_block s c" "fblocks t ip = fblocks s ip" "synced t ip = synced s ip"
proof -
  have me: "meta t = meta s" using assms(5) by (simp add: meta_def)
  have mb: "blk t c = blk s c" if "c \<in> meta s" for c using assms(3,7) [of c] that by (auto simp: data_block_def)
  have us: "used t b = used s b" if "b < nblk s" for b using mb [OF metaI(1) [OF that]] assms(5) by (simp add: used_def)
  have nb: "nblk t = nblk s" using assms(5) by simp
  have fb: "blk t c = blk s c" if "c \<in> fblocks s ip" for c using assms(3,7) [of c] that by auto
  show "free_list t = free_list s" unfolding free_list_def nb using us by (intro filter_cong) auto
  show db: "data_block t c = data_block s c" for c using us me assms(5) by (auto simp: data_block_def)
  have "map_ok t" using assms(1,4) us nb assms(5) unfolding fs_ok_def map_ok_def by metis
  moreover have "used t 0" "\<forall>c \<in> meta s. unat c < nblk s \<and> used t (unat c)" using assms(1) us by (auto simp: fs_ok_def)
  ultimately show "fs_ok t" using assms(1,5) me by (simp add: fs_ok_def)
  show i: "ind t ip = ind s ip" using assms(6) by (simp add: ind_def)
  have "ind s ip \<noteq> 0 \<Longrightarrow> blk t (ind s ip) = blk s (ind s ip)" by (rule fb) (simp add: fblocks_def)
  then have ia: "iaddr t ip m = iaddr s ip m" for m using i assms(6) by (simp add: iaddr_def)
  then show "\<And>m. m < MAXFILE \<Longrightarrow> iaddr t ip m = iaddr s ip m" by simp
  show ff: "fblocks t ip = fblocks s ip" using ia i by (simp add: fblocks_def)
  show "fblock t ip m = fblock s ip m" if "m < MAXFILE" for m
  proof -
    have "iaddr s ip m \<noteq> 0 \<Longrightarrow> blk t (iaddr s ip m) = blk s (iaddr s ip m)" by (rule fb) (use that in \<open>simp add: fblocks_def\<close>)
    then show ?thesis using ia by (simp add: fblock_def)
  qed
  show "file_ok t ip" using assms(2,5,6) ia i ff db by (simp add: file_ok_def)
  have "i_inum (itable s ip) < sb_ninodes (sb s)" using assms(2) by (simp add: file_ok_def)
  from mb [OF metaI(2) [OF this]] show "synced t ip = synced s ip" using assms(5,6) by (simp add: synced_def)
qed

lemma contents_same:
  assumes "\<And>m. m < MAXFILE \<Longrightarrow> fblock t ip m = fblock s ip m" "itable t ip = itable s ip" "file_ok s ip"
  shows "contents t ip = contents s ip"
proof -
  have "fbyte t ip i = fbyte s ip i" if "i < fsize s ip" for i
    using assms(1) [of "i div BSIZE"] assms(3) that by (simp add: fbyte_def file_ok_def less_mult_imp_div_less)
  then show ?thesis using assms(2) by (simp add: contents_def)
qed

lemma filled_same:
  assumes "\<And>m. m < MAXFILE \<Longrightarrow> iaddr t ip m = iaddr s ip m" "itable t ip = itable s ip"
  shows "filled t ip = filled s ip"
  using assms by (auto simp: filled_def)

lemma space_same:
  assumes "\<And>m. m < MAXFILE \<Longrightarrow> iaddr t ip m = iaddr s ip m" "ind t ip = ind s ip" "free_list t = free_list s" "K \<le> MAXFILE"
  shows "space ip K t = space ip K s"
  using wneed_cong [OF assms(1,2), of 0 K] assms(3,4) by (simp add: space_def)

text \<open>The memory of the process is not touched.\<close>

definition same_user :: "nat \<Rightarrow> 'a kproc_scheme \<Rightarrow> 'a kproc_scheme \<Rightarrow> bool" where
  "same_user p s t \<longleftrightarrow> mem t = mem s \<and> freelist t = freelist s \<and> kend t = kend s \<and> mycpu t = mycpu s \<and> procs t p = procs s p"

lemma same_user_trans: "same_user p s t \<Longrightarrow> same_user p t u \<Longrightarrow> same_user p s u"
  by (simp add: same_user_def)

lemma same_user_source:
  assumes "user_source p src bs s" "same_user p s t" "calm t"
  shows "user_source p src bs t"
proof -
  have "uvm_inv pt n ps t" if "uvm_inv pt n ps s" for pt n ps
    using that assms(2) calm_simps [OF assms(3)]
    by (simp add: uvm_inv_def pt_inv_def kmem_ready_def kmem_inv_def page_ok_def unmap_pre_def same_user_def)
  then show ?thesis using assms(1,2) unfolding user_source_def same_user_def by fastforce
qed

lemma op_frame_views:
  fixes s t :: "'a kfile_scheme"
  assumes "op_frame s t"
  shows "sb t = sb s" "itable t = itable s" "ftable t = ftable s" "log_start t = log_start s" "log_size t = log_size s"
    "sleeplocks t (inode_lock ip) = sleeplocks s (inode_lock ip)" "cpu_proc (mycpu s) = Some p \<Longrightarrow> same_user p s t"
  using assms by (auto simp: op_frame_def same_user_def procs_same_def machine_defs)

lemma fs_frame_file:
  fixes s t :: "'a kfile_scheme"
  assumes "fs_frame s t"
  shows "ftable t = ftable s" "log_committing t = log_committing s" "cpu_proc (mycpu s) = Some p \<Longrightarrow> same_user p s t"
proof -
  obtain bf sl pr n bl where e: "t = s\<lparr>itable := itable t, bufs := bf, sleeplocks := sl, procs := pr, lh_n := n, lh_block := bl\<rparr>"
    using assms unfolding fs_frame_def tx_frame_def by blast
  show "ftable t = ftable s" "log_committing t = log_committing s" using arg_cong [OF e, of ftable] arg_cong [OF e, of log_committing] by simp_all
  have "freelist t = freelist s" "kend t = kend s" using arg_cong [OF e, of freelist] arg_cong [OF e, of kend] by simp_all
  then show "cpu_proc (mycpu s) = Some p \<Longrightarrow> same_user p s t" using fs_frame_views [OF assms] by (simp add: same_user_def)
qed

lemma upd_file_simps [simp]:
  fixes s :: "'a kfile_scheme"
  shows "tx p n H (upd_file f g s) = tx p n H s" "txw p W n H (upd_file f g s) = txw p W n H s" "blk (upd_file f g s) = blk s"
    "logged (upd_file f g s) = logged s" "sb (upd_file f g s) = sb s" "itable (upd_file f g s) = itable s" "disk (upd_file f g s) = disk s"
    "ftable (upd_file f g s) = (ftable s)(f := g (ftable s f))" "sleeplocks (upd_file f g s) = sleeplocks s" "mycpu (upd_file f g s) = mycpu s"
    "procs (upd_file f g s) = procs s" "log_start (upd_file f g s) = log_start s" "log_size (upd_file f g s) = log_size s"
    "log_outstanding (upd_file f g s) = log_outstanding s" "log_committing (upd_file f g s) = log_committing s" "same_user p s (upd_file f g s)"
  by (rule tx_cong; simp add: upd_file_def calm_def machine_defs)+ (simp_all add: upd_file_def disk_def same_user_def machine_defs)

section \<open>One iteration\<close>

text \<open>Between two transactions: the file \<open>f\<close> is the inode \<open>ip\<close>, which is in memory and not locked.\<close>

definition file_inv :: "nat \<Rightarrow> nat \<Rightarrow> nat \<Rightarrow> 'a kfile_scheme \<Rightarrow> bool" where
  "file_inv p f ip s \<longleftrightarrow> log_idle p (MAXOPBLOCKS + 2) s \<and> fs_ok s \<and> file_ok s ip \<and> filled s ip \<and> f_ip (ftable s f) = Some ip \<and>
     \<not> sl_locked (sleeplocks s (inode_lock ip)) \<and> 1 \<le> sint (i_ref (itable s ip)) \<and> i_valid (itable s ip) \<and>
     (\<forall>c \<in> log_region s. data_block s c \<and> c \<notin> fblocks s ip)"

lemma write_set_sub: "file_ok s ip \<Longrightarrow> off + len \<le> MAXFILE * BSIZE \<Longrightarrow> c \<in> write_set ip off len s \<Longrightarrow> c \<in> meta s \<or> c \<in> fblocks s ip \<or> \<not> data_block s c"
proof -
  assume a: "file_ok s ip" "off + len \<le> MAXFILE * BSIZE" "c \<in> write_set ip off len s"
  define fresh where "fresh = take (wneed s ip (off div BSIZE) (nspan off len)) (free_list s)"
  consider "c = IBLOCK (i_inum (itable s ip)) (sb s)" | k where "k < off div BSIZE + nspan off len" "off div BSIZE \<le> k" "c = iaddr s ip k" "iaddr s ip k \<noteq> 0"
    | "c = ind s ip" "ind s ip \<noteq> 0" | b where "b \<in> set fresh" "c = of_nat b" | b where "b \<in> set fresh" "c = BBLOCK (of_nat b) (sb s)"
    using a(3) by (auto simp: write_set_def Let_def fresh_def [symmetric] split: if_splits)
  then show ?thesis
  proof cases
    case 1
    then show ?thesis using a(1) metaI(2) by (auto simp: file_ok_def)
  next
    case (2 k)
    then have "k < MAXFILE" using nspan_bound [OF a(2)] by simp
    then show ?thesis using 2 by (auto simp: fblocks_def)
  next
    case 3
    then show ?thesis by (simp add: fblocks_def)
  next
    case (4 b)
    then have b: "b \<in> set (free_list s)" using in_set_takeD fresh_def by metis
    then have "unat (of_nat b :: uint) = b" using unsigned_less [of "sb_size (sb s)", where ?'a = nat] by (simp add: free_list_def unat_of_nat)
    then show ?thesis using b 4 by (simp add: data_block_def free_list_def)
  next
    case (5 b)
    then have "b \<in> set (free_list s)" using in_set_takeD fresh_def by metis
    then show ?thesis using 5 metaI(1) [of b s] by (simp add: free_list_def)
  qed
qed

text \<open>The part of the iteration inside the transaction.\<close>

lemma chunk_write:
  fixes s :: "'a kfile_scheme"
  assumes "tx p (MAXOPBLOCKS + 2) {} s" "logged s = {}" "fs_ok s" "file_ok s ip" "filled s ip" "file_source p src bs s" "length bs \<le> write_max"
    "unat off \<le> fsize s ip" "unat off + length bs \<le> K * BSIZE" "K \<le> MAXFILE" "space ip K s"
  shows "\<exists>t. writei ip src off (of_nat (length bs)) s = Ok (of_nat (length bs)) t \<and> tx p 2 {} t \<and> logged t \<subseteq> write_set ip (unat off) (length bs) s \<and>
    contents t ip = take (unat off) (contents s ip) @ bs @ drop (unat off + length bs) (contents s ip) \<and> fs_ok t \<and> file_ok t ip \<and> filled t ip \<and>
    others_same ip s t \<and> fs_frame s t \<and> space ip K t \<and> synced t ip \<and>
    (\<exists>a z. itable t = (itable s)(ip := (itable s ip)\<lparr>i_addrs := a, i_size := z\<rparr>))"
proof -
  let ?W = "write_set ip (unat off) (length bs) s"
  have "K * BSIZE \<le> MAXFILE * BSIZE" using assms(10) by simp
  then have max: "unat off + length bs \<le> MAXFILE * BSIZE" using assms(9) by linarith
  have sz: "fsize s ip \<le> MAXFILE * BSIZE" using assms(4) by (simp add: file_ok_def)
  have lo: "unat off div BSIZE + nspan (unat off) (length bs) \<le> K"
  proof (cases "nspan (unat off) (length bs) = 0")
    case True
    then have "bs = []" by (auto simp: nspan_def split: if_splits)
    show ?thesis
    proof (cases "unat off div BSIZE \<le> K")
      case False
      then have "K * BSIZE < unat off div BSIZE * BSIZE" by (simp add: BSIZE_def)
      also have "\<dots> \<le> unat off" by simp
      finally show ?thesis using assms(9) by simp
    qed (use True in simp)
  next
    case False
    then have "unat off div BSIZE + nspan (unat off) (length bs) - 1 < K"
      using nspan_bound [OF assms(9), of "unat off div BSIZE + nspan (unat off) (length bs) - 1"] by simp
    then show ?thesis by simp
  qed
  have need: "wneed s ip (unat off div BSIZE) (nspan (unat off) (length bs)) \<le> length (free_list s)"
    using wneed_mono [OF lo, of s ip] assms(11) by (simp add: space_def)
  have card: "card ?W \<le> MAXOPBLOCKS" by (rule write_set_card [OF assms(5,8) max assms(7)])
  have tw: "txw p ?W (Suc (Suc 0)) {} s" using assms(1,2) card write_set_finite tx_weaken [OF assms(1), of "card ?W + 2"] by (simp add: txw_def numeral_2_eq_2)
  obtain t a where t: "writei ip src off (of_nat (length bs)) s = Ok (of_nat (length bs)) t" "txw p ?W (Suc (Suc 0)) {} t" "fs_ok t" "file_ok t ip"
    "itable t = (itable s)(ip := (itable s ip)\<lparr>i_addrs := a, i_size := of_nat (max (fsize s ip) (unat off + length bs))\<rparr>)" "fs_frame s t" "others_same ip s t"
    "\<forall>i < MAXFILE * BSIZE. fbyte t ip i = (if unat off \<le> i \<and> i < unat off + length bs then bs ! (i - unat off) else fbyte s ip i)"
    "\<forall>k < MAXFILE. iaddr s ip k \<noteq> 0 \<longrightarrow> iaddr t ip k \<noteq> 0" "\<forall>i. unat off \<le> i \<and> i < unat off + length bs \<longrightarrow> iaddr t ip (i div BSIZE) \<noteq> 0"
    "synced t ip" "\<forall>K \<le> MAXFILE. unat off + length bs \<le> K * BSIZE \<and> space ip K s \<longrightarrow> space ip K t"
    using any_io.writei_spec [OF tw assms(3,4,6,8) max] write_set_fits [OF need] unfolding write_fits_def Let_def by auto
  have fs: "fsize t ip = max (fsize s ip) (unat off + length bs)" using t(5) sz max by (simp add: unat_of_nat MAXFILE_eq)
  have c: "contents t ip = take (unat off) (contents s ip) @ bs @ drop (unat off + length bs) (contents s ip)"
    by (rule contents_write [OF t(8) fs assms(8)]) (use fs sz max in simp)
  have fl: "filled t ip" by (rule filled_write [OF assms(5,8) fs t(9,10)])
  have "logged t \<subseteq> ?W" "tx p 2 {} t" using t(2) tx_weaken [of p "card (?W - logged t) + 2" "{}" t 2] by (simp_all add: txw_def numeral_2_eq_2)
  then show ?thesis using t c fl assms(9-11) by blast
qed

lemma sl_same_user:
  fixes s :: "'a kfile_scheme"
  shows "same_user p s (sl_take l pid s)" "cpu_proc (mycpu s) = Some p \<Longrightarrow> same_user p s (sl_drop l s)"
    "ftable (sl_take l pid s) = ftable s" "ftable (sl_drop l s) = ftable s" "disk (sl_take l pid s) = disk s" "disk (sl_drop l s) = disk s"
    "log_start (sl_take l pid s) = log_start s" "log_start (sl_drop l s) = log_start s" "log_size (sl_take l pid s) = log_size s"
    "log_size (sl_drop l s) = log_size s" "log_outstanding (sl_take l pid s) = log_outstanding s" "log_outstanding (sl_drop l s) = log_outstanding s"
    "log_committing (sl_take l pid s) = log_committing s" "log_committing (sl_drop l s) = log_committing s"
    "sl_locked (sleeplocks (sl_take l pid s) l)" "sl_pid (sleeplocks (sl_take l pid s) l) = pid" "\<not> sl_locked (sleeplocks (sl_drop l s) l)"
    "procs (sl_take l pid s) = procs s"
  by (simp_all add: sl_take_def sl_drop_def wake_def woken_def same_user_def disk_def machine_defs)

definition file_step :: "nat \<Rightarrow> nat \<Rightarrow> nat \<Rightarrow> nat \<Rightarrow> uint \<Rightarrow> uchar list \<Rightarrow> 'a kfile_scheme \<Rightarrow> 'a kfile_scheme \<Rightarrow> bool" where
  "file_step p f ip K off bs s t \<longleftrightarrow> file_inv p f ip t \<and> space ip K t \<and> synced t ip \<and> same_user p s t \<and>
     contents t ip = take (unat off) (contents s ip) @ bs @ drop (unat off + length bs) (contents s ip) \<and>
     ftable t = (ftable s)(f := (ftable s f)\<lparr>f_off := off + of_nat (length bs)\<rparr>) \<and>
     (\<forall>c. c \<notin> log_region t \<longrightarrow> disk t c = blk t c)"

lemma write_chunk:
  fixes s :: "'a kfile_scheme"
  assumes inv: "file_inv p f ip s" and src: "user_source p src bs s" and len: "length bs \<le> write_max"
    and off: "f_off (ftable s f) = off" "unat off \<le> fsize s ip" "unat off + length bs \<le> K * BSIZE" and K: "K \<le> MAXFILE" "space ip K s"
  shows "\<exists>s1 s2 s3 s5 t. begin_op s = Ok () s1 \<and> ilock (Some ip) s1 = Ok () s2 \<and>
    writei ip src off (of_nat (length bs)) s2 = Ok (of_nat (length bs)) s3 \<and>
    iunlock (Some ip) (upd_file f (\<lambda>x. x\<lparr>f_off := f_off x + of_nat (length bs)\<rparr>) s3) = Ok () s5 \<and> end_op s5 = Ok () t \<and>
    ftable s1 = ftable s \<and> ftable s2 = ftable s \<and> ftable s3 = ftable s \<and> f_ip (ftable s5 f) = Some ip \<and> file_step p f ip K off bs s t"
proof -
  note I = inv [unfolded file_inv_def]
  have idle: "log_idle p (MAXOPBLOCKS + 2) s" using I by blast
  define s1 where "s1 = s\<lparr>log_outstanding := 1\<rparr>"
  note b = begin_op_spec [OF idle, folded s1_def]
  have b1: "blk s1 = blk s" unfolding s1_def by (rule bio_views_cong) (simp_all add: calm_def machine_defs)
  have v1: "ftable s1 = ftable s" "sb s1 = sb s" "itable s1 = itable s" "sleeplocks s1 = sleeplocks s" "procs s1 = procs s" "same_user p s s1"
    "log_outstanding s1 = 1" "log_committing s1 = log_committing s" "log_start s1 = log_start s" "log_size s1 = log_size s" "disk s1 = disk s"
    by (simp_all add: s1_def same_user_def disk_def machine_defs)
  note c1 = tx_calm(1) [OF b(2)]
  define s2 where "s2 = sl_take (inode_lock ip) (p_pid (procs s1 p)) s1"
  have l2: "ilock (Some ip) s1 = Ok () s2" unfolding s2_def by (rule ilock_valid) (use c1 I v1 in simp_all)
  have u2: "same_user p s1 s2" "disk s2 = disk s1" "log_start s2 = log_start s1" "log_size s2 = log_size s1" "log_outstanding s2 = log_outstanding s1"
    "log_committing s2 = log_committing s1" "sl_locked (sleeplocks s2 (inode_lock ip))" "sl_pid (sleeplocks s2 (inode_lock ip)) = p_pid (procs s1 p)"
    "procs s2 = procs s1" "ftable s2 = ftable s1"
    by (simp_all add: s2_def sl_same_user)
  have v2: "tx p (MAXOPBLOCKS + 2) {} s2" "logged s2 = {}" "blk s2 = blk s" "sb s2 = sb s" "itable s2 = itable s" "ftable s2 = ftable s"
    using b(2,4) b1 v1 u2 by (simp_all add: s2_def)
  have sz: "length (blk s c) = BSIZE" for c using I blk_size by blast
  have fok: "fs_ok s" "file_ok s ip" using I by blast+
  note e2 = fs_same [OF fok, of "{}" s2, simplified v2(3-5), OF refl sz refl refl]
  have f2: "filled s2 ip" "contents s2 ip = contents s ip" "space ip K s2" "fsize s2 ip = fsize s ip"
    using filled_same [of s2 ip s] contents_same [of s2 ip s] space_same [of s2 ip s K] e2 I v2(5) K by auto
  have us: "user_source p src bs s2"
    by (rule same_user_source [OF src same_user_trans [OF v1(6) u2(1)]]) (use tx_calm(1) [OF v2(1)] in simp)
  obtain s3 a z where w: "writei ip src off (of_nat (length bs)) s2 = Ok (of_nat (length bs)) s3" "tx p 2 {} s3"
    "logged s3 \<subseteq> write_set ip (unat off) (length bs) s2" "contents s3 ip = take (unat off) (contents s2 ip) @ bs @ drop (unat off + length bs) (contents s2 ip)"
    "fs_ok s3" "file_ok s3 ip" "filled s3 ip" "others_same ip s2 s3" "fs_frame s2 s3" "space ip K s3" "synced s3 ip"
    "itable s3 = (itable s2)(ip := (itable s2 ip)\<lparr>i_addrs := a, i_size := z\<rparr>)"
    using chunk_write [OF v2(1,2) e2(1,2) f2(1) _ len _ off(3) K(1) f2(3), where src = src] us off(2) f2(4) by (auto simp: file_source_def)
  note v3 = fs_frame_views [OF w(9)] fs_frame_file [OF w(9)]
  define s4 where "s4 = upd_file f (\<lambda>x. x\<lparr>f_off := f_off x + of_nat (length bs)\<rparr>) s3"
  have t4: "tx p 2 {} s4" "sleeplocks s4 (inode_lock ip) = sleeplocks s2 (inode_lock ip)" "p_pid (procs s4 p) = p_pid (procs s1 p)"
    "itable s4 ip = (itable s ip)\<lparr>i_addrs := a, i_size := z\<rparr>" using w(2,12) v3(4,5) v2(5) u2(9) by (simp_all add: s4_def)
  note c4 = tx_calm(1) [OF t4(1)]
  define s5 where "s5 = sl_drop (inode_lock ip) s4"
  have l5: "iunlock (Some ip) s4 = Ok () s5"
    using c4 t4 u2(7,8) I by (simp add: iunlock_def holdingsleep_eq releasesleep_eq s5_def)
  have u5: "same_user p s4 s5" "disk s5 = disk s4" "log_start s5 = log_start s4" "log_size s5 = log_size s4" "log_outstanding s5 = log_outstanding s4"
    "log_committing s5 = log_committing s4" "\<not> sl_locked (sleeplocks s5 (inode_lock ip))" "ftable s5 = ftable s4"
    using c4 by (simp_all add: s5_def sl_same_user)
  have v5: "tx p 2 {} s5" "logged s5 = logged s3" "blk s5 = blk s3" "sb s5 = sb s3" "itable s5 = itable s3" "ftable s5 = ftable s4"
    using t4(1) u5 by (simp_all add: s5_def s4_def)
  have st: "log_start s5 = log_start s" "log_size s5 = log_size s" "log_outstanding s5 = 1" "log_committing s5 = log_committing s" "disk s5 = disk s"
    using u5(2-6) u2(2-6) v3 v1 by (simp_all add: s4_def)
  have reg: "log_region s5 = log_region s" using st(1,2) by (simp add: log_region_def log_blk_def [abs_def])
  have sz3: "length (blk s3 c) = BSIZE" for c using w(5) blk_size by blast
  have apart: "data_block s3 c \<and> c \<notin> fblocks s3 ip" if "c \<in> log_region s" for c
  proof -
    have "data_block s2 c \<and> c \<notin> fblocks s2 ip" using that I e2(7,8) by blast
    then show ?thesis using w(8) by (auto simp: others_same_def)
  qed
  have "K * BSIZE \<le> MAXFILE * BSIZE" using K(1) by simp
  then have mx: "unat off + length bs \<le> MAXFILE * BSIZE" using off(3) by linarith
  have "c \<notin> logged s3" if "c \<in> log_region s" for c
  proof
    assume "c \<in> logged s3"
    then have "c \<in> meta s2 \<or> c \<in> fblocks s2 ip \<or> \<not> data_block s2 c" using write_set_sub [OF e2(2) mx] w(3) by blast
    then show False using that I e2(7,8) by (auto simp: data_block_def)
  qed
  then have dis: "logged s5 \<inter> log_region s5 = {}" using v5(2) reg by auto
  have nb: "MAXOPBLOCKS + 2 < NBUF" "int (MAXOPBLOCKS + 2) < sint (log_size s5 - 1)" "length (disk s5 (log_start s5)) = BSIZE"
    "get32 (disk s5 (log_start s5)) 0 = 0" "\<not> log_committing s5" using idle st by (simp_all add: log_idle_def)
  obtain t where t: "end_op s5 = Ok () t" "log_idle p (MAXOPBLOCKS + 2) t" "op_frame s5 t" "\<forall>c. c \<notin> log_region s5 \<longrightarrow> disk t c = blk s5 c \<and> blk t c = blk s5 c"
    "(\<forall>c. length (blk s5 c) = BSIZE) \<longrightarrow> (\<forall>c. length (blk t c) = BSIZE)"
    using end_op_spec [OF v5(1) dis nb(3,4) st(3) nb(5) nb(1,2)] by blast
  note vt = op_frame_views [OF t(3)]
  have lt: "length (blk t c) = BSIZE" for c using t(5) sz3 v5(3) by simp
  have kt: "sb t = sb s3" "itable t = itable s3" "ftable t = ftable s4" using vt(1-3) v5(4-6) by simp_all
  have bt: "blk t c = blk s3 c" if "c \<notin> log_region s" for c using t(4) that reg v5(3) by simp
  note et = fs_same [OF w(5,6) bt lt kt(1,2) apart]
  have ft: "filled t ip" "contents t ip = contents s3 ip" "space ip K t"
    using filled_same [of t ip s3] contents_same [of t ip s3] space_same [of t ip s3 K] et kt(2) w(6,7,10) K(1) by auto
  have rt: "log_region t = log_region s" using vt(4,5) st(1,2) by (simp add: log_region_def log_blk_def [abs_def])
  have fi: "f_ip (ftable s5 f) = Some ip" using I v5(6) v3(12) v2(6) by (simp add: s4_def)
  have sl: "\<not> sl_locked (sleeplocks t (inode_lock ip))" using vt(6) u5(7) by simp
  have "file_inv p f ip t"
    unfolding file_inv_def using t(2) et(1,2) ft(1) fi kt v5(6) sl t4(4) I apart et(7,8) rt by (simp add: s4_def)
  moreover have "same_user p s t"
  proof -
    have c2: "cpu_proc (mycpu s2) = Some p" using tx_calm(1) [OF v2(1)] by simp
    have c5: "cpu_proc (mycpu s5) = Some p" using tx_calm(1) [OF v5(1)] by simp
    have "same_user p s s2" using same_user_trans [OF v1(6) u2(1)] .
    moreover have "same_user p s2 s4" using same_user_trans [OF v3(14) [OF c2] upd_file_simps(16)] by (simp add: s4_def)
    moreover have "same_user p s4 t" using same_user_trans [OF u5(1) vt(7) [OF c5]] .
    ultimately show ?thesis using same_user_trans by blast
  qed
  moreover have "ftable t = (ftable s)(f := (ftable s f)\<lparr>f_off := off + of_nat (length bs)\<rparr>)"
    using kt(3) v3(12) v2(6) off(1) by (simp add: s4_def)
  moreover have "\<forall>c. c \<notin> log_region t \<longrightarrow> disk t c = blk t c" using t(4) rt reg by simp
  ultimately have step: "file_step p f ip K off bs s t"
    unfolding file_step_def using ft et(9) w(4,11) f2(2) by simp
  show ?thesis
    by (rule exI [of _ s1], rule exI [of _ s2], rule exI [of _ s3], rule exI [of _ s5], rule exI [of _ t])
      (use b(1) l2 w(1) l5 [unfolded s4_def] t(1) v1(1) v2(6) v3(12) fi step in simp)
qed

lemma user_source_take: "user_source p src bs s \<Longrightarrow> user_source p src (take m bs) s"
  unfolding user_source_def by fastforce

lemma user_source_drop:
  assumes "user_source p (IoAddr (UserAddr va)) bs s" "m \<le> length bs"
  shows "user_source p (IoAddr (UserAddr (va + of_nat m))) (drop m bs) s"
proof -
  obtain n ps where u: "cpu_proc (mycpu s) = Some p" "uvm_inv (p_pagetable (procs s p)) n ps s" "top_private (mem s) (p_pagetable (procs s p))"
    "unat va + length bs < 2 ^ 64" "\<And>i. i < length bs \<Longrightarrow> ubyte (mem s) (p_pagetable (procs s p)) (va + of_nat i) = Some (bs ! i)"
    using assms(1) unfolding user_source_def by auto
  have "unat (va + of_nat m) = unat va + m" using unat_add_nat [OF u(4) assms(2)] .
  moreover have "ubyte (mem s) (p_pagetable (procs s p)) (va + of_nat m + of_nat i) = Some (drop m bs ! i)" if "i < length (drop m bs)" for i
    using u(5) [of "m + i"] that by (simp add: add.assoc)
  ultimately show ?thesis unfolding user_source_def using u assms(2)
    by (intro exI [of _ "va + of_nat m"] exI [of _ n] exI [of _ ps] exI [of _ "p_pagetable (procs s p)"]) simp
qed

section \<open>The whole write\<close>

lemma filewrite_loop_spec:
  fixes s :: "'a kfile_scheme"
  assumes "file_inv p f ip s" "user_source p (IoAddr (UserAddr (addr + of_nat i))) bs s" "f_off (ftable s f) = off" "unat off \<le> fsize s ip"
    "unat off + length bs \<le> K * BSIZE" "K \<le> MAXFILE" "space ip K s" "bs \<noteq> []"
  shows "\<exists>t. filewrite_loop (length bs) i f addr s = Ok (i + length bs) t \<and> file_step p f ip K off bs s t"
  using assms
proof (induction "length bs" arbitrary: bs i off s rule: less_induct)
  case less
  define m where "m = min (length bs) write_max"
  have m: "0 < m" "m \<le> length bs" "m \<le> write_max" "m < 2 ^ 31" using less.prems(8) by (auto simp: m_def write_max_def MAXOPBLOCKS_def BSIZE_def)
  have lt: "length (take m bs) = m" using m by simp
  have oK: "unat off + length (take m bs) \<le> K * BSIZE" "length (take m bs) \<le> write_max" using less.prems(5) m by simp_all
  obtain s1 s2 s3 s5 t where c: "begin_op s = Ok () s1" "ilock (Some ip) s1 = Ok () s2"
    "writei ip (IoAddr (UserAddr (addr + of_nat i))) off (of_nat m) s2 = Ok (of_nat m) s3"
    "iunlock (Some ip) (upd_file f (\<lambda>x. x\<lparr>f_off := f_off x + of_nat m\<rparr>) s3) = Ok () s5" "end_op s5 = Ok () t"
    "ftable s1 = ftable s" "ftable s2 = ftable s" "ftable s3 = ftable s" "f_ip (ftable s5 f) = Some ip" "file_step p f ip K off (take m bs) s t"
    using write_chunk [OF less.prems(1) user_source_take [OF less.prems(2)] oK(2) less.prems(3,4) oK(1) less.prems(6,7)] unfolding lt by blast
  note st = c(10) [unfolded file_step_def lt]
  have fi: "f_ip (ftable s f) = Some ip" using less.prems(1) by (simp add: file_inv_def)
  have pos: "0 < sint (of_nat m :: int32)" using nat_sint [OF m(4)] m(1) by simp
  have run: "filewrite_loop (length bs) i f addr s = filewrite_loop (length bs - m) (i + m) f addr t"
    using c fi less.prems(3,8) pos by (subst filewrite_loop.simps) (simp add: m_def [symmetric])
  show ?case
  proof (cases "m = length bs")
    case True
    then show ?thesis using run c(10) by (intro exI [of _ t]) (simp add: filewrite_loop.simps [of 0])
  next
    case False
    have small: "K * BSIZE < 2 ^ 32" using less.prems(6) by (simp add: MAXFILE_eq BSIZE_def)
    then have "unat off + m < 2 ^ 32" using less.prems(5) m(2) by linarith
    then have uo: "unat (off + of_nat m) = unat off + m" by (intro unat_add_lt) simp
    have ln: "length (contents t ip) = fsize t ip" "length (contents s ip) = fsize s ip" by (simp_all add: contents_def)
    have ct: "contents t ip = take (unat off) (contents s ip) @ take m bs @ drop (unat off + m) (contents s ip)" using st by blast
    have "unat off + m \<le> fsize t ip" using arg_cong [OF ct, of length] ln less.prems(4) m(2) by simp
    moreover have "user_source p (IoAddr (UserAddr (addr + of_nat (i + m)))) (drop m bs) t"
      using same_user_source [OF user_source_drop [OF less.prems(2) m(2)]] st by (simp add: add.assoc file_inv_def log_idle_def bio_ok_def)
    moreover have "length bs - m < length bs" using m(1,2) by linarith
    ultimately obtain u where u: "filewrite_loop (length bs - m) (i + m) f addr t = Ok (i + length bs) u"
      "file_step p f ip K (off + of_nat m) (drop m bs) t u"
      using less.hyps [of "drop m bs" t "i + m" "off + of_nat m"] st uo less.prems(5,6) m False by auto
    have td: "take m bs @ drop m bs @ X = bs @ X" for X by (simp flip: append_assoc)
    have "contents u ip = take (unat off) (contents s ip) @ bs @ drop (unat off + length bs) (contents s ip)"
      using u(2) uo ct ln less.prems(4) m(2) by (simp add: file_step_def td add.commute)
    moreover have "ftable u = (ftable s)(f := (ftable s f)\<lparr>f_off := off + of_nat (length bs)\<rparr>)"
      using u(2) st m(2) by (simp add: file_step_def add.assoc of_nat_add [symmetric] del: of_nat_add)
    ultimately have "file_step p f ip K off bs s u"
      using u(2) st same_user_trans unfolding file_step_def by blast
    then show ?thesis using run u(1) m(2) by auto
  qed
qed

section \<open>A concrete file\<close>

text \<open>The empty file of \<open>demo_file\<close> opened for writing by process 1, which has one page of memory.\<close>

definition demo_open :: kfile where
  "demo_open = demo_kfile\<lparr>itable := itable demo_file,
     ftable := \<lambda>_. \<lparr>f_type = FD_INODE, f_ref = 1, f_readable = True, f_writable = True, f_pipe = 0, f_ip = Some 0, f_off = 0, f_major = 0\<rparr>\<rparr>"

lemma boot_unlocked: "\<not> sl_locked (sleeplocks (boot_bio img) l)"
proof -
  have "\<not> sl_locked (sleeplocks s l) \<Longrightarrow> \<not> sl_locked (sleeplocks (binit_loop n s) l)" for n and s :: kbio
    by (induction n arbitrary: s) (simp_all add: Let_def upd_buf_def initsleeplock_def initlock_def)
  then show ?thesis
    using two_procs_simps by (simp add: boot_bio_def binit_def Let_def upd_buf_def initlock_def ksleep.defs kbio.defs)
qed

lemma demo_open_views:
  fixes m fl ke pr
  defines "t \<equiv> demo_open\<lparr>mem := m, freelist := fl, kend := ke, procs := pr\<rparr>"
  shows "file_inv 1 f 0 t" "contents t 0 = []" "fsize t 0 = 0" "space 0 1 t"
proof -
  let ?i = "idle_fs demo_disk (\<lambda>_. bare_inode)"
  have e: "bufs t = bufs ?i" "sleeplocks t = sleeplocks ?i" "disk_image t = disk_image ?i" "disk_writes t = disk_writes ?i" "calm t = calm ?i" "mycpu t = mycpu ?i"
    by (simp_all add: t_def demo_open_def demo_kfile_def demo_uart_def kfs.defs kconsole.defs kuart.defs kfile.defs calm_def machine_defs)
  have g: "log_start t = log_start ?i" "log_size t = log_size ?i" "log_outstanding t = log_outstanding ?i" "log_committing t = log_committing ?i"
    "log_dev t = log_dev ?i" "lh_n t = lh_n ?i" "sb t = sb ?i" "itable t = itable demo_file"
    by (simp_all add: t_def demo_open_def demo_kfile_def demo_uart_def kfs.defs kconsole.defs kuart.defs kfile.defs)
  note v = bio_views_cong [OF e] and i = idle_fs_simps [where img = demo_disk and it = "\<lambda>_. bare_inode"]
  have d2: "length (demo_disk 2) = BSIZE" "get32 (demo_disk 2) 0 = 0" using demo_views(1) [of "\<lambda>_. bare_inode"] i(3,7) by (simp_all only: log_idle_def)
  have idle: "log_idle 1 (MAXOPBLOCKS + 2) t" using v i e g d2 by (simp add: log_idle_def NBUF_def MAXOPBLOCKS_def)
  have b: "blk t = blk demo_file" "sb t = sb demo_file" using v i g demo_file_views(2) demo_views by (simp_all add: demo_file_def)
  have sz: "length (blk demo_file c) = BSIZE" for c using demo_file_views(3) blk_size by blast
  note fs = fs_same [of demo_file 0 "{}" t, OF demo_file_views(3,7), simplified b(1) g(8), OF refl sz b(2) refl]
  have c: "contents t 0 = contents demo_file 0" "filled t 0" "space 0 1 t = space 0 1 demo_file"
    using contents_same [of t 0 demo_file] filled_same [of t 0 demo_file] space_same [of t 0 demo_file 1] fs g(8) demo_file_views(7,8)
    by (auto simp: MAXFILE_eq)
  show "contents t 0 = []" using c(1) demo_file_views by simp
  show "fsize t 0 = 0" using g(8) demo_file_views(6) by simp
  have "wneed demo_file 0 0 1 = 1" using demo_file_views by (simp add: wneed_def MAXFILE_eq)
  then show "space 0 1 t" using demo_file_views(10) c(3) by (auto simp: space_def)
  have l: "\<not> sl_locked (sleeplocks t (inode_lock 0))"
    using boot_unlocked [of demo_disk "inode_lock 0"] e(2) by (simp add: idle_fs_def klog.defs kfs.defs boot_klog_def kbio.defs)
  have "data_block t c \<and> c \<notin> fblocks t 0" if "c \<in> log_region t" for c
  proof -
    have c: "2 \<le> unat c" "unat c < 32" using log_region_bound [of t c] that g(1,2) i(7,8) by (simp_all add: count_def)
    have "c \<notin> meta t"
    proof
      assume "c \<in> meta t"
      then have "c = 45 \<or> (\<exists>i < 200. c = IBLOCK i demo_sb)" using demo_BBLOCK g(7) i(1) by (auto simp: meta_def demo_sb_def)
      then show False using c(2) demo_IBLOCK by force
    qed
    moreover have "used t (unat c)" using demo_used [of "unat c"] c b by (simp add: used_def demo_file_def)
    moreover have "nblk t = 1000" using g(7) i(1) by (simp add: demo_sb_def)
    moreover have "fblocks t 0 = {}" using fs(8) demo_file_views(4,5) by (auto simp: fblocks_def)
    ultimately show ?thesis using c by (simp add: data_block_def)
  qed
  moreover have "f_ip (ftable t f) = Some 0" by (simp add: t_def demo_open_def)
  ultimately show "file_inv 1 f 0 t"
    using idle fs(1,2) c(2) l g(8) demo_file_views(1) by (simp add: file_inv_def)
qed

text \<open>C14: The bound that the comment in \<open>filewrite\<close> computes. A write of at most \<open>write_max\<close> bytes in a fresh transaction succeeds and logs
  at most \<open>MAXOPBLOCKS\<close> blocks: the inode, the indirect block, the data blocks, one block more for a write that is not aligned,
  and the blocks of the free map.
\<close>

theorem filewrite_chunk_fits:
  fixes s :: "'a kfile_scheme"
  assumes "tx p (MAXOPBLOCKS + 2) {} s" "logged s = {}" "fs_ok s" "file_ok s ip" "filled s ip" "file_source p src bs s" "length bs \<le> write_max"
    "unat off \<le> fsize s ip" "unat off + length bs \<le> K * BSIZE" "K \<le> MAXFILE" "space ip K s"
  shows "\<exists>t. writei ip src off (of_nat (length bs)) s = Ok (of_nat (length bs)) t \<and> card (logged t) \<le> MAXOPBLOCKS"
proof -
  obtain t where t: "writei ip src off (of_nat (length bs)) s = Ok (of_nat (length bs)) t" "logged t \<subseteq> write_set ip (unat off) (length bs) s"
    using chunk_write [OF assms] by blast
  have "K * BSIZE \<le> MAXFILE * BSIZE" using assms(10) by simp
  then have "card (write_set ip (unat off) (length bs) s) \<le> MAXOPBLOCKS" using assms by (intro write_set_card) linarith+
  moreover have "finite (write_set ip (unat off) (length bs) s)" by (simp add: write_set_def Let_def)
  ultimately show ?thesis using t card_mono by (meson le_trans)
qed

theorem filewrite_chunk_fits_witness:
  "\<exists>t. writei 0 (IoLocal [104, 105]) 0 2 (demo_open\<lparr>log_outstanding := 1\<rparr>) = Ok 2 t \<and> card (logged t) \<le> 10"
proof -
  let ?s = "demo_open\<lparr>log_outstanding := 1\<rparr>"
  have e: "demo_open = demo_open\<lparr>mem := mem demo_open, freelist := freelist demo_open, kend := kend demo_open, procs := procs demo_open\<rparr>" by simp
  note v = demo_open_views [where m = "mem demo_open" and fl = "freelist demo_open" and ke = "kend demo_open" and pr = "procs demo_open", folded e]
  have i: "log_idle 1 (MAXOPBLOCKS + 2) demo_open" using v(1) by (simp add: file_inv_def)
  note b = begin_op_spec [OF i]
  have b1: "blk ?s = blk demo_open" by (rule bio_views_cong) (simp_all add: calm_def machine_defs)
  have sz: "length (blk demo_open c) = BSIZE" for c using v(1) blk_size by (auto simp: file_inv_def)
  have f: "fs_ok demo_open" "file_ok demo_open 0" "filled demo_open 0" using v(1) by (simp_all add: file_inv_def)
  note fs = fs_same [OF f(1,2), of "{}" ?s, simplified b1, OF refl sz]
  have s: "filled ?s 0" "space 0 1 ?s" "fsize ?s 0 = 0"
    using filled_same [of ?s 0 demo_open] space_same [of ?s 0 demo_open 1] fs v f(3) by (auto simp: MAXFILE_eq)
  show ?thesis
    using filewrite_chunk_fits [OF b(2,4) fs(1,2) s(1), of "IoLocal [104, 105]" "[104, 105]" 0 1] s
    by (simp add: file_source_def local_source_def write_max_def MAXOPBLOCKS_def BSIZE_def MAXFILE_eq)
qed

text \<open>C4: \<open>filewrite\<close> on a file of the file system. If the disk has room for the blocks that the write adds, then a write of any number of
  bytes, from any offset within the file, returns that number. The bytes at the offset are replaced, the offset moves behind them,
  no transaction is left open, every block of the file system is on the disk as the cache has it, and so is the inode.
\<close>

theorem filewrite_durable:
  fixes s :: "'a kfile_scheme"
  assumes "file_inv p f ip s" "f_type (ftable s f) = FD_INODE" "f_writable (ftable s f)" "user_source p (IoAddr (UserAddr addr)) bs s" "bs \<noteq> []"
    "f_off (ftable s f) = off" "unat off \<le> fsize s ip" "unat off + length bs \<le> K * BSIZE" "K \<le> MAXFILE" "space ip K s"
  shows "\<exists>t. filewrite f addr (of_nat (length bs)) s = Ok (of_nat (length bs)) t \<and> file_inv p f ip t \<and>
    contents t ip = take (unat off) (contents s ip) @ bs @ drop (unat off + length bs) (contents s ip) \<and>
    ftable t = (ftable s)(f := (ftable s f)\<lparr>f_off := off + of_nat (length bs)\<rparr>) \<and> synced t ip \<and>
    (\<forall>c. c \<notin> log_region t \<longrightarrow> disk t c = blk t c)"
proof -
  have "K * BSIZE < 2 ^ 31" using assms(9) by (simp add: MAXFILE_eq BSIZE_def)
  then have "length bs < 2 ^ 31" using assms(8) by linarith
  note n = nat_sint [OF this]
  then have "sint (of_nat (length bs) :: int32) = int (length bs)" using assms(5) by (metis length_greater_0_conv int_nat_eq nat_0_iff not_less0 not_le_imp_less le_cases)
  moreover obtain t where "filewrite_loop (length bs) 0 f addr s = Ok (length bs) t" "file_step p f ip K off bs s t"
    using filewrite_loop_spec [of p f ip s addr 0 bs off K] assms by auto
  ultimately show ?thesis using assms(2,3) n by (intro exI [of _ t]) (simp add: filewrite_def file_step_def)
qed

theorem filewrite_durable_witness:
  "\<exists>(s :: kfile) t b c. user_bytes 1 s 0 [b, c] \<and> contents s 0 = [] \<and> filewrite 3 0 2 s = Ok 2 t \<and> contents t 0 = [b, c] \<and>
     f_off (ftable t 3) = 2 \<and> synced t 0"
proof -
  have e: "calm demo_open = calm demo_kfile" by (simp add: demo_open_def calm_def machine_defs)
  define pr where "pr = (procs demo_open)(1 := (procs demo_open 1)\<lparr>p_pagetable := 0x80022000\<rparr>)"
  obtain m fl ke where d: "user_space 1 (demo_open\<lparr>mem := m, freelist := fl, kend := ke, procs := pr\<rparr>)"
    "user_room 1 (demo_open\<lparr>mem := m, freelist := fl, kend := ke, procs := pr\<rparr>) 0 4096"
    using demo_user [of demo_open] e demo_kfile_views(1) unfolding pr_def by blast
  define s where "s = demo_open\<lparr>mem := m, freelist := fl, kend := ke, procs := pr\<rparr>"
  note v = demo_open_views [where m = m and fl = fl and ke = ke and pr = pr, folded s_def]
  obtain b c where bc: "user_byte 1 s 0 = Some b" "user_byte 1 s 1 = Some c"
    using d(2) [folded s_def, unfolded user_room_def, THEN conjunct2, rule_format, of 0]
      d(2) [folded s_def, unfolded user_room_def, THEN conjunct2, rule_format, of 1] by auto
  have ub: "user_bytes 1 s 0 [b, c]" using bc by (auto simp: user_bytes_def less_Suc_eq)
  have "cpu_proc (mycpu s) = Some 1" using v(1) by (simp add: file_inv_def log_idle_def bio_ok_def)
  then have us: "user_source 1 (IoAddr (UserAddr 0)) [b, c] s"
    using d(1) [folded s_def] ub unfolding user_source_def user_space_def user_bytes_def user_byte_def by auto
  have ft: "f_type (ftable s 3) = FD_INODE" "f_writable (ftable s 3)" "f_off (ftable s 3) = 0" by (simp_all add: s_def demo_open_def)
  obtain t where "filewrite 3 0 2 s = Ok 2 t" "contents t 0 = [b, c]" "f_off (ftable t 3) = 2" "synced t 0"
    using filewrite_durable [OF v(1) ft(1,2) us _ ft(3), of 1] v by (auto simp: MAXFILE_eq BSIZE_def)
  then show ?thesis using ub v(2) by blast
qed

end
