(* ===== verification/Console_Edit.thy ===== *)
theory Console_Edit
  imports Pipe_Fifo Sched_Run
begin

text \<open>
  The line discipline of the console: \<open>consoleintr\<close> against a specification on two lists, the characters that a
  reader may take and those that are still being edited.
\<close>

unbundle bit_operations_syntax

section \<open>Ring buffers with an edited end\<close>

lemma ring_append:
  fixes r w e :: "'a::len word"
  assumes "unat (w - r) + unat (e - w) < 2 ^ LENGTH('a)"
  shows "ring_list N buf r e = ring_list N buf r w @ ring_list N buf w e"
proof -
  have "e - r = (w - r) + (e - w)" by simp
  then have n: "unat (e - r) = unat (w - r) + unat (e - w)" using assms unat_add_lem [of "w - r" "e - w"] by metis
  have "[0..<unat (w - r) + unat (e - w)] = [0..<unat (w - r)] @ map (\<lambda>i. i + unat (w - r)) [0..<unat (e - w)]"
    using upt_add_eq_append [of 0 "unat (w - r)" "unat (e - w)"] map_add_upt [of "unat (w - r)" "unat (e - w)"] by (simp add: add.commute)
  moreover have "r + of_nat (i + unat (w - r)) = w + of_nat i" for i by simp
  ultimately show ?thesis unfolding ring_list_def n by (simp add: comp_def del: of_nat_add)
qed

lemma ring_unput:
  fixes w e :: "'a::len word"
  assumes "e \<noteq> w"
  shows "ring_list N buf w (e - 1) = butlast (ring_list N buf w e)" "ring_list N buf w e \<noteq> []"
    "last (ring_list N buf w e) = buf (unat (e - 1) mod N)"
proof -
  have z: "e - w \<noteq> 0" using assms by simp
  then have "unat (e - w - 1) = unat (e - w) - 1" by (rule unat_minus_one)
  then have u: "unat (e - w) = Suc (unat (e - 1 - w))" using z unat_gt_0 [of "e - w"] by (simp add: diff_right_commute)
  then show "ring_list N buf w (e - 1) = butlast (ring_list N buf w e)" "ring_list N buf w e \<noteq> []" by (simp_all add: ring_list_def)
  show "last (ring_list N buf w e) = buf (unat (e - 1) mod N)" unfolding ring_list_def u by simp
qed

section \<open>The specification\<close>

text \<open>The characters that can be read, and those that are edited.\<close>

definition line_edit :: "uchar \<Rightarrow> uchar list \<times> uchar list \<Rightarrow> uchar list \<times> uchar list" where
  "line_edit c q =
    (let (ready, edit) = q in
     if c = ctrl_P then q
     else if c = ctrl_U then (ready, [])
     else if c = ctrl_H \<or> c = 0x7f then (ready, butlast edit)
     else if c \<noteq> 0 \<and> length ready + length edit < INPUT_BUF then
       let d = (if c = 13 then newline_c else c); edit = edit @ [d] in
       if d = newline_c \<or> d = ctrl_D \<or> length ready + length edit = INPUT_BUF then (ready @ edit, []) else (ready, edit)
     else q)"

definition cons_ready :: "'a kconsole_scheme \<Rightarrow> uchar list" where
  "cons_ready s = ring_list INPUT_BUF (cons_buf s) (cons_r s) (cons_w s)"

definition cons_edit :: "'a kconsole_scheme \<Rightarrow> uchar list" where
  "cons_edit s = ring_list INPUT_BUF (cons_buf s) (cons_w s) (cons_e s)"

definition cons_ok :: "'a kconsole_scheme \<Rightarrow> bool" where
  "cons_ok s \<longleftrightarrow> unat (cons_w s - cons_r s) + unat (cons_e s - cons_w s) \<le> INPUT_BUF \<and> newline_c \<notin> set (cons_edit s)"

text \<open>The transmitter always becomes idle again.\<close>

definition tx_live :: "'a kuart_scheme \<Rightarrow> bool" where
  "tx_live s \<longleftrightarrow> (\<forall>n. \<exists>m \<ge> n. (uart_lsr s !! m) AND LSR_TX_IDLE \<noteq> 0)"

text \<open>What the terminal is sent.\<close>

definition rubout :: "uchar list" where
  "rubout = [8, 32, 8]"

definition line_echo :: "uchar \<Rightarrow> uchar list \<times> uchar list \<Rightarrow> uchar list" where
  "line_echo c q =
    (let (ready, edit) = q in
     if c = ctrl_P then []
     else if c = ctrl_U then concat (replicate (length edit) rubout)
     else if c = ctrl_H \<or> c = 0x7f then if edit = [] then [] else rubout
     else if c \<noteq> 0 \<and> length ready + length edit < INPUT_BUF then [if c = 13 then newline_c else c]
     else [])"

section \<open>Output\<close>

definition echoed :: "uchar list \<Rightarrow> 'a kuart_scheme \<Rightarrow> 'a kuart_scheme \<Rightarrow> bool" where
  "echoed cs s t \<longleftrightarrow> (\<exists>xs. t = s\<lparr>uart_lsr := xs, uart_writes := uart_writes s @ map (Pair THR) cs\<rparr>) \<and> (tx_live s \<longrightarrow> tx_live t)"

lemma echoed_nil: "echoed [] s s"
  unfolding echoed_def by (intro conjI exI [of _ "uart_lsr s"]) simp_all

lemma echoed_trans:
  assumes "echoed cs s t" "echoed ds t u"
  shows "echoed (cs @ ds) s u"
proof -
  obtain xs ys where "t = s\<lparr>uart_lsr := xs, uart_writes := uart_writes s @ map (Pair THR) cs\<rparr>"
    "u = t\<lparr>uart_lsr := ys, uart_writes := uart_writes t @ map (Pair THR) ds\<rparr>" using assms unfolding echoed_def by blast
  then have "u = s\<lparr>uart_lsr := ys, uart_writes := uart_writes s @ map (Pair THR) (cs @ ds)\<rparr>" by simp
  then show ?thesis using assms unfolding echoed_def by blast
qed

lemma echoed_views:
  fixes s t :: "'a kconsole_scheme"
  assumes "echoed cs s t"
  shows "calm t = calm s" "mycpu t = mycpu s" "panicked t = panicked s" "cons_buf t = cons_buf s" "cons_r t = cons_r s" "cons_w t = cons_w s"
    "cons_e t = cons_e s" "procs t = procs s" "uart_sent t = uart_sent s @ cs" "tx_live s \<Longrightarrow> tx_live t"
  using assms by (auto simp: echoed_def uart_sent_def comp_def)

lemma echoed_cons_e:
  fixes s t :: "'a kconsole_scheme"
  assumes "echoed cs s t"
  shows "echoed cs (s\<lparr>cons_e := x\<rparr>) (t\<lparr>cons_e := x\<rparr>)"
proof -
  obtain xs where "t = s\<lparr>uart_lsr := xs, uart_writes := uart_writes s @ map (Pair THR) cs\<rparr>" "tx_live s \<longrightarrow> tx_live t"
    using assms by (auto simp: echoed_def)
  then have "t\<lparr>cons_e := x\<rparr> = s\<lparr>cons_e := x, uart_lsr := xs, uart_writes := uart_writes s @ map (Pair THR) cs\<rparr>"
    "tx_live (s\<lparr>cons_e := x\<rparr>) \<longrightarrow> tx_live (t\<lparr>cons_e := x\<rparr>)" by (simp_all add: tx_live_def)
  then show ?thesis unfolding echoed_def by auto
qed

lemma uart_push_off:
  "(push_off s)\<lparr>uart_lsr := xs\<rparr> = push_off (s\<lparr>uart_lsr := xs\<rparr>)" "WriteReg r c (push_off s) = push_off (WriteReg r c s)"
  by (simp_all add: WriteReg_def machine_defs)

lemma uartputc_sync_live:
  assumes "calm s" "\<not> panicked s" "tx_live s"
  shows "\<exists>t. uartputc_sync c (acquired l s) = Ok () (acquired l t) \<and> echoed [c] s t"
proof -
  define n where "n = (LEAST n. (uart_lsr s !! n) AND LSR_TX_IDLE \<noteq> 0)"
  have ex: "\<exists>n. (uart_lsr s !! n) AND LSR_TX_IDLE \<noteq> 0" using assms(3) by (auto simp: tx_live_def)
  have "(uart_lsr s !! n) AND LSR_TX_IDLE \<noteq> 0" unfolding n_def by (rule LeastI_ex [OF ex])
  moreover have "\<forall>i < n. (uart_lsr s !! i) AND LSR_TX_IDLE = 0" unfolding n_def using not_less_Least by blast
  ultimately have w: "lsr_wait (uart_lsr s) = Some (sdrop (Suc n) (uart_lsr s))" by (rule lsr_wait_idle)
  define t where "t = WriteReg THR c (s\<lparr>uart_lsr := sdrop (Suc n) (uart_lsr s)\<rparr>)"
  have ct: "calm t" using assms(1) by (simp add: t_def)
  have "WriteReg THR c ((push_off (acquired l s))\<lparr>uart_lsr := sdrop (Suc n) (uart_lsr s)\<rparr>) = push_off (acquired l t)"
    by (simp add: t_def uart_push_off kuart_lock_upd)
  moreover have "pop_off (push_off (acquired l t)) = Ok () (acquired l t)"
    using pop_off_push_off [of "acquired l t"] calm_simps(2) [OF ct] by simp
  moreover have "panicked (push_off (acquired l s)) = panicked s" "uart_lsr (push_off (acquired l s)) = uart_lsr s" by (simp_all add: machine_defs)
  ultimately have "uartputc_sync c (acquired l s) = Ok () (acquired l t)" using w assms(2) by (simp add: uartputc_sync_def Let_def)
  moreover have "\<exists>m \<ge> k. (sdrop (Suc n) (uart_lsr s) !! m) AND LSR_TX_IDLE \<noteq> 0" for k
  proof -
    obtain m where m: "m \<ge> Suc n + k" "(uart_lsr s !! m) AND LSR_TX_IDLE \<noteq> 0" using assms(3) unfolding tx_live_def by blast
    then show ?thesis by (intro exI [of _ "m - Suc n"]) (simp add: sdrop_snth del: sdrop.simps)
  qed
  then have "echoed [c] s t" by (auto simp: echoed_def t_def WriteReg_def tx_live_def)
  ultimately show ?thesis by blast
qed

lemma consputc_char:
  fixes s :: "'a kconsole_scheme"
  assumes "calm s" "\<not> panicked s" "tx_live s"
  shows "\<exists>t. consputc (ucast (c :: uchar)) (acquired l s) = Ok () (acquired l t) \<and> echoed [c] s t"
proof -
  have "\<not> bit (ucast c :: int32) 8" by (simp add: bit_ucast_iff) (use bit_imp_le_length [of c 8] in auto)
  then have "(ucast c :: int32) \<noteq> BACKSPACE" by (auto simp: BACKSPACE_def)
  moreover have "ucast (ucast c :: int32) = c" by (rule bit_word_eqI) (auto simp: bit_ucast_iff)
  ultimately show ?thesis using uartputc_sync_live [OF assms, of c l] by (simp add: consputc_def)
qed

lemma consputc_rubout:
  fixes s :: "'a kconsole_scheme"
  assumes "calm s" "\<not> panicked s" "tx_live s"
  shows "\<exists>t. consputc BACKSPACE (acquired l s) = Ok () (acquired l t) \<and> echoed rubout s t"
proof -
  obtain t where t: "uartputc_sync 8 (acquired l s) = Ok () (acquired l t)" "echoed [8] s t" using uartputc_sync_live [OF assms] by blast
  note vt = echoed_views [OF t(2)]
  obtain u where u: "uartputc_sync 32 (acquired l t) = Ok () (acquired l u)" "echoed [32] t u"
    using uartputc_sync_live [of t 32 l] assms vt by auto
  note vu = echoed_views [OF u(2)]
  obtain v where v: "uartputc_sync 8 (acquired l u) = Ok () (acquired l v)" "echoed [8] u v"
    using uartputc_sync_live [of u 8 l] assms vt vu by auto
  have "echoed rubout s v" using echoed_trans [OF echoed_trans [OF t(2) u(2)] v(2)] by (simp add: rubout_def)
  then show ?thesis using t(1) u(1) v(1) by (auto simp: consputc_def)
qed

section \<open>The process listing\<close>

lemma vformat_procdump: "\<exists>out. vformat ''%d %s %s'' [ArgInt a, ArgStr b, ArgStr c] = Some out"
  using printint_defined [of a] by (auto split: option.splits)

lemma procdump_loop_spec:
  fixes s :: "'a kproc_scheme"
  assumes "calm s"
  shows "\<exists>out. procdump_loop n (acquired cons_lock s) = Ok () (acquired cons_lock (s\<lparr>console := out\<rparr>))"
  using assms
proof (induction n arbitrary: s)
  case 0
  then show ?case by (intro exI [of _ "console s"]) simp
next
  case (Suc n)
  note c = calm_simps [OF Suc.prems]
  let ?p = "procs s (NPROC - Suc n)"
  have pr: "printf (Some f) ap (acquired cons_lock u) = Ok () (acquired cons_lock (u\<lparr>console := console u @ out\<rparr>))"
    if "calm u" "vformat f ap = Some out" for f ap out and u :: "'a kproc_scheme"
    using printf_eq [of "acquired cons_lock u" f ap out] calm_simps [OF that(1)] that(2) by (simp add: kcons_lock_upd)
  obtain o1 where o1: "vformat ''%d %s %s'' [ArgInt (p_pid ?p), ArgStr (Some (state_name (p_state ?p))), ArgStr (Some (cstring (p_name ?p)))] = Some o1"
    using vformat_procdump by blast
  define u where "u = (if p_state ?p = UNUSED then s else s\<lparr>console := (console s @ o1) @ ''\<newline>''\<rparr>)"
  have "calm u" using Suc.prems by (simp add: u_def)
  then obtain out where "procdump_loop n (acquired cons_lock u) = Ok () (acquired cons_lock (u\<lparr>console := out\<rparr>))" using Suc.IH by blast
  then show ?case using pr [OF Suc.prems o1] pr [of "s\<lparr>console := console s @ o1\<rparr>" "''\<newline>''" "[]" "''\<newline>''"] Suc.prems
    by (auto simp: u_def Let_def split: if_splits)
qed

lemma procdump_spec:
  fixes s :: "'a kproc_scheme"
  assumes "calm s"
  shows "\<exists>out. procdump (acquired cons_lock s) = Ok () (acquired cons_lock (s\<lparr>console := out\<rparr>))"
proof -
  have "printf (Some ''\<newline>'') [] (acquired cons_lock s) = Ok () (acquired cons_lock (s\<lparr>console := console s @ ''\<newline>''\<rparr>))"
    using printf_eq [of "acquired cons_lock s" "''\<newline>''" "[]" "''\<newline>''"] calm_simps [OF assms] by (simp add: kcons_lock_upd)
  then show ?thesis
    using procdump_loop_spec [of "s\<lparr>console := console s @ ''\<newline>''\<rparr>" NPROC] assms by (simp add: procdump_def)
qed

section \<open>Editing\<close>

lemma kill_line_spec:
  fixes s :: "'a kconsole_scheme"
  assumes "calm s" "\<not> panicked s" "tx_live s" "newline_c \<notin> set (cons_edit s)" "k = length (cons_edit s)"
  shows "\<exists>t. kill_line_loop k (acquired l s) = Ok () (acquired l t) \<and>
    echoed (concat (replicate k rubout)) (s\<lparr>cons_e := cons_w s\<rparr>) t"
  using assms
proof (induction k arbitrary: s)
  case 0
  then have "unat (cons_e s - cons_w s) = 0" by (simp add: cons_edit_def)
  then have e: "cons_e s = cons_w s" using unat_eq_zero [of "cons_e s - cons_w s"] by simp
  have i: "s\<lparr>cons_e := cons_w s\<rparr> = s" unfolding e [symmetric] by simp
  show ?case unfolding i using e by (intro exI [of _ s]) (simp add: kill_line_loop.simps echoed_nil)
next
  case (Suc k)
  have ne: "cons_e s \<noteq> cons_w s" using Suc.prems(5) by (auto simp: cons_edit_def)
  note r = ring_unput [OF ne, of INPUT_BUF "cons_buf s", folded cons_edit_def]
  let ?s1 = "s\<lparr>cons_e := cons_e s - 1\<rparr>"
  have e1: "cons_edit ?s1 = butlast (cons_edit s)" using r(1) by (simp add: cons_edit_def)
  have nl: "cons_buf s (unat (cons_e s - 1) mod INPUT_BUF) \<noteq> newline_c" using r(2,3) Suc.prems(4) last_in_set by metis
  obtain t where t: "consputc BACKSPACE (acquired l ?s1) = Ok () (acquired l t)" "echoed rubout ?s1 t"
    using consputc_rubout [of ?s1 l] Suc.prems by (auto simp: tx_live_def)
  note v = echoed_views [OF t(2)]
  have "cons_edit t = butlast (cons_edit s)" using v e1 by (simp add: cons_edit_def)
  moreover have "newline_c \<notin> set (butlast (cons_edit s))" using Suc.prems(4) by (meson in_set_butlastD)
  ultimately have "newline_c \<notin> set (cons_edit t)" "k = length (cons_edit t)" using Suc.prems(5) by simp_all
  then obtain u where u: "kill_line_loop k (acquired l t) = Ok () (acquired l u)"
    "echoed (concat (replicate k rubout)) (t\<lparr>cons_e := cons_w t\<rparr>) u"
    using Suc.IH [of t] Suc.prems v by (auto simp: tx_live_def)
  have "echoed rubout (s\<lparr>cons_e := cons_w s\<rparr>) (t\<lparr>cons_e := cons_w t\<rparr>)" using echoed_cons_e [OF t(2), of "cons_w s"] v(6) by simp
  then have "echoed (concat (replicate (Suc k) rubout)) (s\<lparr>cons_e := cons_w s\<rparr>) u" using echoed_trans u(2) by fastforce
  moreover have "kill_line_loop (Suc k) (acquired l s) = Ok () (acquired l u)"
    using ne nl t(1) u(1) by (simp add: kill_line_loop.simps [of "Suc k" "acquired l s"] kconsole_lock_upd)
  ultimately show ?case by blast
qed

lemma cons_store_lists:
  fixes s :: "'a kconsole_scheme"
  assumes "unat (cons_w s - cons_r s) + unat (cons_e s - cons_w s) < INPUT_BUF"
  shows "cons_ready (cons_store d s) = cons_ready s" "cons_edit (cons_store d s) = cons_edit s @ [d]"
    "cons_ready ((cons_store d s)\<lparr>cons_w := cons_e (cons_store d s)\<rparr>) = cons_ready s @ cons_edit s @ [d]"
proof -
  let ?b = "(cons_buf s)(unat (cons_e s) mod INPUT_BUF := d)"
  let ?R = "ring_list INPUT_BUF"
  have lt: "unat (cons_w s - cons_r s) + unat (cons_e s - cons_w s) < 2 ^ LENGTH(32)" using assms by (simp add: INPUT_BUF_def)
  have sp: "?R b (cons_r s) (cons_e s) = ?R b (cons_r s) (cons_w s) @ ?R b (cons_w s) (cons_e s)" for b :: "nat \<Rightarrow> uchar"
    using ring_append [OF lt] .
  have tot: "unat (cons_e s - cons_r s) < INPUT_BUF" using assms arg_cong [OF sp [of "cons_buf s"], of length] by simp
  have p: "?R ?b (cons_r s) (cons_e s + 1) = ?R (cons_buf s) (cons_r s) (cons_e s) @ [d]"
    "?R ?b (cons_w s) (cons_e s + 1) = ?R (cons_buf s) (cons_w s) (cons_e s) @ [d]"
    using tot assms by (simp_all add: ring_put INPUT_BUF_def)
  have "unat (cons_e s + 1 - cons_w s) = Suc (unat (cons_e s - cons_w s))" using arg_cong [OF p(2), of length] by simp
  then have "unat (cons_w s - cons_r s) + unat (cons_e s + 1 - cons_w s) < 2 ^ LENGTH(32)" using assms by (simp add: INPUT_BUF_def)
  from ring_append [OF this, of INPUT_BUF ?b]
  have "?R ?b (cons_r s) (cons_w s) @ ?R ?b (cons_w s) (cons_e s + 1) = (?R (cons_buf s) (cons_r s) (cons_w s) @ ?R (cons_buf s) (cons_w s) (cons_e s)) @ [d]"
    using p(1) sp [of "cons_buf s"] by simp
  then have "?R ?b (cons_r s) (cons_w s) = ?R (cons_buf s) (cons_r s) (cons_w s)" using p(2) by simp
  then show "cons_ready (cons_store d s) = cons_ready s" "cons_edit (cons_store d s) = cons_edit s @ [d]"
    "cons_ready ((cons_store d s)\<lparr>cons_w := cons_e (cons_store d s)\<rparr>) = cons_ready s @ cons_edit s @ [d]"
    using p sp [of "cons_buf s"] by (simp_all add: cons_ready_def cons_edit_def cons_store_def)
qed

lemma cons_lengths [simp]: "length (cons_ready s) = unat (cons_w s - cons_r s)" "length (cons_edit s) = unat (cons_e s - cons_w s)"
  by (simp_all add: cons_ready_def cons_edit_def)

lemma cons_total:
  "unat (cons_w s - cons_r s) + unat (cons_e s - cons_w s) \<le> INPUT_BUF \<Longrightarrow>
   unat (cons_e s - cons_r s) = unat (cons_w s - cons_r s) + unat (cons_e s - cons_w s)"
proof -
  assume "unat (cons_w s - cons_r s) + unat (cons_e s - cons_w s) \<le> INPUT_BUF"
  then have "unat (cons_w s - cons_r s) + unat (cons_e s - cons_w s) < 2 ^ LENGTH(32)" by (simp add: INPUT_BUF_def)
  from arg_cong [OF ring_append [OF this, of INPUT_BUF "cons_buf s"], of length] show ?thesis by simp
qed

lemma echoed_lists:
  fixes s t :: "'a kconsole_scheme"
  assumes "echoed cs s t"
  shows "cons_ready t = cons_ready s" "cons_edit t = cons_edit s"
  using echoed_views [OF assms] by (simp_all add: cons_ready_def cons_edit_def)

section \<open>Properties\<close>

definition console_pre :: "'a kconsole_scheme \<Rightarrow> bool" where
  "console_pre s \<longleftrightarrow> calm s \<and> \<not> panicked s \<and> tx_live s \<and> cons_ok s"

lemma line_edit_ok:
  assumes "length r + length e \<le> INPUT_BUF" "newline_c \<notin> set e" "line_edit c (r, e) = (r', e')"
  shows "length r' + length e' \<le> INPUT_BUF" "newline_c \<notin> set e'"
  using assms by (auto simp: line_edit_def Let_def newline_c_def ctrl_D_def split: if_splits dest: in_set_butlastD)

definition intr_body :: "uchar \<Rightarrow> 'a kconsole_scheme \<Rightarrow> (unit, 'a kconsole_scheme) res" where
  "intr_body c s =
    (if c = ctrl_P then procdump s
     else if c = ctrl_U then kill_line_loop (unat (cons_e s - cons_w s)) s
     else if c = ctrl_H \<or> c = 0x7f then
       if cons_e s \<noteq> cons_w s then consputc BACKSPACE (s\<lparr>cons_e := cons_e s - 1\<rparr>) else Ok () s
     else if c \<noteq> 0 \<and> cons_e s - cons_r s < of_nat INPUT_BUF then
       let c = (if c = 13 then newline_c else c) in
       bind (consputc (ucast c) s) (\<lambda>_ s.
       let s = cons_store c s in
       if c = newline_c \<or> c = ctrl_D \<or> cons_e s = cons_r s + of_nat INPUT_BUF then
         wakeup ChanCons (s\<lparr>cons_w := cons_e s\<rparr>)
       else Ok () s)
     else Ok () s)"

lemma consoleintr_body: "consoleintr c s = bind (acquire cons_lock s) (\<lambda>_ s. bind (intr_body c s) (\<lambda>_ s. release cons_lock s))"
  unfolding consoleintr_def intr_body_def ..

lemma store_spec:
  fixes s :: "'a kconsole_scheme"
  assumes "calm s" "\<not> panicked s" "tx_live s" "unat (cons_w s - cons_r s) + unat (cons_e s - cons_w s) < INPUT_BUF"
    "c \<noteq> ctrl_P" "c \<noteq> ctrl_U" "\<not> (c = ctrl_H \<or> c = 0x7f)" "c \<noteq> 0"
  defines "d \<equiv> if c = 13 then newline_c else c"
  defines "line \<equiv> d = newline_c \<or> d = ctrl_D \<or> length (cons_ready s) + length (cons_edit s @ [d]) = INPUT_BUF"
  shows "\<exists>t. intr_body c (acquired cons_lock s) = Ok () (acquired cons_lock t) \<and> calm t \<and> \<not> panicked t \<and> tx_live t \<and>
    uart_sent t = uart_sent s @ [d] \<and> cons_ready t = (if line then cons_ready s @ cons_edit s @ [d] else cons_ready s) \<and>
    cons_edit t = (if line then [] else cons_edit s @ [d])"
proof -
  let ?l = cons_lock
  have tot: "unat (cons_e s - cons_r s) = unat (cons_w s - cons_r s) + unat (cons_e s - cons_w s)" using cons_total assms(4) by (metis less_imp_le)
  then have lt: "cons_e s - cons_r s < of_nat INPUT_BUF" using assms(4) by (simp add: word_less_nat_alt INPUT_BUF_def)
  obtain t where t: "consputc (ucast d) (acquired ?l s) = Ok () (acquired ?l t)" "echoed [d] s t"
    using consputc_char [OF assms(1-3), of d ?l] by blast
  note v = echoed_views [OF t(2)] echoed_lists [OF t(2)]
  have st: "cons_store d (acquired ?l t) = acquired ?l (cons_store d t)" by (simp add: cons_store_def kconsole_lock_upd)
  have q: "cons_ready (cons_store d t) = cons_ready s" "cons_edit (cons_store d t) = cons_edit s @ [d]"
    "cons_ready ((cons_store d t)\<lparr>cons_w := cons_e (cons_store d t)\<rparr>) = cons_ready s @ cons_edit s @ [d]"
    using cons_store_lists [of t d] assms(4) v by simp_all
  have w: "calm (cons_store d t)" "\<not> panicked (cons_store d t)" "tx_live (cons_store d t)" "uart_sent (cons_store d t) = uart_sent s @ [d]"
    using assms(1-3) v by (simp_all add: cons_store_def tx_live_def uart_sent_def)
  have full: "cons_e (cons_store d t) = cons_r (cons_store d t) + of_nat INPUT_BUF \<longleftrightarrow> length (cons_ready s) + length (cons_edit s @ [d]) = INPUT_BUF"
  proof -
    have "cons_e s + 1 = cons_r s + of_nat INPUT_BUF \<longleftrightarrow> (cons_e s - cons_r s) + 1 = of_nat INPUT_BUF" by (auto simp: algebra_simps)
    also have "\<dots> \<longleftrightarrow> unat (cons_e s - cons_r s) + 1 = INPUT_BUF"
      using unat_add_lt [of "cons_e s - cons_r s" 1] tot assms(4) by (simp add: word_unat_eq_iff INPUT_BUF_def)
    finally show ?thesis using v tot by (simp add: cons_store_def)
  qed
  define u where "u = (if line then wake ChanCons ((cons_store d t)\<lparr>cons_w := cons_e (cons_store d t)\<rparr>) else cons_store d t)"
  have "intr_body c (acquired ?l s) = Ok () (acquired ?l u)"
    using assms(5-8) lt t(1) full w(1)
    by (simp add: intr_body_def d_def [symmetric] Let_def st kconsole_lock_upd calm_wakeup u_def line_def del: of_nat_numeral)
  moreover have "calm u \<and> \<not> panicked u \<and> tx_live u \<and> uart_sent u = uart_sent s @ [d]"
    using w by (simp add: u_def tx_live_def uart_sent_def wake_def)
  moreover have "cons_ready u = (if line then cons_ready s @ cons_edit s @ [d] else cons_ready s) \<and> cons_edit u = (if line then [] else cons_edit s @ [d])"
    using q by (simp add: u_def wake_def cons_ready_def cons_edit_def)
  ultimately show ?thesis by blast
qed


definition demo_console :: kconsole where
  "demo_console = kuart.extend (demo_uart (sconst 32)) (kconsole.fields (\<lambda>_. 0) 0 0 0)"

lemma demo_console_pre: "console_pre demo_console" "cons_ready demo_console = []" "cons_edit demo_console = []"
proof -
  have "calm demo_console = calm (demo_uart (sconst 32))" "panicked demo_console = panicked (demo_uart (sconst 32))"
    "uart_lsr demo_console = uart_lsr (demo_uart (sconst 32))"
    by (simp_all add: demo_console_def kuart.defs kconsole.defs calm_def machine_defs)
  moreover have "tx_live demo_console" using calculation(3) by (auto simp: tx_live_def demo_uart_views LSR_TX_IDLE_def)
  moreover show "cons_ready demo_console = []" "cons_edit demo_console = []"
    by (simp_all add: cons_ready_def cons_edit_def demo_console_def kuart.defs kconsole.defs)
  ultimately show "console_pre demo_console" using demo_uart_views [of "sconst 32"]
    by (simp add: console_pre_def cons_ok_def) (simp add: demo_console_def kuart.defs kconsole.defs)
qed


end
