(* ===== verification/Proc_Life.thy ===== *)
theory Proc_Life
  imports File Sched
begin

text \<open>
  The life of a process (\<open>kernel/proc.c\<close>): allocation and release of a slot, the first process, \<open>growproc\<close>,
  \<open>fork\<close>, \<open>exit\<close> and \<open>wait\<close>. The trapframe is stored in its page of the memory, at the offsets of
  \<open>struct trapframe\<close>. The scheduler that the kernel is built with is a field of the state.
\<close>

section \<open>Allocation\<close>

definition NOFILE :: nat where "NOFILE = 16"

definition set_tf :: "nat \<Rightarrow> uint64 \<Rightarrow> uint64 \<Rightarrow> 'a kproc_scheme \<Rightarrow> 'a kproc_scheme" where
  "set_tf p off v s = s\<lparr>mem := st64 (p_trapframe (procs s p) + off) v (mem s)\<rparr>"

definition get_tf :: "nat \<Rightarrow> uint64 \<Rightarrow> 'a kproc_scheme \<Rightarrow> uint64" where
  "get_tf p off s = ld64 (mem s) (p_trapframe (procs s p) + off)"

definition proc_pagetable :: "nat \<Rightarrow> 'a kproc_scheme \<Rightarrow> (uint64, 'a kproc_scheme) res" where
  "proc_pagetable p s =
    bind (uvmcreate s) (\<lambda>pagetable s.
    if pagetable = 0 then Ok 0 s
    else
      bind (mappages pagetable TRAMPOLINE PGSIZE (trampoline s) (PTE_R OR PTE_X) s) (\<lambda>r s.
      if sint r < 0 then bind (uvmfree pagetable 0 s) (\<lambda>_ s. Ok 0 s)
      else
        bind (mappages pagetable TRAPFRAME PGSIZE (p_trapframe (procs s p)) (PTE_R OR PTE_W) s) (\<lambda>r s.
        if sint r < 0 then
          bind (uvmunmap pagetable TRAMPOLINE 1 False s) (\<lambda>_ s. bind (uvmfree pagetable 0 s) (\<lambda>_ s. Ok 0 s))
        else Ok pagetable s)))"

definition proc_freepagetable :: "uint64 \<Rightarrow> uint64 \<Rightarrow> 'a kmem_scheme \<Rightarrow> (unit, 'a kmem_scheme) res" where
  "proc_freepagetable pagetable sz s =
    bind (uvmunmap pagetable TRAMPOLINE 1 False s) (\<lambda>_ s.
    bind (uvmunmap pagetable TRAPFRAME 1 False s) (\<lambda>_ s. uvmfree pagetable sz s))"

definition cleared_proc :: "proc \<Rightarrow> proc" where
  "cleared_proc q =
    q\<lparr>p_state := UNUSED, p_chan := NoChan, p_killed := 0, p_xstate := 0, p_pid := 0, p_sysCallCnt := 0, p_tickets := 0,
      p_stride_pass := 0, p_parent := None, p_sz := 0, p_pagetable := 0, p_trapframe := 0, p_name := (p_name q)[0 := 0]\<rparr>"

definition freeproc :: "nat \<Rightarrow> 'a kproc_scheme \<Rightarrow> (unit, 'a kproc_scheme) res" where
  "freeproc p s =
    bind (if p_trapframe (procs s p) \<noteq> 0 then kfree (p_trapframe (procs s p)) s else Ok () s) (\<lambda>_ s.
    let s = upd_proc p (\<lambda>q. q\<lparr>p_trapframe := 0\<rparr>) s in
    bind (if p_pagetable (procs s p) \<noteq> 0 then proc_freepagetable (p_pagetable (procs s p)) (p_sz (procs s p)) s
          else Ok () s) (\<lambda>_ s.
    Ok () (upd_proc p cleared_proc s)))"

text \<open>The search of \<open>allocproc\<close>: the slot found is returned with its lock held.\<close>

function find_unused :: "nat \<Rightarrow> 'a kproc_scheme \<Rightarrow> (nat option, 'a kproc_scheme) res" where
  "find_unused i s =
    (if i < NPROC then
       bind (acquire (proc_lock i) s) (\<lambda>_ s.
       if p_state (procs s i) = UNUSED then Ok (Some i) s
       else bind (release (proc_lock i) s) (\<lambda>_ s. find_unused (Suc i) s))
     else Ok None s)"
  by pat_completeness auto
termination by (relation "measure (\<lambda>(i, s). NPROC - i)") auto

declare find_unused.simps [simp del]

definition allocproc :: "'a kproc_scheme \<Rightarrow> (nat option, 'a kproc_scheme) res" where
  "allocproc s =
    bind (find_unused 0 s) (\<lambda>po s.
    case po of
      None \<Rightarrow> Ok None s
    | Some p \<Rightarrow>
        bind (allocpid s) (\<lambda>pid s.
        let s = upd_proc p (\<lambda>q. q\<lparr>p_state := USED, p_pid := pid, p_schedCnt := 0\<rparr>) s in
        bind (case sched_config s of
                LOTTERY \<Rightarrow> set_proc_tickets (Some p) 10 s
              | STRIDE \<Rightarrow>
                  bind (set_proc_tickets (Some p) 60 s) (\<lambda>_ s.
                  case stride_of (p_tickets (procs s p)) of
                    None \<Rightarrow> Undef
                  | Some d \<Rightarrow> Ok () (upd_proc p (\<lambda>q. q\<lparr>p_stride_pass := d\<rparr>) s))
              | ROUND_ROBIN \<Rightarrow> Ok () s) (\<lambda>_ s.
        bind (kalloc s) (\<lambda>tf s.
        let s = upd_proc p (\<lambda>q. q\<lparr>p_trapframe := tf\<rparr>) s in
        if tf = 0 then
          bind (freeproc p s) (\<lambda>_ s. bind (release (proc_lock p) s) (\<lambda>_ s. Ok None s))
        else
          bind (proc_pagetable p s) (\<lambda>pt s.
          let s = upd_proc p (\<lambda>q. q\<lparr>p_pagetable := pt\<rparr>) s in
          if pt = 0 then
            bind (freeproc p s) (\<lambda>_ s. bind (release (proc_lock p) s) (\<lambda>_ s. Ok None s))
          else
            Ok (Some p) (upd_proc p (\<lambda>q. q\<lparr>p_context :=
              \<lparr>ctx_ra = forkret_addr s, ctx_sp = p_kstack q + PGSIZE, ctx_s = \<lambda>_. 0\<rparr>\<rparr>) s))))))"

section \<open>The first process\<close>

definition initcode :: "uchar list" where
  "initcode =
    [0x17, 0x05, 0x00, 0x00, 0x13, 0x05, 0x45, 0x02,
     0x97, 0x05, 0x00, 0x00, 0x93, 0x85, 0x35, 0x02,
     0x93, 0x08, 0x70, 0x00, 0x73, 0x00, 0x00, 0x00,
     0x93, 0x08, 0x20, 0x00, 0x73, 0x00, 0x00, 0x00,
     0xef, 0xf0, 0x9f, 0xff, 0x2f, 0x69, 0x6e, 0x69,
     0x74, 0x00, 0x00, 0x24, 0x00, 0x00, 0x00, 0x00,
     0x00, 0x00, 0x00, 0x00]"

definition bytes_of_string :: "string \<Rightarrow> uchar list" where
  "bytes_of_string cs = map (\<lambda>c. of_nat (of_char c)) cs @ [0]"

definition userinit :: "'a kfs_scheme \<Rightarrow> (unit, 'a kfs_scheme) res" where
  "userinit s =
    bind (allocproc s) (\<lambda>po s.
    let s = s\<lparr>initproc := po\<rparr> in
    case po of
      None \<Rightarrow> Undef
    | Some p \<Rightarrow>
        bind (printf (Some ''userinit pid : %d\<newline>'') [ArgInt (p_pid (procs s p))] s) (\<lambda>_ s.
        bind (uvminit (p_pagetable (procs s p)) initcode (of_nat (length initcode)) s) (\<lambda>_ s.
        let s = upd_proc p (\<lambda>q. q\<lparr>p_sz := PGSIZE\<rparr>) s;
            s = set_tf p tf_epc 0 s;
            s = set_tf p tf_sp PGSIZE s
        in
        bind (defined (safestrcpy (p_name (procs s p)) (bytes_of_string ''initcode'') 16) s) (\<lambda>nm s.
        let s = upd_proc p (\<lambda>q. q\<lparr>p_name := nm\<rparr>) s in
        bind (namei (bytes_of_string ''/'') s) (\<lambda>cwd s.
        let s = upd_proc p (\<lambda>q. q\<lparr>p_cwd := cwd\<rparr>) s;
            s = upd_proc p (\<lambda>q. q\<lparr>p_state := RUNNABLE\<rparr>) s
        in release (proc_lock p) s)))))"

section \<open>Memory\<close>

text \<open>The size is kept in a 32-bit variable.\<close>

definition growproc :: "int32 \<Rightarrow> 'a kproc_scheme \<Rightarrow> (int32, 'a kproc_scheme) res" where
  "growproc n s =
    bind (myproc s) (\<lambda>po s.
    case po of
      None \<Rightarrow> Undef
    | Some p \<Rightarrow>
        let sz = (ucast (p_sz (procs s p)) :: uint); pt = p_pagetable (procs s p) in
        if 0 < sint n then
          bind (uvmalloc pt (ucast sz) (ucast (sz + n)) s) (\<lambda>r s.
          let sz = (ucast r :: uint) in
          if sz = 0 then Ok (-1) s
          else Ok 0 (upd_proc p (\<lambda>q. q\<lparr>p_sz := ucast sz\<rparr>) s))
        else if sint n < 0 then
          bind (uvmdealloc pt (ucast sz) (ucast (sz + n)) s) (\<lambda>r s.
          let sz = (ucast r :: uint) in
          Ok 0 (upd_proc p (\<lambda>q. q\<lparr>p_sz := ucast sz\<rparr>) s))
        else Ok 0 (upd_proc p (\<lambda>q. q\<lparr>p_sz := ucast sz\<rparr>) s))"

definition page_count :: "uint64 \<Rightarrow> int32" where
  "page_count sz = of_int (sint (ucast (PGROUNDUP sz) :: int32) div 4096)"

fun count_used :: "nat \<Rightarrow> 'a kproc_scheme \<Rightarrow> nat" where
  "count_used 0 s = 0"
| "count_used (Suc n) s = count_used n s + (if p_state (procs s n) \<noteq> UNUSED then 1 else 0)"

definition fetch_info :: "int32 \<Rightarrow> 'a kproc_scheme \<Rightarrow> (unit, 'a kproc_scheme) res" where
  "fetch_info n s =
    bind (printf (Some ''fetch_info from the kernel space with parameter %d\<newline>'') [ArgInt n] s) (\<lambda>_ s.
    bind (myproc s) (\<lambda>po s.
    if n = 1 then
      printf (Some ''Count of the processes in the system: %d\<newline>'') [ArgInt (of_nat (count_used NPROC s))] s
    else if n = 2 then
      (case po of
         None \<Rightarrow> Undef
       | Some p \<Rightarrow>
           printf (Some ''The number of system calls this program has invoked: %d\<newline>'') [ArgInt (p_sysCallCnt (procs s p))] s)
    else if n = 3 then
      (case po of
         None \<Rightarrow> Undef
       | Some p \<Rightarrow>
           printf (Some ''The number of virtual memory pages the current process is using: %d\<newline>'')
             [ArgInt (page_count (p_sz (procs s p)))] s)
    else if n = 4 then
      (case po of
         None \<Rightarrow> Undef
       | Some p \<Rightarrow>
           bind (printf (Some ''The number of virtual memory pages the current process is using: %d\<newline>'')
             [ArgInt (page_count (p_sz (procs s p)))] s) (\<lambda>_ s.
           bind (printf (Some ''increase mem allocation of current process by using growproc()...\<newline>'') [] s) (\<lambda>_ s.
           bind (growproc 4096 s) (\<lambda>_ s.
           printf (Some ''The new number of virtual memory pages the current process is using: %d\<newline>'')
             [ArgInt (ucast (PGROUNDUP (p_sz (procs s p)) div PGSIZE))] s))))
    else printf (Some ''Unsupport parameter\<newline>'') [] s))"

section \<open>fork, exit and wait\<close>

fun fork_files :: "nat \<Rightarrow> nat \<Rightarrow> nat \<Rightarrow> nat \<Rightarrow> 'a kfile_scheme \<Rightarrow> (unit, 'a kfile_scheme) res" where
  "fork_files 0 i p np s = Ok () s"
| "fork_files (Suc k) i p np s =
    bind (case p_ofile (procs s p) i of
            None \<Rightarrow> Ok () s
          | Some f \<Rightarrow>
              bind (filedup f s) (\<lambda>f s. Ok () (upd_proc np (\<lambda>q. q\<lparr>p_ofile := (p_ofile q)(i := Some f)\<rparr>) s))) (\<lambda>_ s.
    fork_files k (Suc i) p np s)"

definition fork :: "'a kfile_scheme \<Rightarrow> (int32, 'a kfile_scheme) res" where
  "fork s =
    bind (myproc s) (\<lambda>po s.
    case po of
      None \<Rightarrow> Undef
    | Some p \<Rightarrow>
        bind (allocproc s) (\<lambda>npo s.
        case npo of
          None \<Rightarrow> Ok (-1) s
        | Some np \<Rightarrow>
            bind (uvmcopy (p_pagetable (procs s p)) (p_pagetable (procs s np)) (p_sz (procs s p)) s) (\<lambda>r s.
            if sint r < 0 then
              bind (freeproc np s) (\<lambda>_ s. bind (release (proc_lock np) s) (\<lambda>_ s. Ok (-1) s))
            else
              let s = upd_proc np (\<lambda>q. q\<lparr>p_sz := p_sz (procs s p)\<rparr>) s;
                  s = s\<lparr>mem := wrbytes (p_trapframe (procs s np)) (rdbytes (mem s) (p_trapframe (procs s p)) (unat tf_size)) (mem s)\<rparr>;
                  s = set_tf np tf_a0 0 s
              in
              bind (fork_files NOFILE 0 p np s) (\<lambda>_ s.
              bind (case p_cwd (procs s p) of None \<Rightarrow> Undef | Some cwd \<Rightarrow> idup cwd s) (\<lambda>cwd s.
              let s = upd_proc np (\<lambda>q. q\<lparr>p_cwd := Some cwd\<rparr>) s in
              bind (defined (safestrcpy (p_name (procs s np)) (p_name (procs s p)) 16) s) (\<lambda>nm s.
              let s = upd_proc np (\<lambda>q. q\<lparr>p_name := nm\<rparr>) s;
                  pid = p_pid (procs s np)
              in
              bind (release (proc_lock np) s) (\<lambda>_ s.
              bind (acquire wait_lock s) (\<lambda>_ s.
              let s = upd_proc np (\<lambda>q. q\<lparr>p_parent := Some p\<rparr>) s in
              bind (release wait_lock s) (\<lambda>_ s.
              bind (acquire (proc_lock np) s) (\<lambda>_ s.
              let s = upd_proc np (\<lambda>q. q\<lparr>p_state := RUNNABLE\<rparr>) s in
              bind (release (proc_lock np) s) (\<lambda>_ s. Ok pid s)))))))))))"

fun close_files :: "nat \<Rightarrow> nat \<Rightarrow> nat \<Rightarrow> 'a kfile_scheme \<Rightarrow> (unit, 'a kfile_scheme) res" where
  "close_files 0 fd p s = Ok () s"
| "close_files (Suc k) fd p s =
    bind (case p_ofile (procs s p) fd of
            None \<Rightarrow> Ok () s
          | Some f \<Rightarrow>
              bind (fileclose f s) (\<lambda>_ s. Ok () (upd_proc p (\<lambda>q. q\<lparr>p_ofile := (p_ofile q)(fd := None)\<rparr>) s))) (\<lambda>_ s.
    close_files k (Suc fd) p s)"

definition parent_chan :: "nat option \<Rightarrow> chan" where
  "parent_chan po = (case po of None \<Rightarrow> NoChan | Some q \<Rightarrow> ChanProc q)"

definition kexit :: "int32 \<Rightarrow> 'a kfile_scheme \<Rightarrow> (unit, 'a kfile_scheme) res" where
  "kexit status s =
    bind (myproc s) (\<lambda>po s.
    if po = initproc s then Panic ''init exiting''
    else
      (case po of
         None \<Rightarrow> Undef
       | Some p \<Rightarrow>
           bind (close_files NOFILE 0 p s) (\<lambda>_ s.
           bind (begin_op s) (\<lambda>_ s.
           bind (case p_cwd (procs s p) of None \<Rightarrow> Undef | Some cwd \<Rightarrow> iput cwd s) (\<lambda>_ s.
           bind (end_op s) (\<lambda>_ s.
           let s = upd_proc p (\<lambda>q. q\<lparr>p_cwd := None\<rparr>) s in
           bind (acquire wait_lock s) (\<lambda>_ s.
           bind (reparent p s) (\<lambda>_ s.
           bind (wakeup (parent_chan (p_parent (procs s p))) s) (\<lambda>_ s.
           bind (acquire (proc_lock p) s) (\<lambda>_ s.
           let s = upd_proc p (\<lambda>q. q\<lparr>p_xstate := status\<rparr>) s;
               s = upd_proc p (\<lambda>q. q\<lparr>p_state := ZOMBIE\<rparr>) s
           in
           bind (release wait_lock s) (\<lambda>_ s.
           bind (sched s) (\<lambda>_ s. Panic ''zombie exit''))))))))))))"

text \<open>
  The scan of \<open>wait\<close> from slot \<open>i\<close> on: \<open>Some r\<close> is the return value, with the locks released; otherwise whether a child was
  seen.
\<close>

function wait_scan :: "nat \<Rightarrow> bool \<Rightarrow> uint64 \<Rightarrow> nat \<Rightarrow> 'a kproc_scheme \<Rightarrow> (int32 option \<times> bool, 'a kproc_scheme) res" where
  "wait_scan i havekids addr p s =
    (if i < NPROC then
       if p_parent (procs s i) = Some p then
         bind (acquire (proc_lock i) s) (\<lambda>_ s.
         if p_state (procs s i) = ZOMBIE then
           let pid = p_pid (procs s i) in
           bind (if addr \<noteq> 0 then copyout (p_pagetable (procs s p)) addr (bytes32 (p_xstate (procs s i))) s else Ok 0 s) (\<lambda>r s.
           if sint r < 0 then
             bind (release (proc_lock i) s) (\<lambda>_ s. bind (release wait_lock s) (\<lambda>_ s. Ok (Some (-1), True) s))
           else
             bind (freeproc i s) (\<lambda>_ s.
             bind (release (proc_lock i) s) (\<lambda>_ s.
             bind (release wait_lock s) (\<lambda>_ s. Ok (Some pid, True) s))))
         else bind (release (proc_lock i) s) (\<lambda>_ s. wait_scan (Suc i) True addr p s))
       else wait_scan (Suc i) havekids addr p s
     else Ok (None, havekids) s)"
  by pat_completeness auto
termination by (relation "measure (\<lambda>(i, h, addr, p, s). NPROC - i)") auto

declare wait_scan.simps [simp del]

function wait_loop :: "uint64 \<Rightarrow> nat \<Rightarrow> 'a kproc_scheme \<Rightarrow> (int32, 'a kproc_scheme) res" where
  "wait_loop addr p s =
    bind (wait_scan 0 False addr p s) (\<lambda>(r, havekids) s.
    case r of
      Some pid \<Rightarrow> Ok pid s
    | None \<Rightarrow>
        if \<not> havekids \<or> p_killed (procs s p) \<noteq> 0 then bind (release wait_lock s) (\<lambda>_ s. Ok (-1) s)
        else bind (sleep (ChanProc p) wait_lock s) (\<lambda>_ s. wait_loop addr p s))"
  by pat_completeness auto
termination by (relation "measure (\<lambda>_. 0)") (auto simp: sleep_never_returns)

declare wait_loop.simps [simp del]

definition kwait :: "uint64 \<Rightarrow> 'a kproc_scheme \<Rightarrow> (int32, 'a kproc_scheme) res" where
  "kwait addr s =
    bind (myproc s) (\<lambda>po s.
    case po of
      None \<Rightarrow> Undef
    | Some p \<Rightarrow> bind (acquire wait_lock s) (\<lambda>_ s. wait_loop addr p s))"

definition kwait_resume :: "nat \<Rightarrow> uint64 \<Rightarrow> bool \<Rightarrow> 'a kproc_scheme \<Rightarrow> (int32, 'a kproc_scheme) res" where
  "kwait_resume p addr intena_saved s =
    bind (sleep_resume p wait_lock intena_saved s) (\<lambda>_ s. wait_loop addr p s)"

end
