(* ===== verification/Exec.thy ===== *)
theory Exec
  imports Proc_Life
begin

text \<open>
  \<open>kernel/exec.c\<close>: replacing the image of a process by a program from the file system. The ELF headers are local
  variables, read at the offsets of \<open>kernel/elf.h\<close>. The arguments are the strings of \<open>argv\<close>, without the
  final null pointer.
\<close>

section \<open>ELF\<close>

definition ELF_MAGIC :: uint where "ELF_MAGIC = 0x464C457F"
definition ELF_PROG_LOAD :: uint where "ELF_PROG_LOAD = 1"
definition elfhdr_size :: uint where "elfhdr_size = 64"
definition proghdr_size :: uint where "proghdr_size = 56"
definition MAXARG :: nat where "MAXARG = 32"

record elfhdr =
  elf_magic :: uint
  elf_entry :: uint64
  elf_phoff :: uint64
  elf_phnum :: ushort

record proghdr =
  ph_type :: uint
  ph_off :: uint64
  ph_vaddr :: uint64
  ph_filesz :: uint64
  ph_memsz :: uint64

definition get_elfhdr :: "uchar list \<Rightarrow> elfhdr" where
  "get_elfhdr d = \<lparr>elf_magic = get32 d 0, elf_entry = get64 d 24, elf_phoff = get64 d 32, elf_phnum = get16 d 56\<rparr>"

definition get_proghdr :: "uchar list \<Rightarrow> proghdr" where
  "get_proghdr d =
    \<lparr>ph_type = get32 d 0, ph_off = get64 d 8, ph_vaddr = get64 d 16, ph_filesz = get64 d 32, ph_memsz = get64 d 40\<rparr>"

text \<open>A \<open>readi\<close> into a local variable: the bytes stored, or \<open>None\<close> if fewer than \<open>n\<close> were read.\<close>

definition read_local :: "nat \<Rightarrow> uint \<Rightarrow> uint \<Rightarrow> 'a kfs_scheme \<Rightarrow> (uchar list option, 'a kfs_scheme) res" where
  "read_local ip off n s =
    bind (readi ip (IoLocal []) off n s) (\<lambda>(r, buf) s.
    if r \<noteq> n then Ok None s
    else case buf of IoLocal d \<Rightarrow> Ok (Some d) s | IoAddr a \<Rightarrow> Undef)"

text \<open>The loop of \<open>loadseg\<close>. Where the counter \<open>i\<close> wraps around to 0 the loop starts again and never ends.\<close>

function loadseg_loop ::
  "nat \<Rightarrow> uint64 \<Rightarrow> uint64 \<Rightarrow> nat \<Rightarrow> uint \<Rightarrow> uint \<Rightarrow> 'a kfs_scheme \<Rightarrow> (int32, 'a kfs_scheme) res" where
  "loadseg_loop i pagetable va ip offset sz s =
    (if i < unat sz then
       bind (walkaddr pagetable (va + of_nat i) s) (\<lambda>pa s.
       if pa = 0 then Panic ''loadseg: address should exist''
       else
         let n = (if sz - of_nat i < 4096 then sz - of_nat i else 4096) in
         bind (readi ip (IoAddr (KernAddr pa)) (offset + of_nat i) n s) (\<lambda>(r, _) s.
         if r \<noteq> n then Ok (-1) s
         else if i + 4096 < 2 ^ 32 then loadseg_loop (i + 4096) pagetable va ip offset sz s
         else Spin))
     else Ok 0 s)"
  by pat_completeness auto
termination by (relation "measure (\<lambda>(i, pt, va, ip, off, sz, s). 2 ^ 32 - i)") auto

declare loadseg_loop.simps [simp del]

definition loadseg ::
  "uint64 \<Rightarrow> uint64 \<Rightarrow> nat \<Rightarrow> uint \<Rightarrow> uint \<Rightarrow> 'a kfs_scheme \<Rightarrow> (int32, 'a kfs_scheme) res" where
  "loadseg pagetable va ip offset sz s = loadseg_loop 0 pagetable va ip offset sz s"

text \<open>The loop over the program headers: whether it succeeded, and the size of the image so far.\<close>

fun exec_load ::
  "nat \<Rightarrow> uint \<Rightarrow> nat \<Rightarrow> uint64 \<Rightarrow> uint64 \<Rightarrow> 'a kfs_scheme \<Rightarrow> (bool \<times> uint64, 'a kfs_scheme) res" where
  "exec_load 0 off ip pagetable sz s = Ok (True, sz) s"
| "exec_load (Suc k) off ip pagetable sz s =
    bind (read_local ip off proghdr_size s) (\<lambda>d s.
    case d of
      None \<Rightarrow> Ok (False, sz) s
    | Some d \<Rightarrow>
        let ph = get_proghdr d in
        if ph_type ph \<noteq> ELF_PROG_LOAD then exec_load k (off + proghdr_size) ip pagetable sz s
        else if ph_memsz ph < ph_filesz ph then Ok (False, sz) s
        else if ph_vaddr ph + ph_memsz ph < ph_vaddr ph then Ok (False, sz) s
        else
          bind (uvmalloc pagetable sz (ph_vaddr ph + ph_memsz ph) s) (\<lambda>sz1 s.
          if sz1 = 0 then Ok (False, sz) s
          else if ph_vaddr ph mod PGSIZE \<noteq> 0 then Ok (False, sz1) s
          else
            bind (loadseg pagetable (ph_vaddr ph) ip (ucast (ph_off ph)) (ucast (ph_filesz ph)) s) (\<lambda>r s.
            if sint r < 0 then Ok (False, sz1) s
            else exec_load k (off + proghdr_size) ip pagetable sz1 s)))"

section \<open>Arguments\<close>

definition align16 :: "uint64 \<Rightarrow> uint64" where
  "align16 sp = sp - sp mod 16"

text \<open>The loop that pushes the strings: \<open>None\<close> on failure, else the stack pointer and the addresses pushed.\<close>

fun push_args ::
  "uchar list list \<Rightarrow> nat \<Rightarrow> uint64 \<Rightarrow> uint64 \<Rightarrow> uint64 \<Rightarrow> uint64 list \<Rightarrow> 'a kmem_scheme \<Rightarrow>
   ((uint64 \<times> uint64 list) option, 'a kmem_scheme) res" where
  "push_args [] argc pagetable sp stackbase ustack s = Ok (Some (sp, ustack)) s"
| "push_args (arg # args) argc pagetable sp stackbase ustack s =
    (if MAXARG \<le> argc then Ok None s
     else
       (case strlen arg of
          None \<Rightarrow> Undef
        | Some n \<Rightarrow>
            let sp = align16 (sp - (of_nat n + 1)) in
            if sp < stackbase then Ok None s
            else
              bind (copyout pagetable sp (take (n + 1) arg) s) (\<lambda>r s.
              if sint r < 0 then Ok None s
              else push_args args (Suc argc) pagetable sp stackbase (ustack @ [sp]) s)))"

definition bytes64 :: "uint64 \<Rightarrow> uchar list" where
  "bytes64 w = bytes32 (ucast w) @ bytes32 (ucast (drop_bit 32 w))"

text \<open>The part of the path after its last slash.\<close>

fun path_last :: "uchar list \<Rightarrow> uchar list \<Rightarrow> uchar list option" where
  "path_last [] la = None"
| "path_last (c # s) la = (if c = 0 then Some la else path_last s (if c = slash then s else la))"

section \<open>exec\<close>

definition exec_bad ::
  "uint64 \<Rightarrow> uint64 \<Rightarrow> nat option \<Rightarrow> 'a kfs_scheme \<Rightarrow> (int32, 'a kfs_scheme) res" where
  "exec_bad pagetable sz ipo s =
    bind (if pagetable \<noteq> 0 then proc_freepagetable pagetable sz s else Ok () s) (\<lambda>_ s.
    bind (case ipo of
            None \<Rightarrow> Ok () s
          | Some ip \<Rightarrow> bind (iunlockput ip s) (\<lambda>_ s. end_op s)) (\<lambda>_ s.
    Ok (-1) s))"

text \<open>After the arguments are on the new stack: commit to the image.\<close>

definition exec_commit ::
  "nat \<Rightarrow> uchar list \<Rightarrow> nat \<Rightarrow> uint64 \<Rightarrow> uint64 \<Rightarrow> uint64 \<Rightarrow> uint64 \<Rightarrow> uint64 \<Rightarrow> 'a kfs_scheme \<Rightarrow> (int32, 'a kfs_scheme) res" where
  "exec_commit p path argc pagetable sz oldsz sp entry s =
    (let s = set_tf p tf_a1 sp s in
     bind (defined (path_last path path) s) (\<lambda>la s.
     bind (defined (safestrcpy (p_name (procs s p)) la 16) s) (\<lambda>nm s.
     let s = upd_proc p (\<lambda>q. q\<lparr>p_name := nm\<rparr>) s;
         oldpagetable = p_pagetable (procs s p);
         s = upd_proc p (\<lambda>q. q\<lparr>p_pagetable := pagetable\<rparr>) s;
         s = upd_proc p (\<lambda>q. q\<lparr>p_sz := sz\<rparr>) s;
         s = set_tf p tf_epc entry s;
         s = set_tf p tf_sp sp s
     in bind (proc_freepagetable oldpagetable oldsz s) (\<lambda>_ s. Ok (of_nat argc) s))))"

definition exec_stack ::
  "nat \<Rightarrow> uchar list \<Rightarrow> uchar list list \<Rightarrow> uint64 \<Rightarrow> uint64 \<Rightarrow> uint64 \<Rightarrow> 'a kfs_scheme \<Rightarrow> (int32, 'a kfs_scheme) res" where
  "exec_stack p path argv pagetable sz entry s =
    (let oldsz = p_sz (procs s p);
         sz = PGROUNDUP sz
     in
     bind (uvmalloc pagetable sz (sz + 2 * PGSIZE) s) (\<lambda>sz1 s.
     if sz1 = 0 then exec_bad pagetable sz None s
     else
       let sz = sz1 in
       bind (uvmclear pagetable (sz - 2 * PGSIZE) s) (\<lambda>_ s.
       let stackbase = sz - PGSIZE in
       bind (push_args argv 0 pagetable sz stackbase [] s) (\<lambda>r s.
       case r of
         None \<Rightarrow> exec_bad pagetable sz None s
       | Some (sp, ustack) \<Rightarrow>
           if MAXARG \<le> length ustack then Undef
           else
             let argc = length ustack;
                 sp = align16 (sp - of_nat ((argc + 1) * 8))
             in
             if sp < stackbase then exec_bad pagetable sz None s
             else
               bind (copyout pagetable sp (concat (map bytes64 (ustack @ [0]))) s) (\<lambda>r s.
               if sint r < 0 then exec_bad pagetable sz None s
               else exec_commit p path argc pagetable sz oldsz sp entry s)))))"

definition exec :: "uchar list \<Rightarrow> uchar list list \<Rightarrow> 'a kfs_scheme \<Rightarrow> (int32, 'a kfs_scheme) res" where
  "exec path argv s =
    bind (myproc s) (\<lambda>po s.
    case po of
      None \<Rightarrow> Undef
    | Some p \<Rightarrow>
        bind (begin_op s) (\<lambda>_ s.
        bind (namei path s) (\<lambda>ipo s.
        case ipo of
          None \<Rightarrow> bind (end_op s) (\<lambda>_ s. Ok (-1) s)
        | Some ip \<Rightarrow>
            bind (ilock (Some ip) s) (\<lambda>_ s.
            bind (read_local ip 0 elfhdr_size s) (\<lambda>d s.
            case d of
              None \<Rightarrow> exec_bad 0 0 (Some ip) s
            | Some d \<Rightarrow>
                let elf = get_elfhdr d in
                if elf_magic elf \<noteq> ELF_MAGIC then exec_bad 0 0 (Some ip) s
                else
                  bind (proc_pagetable p s) (\<lambda>pagetable s.
                  if pagetable = 0 then exec_bad 0 0 (Some ip) s
                  else
                    bind (exec_load (unat (elf_phnum elf)) (ucast (elf_phoff elf)) ip pagetable 0 s) (\<lambda>(good, sz) s.
                    if \<not> good then exec_bad pagetable sz (Some ip) s
                    else
                      bind (iunlockput ip s) (\<lambda>_ s.
                      bind (end_op s) (\<lambda>_ s.
                      bind (myproc s) (\<lambda>po s.
                      case po of
                        None \<Rightarrow> Undef
                      | Some p \<Rightarrow> exec_stack p path argv pagetable sz (elf_entry elf) s))))))))))"

end
