(* ===== verification/Sysfile.thy ===== *)
theory Sysfile
  imports Exec
begin

text \<open>
  The arguments of a system call (\<open>kernel/syscall.c\<close>) and the system calls on files (\<open>kernel/sysfile.c\<close>). A file or
  inode pointer is an index, \<open>None\<close> the null pointer; a string argument is the bytes copied from the user.
\<close>

section \<open>Arguments\<close>

definition MAXPATH :: nat where "MAXPATH = 128"

definition cur_proc :: "'a machine_scheme \<Rightarrow> (nat, 'a machine_scheme) res" where
  "cur_proc s = bind (myproc s) (\<lambda>po s. case po of None \<Rightarrow> Undef | Some p \<Rightarrow> Ok p s)"

definition fetchaddr :: "uint64 \<Rightarrow> 'a kproc_scheme \<Rightarrow> (uint64 option, 'a kproc_scheme) res" where
  "fetchaddr addr s =
    bind (cur_proc s) (\<lambda>p s.
    let sz = p_sz (procs s p) in
    if sz \<le> addr \<or> sz < addr + 8 then Ok None s
    else
      bind (copyin (p_pagetable (procs s p)) [] addr 8 s) (\<lambda>(r, d) s.
      if r \<noteq> 0 then Ok None s else Ok (Some (get64 d 0)) s))"

definition fetchstr :: "uint64 \<Rightarrow> nat \<Rightarrow> 'a kproc_scheme \<Rightarrow> (int32 \<times> uchar list, 'a kproc_scheme) res" where
  "fetchstr addr mx s =
    bind (cur_proc s) (\<lambda>p s.
    bind (copyinstr (p_pagetable (procs s p)) [] addr mx s) (\<lambda>(err, buf) s.
    if sint err < 0 then Ok (err, buf) s
    else bind (defined (strlen buf) s) (\<lambda>n s. Ok (of_nat n, buf) s)))"

definition argraw :: "nat \<Rightarrow> 'a kproc_scheme \<Rightarrow> (uint64, 'a kproc_scheme) res" where
  "argraw n s =
    bind (cur_proc s) (\<lambda>p s.
    if n = 0 then Ok (get_tf p tf_a0 s) s
    else if n = 1 then Ok (get_tf p tf_a1 s) s
    else if n = 2 then Ok (get_tf p tf_a2 s) s
    else if n = 3 then Ok (get_tf p tf_a3 s) s
    else if n = 4 then Ok (get_tf p tf_a4 s) s
    else if n = 5 then Ok (get_tf p tf_a5 s) s
    else Panic ''argraw'')"

definition argint :: "nat \<Rightarrow> 'a kproc_scheme \<Rightarrow> (int32, 'a kproc_scheme) res" where
  "argint n s = bind (argraw n s) (\<lambda>v s. Ok (ucast v) s)"

definition argaddr :: "nat \<Rightarrow> 'a kproc_scheme \<Rightarrow> (uint64, 'a kproc_scheme) res" where
  "argaddr n s = argraw n s"

definition argstr :: "nat \<Rightarrow> nat \<Rightarrow> 'a kproc_scheme \<Rightarrow> (int32 \<times> uchar list, 'a kproc_scheme) res" where
  "argstr n mx s = bind (argaddr n s) (\<lambda>addr s. fetchstr addr mx s)"

section \<open>File descriptors\<close>

definition argfd :: "nat \<Rightarrow> 'a kproc_scheme \<Rightarrow> ((nat \<times> nat) option, 'a kproc_scheme) res" where
  "argfd n s =
    bind (argint n s) (\<lambda>fd s.
    if sint fd < 0 \<or> int NOFILE \<le> sint fd then Ok None s
    else
      bind (cur_proc s) (\<lambda>p s.
      case p_ofile (procs s p) (unat fd) of None \<Rightarrow> Ok None s | Some f \<Rightarrow> Ok (Some (unat fd, f)) s))"

definition set_ofile :: "nat \<Rightarrow> nat \<Rightarrow> nat option \<Rightarrow> 'a kproc_scheme \<Rightarrow> 'a kproc_scheme" where
  "set_ofile p fd fo s = upd_proc p (\<lambda>q. q\<lparr>p_ofile := (p_ofile q)(fd := fo)\<rparr>) s"

definition fdalloc :: "nat \<Rightarrow> 'a kproc_scheme \<Rightarrow> (nat option, 'a kproc_scheme) res" where
  "fdalloc f s =
    bind (cur_proc s) (\<lambda>p s.
    case find (\<lambda>fd. p_ofile (procs s p) fd = None) [0..<NOFILE] of
      Some fd \<Rightarrow> Ok (Some fd) (set_ofile p fd (Some f) s)
    | None \<Rightarrow> Ok None s)"

definition sys_dup :: "'a kfile_scheme \<Rightarrow> (uint64, 'a kfile_scheme) res" where
  "sys_dup s =
    bind (argfd 0 s) (\<lambda>r s.
    case r of
      None \<Rightarrow> Ok (-1) s
    | Some (_, f) \<Rightarrow>
        bind (fdalloc f s) (\<lambda>r s.
        case r of
          None \<Rightarrow> Ok (-1) s
        | Some fd \<Rightarrow> bind (filedup f s) (\<lambda>_ s. Ok (of_nat fd) s)))"

definition sys_read :: "'a kfile_scheme \<Rightarrow> (uint64, 'a kfile_scheme) res" where
  "sys_read s =
    bind (argfd 0 s) (\<lambda>r s.
    case r of
      None \<Rightarrow> Ok (-1) s
    | Some (_, f) \<Rightarrow>
        bind (argint 2 s) (\<lambda>n s. bind (argaddr 1 s) (\<lambda>p s.
        bind (fileread f p n s) (\<lambda>r s. Ok (scast r) s))))"

definition sys_write :: "'a kfile_scheme \<Rightarrow> (uint64, 'a kfile_scheme) res" where
  "sys_write s =
    bind (argfd 0 s) (\<lambda>r s.
    case r of
      None \<Rightarrow> Ok (-1) s
    | Some (_, f) \<Rightarrow>
        bind (argint 2 s) (\<lambda>n s. bind (argaddr 1 s) (\<lambda>p s.
        bind (filewrite f p n s) (\<lambda>r s. Ok (scast r) s))))"

definition sys_close :: "'a kfile_scheme \<Rightarrow> (uint64, 'a kfile_scheme) res" where
  "sys_close s =
    bind (argfd 0 s) (\<lambda>r s.
    case r of
      None \<Rightarrow> Ok (-1) s
    | Some (fd, f) \<Rightarrow>
        bind (cur_proc s) (\<lambda>p s.
        bind (fileclose f (set_ofile p fd None s)) (\<lambda>_ s. Ok 0 s)))"

definition sys_fstat :: "uchar list \<Rightarrow> 'a kfile_scheme \<Rightarrow> (uint64, 'a kfile_scheme) res" where
  "sys_fstat pad s =
    bind (argfd 0 s) (\<lambda>r s.
    case r of
      None \<Rightarrow> Ok (-1) s
    | Some (_, f) \<Rightarrow> bind (argaddr 1 s) (\<lambda>st s. bind (filestat pad f st s) (\<lambda>r s. Ok (scast r) s)))"

section \<open>Directory entries\<close>

text \<open>\<open>end_op\<close> and the return of -1.\<close>

definition fail_op :: "'a klog_scheme \<Rightarrow> (uint64, 'a klog_scheme) res" where
  "fail_op s = bind (end_op s) (\<lambda>_ s. Ok (-1) s)"

definition add_nlink :: "nat \<Rightarrow> ushort \<Rightarrow> 'a kfs_scheme \<Rightarrow> (unit, 'a kfs_scheme) res" where
  "add_nlink ip d s = iupdate ip (upd_inode ip (\<lambda>i. i\<lparr>i_nlink := i_nlink i + d\<rparr>) s)"

definition sys_link_bad :: "nat \<Rightarrow> 'a kfs_scheme \<Rightarrow> (uint64, 'a kfs_scheme) res" where
  "sys_link_bad ip s =
    bind (ilock (Some ip) s) (\<lambda>_ s.
    bind (add_nlink ip (-1) s) (\<lambda>_ s.
    bind (iunlockput ip s) (\<lambda>_ s. fail_op s)))"

definition link_inode :: "uchar list \<Rightarrow> uchar list \<Rightarrow> 'a kfs_scheme \<Rightarrow> (uint64, 'a kfs_scheme) res" where
  "link_inode old new s =
    bind (begin_op s) (\<lambda>_ s.
    bind (namei old s) (\<lambda>ipo s.
    case ipo of
      None \<Rightarrow> fail_op s
    | Some ip \<Rightarrow>
        bind (ilock (Some ip) s) (\<lambda>_ s.
        if i_type (itable s ip) = T_DIR then bind (iunlockput ip s) (\<lambda>_ s. fail_op s)
        else
          bind (add_nlink ip 1 s) (\<lambda>_ s.
          bind (iunlock (Some ip) s) (\<lambda>_ s.
          bind (nameiparent new (replicate DIRSIZ 0) s) (\<lambda>(dpo, name) s.
          case dpo of
            None \<Rightarrow> sys_link_bad ip s
          | Some dp \<Rightarrow>
              bind (ilock (Some dp) s) (\<lambda>_ s.
              bind (if i_dev (itable s dp) \<noteq> i_dev (itable s ip) then Ok (-1) s
                    else dirlink dp name (i_inum (itable s ip)) s) (\<lambda>r s.
              if sint r < 0 then bind (iunlockput dp s) (\<lambda>_ s. sys_link_bad ip s)
              else
                bind (iunlockput dp s) (\<lambda>_ s.
                bind (iput ip s) (\<lambda>_ s.
                bind (end_op s) (\<lambda>_ s. Ok 0 s)))))))))))"

definition sys_link :: "'a kfs_scheme \<Rightarrow> (uint64, 'a kfs_scheme) res" where
  "sys_link s =
    bind (argstr 0 MAXPATH s) (\<lambda>(r, old) s.
    if sint r < 0 then Ok (-1) s
    else
      bind (argstr 1 MAXPATH s) (\<lambda>(r, new) s.
      if sint r < 0 then Ok (-1) s else link_inode old new s))"

function isdirempty_loop :: "nat \<Rightarrow> nat \<Rightarrow> 'a kfs_scheme \<Rightarrow> (bool, 'a kfs_scheme) res" where
  "isdirempty_loop off dp s =
    (if off < unat (i_size (itable s dp)) then
       bind (read_dirent dp (of_nat off) ''isdirempty: readi'' s) (\<lambda>de s.
       if de_inum de \<noteq> 0 then Ok False s
       else if off < 2 ^ 32 then isdirempty_loop (off + 16) dp s else Undef)
     else Ok True s)"
  by pat_completeness auto
termination by (relation "measure (\<lambda>(off, dp, s). 2 ^ 32 - off)") auto

declare isdirempty_loop.simps [simp del]

definition isdirempty :: "nat \<Rightarrow> 'a kfs_scheme \<Rightarrow> (bool, 'a kfs_scheme) res" where
  "isdirempty dp s = isdirempty_loop 32 dp s"

definition unlink_bad :: "nat \<Rightarrow> 'a kfs_scheme \<Rightarrow> (uint64, 'a kfs_scheme) res" where
  "unlink_bad dp s = bind (iunlockput dp s) (\<lambda>_ s. fail_op s)"

definition unlink_entry :: "nat \<Rightarrow> nat \<Rightarrow> uint \<Rightarrow> 'a kfs_scheme \<Rightarrow> (uint64, 'a kfs_scheme) res" where
  "unlink_entry dp ip off s =
    bind (ilock (Some ip) s) (\<lambda>_ s.
    if sint (i_nlink (itable s ip)) < 1 then Panic ''unlink: nlink < 1''
    else
      bind (if i_type (itable s ip) = T_DIR then isdirempty ip s else Ok True s) (\<lambda>emp s.
      if \<not> emp then bind (iunlockput ip s) (\<lambda>_ s. unlink_bad dp s)
      else
        bind (writei dp (IoLocal (replicate 16 0)) off 16 s) (\<lambda>r s.
        if r \<noteq> 16 then Panic ''unlink: writei''
        else
          bind (if i_type (itable s ip) = T_DIR then add_nlink dp (-1) s else Ok () s) (\<lambda>_ s.
          bind (iunlockput dp s) (\<lambda>_ s.
          bind (add_nlink ip (-1) s) (\<lambda>_ s.
          bind (iunlockput ip s) (\<lambda>_ s.
          bind (end_op s) (\<lambda>_ s. Ok 0 s))))))))"

definition unlink_path :: "uchar list \<Rightarrow> 'a kfs_scheme \<Rightarrow> (uint64, 'a kfs_scheme) res" where
  "unlink_path path s =
    bind (begin_op s) (\<lambda>_ s.
    bind (nameiparent path (replicate DIRSIZ 0) s) (\<lambda>(dpo, name) s.
    case dpo of
      None \<Rightarrow> fail_op s
    | Some dp \<Rightarrow>
        bind (ilock (Some dp) s) (\<lambda>_ s.
        bind (defined (namecmp name (bytes_of_string ''.'')) s) (\<lambda>c1 s.
        if c1 = 0 then unlink_bad dp s
        else
          bind (defined (namecmp name (bytes_of_string ''..'')) s) (\<lambda>c2 s.
          if c2 = 0 then unlink_bad dp s
          else
            bind (dirlookup dp name s) (\<lambda>r s.
            case r of
              None \<Rightarrow> unlink_bad dp s
            | Some (ip, off) \<Rightarrow> unlink_entry dp ip off s))))))"

definition sys_unlink :: "'a kfs_scheme \<Rightarrow> (uint64, 'a kfs_scheme) res" where
  "sys_unlink s =
    bind (argstr 0 MAXPATH s) (\<lambda>(r, path) s.
    if sint r < 0 then Ok (-1) s else unlink_path path s)"

text \<open>\<open>create\<close> from the point where the name is known to be free.\<close>

definition create_new ::
  "nat \<Rightarrow> uchar list \<Rightarrow> ushort \<Rightarrow> ushort \<Rightarrow> ushort \<Rightarrow> 'a kfs_scheme \<Rightarrow> (nat option, 'a kfs_scheme) res" where
  "create_new dp name type major minor s =
    bind (ialloc (i_dev (itable s dp)) type s) (\<lambda>ip s.
    bind (ilock (Some ip) s) (\<lambda>_ s.
    let s = upd_inode ip (\<lambda>i. i\<lparr>i_major := major, i_minor := minor, i_nlink := 1\<rparr>) s in
    bind (iupdate ip s) (\<lambda>_ s.
    bind (if type = T_DIR then
            bind (add_nlink dp 1 s) (\<lambda>_ s.
            bind (dirlink ip (bytes_of_string ''.'') (i_inum (itable s ip)) s) (\<lambda>r s.
            if sint r < 0 then Panic ''create dots''
            else
              bind (dirlink ip (bytes_of_string ''..'') (i_inum (itable s dp)) s) (\<lambda>r s.
              if sint r < 0 then Panic ''create dots'' else Ok () s)))
          else Ok () s) (\<lambda>_ s.
    bind (dirlink dp name (i_inum (itable s ip)) s) (\<lambda>r s.
    if sint r < 0 then Panic ''create: dirlink''
    else bind (iunlockput dp s) (\<lambda>_ s. Ok (Some ip) s))))))"

definition create ::
  "uchar list \<Rightarrow> ushort \<Rightarrow> ushort \<Rightarrow> ushort \<Rightarrow> 'a kfs_scheme \<Rightarrow> (nat option, 'a kfs_scheme) res" where
  "create path type major minor s =
    bind (nameiparent path (replicate DIRSIZ 0) s) (\<lambda>(dpo, name) s.
    case dpo of
      None \<Rightarrow> Ok None s
    | Some dp \<Rightarrow>
        bind (ilock (Some dp) s) (\<lambda>_ s.
        bind (dirlookup dp name s) (\<lambda>r s.
        case r of
          Some (ip, _) \<Rightarrow>
            bind (iunlockput dp s) (\<lambda>_ s.
            bind (ilock (Some ip) s) (\<lambda>_ s.
            if type = T_FILE \<and> (i_type (itable s ip) = T_FILE \<or> i_type (itable s ip) = T_DEVICE) then Ok (Some ip) s
            else bind (iunlockput ip s) (\<lambda>_ s. Ok None s)))
        | None \<Rightarrow> create_new dp name type major minor s)))"

section \<open>open\<close>

definition O_RDONLY :: int32 where "O_RDONLY = 0"
definition O_WRONLY :: int32 where "O_WRONLY = 1"
definition O_RDWR :: int32 where "O_RDWR = 2"
definition O_CREATE :: int32 where "O_CREATE = 0x200"
definition O_TRUNC :: int32 where "O_TRUNC = 0x400"

text \<open>The first half of \<open>sys_open\<close>: the locked inode, or \<open>None\<close> after \<open>end_op\<close>.\<close>

definition open_inode :: "uchar list \<Rightarrow> int32 \<Rightarrow> 'a kfs_scheme \<Rightarrow> (nat option, 'a kfs_scheme) res" where
  "open_inode path omode s =
    (if omode AND O_CREATE \<noteq> 0 then
       bind (create path T_FILE 0 0 s) (\<lambda>ipo s.
       case ipo of None \<Rightarrow> bind (end_op s) (\<lambda>_ s. Ok None s) | Some ip \<Rightarrow> Ok (Some ip) s)
     else
       bind (namei path s) (\<lambda>ipo s.
       case ipo of
         None \<Rightarrow> bind (end_op s) (\<lambda>_ s. Ok None s)
       | Some ip \<Rightarrow>
           bind (ilock (Some ip) s) (\<lambda>_ s.
           if i_type (itable s ip) = T_DIR \<and> omode \<noteq> O_RDONLY then
             bind (iunlockput ip s) (\<lambda>_ s. bind (end_op s) (\<lambda>_ s. Ok None s))
           else Ok (Some ip) s)))"

definition open_fd :: "nat \<Rightarrow> int32 \<Rightarrow> 'a kfile_scheme \<Rightarrow> (uint64, 'a kfile_scheme) res" where
  "open_fd ip omode s =
    (if i_type (itable s ip) = T_DEVICE \<and> (sint (i_major (itable s ip)) < 0 \<or> int NDEV \<le> sint (i_major (itable s ip))) then
       bind (iunlockput ip s) (\<lambda>_ s. fail_op s)
     else
       bind (filealloc s) (\<lambda>fo s.
       bind (case fo of None \<Rightarrow> Ok None s | Some f \<Rightarrow> fdalloc f s) (\<lambda>fdo s.
       case (fo, fdo) of
         (Some f, Some fd) \<Rightarrow>
           let s = (if i_type (itable s ip) = T_DEVICE
                    then upd_file f (\<lambda>x. x\<lparr>f_type := FD_DEVICE, f_major := i_major (itable s ip)\<rparr>) s
                    else upd_file f (\<lambda>x. x\<lparr>f_type := FD_INODE, f_off := 0\<rparr>) s);
               s = upd_file f (\<lambda>x. x\<lparr>f_readable := omode AND O_WRONLY = 0,
                     f_writable := omode AND O_WRONLY \<noteq> 0 \<or> omode AND O_RDWR \<noteq> 0, f_ip := Some ip\<rparr>) s
           in
           bind (if omode AND O_TRUNC \<noteq> 0 \<and> i_type (itable s ip) = T_FILE then itrunc ip s else Ok () s) (\<lambda>_ s.
           bind (iunlock (Some ip) s) (\<lambda>_ s.
           bind (end_op s) (\<lambda>_ s. Ok (of_nat fd) s)))
       | _ \<Rightarrow>
           bind (case fo of None \<Rightarrow> Ok () s | Some f \<Rightarrow> fileclose f s) (\<lambda>_ s.
           bind (iunlockput ip s) (\<lambda>_ s. fail_op s)))))"

definition sys_open :: "'a kfile_scheme \<Rightarrow> (uint64, 'a kfile_scheme) res" where
  "sys_open s =
    bind (argstr 0 MAXPATH s) (\<lambda>(n, path) s.
    if sint n < 0 then Ok (-1) s
    else
      bind (argint 1 s) (\<lambda>omode s.
      bind (begin_op s) (\<lambda>_ s.
      bind (open_inode path omode s) (\<lambda>ipo s.
      case ipo of None \<Rightarrow> Ok (-1) s | Some ip \<Rightarrow> open_fd ip omode s))))"

section \<open>Directories, devices, exec and pipes\<close>

definition sys_mkdir :: "'a kfs_scheme \<Rightarrow> (uint64, 'a kfs_scheme) res" where
  "sys_mkdir s =
    bind (begin_op s) (\<lambda>_ s.
    bind (argstr 0 MAXPATH s) (\<lambda>(r, path) s.
    if sint r < 0 then fail_op s
    else
      bind (create path T_DIR 0 0 s) (\<lambda>ipo s.
      case ipo of
        None \<Rightarrow> fail_op s
      | Some ip \<Rightarrow> bind (iunlockput ip s) (\<lambda>_ s. bind (end_op s) (\<lambda>_ s. Ok 0 s)))))"

definition sys_mknod :: "'a kfs_scheme \<Rightarrow> (uint64, 'a kfs_scheme) res" where
  "sys_mknod s =
    bind (begin_op s) (\<lambda>_ s.
    bind (argstr 0 MAXPATH s) (\<lambda>(r, path) s.
    if sint r < 0 then fail_op s
    else
      bind (argint 1 s) (\<lambda>major s.
      bind (argint 2 s) (\<lambda>minor s.
      bind (create path T_DEVICE (ucast major) (ucast minor) s) (\<lambda>ipo s.
      case ipo of
        None \<Rightarrow> fail_op s
      | Some ip \<Rightarrow> bind (iunlockput ip s) (\<lambda>_ s. bind (end_op s) (\<lambda>_ s. Ok 0 s)))))))"

definition sys_chdir :: "'a kfs_scheme \<Rightarrow> (uint64, 'a kfs_scheme) res" where
  "sys_chdir s =
    bind (cur_proc s) (\<lambda>p s.
    bind (begin_op s) (\<lambda>_ s.
    bind (argstr 0 MAXPATH s) (\<lambda>(r, path) s.
    if sint r < 0 then fail_op s
    else
      bind (namei path s) (\<lambda>ipo s.
      case ipo of
        None \<Rightarrow> fail_op s
      | Some ip \<Rightarrow>
          bind (ilock (Some ip) s) (\<lambda>_ s.
          if i_type (itable s ip) \<noteq> T_DIR then bind (iunlockput ip s) (\<lambda>_ s. fail_op s)
          else
            bind (iunlock (Some ip) s) (\<lambda>_ s.
            bind (case p_cwd (procs s p) of None \<Rightarrow> Undef | Some cwd \<Rightarrow> iput cwd s) (\<lambda>_ s.
            bind (end_op s) (\<lambda>_ s. Ok 0 (upd_proc p (\<lambda>q. q\<lparr>p_cwd := Some ip\<rparr>) s)))))))))"

text \<open>The loop of \<open>sys_exec\<close> that copies the arguments: the pages and strings so far, and whether it succeeded.\<close>

fun fetch_args ::
  "nat \<Rightarrow> nat \<Rightarrow> uint64 \<Rightarrow> (uint64 \<times> uchar list) list \<Rightarrow> 'a kproc_scheme \<Rightarrow>
   (bool \<times> (uint64 \<times> uchar list) list, 'a kproc_scheme) res" where
  "fetch_args 0 i uargv args s = Ok (False, args) s"
| "fetch_args (Suc k) i uargv args s =
    bind (fetchaddr (uargv + 8 * of_nat i) s) (\<lambda>r s.
    case r of
      None \<Rightarrow> Ok (False, args) s
    | Some uarg \<Rightarrow>
        if uarg = 0 then Ok (True, args) s
        else
          bind (kalloc s) (\<lambda>pg s.
          if pg = 0 then Ok (False, args) s
          else
            bind (fetchstr uarg 4096 s) (\<lambda>(r, buf) s.
            let s = s\<lparr>mem := wrbytes pg buf (mem s)\<rparr> in
            if sint r < 0 then Ok (False, args @ [(pg, buf)]) s
            else fetch_args k (Suc i) uargv (args @ [(pg, buf)]) s)))"

fun free_args :: "(uint64 \<times> uchar list) list \<Rightarrow> 'a kmem_scheme \<Rightarrow> (unit, 'a kmem_scheme) res" where
  "free_args [] s = Ok () s"
| "free_args ((pg, _) # args) s = bind (kfree pg s) (\<lambda>_ s. free_args args s)"

definition sys_exec :: "'a kfs_scheme \<Rightarrow> (uint64, 'a kfs_scheme) res" where
  "sys_exec s =
    bind (argstr 0 MAXPATH s) (\<lambda>(r, path) s.
    if sint r < 0 then Ok (-1) s
    else
      bind (argaddr 1 s) (\<lambda>uargv s.
      bind (fetch_args MAXARG 0 uargv [] s) (\<lambda>(good, args) s.
      if good then
        bind (exec path (map snd args) s) (\<lambda>ret s.
        bind (free_args args s) (\<lambda>_ s. Ok (scast ret) s))
      else bind (free_args args s) (\<lambda>_ s. Ok (-1) s))))"

definition close_both :: "nat \<Rightarrow> nat \<Rightarrow> 'a kfile_scheme \<Rightarrow> (uint64, 'a kfile_scheme) res" where
  "close_both rf wr s = bind (fileclose rf s) (\<lambda>_ s. bind (fileclose wr s) (\<lambda>_ s. Ok (-1) s))"

definition sys_pipe :: "'a kfile_scheme \<Rightarrow> (uint64, 'a kfile_scheme) res" where
  "sys_pipe s =
    bind (cur_proc s) (\<lambda>p s.
    bind (argaddr 0 s) (\<lambda>fdarray s.
    bind (pipealloc s) (\<lambda>r s.
    case r of
      None \<Rightarrow> Ok (-1) s
    | Some (rf, wr) \<Rightarrow>
        bind (fdalloc rf s) (\<lambda>fd0 s.
        case fd0 of
          None \<Rightarrow> close_both rf wr s
        | Some fd0 \<Rightarrow>
            bind (fdalloc wr s) (\<lambda>fd1 s.
            case fd1 of
              None \<Rightarrow> close_both rf wr (set_ofile p fd0 None s)
            | Some fd1 \<Rightarrow>
                bind (copyout (p_pagetable (procs s p)) fdarray (bytes32 (of_nat fd0)) s) (\<lambda>r s.
                bind (if sint r < 0 then Ok r s
                      else copyout (p_pagetable (procs s p)) (fdarray + 4) (bytes32 (of_nat fd1)) s) (\<lambda>r s.
                if sint r < 0 then close_both rf wr (set_ofile p fd1 None (set_ofile p fd0 None s))
                else Ok 0 s)))))))"

end
