(* ===== verification/Syscall.thy ===== *)
theory Syscall
  imports Sysfile
begin

text \<open>
  The system calls on processes (\<open>kernel/sysproc.c\<close>) and the dispatch by number (\<open>kernel/syscall.c\<close>). A system call that
  has to wait leaves through the scheduler.
\<close>

section \<open>Process system calls\<close>

definition sys_exit :: "'a kfile_scheme \<Rightarrow> (uint64, 'a kfile_scheme) res" where
  "sys_exit s = bind (argint 0 s) (\<lambda>n s. bind (kexit n s) (\<lambda>_ s. Ok 0 s))"

definition sys_getpid :: "'a kproc_scheme \<Rightarrow> (uint64, 'a kproc_scheme) res" where
  "sys_getpid s = bind (cur_proc s) (\<lambda>p s. Ok (scast (p_pid (procs s p))) s)"

definition sys_fork :: "'a kfile_scheme \<Rightarrow> (uint64, 'a kfile_scheme) res" where
  "sys_fork s = bind (fork s) (\<lambda>r s. Ok (scast r) s)"

definition sys_wait :: "'a kproc_scheme \<Rightarrow> (uint64, 'a kproc_scheme) res" where
  "sys_wait s = bind (argaddr 0 s) (\<lambda>p s. bind (kwait p s) (\<lambda>r s. Ok (scast r) s))"

definition sys_sbrk :: "'a kproc_scheme \<Rightarrow> (uint64, 'a kproc_scheme) res" where
  "sys_sbrk s =
    bind (argint 0 s) (\<lambda>n s.
    bind (cur_proc s) (\<lambda>p s.
    let addr = (ucast (p_sz (procs s p)) :: int32) in
    bind (growproc n s) (\<lambda>r s.
    if sint r < 0 then Ok (-1) s else Ok (scast addr) s)))"

text \<open>The comparison in the loop of \<open>sys_sleep\<close> is unsigned.\<close>

function sys_sleep_loop :: "int32 \<Rightarrow> uint \<Rightarrow> 'a kproc_scheme \<Rightarrow> (uint64, 'a kproc_scheme) res" where
  "sys_sleep_loop n ticks0 s =
    (if ticks s - ticks0 < n then
       bind (cur_proc s) (\<lambda>p s.
       if p_killed (procs s p) \<noteq> 0 then bind (release tickslock s) (\<lambda>_ s. Ok (-1) s)
       else bind (sleep ChanTicks tickslock s) (\<lambda>_ s. sys_sleep_loop n ticks0 s))
     else bind (release tickslock s) (\<lambda>_ s. Ok 0 s))"
  by pat_completeness auto
termination by (relation "measure (\<lambda>_. 0)") (auto simp: sleep_never_returns)

declare sys_sleep_loop.simps [simp del]

definition sys_sleep :: "'a kproc_scheme \<Rightarrow> (uint64, 'a kproc_scheme) res" where
  "sys_sleep s =
    bind (argint 0 s) (\<lambda>n s.
    bind (acquire tickslock s) (\<lambda>_ s. sys_sleep_loop n (ticks s) s))"

definition sys_sleep_resume :: "nat \<Rightarrow> int32 \<Rightarrow> uint \<Rightarrow> bool \<Rightarrow> 'a kproc_scheme \<Rightarrow> (uint64, 'a kproc_scheme) res" where
  "sys_sleep_resume p n ticks0 intena_saved s =
    bind (sleep_resume p tickslock intena_saved s) (\<lambda>_ s. sys_sleep_loop n ticks0 s)"

definition sys_kill :: "'a kproc_scheme \<Rightarrow> (uint64, 'a kproc_scheme) res" where
  "sys_kill s = bind (argint 0 s) (\<lambda>pid s. bind (kill pid s) (\<lambda>r s. Ok (scast r) s))"

definition sys_uptime :: "'a kproc_scheme \<Rightarrow> (uint64, 'a kproc_scheme) res" where
  "sys_uptime s =
    bind (acquire tickslock s) (\<lambda>_ s.
    let xticks = ticks s in
    bind (release tickslock s) (\<lambda>_ s. Ok (ucast xticks) s))"

definition sys_info :: "'a kproc_scheme \<Rightarrow> (uint64, 'a kproc_scheme) res" where
  "sys_info s = bind (argint 0 s) (\<lambda>n s. bind (fetch_info n s) (\<lambda>_ s. Ok 0 s))"

definition sys_tickets :: "'a kproc_scheme \<Rightarrow> (uint64, 'a kproc_scheme) res" where
  "sys_tickets s =
    bind (argint 0 s) (\<lambda>n s.
    bind (myproc s) (\<lambda>po s. bind (set_proc_tickets po n s) (\<lambda>_ s. Ok 0 s)))"

definition sys_sched_statistics :: "'a kproc_scheme \<Rightarrow> (uint64, 'a kproc_scheme) res" where
  "sys_sched_statistics s = bind (print_sched_statistics s) (\<lambda>_ s. Ok 0 s)"

section \<open>Dispatch\<close>

text \<open>The table \<open>syscalls\<close>; \<open>pad\<close> is the padding of \<open>struct stat\<close>.\<close>

definition syscalls :: "uchar list \<Rightarrow> nat \<Rightarrow> ('a kfile_scheme \<Rightarrow> (uint64, 'a kfile_scheme) res) option" where
  "syscalls pad n =
    (if n = 1 then Some sys_fork else if n = 2 then Some sys_exit else if n = 3 then Some sys_wait
     else if n = 4 then Some sys_pipe else if n = 5 then Some sys_read else if n = 6 then Some sys_kill
     else if n = 7 then Some sys_exec else if n = 8 then Some (sys_fstat pad) else if n = 9 then Some sys_chdir
     else if n = 10 then Some sys_dup else if n = 11 then Some sys_getpid else if n = 12 then Some sys_sbrk
     else if n = 13 then Some sys_sleep else if n = 14 then Some sys_uptime else if n = 15 then Some sys_open
     else if n = 16 then Some sys_write else if n = 17 then Some sys_mknod else if n = 18 then Some sys_unlink
     else if n = 19 then Some sys_link else if n = 20 then Some sys_mkdir else if n = 21 then Some sys_close
     else if n = 22 then Some sys_info else if n = 23 then Some sys_tickets else if n = 24 then Some sys_sched_statistics
     else None)"

definition syscall :: "uchar list \<Rightarrow> 'a kfile_scheme \<Rightarrow> (unit, 'a kfile_scheme) res" where
  "syscall pad s =
    bind (cur_proc s) (\<lambda>p s.
    let s = upd_proc p (\<lambda>q. q\<lparr>p_sysCallCnt := p_sysCallCnt q + 1\<rparr>) s;
        num = (ucast (get_tf p tf_a7 s) :: int32)
    in
    case (if 0 < sint num \<and> sint num < 25 then syscalls pad (unat num) else None) of
      Some f \<Rightarrow> bind (f s) (\<lambda>r s. Ok () (set_tf p tf_a0 r s))
    | None \<Rightarrow>
        bind (printf (Some ''%d %s: unknown sys call %d\<newline>'')
          [ArgInt (p_pid (procs s p)), ArgStr (Some (cstring (p_name (procs s p)))), ArgInt num] s) (\<lambda>_ s.
        Ok () (set_tf p tf_a0 (-1) s)))"

end
