(* ===== verification/Virtio.thy ===== *)
theory Virtio
  imports File
begin

text \<open>
  The disk driver (\<open>kernel/virtio_disk.c\<close>). The driver and the device share the descriptor table and the two rings;
  a descriptor's address is the request header, the data of a buffer or the status byte of a request. The
  device is not part of the kernel: it changes the used ring and the status bytes between two calls of the driver. Its registers
  are inputs, and the writes to them are recorded.
\<close>

unbundle bit_operations_syntax

section \<open>State\<close>

definition NUM :: nat where "NUM = 8"
definition VRING_DESC_F_NEXT :: ushort where "VRING_DESC_F_NEXT = 1"
definition VRING_DESC_F_WRITE :: ushort where "VRING_DESC_F_WRITE = 2"
abbreviation VIRTIO_BLK_T_IN :: uint where "VIRTIO_BLK_T_IN \<equiv> 0"
abbreviation VIRTIO_BLK_T_OUT :: uint where "VIRTIO_BLK_T_OUT \<equiv> 1"

datatype dma = NoAddr | OpsAddr nat | DataAddr nat | StatusAddr nat

record virtq_desc =
  d_addr :: dma
  d_len :: uint
  d_flags :: ushort
  d_next :: ushort

record virtio_blk_req =
  rq_type :: uint
  rq_reserved :: uint
  rq_sector :: uint64

record kvirtio = kfile +
  vd_desc :: "nat \<Rightarrow> virtq_desc"
  vd_avail_ring :: "nat \<Rightarrow> ushort"
  vd_avail_idx :: ushort
  vd_used_ring :: "nat \<Rightarrow> uint"
  vd_used_ring_idx :: ushort
  vd_free :: "nat \<Rightarrow> bool"
  vd_used_idx :: ushort
  vd_info_b :: "nat \<Rightarrow> nat option"
  vd_info_status :: "nat \<Rightarrow> uchar"
  vd_ops :: "nat \<Rightarrow> virtio_blk_req"
  vd_regs :: "nat \<Rightarrow> uint"
  vd_reg_writes :: "(nat \<times> uint) list"

definition upd_desc :: "nat \<Rightarrow> (virtq_desc \<Rightarrow> virtq_desc) \<Rightarrow> 'a kvirtio_scheme \<Rightarrow> 'a kvirtio_scheme" where
  "upd_desc i f s = s\<lparr>vd_desc := (vd_desc s)(i := f (vd_desc s i))\<rparr>"

definition write_R :: "nat \<Rightarrow> uint \<Rightarrow> 'a kvirtio_scheme \<Rightarrow> 'a kvirtio_scheme" where
  "write_R r v s = s\<lparr>vd_reg_writes := vd_reg_writes s @ [(r, v)]\<rparr>"

section \<open>Initialisation\<close>

abbreviation VIRTIO_MMIO_MAGIC_VALUE :: nat where "VIRTIO_MMIO_MAGIC_VALUE \<equiv> 0x000"
abbreviation VIRTIO_MMIO_VERSION :: nat where "VIRTIO_MMIO_VERSION \<equiv> 0x004"
abbreviation VIRTIO_MMIO_DEVICE_ID :: nat where "VIRTIO_MMIO_DEVICE_ID \<equiv> 0x008"
abbreviation VIRTIO_MMIO_VENDOR_ID :: nat where "VIRTIO_MMIO_VENDOR_ID \<equiv> 0x00c"
abbreviation VIRTIO_MMIO_DEVICE_FEATURES :: nat where "VIRTIO_MMIO_DEVICE_FEATURES \<equiv> 0x010"
abbreviation VIRTIO_MMIO_DRIVER_FEATURES :: nat where "VIRTIO_MMIO_DRIVER_FEATURES \<equiv> 0x020"
abbreviation VIRTIO_MMIO_GUEST_PAGE_SIZE :: nat where "VIRTIO_MMIO_GUEST_PAGE_SIZE \<equiv> 0x028"
abbreviation VIRTIO_MMIO_QUEUE_SEL :: nat where "VIRTIO_MMIO_QUEUE_SEL \<equiv> 0x030"
abbreviation VIRTIO_MMIO_QUEUE_NUM_MAX :: nat where "VIRTIO_MMIO_QUEUE_NUM_MAX \<equiv> 0x034"
abbreviation VIRTIO_MMIO_QUEUE_NUM :: nat where "VIRTIO_MMIO_QUEUE_NUM \<equiv> 0x038"
abbreviation VIRTIO_MMIO_QUEUE_PFN :: nat where "VIRTIO_MMIO_QUEUE_PFN \<equiv> 0x040"
abbreviation VIRTIO_MMIO_QUEUE_NOTIFY :: nat where "VIRTIO_MMIO_QUEUE_NOTIFY \<equiv> 0x050"
abbreviation VIRTIO_MMIO_INTERRUPT_STATUS :: nat where "VIRTIO_MMIO_INTERRUPT_STATUS \<equiv> 0x060"
abbreviation VIRTIO_MMIO_INTERRUPT_ACK :: nat where "VIRTIO_MMIO_INTERRUPT_ACK \<equiv> 0x064"
abbreviation VIRTIO_MMIO_STATUS :: nat where "VIRTIO_MMIO_STATUS \<equiv> 0x070"

text \<open>The features the driver turns off: the device's features with these bits cleared.\<close>

definition features_off :: uint where
  "features_off = push_bit 5 1 OR push_bit 7 1 OR push_bit 11 1 OR push_bit 12 1 OR push_bit 27 1 OR push_bit 29 1 OR push_bit 28 1"

definition virtio_disk_init :: "uint64 \<Rightarrow> 'a kvirtio_scheme \<Rightarrow> (unit, 'a kvirtio_scheme) res" where
  "virtio_disk_init pages s =
    (let s = initlock vdisk_lock ''virtio_disk'' s in
     if vd_regs s VIRTIO_MMIO_MAGIC_VALUE \<noteq> 0x74726976 \<or> vd_regs s VIRTIO_MMIO_VERSION \<noteq> 1 \<or>
        vd_regs s VIRTIO_MMIO_DEVICE_ID \<noteq> 2 \<or> vd_regs s VIRTIO_MMIO_VENDOR_ID \<noteq> 0x554d4551
     then Panic ''could not find virtio disk''
     else
       let s = write_R VIRTIO_MMIO_STATUS 1 s;
           s = write_R VIRTIO_MMIO_STATUS (1 OR 2) s;
           s = write_R VIRTIO_MMIO_DRIVER_FEATURES (vd_regs s VIRTIO_MMIO_DEVICE_FEATURES AND NOT features_off) s;
           s = write_R VIRTIO_MMIO_STATUS (1 OR 2 OR 8) s;
           s = write_R VIRTIO_MMIO_STATUS (1 OR 2 OR 8 OR 4) s;
           s = write_R VIRTIO_MMIO_GUEST_PAGE_SIZE 4096 s;
           s = write_R VIRTIO_MMIO_QUEUE_SEL 0 s
       in
       if vd_regs s VIRTIO_MMIO_QUEUE_NUM_MAX = 0 then Panic ''virtio disk has no queue 0''
       else if vd_regs s VIRTIO_MMIO_QUEUE_NUM_MAX < of_nat NUM then Panic ''virtio disk max queue too short''
       else
         let s = write_R VIRTIO_MMIO_QUEUE_NUM (of_nat NUM) s;
             s = s\<lparr>vd_desc := \<lambda>_. \<lparr>d_addr = NoAddr, d_len = 0, d_flags = 0, d_next = 0\<rparr>, vd_avail_ring := \<lambda>_. 0, vd_avail_idx := 0,
                   vd_used_ring := \<lambda>_. 0, vd_used_ring_idx := 0\<rparr>;
             s = write_R VIRTIO_MMIO_QUEUE_PFN (ucast (drop_bit 12 pages)) s
         in Ok () (s\<lparr>vd_free := \<lambda>i. if i < NUM then True else vd_free s i\<rparr>))"

section \<open>Descriptors\<close>

definition alloc_desc :: "'a kvirtio_scheme \<Rightarrow> nat option \<times> 'a kvirtio_scheme" where
  "alloc_desc s =
    (case find (vd_free s) [0..<NUM] of
       Some i \<Rightarrow> (Some i, s\<lparr>vd_free := (vd_free s)(i := False)\<rparr>)
     | None \<Rightarrow> (None, s))"

definition free_desc :: "nat \<Rightarrow> 'a kvirtio_scheme \<Rightarrow> (unit, 'a kvirtio_scheme) res" where
  "free_desc i s =
    (if NUM \<le> i then Panic ''free_desc 1''
     else if vd_free s i then Panic ''free_desc 2''
     else
       let s = upd_desc i (\<lambda>_. \<lparr>d_addr = NoAddr, d_len = 0, d_flags = 0, d_next = 0\<rparr>) s;
           s = s\<lparr>vd_free := (vd_free s)(i := True)\<rparr>
       in wakeup ChanDiskFree s)"

text \<open>A chain has at most \<open>NUM\<close> descriptors: a second visit would panic.\<close>

fun free_chain_loop :: "nat \<Rightarrow> nat \<Rightarrow> 'a kvirtio_scheme \<Rightarrow> (unit, 'a kvirtio_scheme) res" where
  "free_chain_loop 0 i s = Spin"
| "free_chain_loop (Suc k) i s =
    (if NUM \<le> i then Undef
     else
       let flag = d_flags (vd_desc s i); nxt = d_next (vd_desc s i) in
       bind (free_desc i s) (\<lambda>_ s.
       if flag AND VRING_DESC_F_NEXT \<noteq> 0 then free_chain_loop k (unat nxt) s else Ok () s))"

definition free_chain :: "nat \<Rightarrow> 'a kvirtio_scheme \<Rightarrow> (unit, 'a kvirtio_scheme) res" where
  "free_chain i s = free_chain_loop (Suc NUM) i s"

fun free_all :: "nat list \<Rightarrow> 'a kvirtio_scheme \<Rightarrow> (unit, 'a kvirtio_scheme) res" where
  "free_all [] s = Ok () s"
| "free_all (i # is) s = bind (free_desc i s) (\<lambda>_ s. free_all is s)"

fun alloc3_loop :: "nat \<Rightarrow> nat list \<Rightarrow> 'a kvirtio_scheme \<Rightarrow> (nat list option, 'a kvirtio_scheme) res" where
  "alloc3_loop 0 idx s = Ok (Some idx) s"
| "alloc3_loop (Suc k) idx s =
    (case alloc_desc s of
       (Some i, s) \<Rightarrow> alloc3_loop k (idx @ [i]) s
     | (None, s) \<Rightarrow> bind (free_all idx s) (\<lambda>_ s. Ok None s))"

definition alloc3_desc :: "'a kvirtio_scheme \<Rightarrow> (nat list option, 'a kvirtio_scheme) res" where
  "alloc3_desc s = alloc3_loop 3 [] s"

section \<open>Requests\<close>

text \<open>The request is formatted and handed to the device.\<close>

definition virtio_submit :: "nat \<Rightarrow> bool \<Rightarrow> nat list \<Rightarrow> 'a kvirtio_scheme \<Rightarrow> 'a kvirtio_scheme" where
  "virtio_submit b write idx s =
    (let i0 = idx ! 0; i1 = idx ! 1; i2 = idx ! 2;
         sector = ucast (b_blockno (bufs s b) * of_nat (BSIZE div 512)) :: uint64;
         s = s\<lparr>vd_ops := (vd_ops s)(i0 := \<lparr>rq_type = (if write then VIRTIO_BLK_T_OUT else VIRTIO_BLK_T_IN), rq_reserved = 0, rq_sector = sector\<rparr>)\<rparr>;
         s = upd_desc i0 (\<lambda>_. \<lparr>d_addr = OpsAddr i0, d_len = 16, d_flags = VRING_DESC_F_NEXT, d_next = of_nat i1\<rparr>) s;
         s = upd_desc i1 (\<lambda>_. \<lparr>d_addr = DataAddr b, d_len = of_nat BSIZE,
               d_flags = (if write then 0 else VRING_DESC_F_WRITE) OR VRING_DESC_F_NEXT, d_next = of_nat i2\<rparr>) s;
         s = s\<lparr>vd_info_status := (vd_info_status s)(i0 := 0xff)\<rparr>;
         s = upd_desc i2 (\<lambda>_. \<lparr>d_addr = StatusAddr i0, d_len = 1, d_flags = VRING_DESC_F_WRITE, d_next = 0\<rparr>) s;
         s = upd_buf b (\<lambda>x. x\<lparr>b_disk := True\<rparr>) s;
         s = s\<lparr>vd_info_b := (vd_info_b s)(i0 := Some b)\<rparr>;
         s = s\<lparr>vd_avail_ring := (vd_avail_ring s)(unat (vd_avail_idx s) mod NUM := of_nat i0)\<rparr>;
         s = s\<lparr>vd_avail_idx := vd_avail_idx s + 1\<rparr>
     in write_R VIRTIO_MMIO_QUEUE_NOTIFY 0 s)"

function virtio_wait_loop :: "nat \<Rightarrow> nat \<Rightarrow> 'a kvirtio_scheme \<Rightarrow> (unit, 'a kvirtio_scheme) res" where
  "virtio_wait_loop b i0 s =
    (if b_disk (bufs s b) then
       bind (sleep (ChanBuf b) vdisk_lock s) (\<lambda>_ s. virtio_wait_loop b i0 s)
     else
       bind (free_chain i0 (s\<lparr>vd_info_b := (vd_info_b s)(i0 := None)\<rparr>)) (\<lambda>_ s. release vdisk_lock s))"
  by pat_completeness auto
termination by (relation "measure (\<lambda>_. 0)") (auto simp: sleep_never_returns)

declare virtio_wait_loop.simps [simp del]

function virtio_rw_loop :: "nat \<Rightarrow> bool \<Rightarrow> 'a kvirtio_scheme \<Rightarrow> (unit, 'a kvirtio_scheme) res" where
  "virtio_rw_loop b write s =
    bind (alloc3_desc s) (\<lambda>r s.
    case r of
      None \<Rightarrow> bind (sleep ChanDiskFree vdisk_lock s) (\<lambda>_ s. virtio_rw_loop b write s)
    | Some idx \<Rightarrow> virtio_wait_loop b (idx ! 0) (virtio_submit b write idx s))"
  by pat_completeness auto
termination by (relation "measure (\<lambda>_. 0)") (auto simp: sleep_never_returns)

declare virtio_rw_loop.simps [simp del]

definition virtio_disk_rw :: "nat \<Rightarrow> bool \<Rightarrow> 'a kvirtio_scheme \<Rightarrow> (unit, 'a kvirtio_scheme) res" where
  "virtio_disk_rw b write s = bind (acquire vdisk_lock s) (\<lambda>_ s. virtio_rw_loop b write s)"

text \<open>The process continues after it was woken: waiting for descriptors, or for its request.\<close>

definition virtio_rw_resume :: "nat \<Rightarrow> nat \<Rightarrow> bool \<Rightarrow> bool \<Rightarrow> 'a kvirtio_scheme \<Rightarrow> (unit, 'a kvirtio_scheme) res" where
  "virtio_rw_resume p b write intena_saved s =
    bind (sleep_resume p vdisk_lock intena_saved s) (\<lambda>_ s. virtio_rw_loop b write s)"

definition virtio_wait_resume :: "nat \<Rightarrow> nat \<Rightarrow> nat \<Rightarrow> bool \<Rightarrow> 'a kvirtio_scheme \<Rightarrow> (unit, 'a kvirtio_scheme) res" where
  "virtio_wait_resume p b i0 intena_saved s =
    bind (sleep_resume p vdisk_lock intena_saved s) (\<lambda>_ s. virtio_wait_loop b i0 s)"

section \<open>Interrupts\<close>

fun virtio_intr_loop :: "nat \<Rightarrow> 'a kvirtio_scheme \<Rightarrow> (unit, 'a kvirtio_scheme) res" where
  "virtio_intr_loop k s =
    (if vd_used_idx s \<noteq> vd_used_ring_idx s then
       (case k of
          0 \<Rightarrow> Spin
        | Suc k \<Rightarrow>
            let id = unat (vd_used_ring s (unat (vd_used_idx s) mod NUM)) in
            if NUM \<le> id then Undef
            else if vd_info_status s id \<noteq> 0 then Panic ''virtio_disk_intr status''
            else
              (case vd_info_b s id of
                 None \<Rightarrow> Undef
               | Some b \<Rightarrow>
                   bind (wakeup (ChanBuf b) (upd_buf b (\<lambda>x. x\<lparr>b_disk := False\<rparr>) s)) (\<lambda>_ s.
                   virtio_intr_loop k (s\<lparr>vd_used_idx := vd_used_idx s + 1\<rparr>))))
     else Ok () s)"

declare virtio_intr_loop.simps [simp del]

definition virtio_disk_intr :: "'a kvirtio_scheme \<Rightarrow> (unit, 'a kvirtio_scheme) res" where
  "virtio_disk_intr s =
    bind (acquire vdisk_lock s) (\<lambda>_ s.
    let s = write_R VIRTIO_MMIO_INTERRUPT_ACK (vd_regs s VIRTIO_MMIO_INTERRUPT_STATUS AND 3) s in
    bind (virtio_intr_loop (unat (vd_used_ring_idx s - vd_used_idx s)) s) (\<lambda>_ s. release vdisk_lock s))"

end
