(* ===== verification/Trap.thy ===== *)
theory Trap
  imports Syscall Virtio
begin

text \<open>
  Traps (\<open>kernel/trap.c\<close>), the interrupt controller (\<open>kernel/plic.c\<close>), the first return of a new process
  (\<open>forkret\<close> of \<open>kernel/proc.c\<close>) and the boot sequence
  (\<open>kernel/main.c\<close>).
  The supervisor registers of a hart are a record; the bit SIE of \<open>sstatus\<close> is the field \<open>sie\<close> of the machine. What the
  PLIC answers to a claim is the state of the device: the queue of the interrupts it has for a hart.
  A return to user space is the value of \<open>usertrapret\<close>: the address in the trampoline it jumps to and the two arguments.
\<close>

section \<open>State\<close>

record csrs =
  c_sstatus :: uint64
  c_sepc :: uint64
  c_scause :: uint64
  c_stval :: uint64
  c_stvec :: uint64
  c_sip :: uint64

record vectors =
  v_kernelvec :: uint64
  v_uservec :: uint64
  v_userret :: uint64
  v_usertrap :: uint64

record ktrap = kvirtio +
  csr :: "nat \<Rightarrow> csrs"
  vectors :: vectors
  plic_pending :: "nat \<Rightarrow> int32 list"
  plic_writes :: "(uint64 \<times> uint) list"
  forkret_first :: bool
  started :: bool

record user_entry =
  ue_fn :: uint64
  ue_trapframe :: uint64
  ue_satp :: uint64

section \<open>Registers\<close>

definition SSTATUS_SPP :: uint64 where "SSTATUS_SPP = push_bit 8 1"
definition SSTATUS_SPIE :: uint64 where "SSTATUS_SPIE = push_bit 5 1"
definition SSTATUS_SIE :: uint64 where "SSTATUS_SIE = push_bit 1 1"

definition my_csr :: "'a ktrap_scheme \<Rightarrow> csrs" where
  "my_csr s = csr s (tp s)"

definition upd_csr :: "(csrs \<Rightarrow> csrs) \<Rightarrow> 'a ktrap_scheme \<Rightarrow> 'a ktrap_scheme" where
  "upd_csr f s = s\<lparr>csr := (csr s)(tp s := f (csr s (tp s)))\<rparr>"

definition r_sstatus :: "'a ktrap_scheme \<Rightarrow> uint64" where
  "r_sstatus s = (if sie s (tp s) then c_sstatus (my_csr s) OR SSTATUS_SIE else c_sstatus (my_csr s) AND NOT SSTATUS_SIE)"

definition w_sstatus :: "uint64 \<Rightarrow> 'a ktrap_scheme \<Rightarrow> 'a ktrap_scheme" where
  "w_sstatus x s = (upd_csr (\<lambda>c. c\<lparr>c_sstatus := x\<rparr>) s)\<lparr>sie := (sie s)(tp s := (x AND SSTATUS_SIE \<noteq> 0))\<rparr>"

definition w_stvec :: "uint64 \<Rightarrow> 'a ktrap_scheme \<Rightarrow> 'a ktrap_scheme" where
  "w_stvec x = upd_csr (\<lambda>c. c\<lparr>c_stvec := x\<rparr>)"

definition w_sepc :: "uint64 \<Rightarrow> 'a ktrap_scheme \<Rightarrow> 'a ktrap_scheme" where
  "w_sepc x = upd_csr (\<lambda>c. c\<lparr>c_sepc := x\<rparr>)"

definition w_sip :: "uint64 \<Rightarrow> 'a ktrap_scheme \<Rightarrow> 'a ktrap_scheme" where
  "w_sip x = upd_csr (\<lambda>c. c\<lparr>c_sip := x\<rparr>)"

section \<open>The interrupt controller\<close>

definition UART0_IRQ :: nat where "UART0_IRQ = 10"
definition VIRTIO0_IRQ :: nat where "VIRTIO0_IRQ = 1"

definition PLIC_SENABLE :: "uint64 \<Rightarrow> uint64" where "PLIC_SENABLE hart = PLIC + 0x2080 + hart * 0x100"
definition PLIC_SPRIORITY :: "uint64 \<Rightarrow> uint64" where "PLIC_SPRIORITY hart = PLIC + 0x201000 + hart * 0x2000"
definition PLIC_SCLAIM :: "uint64 \<Rightarrow> uint64" where "PLIC_SCLAIM hart = PLIC + 0x201004 + hart * 0x2000"

definition plic_store :: "uint64 \<Rightarrow> uint \<Rightarrow> 'a ktrap_scheme \<Rightarrow> 'a ktrap_scheme" where
  "plic_store a v s = s\<lparr>plic_writes := plic_writes s @ [(a, v)]\<rparr>"

definition plicinit :: "'a ktrap_scheme \<Rightarrow> 'a ktrap_scheme" where
  "plicinit s =
    plic_store (PLIC + of_nat VIRTIO0_IRQ * 4) 1 (plic_store (PLIC + of_nat UART0_IRQ * 4) 1 s)"

definition plicinithart :: "'a ktrap_scheme \<Rightarrow> 'a ktrap_scheme" where
  "plicinithart s =
    plic_store (PLIC_SPRIORITY (of_nat (cpuid s))) 0
      (plic_store (PLIC_SENABLE (of_nat (cpuid s))) (push_bit UART0_IRQ 1 OR push_bit VIRTIO0_IRQ 1) s)"

text \<open>A read of the claim register takes the next pending interrupt of the hart; it gives 0 if there is none.\<close>

definition plic_claim :: "'a ktrap_scheme \<Rightarrow> int32 \<times> 'a ktrap_scheme" where
  "plic_claim s =
    (case plic_pending s (cpuid s) of
       [] \<Rightarrow> (0, s)
     | irq # rest \<Rightarrow> (irq, s\<lparr>plic_pending := (plic_pending s)(cpuid s := rest)\<rparr>))"

definition plic_complete :: "int32 \<Rightarrow> 'a ktrap_scheme \<Rightarrow> 'a ktrap_scheme" where
  "plic_complete irq s = plic_store (PLIC_SCLAIM (of_nat (cpuid s))) irq s"

section \<open>Traps\<close>

definition trapinit :: "'a machine_scheme \<Rightarrow> 'a machine_scheme" where
  "trapinit s = initlock tickslock ''time'' s"

definition trapinithart :: "'a ktrap_scheme \<Rightarrow> 'a ktrap_scheme" where
  "trapinithart s = w_stvec (v_kernelvec (vectors s)) s"

definition clockintr :: "'a kproc_scheme \<Rightarrow> (unit, 'a kproc_scheme) res" where
  "clockintr s =
    bind (acquire tickslock s) (\<lambda>_ s.
    let s = s\<lparr>ticks := ticks s + 1\<rparr> in
    bind (wakeup ChanTicks s) (\<lambda>_ s. release tickslock s))"

definition devintr :: "'a ktrap_scheme \<Rightarrow> (int32, 'a ktrap_scheme) res" where
  "devintr s =
    (let scause = c_scause (my_csr s) in
     if scause AND 0x8000000000000000 \<noteq> 0 \<and> scause AND 0xff = 9 then
       let (irq, s) = plic_claim s in
       bind (if irq = of_nat UART0_IRQ then uartintr s
             else if irq = of_nat VIRTIO0_IRQ then virtio_disk_intr s
             else if irq \<noteq> 0 then printf (Some ''unexpected interrupt irq=%d\<newline>'') [ArgInt irq] s
             else Ok () s) (\<lambda>_ s.
       Ok 1 (if irq \<noteq> 0 then plic_complete irq s else s))
     else if scause = 0x8000000000000001 then
       bind (if cpuid s = 0 then clockintr s else Ok () s) (\<lambda>_ s.
       Ok 2 (w_sip (c_sip (my_csr s) AND NOT 2) s))
     else Ok 0 s)"

definition usertrapret :: "'a ktrap_scheme \<Rightarrow> (user_entry, 'a ktrap_scheme) res" where
  "usertrapret s =
    bind (cur_proc s) (\<lambda>p s.
    let s = intr_off s;
        s = w_stvec (TRAMPOLINE + (v_uservec (vectors s) - trampoline s)) s;
        s = set_tf p tf_kernel_satp (satp s) s;
        s = set_tf p tf_kernel_sp (p_kstack (procs s p) + PGSIZE) s;
        s = set_tf p tf_kernel_trap (v_usertrap (vectors s)) s;
        s = set_tf p tf_kernel_hartid (of_nat (tp s)) s;
        x = (r_sstatus s AND NOT SSTATUS_SPP) OR SSTATUS_SPIE;
        s = w_sstatus x s;
        s = w_sepc (get_tf p tf_epc s) s
    in Ok \<lparr>ue_fn = TRAMPOLINE + (v_userret (vectors s) - trampoline s), ue_trapframe = TRAPFRAME,
           ue_satp = MAKE_SATP (p_pagetable (procs s p))\<rparr> s)"

text \<open>The end of \<open>usertrap\<close>, after the trap was handled.\<close>

definition usertrap_end :: "nat \<Rightarrow> int32 \<Rightarrow> 'a ktrap_scheme \<Rightarrow> (user_entry, 'a ktrap_scheme) res" where
  "usertrap_end p which_dev s =
    bind (if p_killed (procs s p) \<noteq> 0 then kexit (-1) s else Ok () s) (\<lambda>_ s.
    bind (if which_dev = 2 then yield s else Ok () s) (\<lambda>_ s. usertrapret s))"

definition usertrap :: "uchar list \<Rightarrow> 'a ktrap_scheme \<Rightarrow> (user_entry, 'a ktrap_scheme) res" where
  "usertrap pad s =
    (if r_sstatus s AND SSTATUS_SPP \<noteq> 0 then Panic ''usertrap: not from user mode''
     else
       let s = w_stvec (v_kernelvec (vectors s)) s in
       bind (cur_proc s) (\<lambda>p s.
       let s = set_tf p tf_epc (c_sepc (my_csr s)) s in
       if c_scause (my_csr s) = 8 then
         bind (if p_killed (procs s p) \<noteq> 0 then kexit (-1) s else Ok () s) (\<lambda>_ s.
         let s = set_tf p tf_epc (get_tf p tf_epc s + 4) s;
             s = intr_on s
         in bind (syscall pad s) (\<lambda>_ s. usertrap_end p 0 s))
       else
         bind (devintr s) (\<lambda>which_dev s.
         if which_dev \<noteq> 0 then usertrap_end p which_dev s
         else
           bind (printf (Some ''usertrap(): unexpected scause %p pid=%d\<newline>'')
             [ArgPtr (c_scause (my_csr s)), ArgInt (p_pid (procs s p))] s) (\<lambda>_ s.
           bind (printf (Some ''            sepc=%p stval=%p\<newline>'')
             [ArgPtr (c_sepc (my_csr s)), ArgPtr (c_stval (my_csr s))] s) (\<lambda>_ s.
           usertrap_end p 0 (upd_proc p (\<lambda>q. q\<lparr>p_killed := 1\<rparr>) s))))))"

text \<open>A process that gave up the hart in \<open>usertrap\<close> goes on here.\<close>

definition usertrap_resume :: "nat \<Rightarrow> bool \<Rightarrow> 'a ktrap_scheme \<Rightarrow> (user_entry, 'a ktrap_scheme) res" where
  "usertrap_resume p intena_saved s = bind (yield_resume p intena_saved s) (\<lambda>_ s. usertrapret s)"

definition kerneltrap_end :: "uint64 \<Rightarrow> uint64 \<Rightarrow> 'a ktrap_scheme \<Rightarrow> 'a ktrap_scheme" where
  "kerneltrap_end sepc sstatus s = w_sstatus sstatus (w_sepc sepc s)"

definition kerneltrap :: "'a ktrap_scheme \<Rightarrow> (unit, 'a ktrap_scheme) res" where
  "kerneltrap s =
    (let sepc = c_sepc (my_csr s);
         sstatus = r_sstatus s;
         scause = c_scause (my_csr s)
     in
     if sstatus AND SSTATUS_SPP = 0 then Panic ''kerneltrap: not from supervisor mode''
     else if intr_get s then Panic ''kerneltrap: interrupts enabled''
     else
       bind (devintr s) (\<lambda>which_dev s.
       if which_dev = 0 then
         bind (printf (Some ''scause %p\<newline>'') [ArgPtr scause] s) (\<lambda>_ s.
         bind (printf (Some ''sepc=%p stval=%p\<newline>'')
           [ArgPtr (c_sepc (my_csr s)), ArgPtr (c_stval (my_csr s))] s) (\<lambda>_ s.
         Panic ''kerneltrap''))
       else
         bind (if which_dev = 2 then
                 bind (myproc s) (\<lambda>po s.
                 case po of
                   None \<Rightarrow> Ok () s
                 | Some _ \<Rightarrow>
                     bind (cur_proc s) (\<lambda>p s.
                     if p_state (procs s p) = RUNNING then yield s else Ok () s))
               else Ok () s) (\<lambda>_ s.
         Ok () (kerneltrap_end sepc sstatus s))))"

definition kerneltrap_resume ::
  "nat \<Rightarrow> bool \<Rightarrow> uint64 \<Rightarrow> uint64 \<Rightarrow> 'a ktrap_scheme \<Rightarrow> (unit, 'a ktrap_scheme) res" where
  "kerneltrap_resume p intena_saved sepc sstatus s =
    bind (yield_resume p intena_saved s) (\<lambda>_ s. Ok () (kerneltrap_end sepc sstatus s))"

section \<open>The first return of a process, boot\<close>

definition forkret :: "'a ktrap_scheme \<Rightarrow> (user_entry, 'a ktrap_scheme) res" where
  "forkret s =
    bind (cur_proc s) (\<lambda>p s.
    bind (release (proc_lock p) s) (\<lambda>_ s.
    bind (if forkret_first s then fsinit ROOTDEV (s\<lparr>forkret_first := False\<rparr>) else Ok () s) (\<lambda>_ s.
    usertrapret s)))"

text \<open>
  \<open>main\<close> up to the call of \<open>scheduler\<close>; \<open>pages\<close> is the address of the static queue memory of the disk driver. A hart
  other than 0 waits until hart 0 has booted.
\<close>

definition main_hart0 :: "uint64 \<Rightarrow> 'a ktrap_scheme \<Rightarrow> (unit, 'a ktrap_scheme) res" where
  "main_hart0 pages s =
    (let s = consoleinit s;
         s = printfinit s
     in
     bind (printf (Some ''\<newline>'') [] s) (\<lambda>_ s.
     bind (printf (Some ''xv6 kernel is booting\<newline>'') [] s) (\<lambda>_ s.
     bind (printf (Some ''\<newline>'') [] s) (\<lambda>_ s.
     bind (kinit s) (\<lambda>_ s.
     bind (kvminit s) (\<lambda>_ s.
     let s = kvminithart s;
         s = procinit s;
         s = trapinit s;
         s = trapinithart s;
         s = plicinit s;
         s = plicinithart s;
         s = binit s;
         s = iinit s;
         s = fileinit s
     in
     bind (virtio_disk_init pages s) (\<lambda>_ s.
     bind (userinit s) (\<lambda>_ s.
     Ok () (s\<lparr>started := True\<rparr>)))))))))"

definition main :: "uint64 \<Rightarrow> 'a ktrap_scheme \<Rightarrow> (unit, 'a ktrap_scheme) res" where
  "main pages s =
    (if cpuid s = 0 then bind (main_hart0 pages s) (\<lambda>_ s. Ok () (scheduler_start s))
     else if \<not> started s then Spin
     else
       bind (printf (Some ''hart %d starting\<newline>'') [ArgInt (of_nat (cpuid s))] s) (\<lambda>_ s.
       Ok () (scheduler_start (plicinithart (trapinithart (kvminithart s))))))"

end
