(* ===== verification/Start.thy ===== *)
theory Start
  imports Prelude
begin

text \<open>
  The start of a hart in machine mode (\<open>kernel/start.c\<close>): the control registers and the CLINT as a record, \<open>start\<close> and
  \<open>timerinit\<close>, and what \<open>mret\<close> at the end of \<open>start\<close> does with them.
\<close>

unbundle bit_operations_syntax

section \<open>Registers\<close>

record mregs =
  m_mhartid :: uint64
  m_mstatus :: uint64
  m_mepc :: uint64
  m_satp :: uint64
  m_medeleg :: uint64
  m_mideleg :: uint64
  m_sie :: uint64
  m_mie :: uint64
  m_mtvec :: uint64
  m_mscratch :: uint64
  m_pmpaddr0 :: uint64
  m_pmpcfg0 :: uint64
  m_tp :: uint64
  clint_mtime :: uint64
  clint_mtimecmp :: "uint64 \<Rightarrow> uint64"
  timer_scratch :: "nat \<Rightarrow> nat \<Rightarrow> uint64"

abbreviation MSTATUS_MPP_MASK :: uint64 where "MSTATUS_MPP_MASK \<equiv> push_bit 11 3"
abbreviation MSTATUS_MPP_S :: uint64 where "MSTATUS_MPP_S \<equiv> push_bit 11 1"
abbreviation MSTATUS_MIE :: uint64 where "MSTATUS_MIE \<equiv> push_bit 3 1"
abbreviation SIE_SEIE :: uint64 where "SIE_SEIE \<equiv> push_bit 9 1"
abbreviation SIE_STIE :: uint64 where "SIE_STIE \<equiv> push_bit 5 1"
abbreviation SIE_SSIE :: uint64 where "SIE_SSIE \<equiv> push_bit 1 1"
abbreviation MIE_MTIE :: uint64 where "MIE_MTIE \<equiv> push_bit 7 1"

definition CLINT :: uint64 where "CLINT = 0x2000000"

definition CLINT_MTIMECMP :: "uint64 \<Rightarrow> uint64" where
  "CLINT_MTIMECMP hartid = CLINT + 0x4000 + 8 * hartid"

section \<open>Operations\<close>

text \<open>
  \<open>scratch0\<close> is the address of the array \<open>timer_scratch\<close> (five words per hart), \<open>timervec\<close> that of the handler. The hart id
  is an \<open>int\<close> of the source; it is below \<open>NCPU\<close>.
\<close>

definition timerinit :: "uint64 \<Rightarrow> uint64 \<Rightarrow> mregs \<Rightarrow> mregs" where
  "timerinit scratch0 timervec m =
    (let id = m_mhartid m;
         interval = 1000000;
         m = m\<lparr>clint_mtimecmp := (clint_mtimecmp m)(CLINT_MTIMECMP id := clint_mtime m + interval)\<rparr>;
         row = (timer_scratch m (unat id))(3 := CLINT_MTIMECMP id, 4 := interval);
         m = m\<lparr>timer_scratch := (timer_scratch m)(unat id := row)\<rparr>;
         m = m\<lparr>m_mscratch := scratch0 + id * 40\<rparr>;
         m = m\<lparr>m_mtvec := timervec\<rparr>;
         m = m\<lparr>m_mstatus := m_mstatus m OR MSTATUS_MIE\<rparr>
     in m\<lparr>m_mie := m_mie m OR MIE_MTIE\<rparr>)"

definition start :: "uint64 \<Rightarrow> uint64 \<Rightarrow> uint64 \<Rightarrow> mregs \<Rightarrow> mregs" where
  "start main_addr scratch0 timervec m =
    (let x = (m_mstatus m AND NOT MSTATUS_MPP_MASK) OR MSTATUS_MPP_S;
         m = m\<lparr>m_mstatus := x\<rparr>;
         m = m\<lparr>m_mepc := main_addr\<rparr>;
         m = m\<lparr>m_satp := 0\<rparr>;
         m = m\<lparr>m_medeleg := 0xffff\<rparr>;
         m = m\<lparr>m_mideleg := 0xffff\<rparr>;
         m = m\<lparr>m_sie := m_sie m OR SIE_SEIE OR SIE_STIE OR SIE_SSIE\<rparr>;
         m = m\<lparr>m_pmpaddr0 := 0x3fffffffffffff\<rparr>;
         m = m\<lparr>m_pmpcfg0 := 0xf\<rparr>;
         m = timerinit scratch0 timervec m
     in m\<lparr>m_tp := m_mhartid m\<rparr>)"

datatype privilege = User | Supervisor | Machine_Mode

text \<open>The effect of \<open>mret\<close>: the mode in the field MPP and the program counter.\<close>

definition mret :: "mregs \<Rightarrow> privilege \<times> uint64" where
  "mret m =
    (let mpp = drop_bit 11 (m_mstatus m AND MSTATUS_MPP_MASK)
     in (if mpp = 0 then User else if mpp = 1 then Supervisor else Machine_Mode, m_mepc m))"

end
