(* ===== verification/User_Lib.thy ===== *)
theory User_Lib
  imports Sysfile
begin

text \<open>
  The library of the user programs: \<open>user/ulib.c\<close> and \<open>user/printf.c\<close>. A user program is a function on the world outside of it. It makes
  system calls, which are a parameter (the record \<open>kern\<close>, a field for each call of \<open>user/user.h\<close> that the programs use), and it ends by returning, by
  \<open>exit\<close>, or when \<open>exec\<close> replaces it. A program that never ends has the value \<open>None\<close>. A C string is the list of its
  characters without the NUL, a pointer into a string is a suffix of it.
\<close>

section \<open>System calls\<close>

text \<open>
  \<open>k_read\<close> gives the bytes read, whose number is the result of \<open>read\<close>, or \<open>None\<close> for the result \<open>-1\<close>. \<open>k_pipe\<close> gives the two descriptors,
  \<open>k_exec\<close> returns only when it fails.
\<close>

record 'w kern =
  k_fork :: "'w \<Rightarrow> int32 \<times> 'w"
  k_wait :: "'w \<Rightarrow> int32 \<times> 'w"
  k_pipe :: "'w \<Rightarrow> (int32 \<times> int32) option \<times> 'w"
  k_write :: "int32 \<Rightarrow> string \<Rightarrow> 'w \<Rightarrow> int32 \<times> 'w"
  k_read :: "int32 \<Rightarrow> nat \<Rightarrow> 'w \<Rightarrow> string option \<times> 'w"
  k_close :: "int32 \<Rightarrow> 'w \<Rightarrow> int32 \<times> 'w"
  k_kill :: "int32 \<Rightarrow> 'w \<Rightarrow> int32 \<times> 'w"
  k_exec :: "string \<Rightarrow> string list \<Rightarrow> 'w \<Rightarrow> int32 option \<times> 'w"
  k_open :: "string \<Rightarrow> int32 \<Rightarrow> 'w \<Rightarrow> int32 \<times> 'w"
  k_mknod :: "string \<Rightarrow> ushort \<Rightarrow> ushort \<Rightarrow> 'w \<Rightarrow> int32 \<times> 'w"
  k_unlink :: "string \<Rightarrow> 'w \<Rightarrow> int32 \<times> 'w"
  k_fstat :: "int32 \<Rightarrow> 'w \<Rightarrow> kstat option \<times> 'w"
  k_link :: "string \<Rightarrow> string \<Rightarrow> 'w \<Rightarrow> int32 \<times> 'w"
  k_mkdir :: "string \<Rightarrow> 'w \<Rightarrow> int32 \<times> 'w"
  k_chdir :: "string \<Rightarrow> 'w \<Rightarrow> int32 \<times> 'w"
  k_dup :: "int32 \<Rightarrow> 'w \<Rightarrow> int32 \<times> 'w"

datatype 'a ures = Ret 'a | Exit int32 | Execd | Undefined

definition ubind :: "('a ures \<times> 'w) option \<Rightarrow> ('a \<Rightarrow> 'w \<Rightarrow> ('b ures \<times> 'w) option) \<Rightarrow> ('b ures \<times> 'w) option" where
  "ubind m f =
    Option.bind m (\<lambda>(r, w).
      case r of Ret a \<Rightarrow> f a w | Exit c \<Rightarrow> Some (Exit c, w) | Execd \<Rightarrow> Some (Execd, w) | Undefined \<Rightarrow> Some (Undefined, w))"

lemma ubind_simps [simp]:
  "ubind (Some (Ret a, w)) f = f a w" "ubind (Some (Exit c, w)) f = Some (Exit c, w)" "ubind (Some (Execd, w)) f = Some (Execd, w)"
  "ubind (Some (Undefined, w)) f = Some (Undefined, w)" "ubind None f = None"
  by (simp_all add: ubind_def)

lemma ubind_mono [partial_function_mono]:
  assumes "mono_option m" "\<And>a w. mono_option (\<lambda>f. g a w f)"
  shows "mono_option (\<lambda>f. ubind (m f) (\<lambda>a w. g a w f))"
proof -
  have "mono_option (\<lambda>f. Option.bind (m f) (\<lambda>p. case fst p of Ret a \<Rightarrow> g a (snd p) f | Exit c \<Rightarrow> Some (Exit c, snd p) | Execd \<Rightarrow> Some (Execd, snd p)
      | Undefined \<Rightarrow> Some (Undefined, snd p)))"
  proof (rule bind_mono [OF assms(1)])
    show "mono_option (\<lambda>f. case fst p of Ret a \<Rightarrow> g a (snd p) f | Exit c \<Rightarrow> Some (Exit c, snd p) | Execd \<Rightarrow> Some (Execd, snd p)
      | Undefined \<Rightarrow> Some (Undefined, snd p))" for p
      using assms(2) by (cases "fst p") (auto intro: option.const_mono)
  qed
  then show ?thesis unfolding ubind_def by (simp add: case_prod_unfold)
qed

text \<open>A call whose result is a number.\<close>

definition ucall :: "('w \<Rightarrow> 'a \<times> 'w) \<Rightarrow> 'w \<Rightarrow> ('a ures \<times> 'w) option" where
  "ucall f w = (case f w of (r, w) \<Rightarrow> Some (Ret r, w))"

definition uexec :: "'w kern \<Rightarrow> string \<Rightarrow> string list \<Rightarrow> 'w \<Rightarrow> (int32 ures \<times> 'w) option" where
  "uexec K path argv w = (case k_exec K path argv w of (None, w) \<Rightarrow> Some (Execd, w) | (Some r, w) \<Rightarrow> Some (Ret r, w))"

definition uexit :: "int32 \<Rightarrow> 'w \<Rightarrow> ('a ures \<times> 'w) option" where
  "uexit c w = Some (Exit c, w)"

section \<open>ulib.c\<close>

text \<open>As in \<open>Cstring\<close>, the list of an array that is written holds the bytes up to the end of the array; \<open>None\<close> is a write past it.\<close>

fun strcpy :: "string \<Rightarrow> string \<Rightarrow> string option" where
  "strcpy [] t = None"
| "strcpy (x # s) [] = Some (CHR 0x00 # s)"
| "strcpy (x # s) (c # t) = map_option (\<lambda>r. c # r) (strcpy s t)"

fun strcmp :: "string \<Rightarrow> string \<Rightarrow> int" where
  "strcmp [] [] = 0"
| "strcmp [] (d # q) = - of_char d"
| "strcmp (c # p) [] = of_char c"
| "strcmp (c # p) (d # q) = (if c = d then strcmp p q else of_char c - of_char d)"

fun strlen_loop :: "int32 \<Rightarrow> string \<Rightarrow> int32" where
  "strlen_loop n [] = n"
| "strlen_loop n (c # s) = strlen_loop (n + 1) s"

definition strlen_u :: "string \<Rightarrow> uint" where
  "strlen_u s = strlen_loop 0 s"

definition memset_u :: "uint64 \<Rightarrow> int32 \<Rightarrow> uint \<Rightarrow> mem \<Rightarrow> mem" where
  "memset_u dst c n m = memset_loop 0 (unat n) dst (ucast c) m"

fun strchr :: "string \<Rightarrow> char \<Rightarrow> string option" where
  "strchr [] c = None"
| "strchr (x # s) c = (if x = c then Some (x # s) else strchr s c)"

text \<open>\<open>k\<close> characters still fit in \<open>buf\<close>, whose characters so far are \<open>cs\<close>.\<close>

fun gets_loop :: "'w kern \<Rightarrow> nat \<Rightarrow> string \<Rightarrow> 'w \<Rightarrow> string \<times> 'w" where
  "gets_loop K 0 cs w = (cs, w)"
| "gets_loop K (Suc k) cs w =
    (case k_read K 0 1 w of
       (None, w) \<Rightarrow> (cs, w)
     | (Some [], w) \<Rightarrow> (cs, w)
     | (Some (c # _), w) \<Rightarrow> if c = CHR 0x0A \<or> c = CHR 0x0D then (cs @ [c], w) else gets_loop K k (cs @ [c]) w)"

definition gets :: "'w kern \<Rightarrow> int32 \<Rightarrow> 'w \<Rightarrow> (string ures \<times> 'w) option" where
  "gets K nbuf w = ucall (gets_loop K (nat (sint nbuf - 1)) []) w"

definition stat :: "'w kern \<Rightarrow> string \<Rightarrow> 'w \<Rightarrow> (kstat option ures \<times> 'w) option" where
  "stat K n w =
    ubind (ucall (k_open K n O_RDONLY) w) (\<lambda>fd w.
    if sint fd < 0 then Some (Ret None, w)
    else
      ubind (ucall (k_fstat K fd) w) (\<lambda>r w.
      ubind (ucall (k_close K fd) w) (\<lambda>_ w. Some (Ret r, w))))"

fun atoi_loop :: "int32 \<Rightarrow> string \<Rightarrow> int32" where
  "atoi_loop n [] = n"
| "atoi_loop n (c # s) =
    (if (of_char CHR ''0'' :: nat) \<le> of_char c \<and> (of_char c :: nat) \<le> of_char CHR ''9'' then atoi_loop (n * 10 + of_char c - of_char CHR ''0'') s else n)"

definition atoi :: "string \<Rightarrow> int32" where
  "atoi s = atoi_loop 0 s"

definition memmove_u :: "uint64 \<Rightarrow> uint64 \<Rightarrow> int32 \<Rightarrow> mem \<Rightarrow> mem" where
  "memmove_u vdst vsrc n m =
    (if vdst < vsrc then memmove_up vdst vsrc (nat (sint n)) m
     else memmove_down (vdst + scast n) (vsrc + scast n) (nat (sint n)) m)"

fun memcmp_u :: "uchar list \<Rightarrow> uchar list \<Rightarrow> nat \<Rightarrow> int option" where
  "memcmp_u s1 s2 0 = Some 0"
| "memcmp_u (a # s1) (b # s2) (Suc n) = (if a \<noteq> b then Some (uint a - uint b) else memcmp_u s1 s2 n)"
| "memcmp_u _ _ (Suc n) = None"

definition memcpy_u :: "uint64 \<Rightarrow> uint64 \<Rightarrow> uint \<Rightarrow> mem \<Rightarrow> mem" where
  "memcpy_u dst src n m = memmove_u dst src n m"

section \<open>printf.c\<close>

text \<open>A variadic argument is a 64-bit slot or the string that a pointer in it points to (\<open>None\<close>: a null pointer).\<close>

datatype uarg = UWord uint64 | UStr "string option"

definition digits_u :: string where
  "digits_u = ''0123456789ABCDEF'' @ [CHR 0x00]"

definition putc :: "'w kern \<Rightarrow> int32 \<Rightarrow> char \<Rightarrow> 'w \<Rightarrow> 'w" where
  "putc K fd c w = snd (k_write K fd [c] w)"

fun puts :: "'w kern \<Rightarrow> int32 \<Rightarrow> string \<Rightarrow> 'w \<Rightarrow> 'w" where
  "puts K fd [] w = w"
| "puts K fd (c # s) w = puts K fd s (putc K fd c w)"

text \<open>The first loop of \<open>printint\<close>: the characters of \<open>buf\<close> from \<open>buf[i]\<close> on, or \<open>None\<close> if the array is too short.\<close>

function printint_digits :: "nat \<Rightarrow> uint \<Rightarrow> uint \<Rightarrow> string option" where
  "printint_digits i x base =
    (if 16 \<le> i \<or> base = 0 \<or> length digits_u \<le> unat (x mod base) then None
     else
       let c = digits_u ! unat (x mod base); x' = x div base in
       if x' \<noteq> 0 then map_option (\<lambda>cs. c # cs) (printint_digits (Suc i) x' base) else Some [c])"
  by pat_completeness auto
termination by (relation "measure (\<lambda>(i, x, base). 16 - i)") auto

declare printint_digits.simps [simp del]

definition printint_u :: "'w kern \<Rightarrow> int32 \<Rightarrow> int32 \<Rightarrow> uint \<Rightarrow> bool \<Rightarrow> 'w \<Rightarrow> (unit ures \<times> 'w) option" where
  "printint_u K fd xx base sg w =
    (let neg = sg \<and> sint xx < 0; x = (if neg then - xx else xx)
     in case printint_digits 0 x base of
          None \<Rightarrow> Some (Undefined, w)
        | Some cs \<Rightarrow>
            if neg \<and> 16 \<le> length cs then Some (Undefined, w)
            else Some (Ret (), puts K fd (rev (cs @ (if neg then ''-'' else []))) w))"

fun printptr_loop_u :: "'w kern \<Rightarrow> int32 \<Rightarrow> nat \<Rightarrow> uint64 \<Rightarrow> 'w \<Rightarrow> 'w" where
  "printptr_loop_u K fd 0 x w = w"
| "printptr_loop_u K fd (Suc n) x w =
    printptr_loop_u K fd n (push_bit 4 x) (putc K fd (digits_u ! unat (drop_bit 60 x)) w)"

definition printptr_u :: "'w kern \<Rightarrow> int32 \<Rightarrow> uint64 \<Rightarrow> 'w \<Rightarrow> 'w" where
  "printptr_u K fd x w = printptr_loop_u K fd 16 x (putc K fd CHR ''x'' (putc K fd CHR ''0'' w))"

text \<open>The second argument tells whether \<open>state\<close> is \<open>'%'\<close>; an argument that is missing or of the wrong kind is undefined behaviour.\<close>

fun vprintf :: "'w kern \<Rightarrow> bool \<Rightarrow> int32 \<Rightarrow> string \<Rightarrow> uarg list \<Rightarrow> 'w \<Rightarrow> (unit ures \<times> 'w) option" where
  "vprintf K st fd [] ap w = Some (Ret (), w)"
| "vprintf K False fd (c # fmt) ap w =
    (if c = CHR ''%'' then vprintf K True fd fmt ap w else vprintf K False fd fmt ap (putc K fd c w))"
| "vprintf K True fd (c # fmt) ap w =
    (if c = CHR ''d'' then
       (case ap of UWord v # ap \<Rightarrow> ubind (printint_u K fd (ucast v) 10 True w) (\<lambda>_ w. vprintf K False fd fmt ap w) | _ \<Rightarrow> Some (Undefined, w))
     else if c = CHR ''l'' then
       (case ap of UWord v # ap \<Rightarrow> ubind (printint_u K fd (ucast v) 10 False w) (\<lambda>_ w. vprintf K False fd fmt ap w) | _ \<Rightarrow> Some (Undefined, w))
     else if c = CHR ''x'' then
       (case ap of UWord v # ap \<Rightarrow> ubind (printint_u K fd (ucast v) 16 False w) (\<lambda>_ w. vprintf K False fd fmt ap w) | _ \<Rightarrow> Some (Undefined, w))
     else if c = CHR ''p'' then
       (case ap of UWord v # ap \<Rightarrow> vprintf K False fd fmt ap (printptr_u K fd v w) | _ \<Rightarrow> Some (Undefined, w))
     else if c = CHR ''s'' then
       (case ap of
          UStr s # ap \<Rightarrow> vprintf K False fd fmt ap (puts K fd (case s of None \<Rightarrow> ''(null)'' | Some s \<Rightarrow> s) w)
        | _ \<Rightarrow> Some (Undefined, w))
     else if c = CHR ''c'' then
       (case ap of UWord v # ap \<Rightarrow> vprintf K False fd fmt ap (putc K fd (char_of (unat v)) w) | _ \<Rightarrow> Some (Undefined, w))
     else if c = CHR ''%'' then vprintf K False fd fmt ap (putc K fd c w)
     else vprintf K False fd fmt ap (putc K fd c (putc K fd CHR ''%'' w)))"

definition fprintf :: "'w kern \<Rightarrow> int32 \<Rightarrow> string \<Rightarrow> uarg list \<Rightarrow> 'w \<Rightarrow> (unit ures \<times> 'w) option" where
  "fprintf K fd fmt ap w = vprintf K False fd fmt ap w"

definition printf_u :: "'w kern \<Rightarrow> string \<Rightarrow> uarg list \<Rightarrow> 'w \<Rightarrow> (unit ures \<times> 'w) option" where
  "printf_u K fmt ap w = vprintf K False 1 fmt ap w"

section \<open>Lemmas\<close>

lemma ucall_simps [simp]: "f w = (r, v) \<Longrightarrow> ucall f w = Some (Ret r, v)"
  by (simp add: ucall_def)

lemma memmove_u_eq:
  assumes "0 \<le> sint n" "unat d + unat n < 2 ^ 64" "unat s + unat n < 2 ^ 64"
  shows "memmove_u d s n m = memmove d s n m"
proof
  fix a
  have i: "sint n = int (unat n)" using sint_small [OF assms(1)] by simp
  then have n: "nat (sint n) = unat n" by simp
  have c: "scast n = (of_nat (unat n) :: uint64)" by (simp only: scast_eq i of_int_of_nat_eq)
  have "(\<forall>k < unat n. memmove_u d s n m (d + of_nat k) = m (s + of_nat k)) \<and>
      (\<forall>a. (\<forall>k < unat n. a \<noteq> d + of_nat k) \<longrightarrow> memmove_u d s n m a = m a)"
    using memmove_up_spec [OF assms(2,3), of m] memmove_down_spec [OF assms(2,3), of m]
    by (cases "d < s") (simp_all add: memmove_u_def n c word_less_nat_alt not_less)
  with memmove_spec [OF assms(2,3), of m] show "memmove_u d s n m a = memmove d s n m a"
    by (cases "\<exists>k < unat n. a = d + of_nat k") auto
qed

text \<open>
  What a program that reads one file and writes to the standard output relies on: \<open>inp\<close> are the bytes not read yet and \<open>out\<close> those
  written. \<open>read\<close> gives some of the next bytes, at least one unless there are none or none is asked for; \<open>write\<close> appends.
\<close>

definition stream_io :: "'w kern \<Rightarrow> int32 \<Rightarrow> ('w \<Rightarrow> string) \<Rightarrow> ('w \<Rightarrow> string) \<Rightarrow> bool" where
  "stream_io K fd inp out \<longleftrightarrow>
    (\<forall>w n. \<exists>d v. k_read K fd n w = (Some d, v) \<and> inp w = d @ inp v \<and> out v = out w \<and> length d \<le> n \<and> (d = [] \<longrightarrow> n = 0 \<or> inp w = [])) \<and>
    (\<forall>w bs. \<exists>v. k_write K 1 bs w = (of_nat (length bs), v) \<and> out v = out w @ bs \<and> inp v = inp w)"

lemma stream_read:
  assumes "stream_io K fd inp out"
  obtains d v where "k_read K fd n w = (Some d, v)" "inp w = d @ inp v" "out v = out w" "length d \<le> n" "d = [] \<longrightarrow> n = 0 \<or> inp w = []"
  using assms unfolding stream_io_def by blast

lemma stream_write:
  assumes "stream_io K fd inp out"
  obtains v where "k_write K 1 bs w = (of_nat (length bs), v)" "out v = out w @ bs" "inp v = inp w"
  using assms unfolding stream_io_def by blast

text \<open>A device with two bytes ready at a time, for examples.\<close>

definition demo_kern :: "(string \<times> string) kern" where
  "demo_kern = \<lparr>k_fork = Pair (-1), k_wait = Pair (-1), k_pipe = Pair None,
     k_write = \<lambda>fd bs (i, u). (of_nat (length bs), i, if fd = 1 then u @ bs else u),
     k_read = \<lambda>fd n (i, u). (Some (take (min 2 n) i), drop (min 2 n) i, u),
     k_close = \<lambda>_. Pair 0, k_kill = \<lambda>_. Pair (-1), k_exec = \<lambda>_ _. Pair (Some (-1)), k_open = \<lambda>_ _. Pair 3, k_mknod = \<lambda>_ _ _. Pair (-1),
     k_unlink = \<lambda>_. Pair (-1), k_fstat = \<lambda>_. Pair None, k_link = \<lambda>_ _. Pair (-1), k_mkdir = \<lambda>_. Pair (-1), k_chdir = \<lambda>_. Pair (-1), k_dup = \<lambda>_. Pair (-1)\<rparr>"

lemma demo_kern_stream: "stream_io demo_kern fd fst snd"
  by (auto simp: stream_io_def demo_kern_def min_def numeral_2_eq_2 intro: exI)

end
