(* ===== verification/User_Grep.thy ===== *)
theory User_Grep
  imports User_Lib
begin

text \<open>
  \<open>user/grep.c\<close>: the pattern matcher and the loop over the lines of a file. The matcher decides a declarative reading of patterns; the
  loop prints the matching lines whatever pieces \<open>read\<close> returns.
\<close>

section \<open>The matcher\<close>

text \<open>The first character of a C string, NUL if it is empty.\<close>

definition hd0 :: "string \<Rightarrow> char" where
  "hd0 s = (case s of [] \<Rightarrow> CHR 0x00 | c # _ \<Rightarrow> c)"

function matchhere :: "string \<Rightarrow> string \<Rightarrow> bool" and matchstar :: "char \<Rightarrow> string \<Rightarrow> string \<Rightarrow> bool" where
  "matchhere re text =
    (case re of
       [] \<Rightarrow> True
     | c # r \<Rightarrow>
         if hd0 r = CHR ''*'' then matchstar c (tl r) text
         else if c = CHR ''$'' \<and> r = [] then text = []
         else (case text of [] \<Rightarrow> False | x # t \<Rightarrow> (c = CHR ''.'' \<or> c = x) \<and> matchhere r t))"
| "matchstar c re text =
    (matchhere re text \<or> (case text of [] \<Rightarrow> False | x # t \<Rightarrow> (x = c \<or> c = CHR ''.'') \<and> matchstar c re t))"
  by pat_completeness auto
termination
  by (relation "inv_image (less_than <*lex*> less_than <*lex*> less_than)
        (\<lambda>x. case x of Inl (re, text) \<Rightarrow> (length re, length text, 0) | Inr (c, re, text) \<Rightarrow> (length re, length text, 1))")
    (auto simp: hd0_def split: list.splits)

declare matchhere.simps [simp del] matchstar.simps [simp del]

fun match_loop :: "string \<Rightarrow> string \<Rightarrow> bool" where
  "match_loop re text = (matchhere re text \<or> (case text of [] \<Rightarrow> False | _ # t \<Rightarrow> match_loop re t))"

declare match_loop.simps [simp del]

definition match :: "string \<Rightarrow> string \<Rightarrow> bool" where
  "match re text = (if hd0 re = CHR ''^'' then matchhere (tl re) text else match_loop re text)"

section \<open>The loop over lines\<close>

text \<open>
  \<open>buf\<close> is the list of the \<open>m\<close> characters in the buffer, \<open>p\<close> those from the pointer \<open>p\<close> on. They may contain NULs: \<open>strchr\<close> sees the
  string up to the first one.
\<close>

definition till_nul :: "string \<Rightarrow> string" where
  "till_nul s = takeWhile (\<lambda>c. c \<noteq> CHR 0x00) s"

function grep_lines :: "'w kern \<Rightarrow> string \<Rightarrow> string \<Rightarrow> 'w \<Rightarrow> string \<times> 'w" where
  "grep_lines K pattern p w =
    (case strchr (till_nul p) CHR 0x0A of
       None \<Rightarrow> (p, w)
     | Some q \<Rightarrow>
         let line = take (length (till_nul p) - length q) p;
             w = (if match pattern line then snd (k_write K 1 (line @ [CHR 0x0A]) w) else w)
         in grep_lines K pattern (drop (Suc (length line)) p) w)"
  by pat_completeness auto
termination
proof (relation "measure (\<lambda>(K, pattern, p, w). length p)")
  fix K :: "'w kern" and pattern p w q line v
  assume a: "strchr (till_nul p) CHR 0x0A = Some q"
  then have "till_nul p \<noteq> []" by auto
  then have "p \<noteq> []" by (auto simp: till_nul_def)
  then show "((K, pattern, drop (Suc (length line)) p, v), K, pattern, p, w) \<in> measure (\<lambda>(K, pattern, p, w). length p)" by simp
qed simp

declare grep_lines.simps [simp del]

partial_function (option) grep_loop :: "'w kern \<Rightarrow> string \<Rightarrow> int32 \<Rightarrow> string \<Rightarrow> 'w \<Rightarrow> (unit ures \<times> 'w) option" where
  "grep_loop K pattern fd buf w =
    (case k_read K fd (1024 - length buf - 1) w of
       (None, w) \<Rightarrow> Some (Ret (), w)
     | (Some d, w) \<Rightarrow>
         if d = [] then Some (Ret (), w)
         else (case grep_lines K pattern (buf @ d) w of (p, w) \<Rightarrow> grep_loop K pattern fd p w))"

definition grep :: "'w kern \<Rightarrow> string \<Rightarrow> int32 \<Rightarrow> 'w \<Rightarrow> (unit ures \<times> 'w) option" where
  "grep K pattern fd w = grep_loop K pattern fd [] w"

fun grep_files :: "'w kern \<Rightarrow> string \<Rightarrow> string list \<Rightarrow> 'w \<Rightarrow> (unit ures \<times> 'w) option" where
  "grep_files K pattern [] w = uexit 0 w"
| "grep_files K pattern (f # fs) w =
    ubind (ucall (k_open K f 0) w) (\<lambda>fd w.
    if sint fd < 0 then ubind (printf_u K (''grep: cannot open %s'' @ [CHR 0x0A]) [UStr (Some f)] w) (\<lambda>_ w. uexit 1 w)
    else
      ubind (grep K pattern fd w) (\<lambda>_ w.
      ubind (ucall (k_close K fd) w) (\<lambda>_ w. grep_files K pattern fs w)))"

definition grep_main :: "'w kern \<Rightarrow> string list \<Rightarrow> 'w \<Rightarrow> (unit ures \<times> 'w) option" where
  "grep_main K argv w =
    (if length argv \<le> 1 then
       ubind (fprintf K 2 (''usage: grep pattern [file ...]'' @ [CHR 0x0A]) [] w) (\<lambda>_ w. uexit 1 w)
     else if length argv \<le> 2 then ubind (grep K (argv ! 1) 0 w) (\<lambda>_ w. uexit 0 w)
     else grep_files K (argv ! 1) (drop 2 argv) w)"

section \<open>What a pattern means\<close>

text \<open>
  A pattern is a sequence of items: a character, a character repeated any number of times, and \<open>$\<close> at the end of the pattern for the end of the
  text. The dot stands for any character. A text begins with the pattern if it can be cut accordingly.
\<close>

datatype item = Once char | Many char | EndOfText

function items :: "string \<Rightarrow> item list" where
  "items re =
    (case re of
       [] \<Rightarrow> []
     | c # r \<Rightarrow>
         if hd0 r = CHR ''*'' then Many c # items (tl r)
         else if c = CHR ''$'' \<and> r = [] then [EndOfText]
         else Once c # items r)"
  by pat_completeness auto
termination by (relation "measure length") (auto split: list.splits)

declare items.simps [simp del]

definition fits :: "char \<Rightarrow> char \<Rightarrow> bool" where
  "fits c x \<longleftrightarrow> c = CHR ''.'' \<or> c = x"

inductive begins :: "item list \<Rightarrow> string \<Rightarrow> bool" where
  begins_Nil: "begins [] t"
| begins_Once: "fits c x \<Longrightarrow> begins is t \<Longrightarrow> begins (Once c # is) (x # t)"
| begins_Many: "\<forall>x \<in> set u. fits c x \<Longrightarrow> begins is t \<Longrightarrow> begins (Many c # is) (u @ t)"
| begins_End: "begins [EndOfText] []"

inductive_simps begins_Once_iff: "begins (Once c # is) t"
inductive_simps begins_Many_iff: "begins (Many c # is) t"
inductive_simps begins_End_iff: "begins (EndOfText # is) t"

lemma begins_Many_unfold:
  "begins (Many c # is) t \<longleftrightarrow> begins is t \<or> (\<exists>x t'. t = x # t' \<and> fits c x \<and> begins (Many c # is) t')"
proof
  assume "begins (Many c # is) t"
  then obtain u t' where u: "t = u @ t'" "\<forall>x \<in> set u. fits c x" "begins is t'" by (auto simp: begins_Many_iff)
  then show "begins is t \<or> (\<exists>x t'. t = x # t' \<and> fits c x \<and> begins (Many c # is) t')"
    by (cases u) (auto intro: begins_Many)
next
  assume "begins is t \<or> (\<exists>x t'. t = x # t' \<and> fits c x \<and> begins (Many c # is) t')"
  then show "begins (Many c # is) t"
  proof (elim disjE exE conjE)
    assume "begins is t"
    then show ?thesis using begins_Many [of "[]" c "is" t] by simp
  next
    fix x t' assume x: "t = x # t'" "fits c x" "begins (Many c # is) t'"
    then obtain u t'' where "t' = u @ t''" "\<forall>x \<in> set u. fits c x" "begins is t''" by (auto simp: begins_Many_iff)
    then show ?thesis using begins_Many [of "x # u" c "is" t''] x by simp
  qed
qed

lemma matchhere_iff: "matchhere re str \<longleftrightarrow> begins (items re) str"
  and matchstar_iff: "matchstar c re str \<longleftrightarrow> begins (Many c # items re) str"
proof (induction re str and c re str rule: matchhere_matchstar.induct)
  case (1 re str)
  show ?case
  proof (cases re)
    case Nil
    then show ?thesis by (simp add: matchhere.simps items.simps [of "[]"] begins_Nil)
  next
    case (Cons c r)
    consider "hd0 r = CHR ''*''" | "hd0 r \<noteq> CHR ''*''" "c = CHR ''$''" "r = []" | "hd0 r \<noteq> CHR ''*''" "\<not> (c = CHR ''$'' \<and> r = [])" by blast
    then show ?thesis
    proof cases
      case 1
      then show ?thesis using "1.IH"(1) [OF Cons] Cons by (simp add: matchhere.simps [of "c # r"] items.simps [of "c # r"])
    next
      case 2
      then show ?thesis using Cons by (simp add: matchhere.simps [of "''$''"] items.simps [of "''$''"] begins_End_iff)
    next
      case 3
      have "matchhere re str \<longleftrightarrow> (\<exists>x t. str = x # t \<and> fits c x \<and> begins (items r) t)"
        using "1.IH"(2) [OF Cons 3] 3 Cons by (auto simp: matchhere.simps [of "c # r"] fits_def split: list.splits)
      then show ?thesis using 3 Cons by (simp add: items.simps [of "c # r"] begins_Once_iff) blast
    qed
  qed
next
  case (2 c re str)
  show ?case
    using 2 by (auto simp: matchstar.simps [of c re str] begins_Many_unfold [of c "items re" str] fits_def split: list.splits)
qed

lemma match_loop_iff: "match_loop re str \<longleftrightarrow> (\<exists>u v. str = u @ v \<and> begins (items re) v)"
proof (induction str)
  case Nil
  then show ?case by (simp add: match_loop.simps matchhere_iff)
next
  case (Cons x t)
  then show ?case by (simp add: match_loop.simps [of re "x # t"] matchhere_iff Cons_eq_append_conv) blast
qed

text \<open>C26: The matcher decides whether the pattern occurs in the str, or at its beginning for a pattern that starts with \<open>^\<close>.\<close>

theorem match_decides:
  "match re str \<longleftrightarrow>
    (if hd0 re = CHR ''^'' then begins (items (tl re)) str else \<exists>u v. str = u @ v \<and> begins (items re) v)"
  by (simp add: match_def matchhere_iff match_loop_iff)

section \<open>grep prints the matching lines\<close>

abbreviation NL :: char where "NL \<equiv> CHR 0x0A"

text \<open>Text without line ends and without NULs.\<close>

definition plain :: "string \<Rightarrow> bool" where
  "plain l \<longleftrightarrow> NL \<notin> set l \<and> CHR 0x00 \<notin> set l"

definition join :: "string list \<Rightarrow> string" where
  "join ls = concat (map (\<lambda>l. l @ [NL]) ls)"

lemma join_simps [simp]: "join [] = []" "join (l # ls) = l @ NL # join ls"
  by (simp_all add: join_def)

lemma strchr_append: "c \<notin> set u \<Longrightarrow> strchr (u @ c # t) c = Some (c # t)"
  by (induction u) auto

lemma strchr_None: "c \<notin> set s \<Longrightarrow> strchr s c = None"
  by (induction s) auto

lemma till_nul_plain: "plain l \<Longrightarrow> till_nul (l @ NL # t) = l @ NL # till_nul t" "plain l \<Longrightarrow> till_nul l = l"
  by (auto simp: till_nul_def plain_def takeWhile_append)

lemma grep_lines_spec:
  assumes "stream_io K fd inp out" "\<forall>l \<in> set ls. plain l" "plain r"
  shows "\<exists>v. grep_lines K pattern (join ls @ r) w = (r, v) \<and> inp v = inp w \<and> out v = out w @ join (filter (match pattern) ls)"
  using assms(2)
proof (induction ls arbitrary: w)
  case Nil
  have "strchr (till_nul r) NL = None" using assms(3) by (simp add: till_nul_plain strchr_None plain_def)
  then show ?case by (simp add: grep_lines.simps [of K pattern r])
next
  case (Cons l ls)
  let ?p = "l @ NL # join ls @ r"
  have l: "plain l" using Cons.prems by simp
  have c: "till_nul ?p = l @ NL # till_nul (join ls @ r)" by (rule till_nul_plain(1) [OF l])
  have s: "strchr (till_nul ?p) NL = Some (NL # till_nul (join ls @ r))"
    unfolding c using l by (intro strchr_append) (simp add: plain_def)
  define u where "u = (if match pattern l then snd (k_write K 1 (l @ [NL]) w) else w)"
  obtain v where "k_write K 1 (l @ [NL]) w = (of_nat (length (l @ [NL])), v)" "out v = out w @ l @ [NL]" "inp v = inp w"
    using stream_write [OF assms(1)] .
  then have u: "inp u = inp w" "out u = out w @ join (filter (match pattern) [l])" by (simp_all add: u_def)
  have "grep_lines K pattern ?p w = grep_lines K pattern (join ls @ r) u"
    unfolding grep_lines.simps [of K pattern ?p w] s unfolding c by (simp add: u_def Let_def)
  then show ?case using Cons.IH [of u] Cons.prems u by (auto simp: join_def)
qed

lemma split_lines: "\<exists>ls r. s = join ls @ r \<and> (\<forall>l \<in> set ls. NL \<notin> set l) \<and> NL \<notin> set r"
proof (induction s)
  case Nil
  show ?case by (intro exI [of _ "[]"]) simp
next
  case (Cons c s)
  then obtain ls r where s: "s = join ls @ r" "\<forall>l \<in> set ls. NL \<notin> set l" "NL \<notin> set r" by blast
  show ?case
  proof (cases "c = NL")
    case True
    then show ?thesis using s by (intro exI [of _ "[] # ls"] exI [of _ r]) simp
  next
    case False
    show ?thesis
    proof (cases ls)
      case Nil
      then show ?thesis using s False by (intro exI [of _ "[]"] exI [of _ "c # r"]) simp
    next
      case (Cons l ls')
      then show ?thesis using s False by (intro exI [of _ "(c # l) # ls'"] exI [of _ r]) simp
    qed
  qed
qed

lemma first_line: "NL \<notin> set l \<Longrightarrow> NL \<notin> set l' \<Longrightarrow> l @ NL # x = l' @ NL # y \<Longrightarrow> l = l' \<and> x = y"
proof (induction l arbitrary: l')
  case Nil
  then show ?case by (cases l') auto
next
  case (Cons a l)
  then show ?case by (cases l') auto
qed

text \<open>The lines complete in the first part of a text are the first of its lines.\<close>

lemma split_prefix:
  assumes "join ks @ r @ x = join ls @ tl'" "\<forall>l \<in> set ks. NL \<notin> set l" "\<forall>l \<in> set ls. NL \<notin> set l" "NL \<notin> set tl'"
  shows "\<exists>ls'. ls = ks @ ls' \<and> r @ x = join ls' @ tl'"
  using assms
proof (induction ks arbitrary: ls)
  case (Cons k ks)
  show ?case
  proof (cases ls)
    case Nil
    then have "NL \<in> set tl'" using arg_cong [OF Cons.prems(1), of set] by auto
    then show ?thesis using Cons.prems(4) by simp
  next
    case (Cons l ls')
    then have e: "k = l" "join ks @ r @ x = join ls' @ tl'" using first_line [of k l "join ks @ r @ x" "join ls' @ tl'"] Cons.prems by simp_all
    then obtain ls'' where "ls' = ks @ ls''" "r @ x = join ls'' @ tl'" using Cons.IH [OF e(2)] Cons.prems Cons by auto
    then show ?thesis using e(1) Cons by simp
  qed
qed simp

lemma grep_loop_spec:
  assumes io: "stream_io K fd inp out" and ls: "\<forall>l \<in> set ls. plain l \<and> length l < 1023" "plain rest" "length rest < 1023"
    and buf: "buf @ inp w = join ls @ rest" "NL \<notin> set buf"
  shows "\<exists>v. grep_loop K pattern fd buf w = Some (Ret (), v) \<and> inp v = [] \<and> out v = out w @ join (filter (match pattern) ls)"
  using ls(1) buf
proof (induction "length (inp w)" arbitrary: w buf ls rule: less_induct)
  case less
  have pl: "\<forall>l \<in> set ls. NL \<notin> set l" using less.prems(1) by (auto simp: plain_def)
  have nr: "NL \<notin> set rest" using ls(2) by (simp add: plain_def)
  have "length buf < 1023"
  proof (cases ls)
    case Nil
    then show ?thesis using arg_cong [OF less.prems(2), of length] ls(3) by simp
  next
    case (Cons l ls')
    then obtain u where "(buf = l @ u \<and> u @ inp w = NL # join ls' @ rest) \<or> (buf @ u = l \<and> inp w = u @ NL # join ls' @ rest)"
      using less.prems(2) by (auto simp: append_eq_append_conv2)
    then show ?thesis using less.prems(1,3) Cons by (cases u) auto
  qed
  then have pos: "1024 - length buf - 1 \<noteq> 0" by simp
  obtain d w1 where r: "k_read K fd (1024 - length buf - 1) w = (Some d, w1)" "inp w = d @ inp w1" "out w1 = out w"
    "d = [] \<longrightarrow> 1024 - length buf - 1 = 0 \<or> inp w = []" using stream_read [OF io] .
  show ?case
  proof (cases "d = []")
    case True
    then have "inp w = []" using r(4) pos by simp
    then have "ls = []" using less.prems(2,3) pl by (cases ls) (use arg_cong [OF less.prems(2), of set] in auto)
    then show ?thesis using True r \<open>inp w = []\<close> by (subst grep_loop.simps) simp
  next
    case False
    obtain ks p where s: "buf @ d = join ks @ p" "\<forall>l \<in> set ks. NL \<notin> set l" "NL \<notin> set p" using split_lines by blast
    then have "join ks @ p @ inp w1 = join ls @ rest" using less.prems(2) r(2) by (metis append_assoc)
    then obtain ls' where ls': "ls = ks @ ls'" "p @ inp w1 = join ls' @ rest" using split_prefix [OF _ s(2) pl nr] by blast
    have "CHR 0x00 \<notin> set (p @ inp w1)" unfolding ls'(2) using ls' less.prems(1) ls(2) by (auto simp: join_def plain_def)
    then have "plain p" using s(3) by (simp add: plain_def)
    then obtain w2 where g: "grep_lines K pattern (buf @ d) w1 = (p, w2)" "inp w2 = inp w1" "out w2 = out w1 @ join (filter (match pattern) ks)"
      using grep_lines_spec [OF io, of ks p pattern w1] s(1) less.prems(1) ls'(1) by auto
    obtain v where "grep_loop K pattern fd p w2 = Some (Ret (), v)" "inp v = []" "out v = out w2 @ join (filter (match pattern) ls')"
      using less.hyps [of w2 ls' p] False r(2) g(2) less.prems(1) ls' s(3) by auto
    then show ?thesis using r(1,3) g False ls'(1) by (subst grep_loop.simps) (simp add: join_def)
  qed
qed



text \<open>With a full buffer and no line end in it \<open>read\<close> is asked for no bytes, and \<open>grep\<close> takes the answer for the end of the file.\<close>

lemma grep_stops_at_long_line:
  assumes "stream_io K fd inp out" "length buf = 1023"
  shows "\<exists>v. grep_loop K pattern fd buf w = Some (Ret (), v) \<and> inp v = inp w \<and> out v = out w"
proof -
  obtain d v where "k_read K fd 0 w = (Some d, v)" "inp w = d @ inp v" "out v = out w" "length d \<le> 0" using stream_read [OF assms(1)] .
  then show ?thesis using assms(2) by (subst grep_loop.simps) simp
qed

end
