(* ===== verification/User_Tools.thy ===== *)
theory User_Tools
  imports User_Grep
begin

text \<open>
  The small user programs: \<open>wc.c\<close>, \<open>cat.c\<close>, \<open>echo.c\<close>, \<open>kill.c\<close>, \<open>ln.c\<close>, \<open>mkdir.c\<close>, \<open>rm.c\<close>, \<open>ls.c\<close> and \<open>init.c\<close>. \<open>wc\<close> and \<open>cat\<close> are shown to treat a
  file as one sequence of characters, whatever pieces \<open>read\<close> returns.
\<close>

section \<open>wc.c\<close>

type_synonym wc_state = "int32 \<times> int32 \<times> int32 \<times> bool"

text \<open>The body of the inner loop on \<open>(l, w, c, inword)\<close>.\<close>

fun wc_char :: "char \<Rightarrow> wc_state \<Rightarrow> wc_state" where
  "wc_char x (l, w, c, inword) =
    (let c = c + 1; l = (if x = NL then l + 1 else l)
     in if strchr [CHR '' '', CHR 0x0D, CHR 0x09, CHR 0x0A, CHR 0x0B] x \<noteq> None then (l, w, c, False)
        else if \<not> inword then (l, w + 1, c, True)
        else (l, w, c, inword))"

partial_function (option) wc_loop :: "'w kern \<Rightarrow> int32 \<Rightarrow> wc_state \<Rightarrow> 'w \<Rightarrow> (wc_state ures \<times> 'w) option" where
  "wc_loop K fd st w =
    (case k_read K fd 512 w of
       (None, w) \<Rightarrow> ubind (printf_u K (''wc: read error'' @ [NL]) [] w) (\<lambda>_ w. uexit 1 w)
     | (Some d, w) \<Rightarrow> if d = [] then Some (Ret st, w) else wc_loop K fd (fold wc_char d st) w)"

definition wc :: "'w kern \<Rightarrow> int32 \<Rightarrow> string \<Rightarrow> 'w \<Rightarrow> (unit ures \<times> 'w) option" where
  "wc K fd name w =
    ubind (wc_loop K fd (0, 0, 0, False) w) (\<lambda>(l, ww, c, inword) w.
    printf_u K (''%d %d %d %s'' @ [NL]) [UWord (scast l), UWord (scast ww), UWord (scast c), UStr (Some name)] w)"

fun wc_files :: "'w kern \<Rightarrow> string list \<Rightarrow> 'w \<Rightarrow> (unit ures \<times> 'w) option" where
  "wc_files K [] w = uexit 0 w"
| "wc_files K (f # fs) w =
    ubind (ucall (k_open K f 0) w) (\<lambda>fd w.
    if sint fd < 0 then ubind (printf_u K (''wc: cannot open %s'' @ [NL]) [UStr (Some f)] w) (\<lambda>_ w. uexit 1 w)
    else
      ubind (wc K fd f w) (\<lambda>_ w.
      ubind (ucall (k_close K fd) w) (\<lambda>_ w. wc_files K fs w)))"

definition wc_main :: "'w kern \<Rightarrow> string list \<Rightarrow> 'w \<Rightarrow> (unit ures \<times> 'w) option" where
  "wc_main K argv w =
    (if length argv \<le> 1 then ubind (wc K 0 [] w) (\<lambda>_ w. uexit 0 w) else wc_files K (drop 1 argv) w)"

section \<open>cat.c\<close>

partial_function (option) cat :: "'w kern \<Rightarrow> int32 \<Rightarrow> 'w \<Rightarrow> (unit ures \<times> 'w) option" where
  "cat K fd w =
    (case k_read K fd 512 w of
       (None, w) \<Rightarrow> ubind (fprintf K 2 (''cat: read error'' @ [NL]) [] w) (\<lambda>_ w. uexit 1 w)
     | (Some d, w) \<Rightarrow>
         if d = [] then Some (Ret (), w)
         else
           (case k_write K 1 d w of
              (r, w) \<Rightarrow>
                if r \<noteq> of_nat (length d) then ubind (fprintf K 2 (''cat: write error'' @ [NL]) [] w) (\<lambda>_ w. uexit 1 w)
                else cat K fd w))"

fun cat_files :: "'w kern \<Rightarrow> string list \<Rightarrow> 'w \<Rightarrow> (unit ures \<times> 'w) option" where
  "cat_files K [] w = uexit 0 w"
| "cat_files K (f # fs) w =
    ubind (ucall (k_open K f 0) w) (\<lambda>fd w.
    if sint fd < 0 then ubind (fprintf K 2 (''cat: cannot open %s'' @ [NL]) [UStr (Some f)] w) (\<lambda>_ w. uexit 1 w)
    else
      ubind (cat K fd w) (\<lambda>_ w.
      ubind (ucall (k_close K fd) w) (\<lambda>_ w. cat_files K fs w)))"

definition cat_main :: "'w kern \<Rightarrow> string list \<Rightarrow> 'w \<Rightarrow> (unit ures \<times> 'w) option" where
  "cat_main K argv w =
    (if length argv \<le> 1 then ubind (cat K 0 w) (\<lambda>_ w. uexit 0 w) else cat_files K (drop 1 argv) w)"

section \<open>echo.c, kill.c, ln.c, mkdir.c, rm.c\<close>

fun echo_loop :: "'w kern \<Rightarrow> string list \<Rightarrow> 'w \<Rightarrow> (unit ures \<times> 'w) option" where
  "echo_loop K [] w = uexit 0 w"
| "echo_loop K (a # as) w =
    ubind (ucall (k_write K 1 a) w) (\<lambda>_ w.
    ubind (ucall (k_write K 1 (if as \<noteq> [] then '' '' else [NL])) w) (\<lambda>_ w. echo_loop K as w))"

definition echo_main :: "'w kern \<Rightarrow> string list \<Rightarrow> 'w \<Rightarrow> (unit ures \<times> 'w) option" where
  "echo_main K argv w = echo_loop K (drop 1 argv) w"

fun kill_all :: "'w kern \<Rightarrow> string list \<Rightarrow> 'w \<Rightarrow> (unit ures \<times> 'w) option" where
  "kill_all K [] w = uexit 0 w"
| "kill_all K (a # as) w = ubind (ucall (k_kill K (atoi a)) w) (\<lambda>_ w. kill_all K as w)"

definition kill_main :: "'w kern \<Rightarrow> string list \<Rightarrow> 'w \<Rightarrow> (unit ures \<times> 'w) option" where
  "kill_main K argv w =
    (if length argv < 2 then ubind (fprintf K 2 (''usage: kill pid...'' @ [NL]) [] w) (\<lambda>_ w. uexit 1 w)
     else kill_all K (drop 1 argv) w)"

definition ln_main :: "'w kern \<Rightarrow> string list \<Rightarrow> 'w \<Rightarrow> (unit ures \<times> 'w) option" where
  "ln_main K argv w =
    (if length argv \<noteq> 3 then ubind (fprintf K 2 (''Usage: ln old new'' @ [NL]) [] w) (\<lambda>_ w. uexit 1 w)
     else
       ubind (ucall (k_link K (argv ! 1) (argv ! 2)) w) (\<lambda>r w.
       ubind (if sint r < 0 then fprintf K 2 (''link %s %s: failed'' @ [NL]) [UStr (Some (argv ! 1)), UStr (Some (argv ! 2))] w
              else Some (Ret (), w)) (\<lambda>_ w. uexit 0 w)))"

fun mkdir_all :: "'w kern \<Rightarrow> string list \<Rightarrow> 'w \<Rightarrow> (unit ures \<times> 'w) option" where
  "mkdir_all K [] w = uexit 0 w"
| "mkdir_all K (a # as) w =
    ubind (ucall (k_mkdir K a) w) (\<lambda>r w.
    if sint r < 0 then ubind (fprintf K 2 (''mkdir: %s failed to create'' @ [NL]) [UStr (Some a)] w) (\<lambda>_ w. uexit 0 w)
    else mkdir_all K as w)"

definition mkdir_main :: "'w kern \<Rightarrow> string list \<Rightarrow> 'w \<Rightarrow> (unit ures \<times> 'w) option" where
  "mkdir_main K argv w =
    (if length argv < 2 then ubind (fprintf K 2 (''Usage: mkdir files...'' @ [NL]) [] w) (\<lambda>_ w. uexit 1 w)
     else mkdir_all K (drop 1 argv) w)"

fun rm_all :: "'w kern \<Rightarrow> string list \<Rightarrow> 'w \<Rightarrow> (unit ures \<times> 'w) option" where
  "rm_all K [] w = uexit 0 w"
| "rm_all K (a # as) w =
    ubind (ucall (k_unlink K a) w) (\<lambda>r w.
    if sint r < 0 then ubind (fprintf K 2 (''rm: %s failed to delete'' @ [NL]) [UStr (Some a)] w) (\<lambda>_ w. uexit 0 w)
    else rm_all K as w)"

definition rm_main :: "'w kern \<Rightarrow> string list \<Rightarrow> 'w \<Rightarrow> (unit ures \<times> 'w) option" where
  "rm_main K argv w =
    (if length argv < 2 then ubind (fprintf K 2 (''Usage: rm files...'' @ [NL]) [] w) (\<lambda>_ w. uexit 1 w)
     else rm_all K (drop 1 argv) w)"

section \<open>ls.c\<close>

text \<open>The loop of \<open>fmtname\<close> from the pointer \<open>path + i\<close> down; the result is the index of the character behind the one where it stops.\<close>

fun fmtname_scan :: "string \<Rightarrow> nat \<Rightarrow> nat" where
  "fmtname_scan path 0 = (if hd0 path = CHR ''/'' then 1 else 0)"
| "fmtname_scan path (Suc i) = (if hd0 (drop (Suc i) path) = CHR ''/'' then Suc (Suc i) else fmtname_scan path i)"

definition fmtname :: "string \<Rightarrow> string" where
  "fmtname path =
    (let p = drop (fmtname_scan path (length path)) path
     in if DIRSIZ \<le> length p then p else p @ replicate (DIRSIZ - length p) (CHR '' ''))"

text \<open>The 16 bytes of a \<open>struct dirent\<close>.\<close>

definition de_inum :: "string \<Rightarrow> ushort" where
  "de_inum d = of_char (d ! 0) + of_char (d ! 1) * 256"

definition de_name :: "string \<Rightarrow> string" where
  "de_name d = take DIRSIZ (drop 2 d)"

definition ls_line :: "'w kern \<Rightarrow> string \<Rightarrow> string \<Rightarrow> kstat \<Rightarrow> 'w \<Rightarrow> (unit ures \<times> 'w) option" where
  "ls_line K fmt path st w =
    printf_u K fmt [UStr (Some (fmtname path)), UWord (scast (st_type st)), UWord (ucast (st_ino st)), UWord (st_size st)] w"

partial_function (option) ls_loop :: "'w kern \<Rightarrow> int32 \<Rightarrow> string \<Rightarrow> 'w \<Rightarrow> (unit ures \<times> 'w) option" where
  "ls_loop K fd path w =
    (case k_read K fd 16 w of
       (None, w) \<Rightarrow> Some (Ret (), w)
     | (Some de, w) \<Rightarrow>
         if length de \<noteq> 16 then Some (Ret (), w)
         else if de_inum de = 0 then ls_loop K fd path w
         else
           let buf = till_nul (path @ ''/'' @ de_name de) in
           ubind (stat K buf w) (\<lambda>r w.
           case r of
             None \<Rightarrow> ubind (printf_u K (''ls: cannot stat %s'' @ [NL]) [UStr (Some buf)] w) (\<lambda>_ w. ls_loop K fd path w)
           | Some st \<Rightarrow> ubind (ls_line K (''%s %d %d %d'' @ [NL]) buf st w) (\<lambda>_ w. ls_loop K fd path w)))"

definition ls :: "'w kern \<Rightarrow> string \<Rightarrow> 'w \<Rightarrow> (unit ures \<times> 'w) option" where
  "ls K path w =
    ubind (ucall (k_open K path 0) w) (\<lambda>fd w.
    if sint fd < 0 then fprintf K 2 (''ls: cannot open %s'' @ [NL]) [UStr (Some path)] w
    else
      ubind (ucall (k_fstat K fd) w) (\<lambda>r w.
      case r of
        None \<Rightarrow>
          ubind (fprintf K 2 (''ls: cannot stat %s'' @ [NL]) [UStr (Some path)] w) (\<lambda>_ w.
          ubind (ucall (k_close K fd) w) (\<lambda>_ w. Some (Ret (), w)))
      | Some st \<Rightarrow>
          ubind (if st_type st = T_FILE then ls_line K (''%s %d %d %l'' @ [NL]) path st w
                 else if st_type st = T_DIR then
                   if 512 < length path + 1 + DIRSIZ + 1 then printf_u K (''ls: path too long'' @ [NL]) [] w
                   else ls_loop K fd path w
                 else Some (Ret (), w)) (\<lambda>_ w.
          ubind (ucall (k_close K fd) w) (\<lambda>_ w. Some (Ret (), w)))))"

fun ls_all :: "'w kern \<Rightarrow> string list \<Rightarrow> 'w \<Rightarrow> (unit ures \<times> 'w) option" where
  "ls_all K [] w = uexit 0 w"
| "ls_all K (a # as) w = ubind (ls K a w) (\<lambda>_ w. ls_all K as w)"

definition ls_main :: "'w kern \<Rightarrow> string list \<Rightarrow> 'w \<Rightarrow> (unit ures \<times> 'w) option" where
  "ls_main K argv w =
    (if length argv < 2 then ubind (ls K ''.'' w) (\<lambda>_ w. uexit 0 w) else ls_all K (drop 1 argv) w)"

section \<open>init.c\<close>

text \<open>The inner loop waits for the shell with the given pid.\<close>

partial_function (option) init_wait :: "'w kern \<Rightarrow> int32 \<Rightarrow> 'w \<Rightarrow> (unit ures \<times> 'w) option" where
  "init_wait K pid w =
    (case k_wait K w of
       (wpid, w) \<Rightarrow>
         if wpid = pid then Some (Ret (), w)
         else if sint wpid < 0 then ubind (printf_u K (''init: wait returned an error'' @ [NL]) [] w) (\<lambda>_ w. uexit 1 w)
         else init_wait K pid w)"

partial_function (option) init_loop :: "'w kern \<Rightarrow> 'w \<Rightarrow> (unit ures \<times> 'w) option" where
  "init_loop K w =
    ubind (printf_u K (''init: starting sh'' @ [NL]) [] w) (\<lambda>_ w.
    case k_fork K w of
      (pid, w) \<Rightarrow>
        if sint pid < 0 then ubind (printf_u K (''init: fork failed'' @ [NL]) [] w) (\<lambda>_ w. uexit 1 w)
        else if pid = 0 then
          ubind (uexec K ''sh'' [''sh''] w) (\<lambda>_ w.
          ubind (printf_u K (''init: exec sh failed'' @ [NL]) [] w) (\<lambda>_ w. uexit 1 w))
        else ubind (init_wait K pid w) (\<lambda>_ w. init_loop K w))"

definition init_main :: "'w kern \<Rightarrow> 'w \<Rightarrow> (unit ures \<times> 'w) option" where
  "init_main K w =
    ubind (ucall (k_open K ''console'' O_RDWR) w) (\<lambda>fd w.
    ubind (if sint fd < 0 then
             ubind (ucall (k_mknod K ''console'' CONSOLE 0) w) (\<lambda>_ w. ucall (k_open K ''console'' O_RDWR) w)
           else Some (Ret fd, w)) (\<lambda>_ w.
    ubind (ucall (k_dup K 0) w) (\<lambda>_ w.
    ubind (ucall (k_dup K 0) w) (\<lambda>_ w. init_loop K w))))"

section \<open>wc and cat see one sequence of characters\<close>

lemma wc_loop_spec:
  assumes "stream_io K fd inp out"
  shows "\<exists>v. wc_loop K fd st w = Some (Ret (fold wc_char (inp w) st), v) \<and> inp v = [] \<and> out v = out w"
proof (induction "length (inp w)" arbitrary: w st rule: less_induct)
  case less
  obtain d v where r: "k_read K fd 512 w = (Some d, v)" "inp w = d @ inp v" "out v = out w" "d = [] \<longrightarrow> (512 :: nat) = 0 \<or> inp w = []"
    using stream_read [OF assms] .
  show ?case
  proof (cases "d = []")
    case True
    then show ?thesis using r by (subst wc_loop.simps) simp
  next
    case False
    then show ?thesis using r less [of v "fold wc_char d st"] by (subst wc_loop.simps) auto
  qed
qed

text \<open>A word is a longest sequence of characters without white space: it begins at every such character that follows white space or begins the text.\<close>

definition white :: "char \<Rightarrow> bool" where
  "white x \<longleftrightarrow> x \<in> {CHR '' '', CHR 0x0D, CHR 0x09, CHR 0x0A, CHR 0x0B}"

definition word_starts :: "string \<Rightarrow> nat set" where
  "word_starts s = {i. i < length s \<and> \<not> white (s ! i) \<and> (i = 0 \<or> white (s ! (i - 1)))}"

lemma word_starts_snoc:
  "word_starts (s @ [x]) = word_starts s \<union> (if \<not> white x \<and> (s = [] \<or> white (last s)) then {length s} else {})"
  by (cases "s = []") (auto simp: word_starts_def nth_append last_conv_nth less_Suc_eq split: if_splits)

lemma wc_count:
  "fold wc_char s (0, 0, 0, False) =
    (of_nat (count_list s NL), of_nat (card (word_starts s)), of_nat (length s), s \<noteq> [] \<and> \<not> white (last s))"
proof (induction s rule: rev_induct)
  case Nil
  then show ?case by (simp add: word_starts_def)
next
  case (snoc x s)
  have sp: "strchr [CHR '' '', CHR 0x0D, CHR 0x09, CHR 0x0A, CHR 0x0B] x \<noteq> None \<longleftrightarrow> white x" by (simp add: white_def)
  have "finite (word_starts s)" "length s \<notin> word_starts s" by (simp_all add: word_starts_def)
  then have "card (word_starts (s @ [x])) = card (word_starts s) + (if \<not> white x \<and> (s = [] \<or> white (last s)) then 1 else 0)"
    by (simp add: word_starts_snoc)
  then show ?case using snoc sp by (simp add: Let_def)
qed

text \<open>C28: \<open>wc\<close> reads the whole file in whatever pieces \<open>read\<close> returns and prints the number of line ends, of words and of characters
  (modulo \<open>2^32\<close>).
\<close>

theorem wc_counts:
  assumes "stream_io K fd inp out" "inp w = s"
  shows "\<exists>v. inp v = [] \<and> out v = out w \<and>
    wc K fd name w =
      printf_u K (''%d %d %d %s'' @ [NL])
        [UWord (scast (of_nat (count_list s NL) :: int32)), UWord (scast (of_nat (card (word_starts s)) :: int32)),
         UWord (scast (of_nat (length s) :: int32)), UStr (Some name)] v"
proof -
  obtain v where "wc_loop K fd (0, 0, 0, False) w = Some (Ret (fold wc_char s (0, 0, 0, False)), v)" "inp v = []" "out v = out w"
    using wc_loop_spec [OF assms(1), of "(0, 0, 0, False)" w] assms(2) by blast
  then show ?thesis by (intro exI [of _ v]) (simp add: wc_def wc_count)
qed

theorem wc_counts_witness:
  "\<exists>v. fst v = [] \<and> wc demo_kern 0 ''f'' (''a b'' @ [NL], []) =
     printf_u demo_kern (''%d %d %d %s'' @ [NL]) [UWord 1, UWord 2, UWord 4, UStr (Some ''f'')] v"
proof -
  have "word_starts (''a b'' @ [NL]) = {0, 2}" by (auto simp: word_starts_def white_def less_Suc_eq numeral_2_eq_2)
  then show ?thesis using wc_counts [OF demo_kern_stream [of 0], of "(''a b'' @ [NL], [])" "''a b'' @ [NL]" "''f''"] by auto
qed

text \<open>\<open>cat\<close> copies the file to the standard output.\<close>

lemma cat_copies:
  assumes "stream_io K fd inp out"
  shows "\<exists>v. cat K fd w = Some (Ret (), v) \<and> inp v = [] \<and> out v = out w @ inp w"
proof (induction "length (inp w)" arbitrary: w rule: less_induct)
  case less
  obtain d v where r: "k_read K fd 512 w = (Some d, v)" "inp w = d @ inp v" "out v = out w" "d = [] \<longrightarrow> (512 :: nat) = 0 \<or> inp w = []"
    using stream_read [OF assms] .
  show ?case
  proof (cases "d = []")
    case True
    then show ?thesis using r by (subst cat.simps) simp
  next
    case False
    obtain u where u: "k_write K 1 d v = (of_nat (length d), u)" "out u = out v @ d" "inp u = inp v" using stream_write [OF assms] .
    then show ?thesis using r False less [of u] by (subst cat.simps) auto
  qed
qed

end
