(* ===== verification/Shell.thy ===== *)
theory Shell
  imports User_Tools
begin

text \<open>
  The shell, \<open>user/sh.c\<close>. The parser works on one line of input: pointers are indices into the line, the end \<open>es\<close> is its length and the
  character there is NUL. A command holds the indices of its words; \<open>nulterminate\<close> changes the line so that each word is a C string.
  The nodes of a command are allocated with \<open>malloc\<close>, whose failure is not modelled: a node is a value of the datatype.
\<close>

section \<open>Parsed commands\<close>

text \<open>A word is the pair of the pointers to its first character and behind its last one (\<open>argv[i]\<close>, \<open>eargv[i]\<close>).\<close>

datatype cmd =
    EXEC "(nat \<times> nat) list"
  | REDIR cmd nat nat int32 int32
  | PIPE cmd cmd
  | LIST cmd cmd
  | BACK cmd

definition MAXARGS :: nat where "MAXARGS = 10"

definition execcmd :: cmd where
  "execcmd = EXEC []"

definition redircmd :: "cmd \<Rightarrow> nat \<Rightarrow> nat \<Rightarrow> int32 \<Rightarrow> int32 \<Rightarrow> cmd" where
  "redircmd subcmd file efile mode fd = REDIR subcmd file efile mode fd"

definition pipecmd :: "cmd \<Rightarrow> cmd \<Rightarrow> cmd" where
  "pipecmd left right = PIPE left right"

definition listcmd :: "cmd \<Rightarrow> cmd \<Rightarrow> cmd" where
  "listcmd left right = LIST left right"

definition backcmd :: "cmd \<Rightarrow> cmd" where
  "backcmd subcmd = BACK subcmd"

text \<open>The assignments \<open>cmd->argv[argc] = q\<close> and \<open>cmd->eargv[argc] = eq\<close>: the node is reached through the redirections around it.\<close>

fun add_arg :: "cmd \<Rightarrow> nat \<Rightarrow> nat \<Rightarrow> cmd" where
  "add_arg (EXEC as) q eq = EXEC (as @ [(q, eq)])"
| "add_arg (REDIR c f ef mode fd) q eq = REDIR (add_arg c q eq) f ef mode fd"
| "add_arg c q eq = c"

section \<open>Tokens\<close>

definition whitespace :: string where
  "whitespace = [CHR '' '', CHR 0x09, CHR 0x0D, CHR 0x0A, CHR 0x0B]"

definition symbols :: string where
  "symbols = ''<|>&;()''"

definition char_at :: "string \<Rightarrow> nat \<Rightarrow> char" where
  "char_at buf s = (if s < length buf then buf ! s else CHR 0x00)"

function skip_white :: "string \<Rightarrow> nat \<Rightarrow> nat" where
  "skip_white buf s = (if s < length buf \<and> strchr whitespace (buf ! s) \<noteq> None then skip_white buf (Suc s) else s)"
  by pat_completeness auto
termination by (relation "measure (\<lambda>(buf, s). length buf - s)") auto

function skip_word :: "string \<Rightarrow> nat \<Rightarrow> nat" where
  "skip_word buf s =
    (if s < length buf \<and> strchr whitespace (buf ! s) = None \<and> strchr symbols (buf ! s) = None then skip_word buf (Suc s) else s)"
  by pat_completeness auto
termination by (relation "measure (\<lambda>(buf, s). length buf - s)") auto

declare skip_white.simps [simp del] skip_word.simps [simp del]

text \<open>The result is the token, the values for \<open>*q\<close> and \<open>*eq\<close>, and the new \<open>*ps\<close>.\<close>

definition gettoken :: "string \<Rightarrow> nat \<Rightarrow> char \<times> nat \<times> nat \<times> nat" where
  "gettoken buf ps =
    (let q = skip_white buf ps;
         c = char_at buf q;
         (ret, eq) =
           (if c = CHR 0x00 then (c, q)
            else if c \<in> set ''|();&<'' then (c, Suc q)
            else if c = CHR ''>'' then (if char_at buf (Suc q) = CHR ''>'' then (CHR ''+'', Suc (Suc q)) else (c, Suc q))
            else (CHR ''a'', skip_word buf q))
     in (ret, q, eq, skip_white buf eq))"

definition peek :: "string \<Rightarrow> nat \<Rightarrow> string \<Rightarrow> bool \<times> nat" where
  "peek buf ps toks =
    (let s = skip_white buf ps
     in (char_at buf s \<noteq> CHR 0x00 \<and> strchr toks (char_at buf s) \<noteq> None, s))"

lemma skip_white_ge: "s \<le> skip_white buf s" "s \<le> length buf \<Longrightarrow> skip_white buf s \<le> length buf"
proof (induction buf s rule: skip_white.induct)
  case (1 buf s)
  { case 1 then show ?case using "1.IH" by (subst skip_white.simps) auto }
  { case 2 then show ?case using "1.IH" by (subst skip_white.simps) auto }
qed

lemma skip_word_ge: "s \<le> skip_word buf s" "s \<le> length buf \<Longrightarrow> skip_word buf s \<le> length buf"
proof (induction buf s rule: skip_word.induct)
  case (1 buf s)
  { case 1 then show ?case using "1.IH" by (subst skip_word.simps) auto }
  { case 2 then show ?case using "1.IH" by (subst skip_word.simps) auto }
qed

section \<open>The parser\<close>

text \<open>
  A parsing function returns a value and the new \<open>*ps\<close>, or calls \<open>panic\<close>. The recursion of \<open>parseline\<close> through the nesting of parentheses has
  fuel; \<open>NoFuel\<close> is shown not to happen with the fuel that \<open>parsecmd\<close> gives.
\<close>

datatype 'a pres = Parsed 'a nat | Panicked string | NoFuel

fun pbind :: "'a pres \<Rightarrow> ('a \<Rightarrow> nat \<Rightarrow> 'b pres) \<Rightarrow> 'b pres" where
  "pbind (Parsed a ps) f = f a ps"
| "pbind (Panicked e) f = Panicked e"
| "pbind NoFuel f = NoFuel"

lemma strchr_iff: "strchr ts c \<noteq> None \<longleftrightarrow> c \<in> set ts" "strchr ts c = None \<longleftrightarrow> c \<notin> set ts"
  by (induction ts) auto

lemma gettoken_ge: "gettoken buf ps = (t, q, eq, ps') \<Longrightarrow> ps \<le> q \<and> q \<le> eq \<and> eq \<le> ps'"
  using skip_white_ge(1) [of ps buf] skip_word_ge(1) [of "skip_white buf ps" buf] skip_white_ge(1) [of eq buf]
  by (auto simp: gettoken_def Let_def split: if_splits)

lemma skip_white_idem: "skip_white buf (skip_white buf s) = skip_white buf s"
proof (induction buf s rule: skip_white.induct)
  case (1 buf s)
  show ?case
  proof (cases "s < length buf \<and> strchr whitespace (buf ! s) \<noteq> None")
    case True
    then show ?thesis using 1 by (simp add: skip_white.simps [of buf s])
  next
    case False
    have "skip_white buf s = s" by (subst skip_white.simps) (simp only: False if_False)
    then show ?thesis by simp
  qed
qed

lemma peek_gettoken:
  assumes "peek buf ps toks = (True, p)" "set toks \<subseteq> set symbols" "gettoken buf p = (t, q, eq, ps')"
  shows "ps \<le> p" "p < ps'" "p < length buf"
proof -
  have p: "p = skip_white buf ps" "char_at buf p \<noteq> CHR 0x00" "char_at buf p \<in> set symbols"
    using assms(1,2) by (auto simp: peek_def Let_def strchr_iff)
  have "skip_white buf p = p" unfolding p(1) by (rule skip_white_idem)
  then have "p < eq" using assms(3) p(2,3) by (auto simp: gettoken_def Let_def symbols_def split: if_splits)
  moreover have "eq \<le> ps'" using gettoken_ge [OF assms(3)] by simp
  ultimately show "p < ps'" by simp
  show "ps \<le> p" unfolding p(1) by (rule skip_white_ge)
  show "p < length buf" using p(2) by (auto simp: char_at_def split: if_splits)
qed

text \<open>The length of the rest of the line decreases along the loops.\<close>

lemma redir_decreases:
  assumes "(True, p) = peek buf ps ''<>''" "(t, q, eq, p') = gettoken buf p" "(t', q', eq', p'') = gettoken buf p'"
  shows "length buf - p'' < length buf - ps"
  using peek_gettoken [OF assms(1) [symmetric] _ assms(2) [symmetric]] gettoken_ge [OF assms(3) [symmetric]] by (simp add: symbols_def) arith

lemma back_decreases:
  assumes "(True, p) = peek buf ps ''&''" "(t, q, eq, p') = gettoken buf p"
  shows "length buf - p' < length buf - ps"
  using peek_gettoken [OF assms(1) [symmetric] _ assms(2) [symmetric]] by (simp add: symbols_def)

function parseredirs :: "string \<Rightarrow> cmd \<Rightarrow> nat \<Rightarrow> cmd pres" where
  "parseredirs buf cmd ps =
    (case peek buf ps ''<>'' of
       (b, p) \<Rightarrow>
         if \<not> b then Parsed cmd p
         else
           (case gettoken buf p of
              (tok, _, _, p) \<Rightarrow>
                (case gettoken buf p of
                   (t, q, eq, p) \<Rightarrow>
                     if t \<noteq> CHR ''a'' then Panicked ''missing file for redirection''
                     else
                       parseredirs buf
                         (if tok = CHR ''<'' then redircmd cmd q eq O_RDONLY 0
                          else if tok = CHR ''>'' then redircmd cmd q eq (O_WRONLY OR O_CREATE OR O_TRUNC) 1
                          else if tok = CHR ''+'' then redircmd cmd q eq (O_WRONLY OR O_CREATE) 1
                          else cmd) p)))"
  by pat_completeness auto
termination
  by (relation "measure (\<lambda>(buf, cmd, ps). length buf - ps)") (auto intro: redir_decreases)

declare parseredirs.simps [simp del]

text \<open>The loop of \<open>parseexec\<close>; \<open>k\<close> is \<open>MAXARGS - argc\<close>.\<close>

fun parseargs :: "nat \<Rightarrow> string \<Rightarrow> cmd \<Rightarrow> nat \<Rightarrow> cmd pres" where
  "parseargs 0 buf ret ps = Panicked ''too many args''"
| "parseargs (Suc k) buf ret ps =
    (case peek buf ps ''|)&;'' of
       (b, ps) \<Rightarrow>
         if b then Parsed ret ps
         else
           (case gettoken buf ps of
              (tok, q, eq, ps) \<Rightarrow>
                if tok = CHR 0x00 then Parsed ret ps
                else if tok \<noteq> CHR ''a'' then Panicked ''syntax''
                else if k = 0 then Panicked ''too many args''
                else pbind (parseredirs buf (add_arg ret q eq) ps) (\<lambda>ret ps. parseargs k buf ret ps)))"

text \<open>The loop of \<open>parseline\<close> over \<open>&\<close>.\<close>

function parsebacks :: "string \<Rightarrow> cmd \<Rightarrow> nat \<Rightarrow> cmd \<times> nat" where
  "parsebacks buf cmd ps =
    (case peek buf ps ''&'' of
       (b, p) \<Rightarrow> if \<not> b then (cmd, p) else (case gettoken buf p of (_, _, _, p) \<Rightarrow> parsebacks buf (backcmd cmd) p))"
  by pat_completeness auto
termination
  by (relation "measure (\<lambda>(buf, cmd, ps). length buf - ps)") (auto intro: back_decreases)

declare parsebacks.simps [simp del]

fun parseline :: "nat \<Rightarrow> string \<Rightarrow> nat \<Rightarrow> cmd pres"
  and parsepipe :: "nat \<Rightarrow> string \<Rightarrow> nat \<Rightarrow> cmd pres"
  and parseblock :: "nat \<Rightarrow> string \<Rightarrow> nat \<Rightarrow> cmd pres"
  and parseexec :: "nat \<Rightarrow> string \<Rightarrow> nat \<Rightarrow> cmd pres" where
  "parseline 0 buf ps = NoFuel"
| "parseline (Suc n) buf ps =
    pbind (parsepipe n buf ps) (\<lambda>cmd ps.
    case parsebacks buf cmd ps of
      (cmd, ps) \<Rightarrow>
        (case peek buf ps '';'' of
           (b, ps) \<Rightarrow>
             if b then
               (case gettoken buf ps of (_, _, _, ps) \<Rightarrow> pbind (parseline n buf ps) (\<lambda>right ps. Parsed (listcmd cmd right) ps))
             else Parsed cmd ps))"
| "parsepipe 0 buf ps = NoFuel"
| "parsepipe (Suc n) buf ps =
    pbind (parseexec n buf ps) (\<lambda>cmd ps.
    case peek buf ps ''|'' of
      (b, ps) \<Rightarrow>
        if b then
          (case gettoken buf ps of (_, _, _, ps) \<Rightarrow> pbind (parsepipe n buf ps) (\<lambda>right ps. Parsed (pipecmd cmd right) ps))
        else Parsed cmd ps)"
| "parseblock 0 buf ps = NoFuel"
| "parseblock (Suc n) buf ps =
    (case peek buf ps ''('' of
       (b, ps) \<Rightarrow>
         if \<not> b then Panicked ''parseblock''
         else
           (case gettoken buf ps of
              (_, _, _, ps) \<Rightarrow>
                pbind (parseline n buf ps) (\<lambda>cmd ps.
                case peek buf ps '')'' of
                  (b, ps) \<Rightarrow>
                    if \<not> b then Panicked ''syntax - missing )''
                    else (case gettoken buf ps of (_, _, _, ps) \<Rightarrow> parseredirs buf cmd ps))))"
| "parseexec 0 buf ps = NoFuel"
| "parseexec (Suc n) buf ps =
    (case peek buf ps ''('' of
       (b, ps) \<Rightarrow>
         if b then parseblock n buf ps
         else pbind (parseredirs buf execcmd ps) (\<lambda>ret ps. parseargs MAXARGS buf ret ps))"

fun nulterminate :: "cmd \<Rightarrow> string \<Rightarrow> string" where
  "nulterminate (EXEC as) buf = fold (\<lambda>(q, eq) buf. buf[eq := CHR 0x00]) as buf"
| "nulterminate (REDIR c f ef mode fd) buf = (nulterminate c buf)[ef := CHR 0x00]"
| "nulterminate (PIPE l r) buf = nulterminate r (nulterminate l buf)"
| "nulterminate (LIST l r) buf = nulterminate r (nulterminate l buf)"
| "nulterminate (BACK c) buf = nulterminate c buf"

definition panic :: "'w kern \<Rightarrow> string \<Rightarrow> 'w \<Rightarrow> ('a ures \<times> 'w) option" where
  "panic K s w = ubind (fprintf K 2 (''%s'' @ [NL]) [UStr (Some s)] w) (\<lambda>_ w. uexit 1 w)"

text \<open>Two levels of recursion are used for a character of the line and four more at its end.\<close>

definition parse_fuel :: "string \<Rightarrow> nat" where
  "parse_fuel s = 4 * length s + 4"

text \<open>The result is the command and the changed line that it points into. A parser out of fuel would not return.\<close>

definition parsecmd :: "'w kern \<Rightarrow> string \<Rightarrow> 'w \<Rightarrow> ((cmd \<times> string) ures \<times> 'w) option" where
  "parsecmd K s w =
    (case parseline (parse_fuel s) s 0 of
       NoFuel \<Rightarrow> None
     | Panicked e \<Rightarrow> panic K e w
     | Parsed cmd ps \<Rightarrow>
         (case peek s ps [] of
            (_, ps) \<Rightarrow>
              if ps \<noteq> length s then
                ubind (fprintf K 2 (''leftovers: %s'' @ [NL]) [UStr (Some (drop ps s))] w) (\<lambda>_ w. panic K ''syntax'' w)
              else Some (Ret (cmd, nulterminate cmd s), w)))"

section \<open>Running commands\<close>

definition fork1 :: "'w kern \<Rightarrow> 'w \<Rightarrow> (int32 ures \<times> 'w) option" where
  "fork1 K w = ubind (ucall (k_fork K) w) (\<lambda>pid w. if pid = -1 then panic K ''fork'' w else Some (Ret pid, w))"

text \<open>The C string at an index of the line.\<close>

definition str_at :: "string \<Rightarrow> nat \<Rightarrow> string" where
  "str_at buf q = till_nul (drop q buf)"

text \<open>Pointers to commands are not null here; \<open>runcmd\<close> of \<open>None\<close> is the call with a null pointer.\<close>

fun run :: "'w kern \<Rightarrow> string \<Rightarrow> cmd \<Rightarrow> 'w \<Rightarrow> (unit ures \<times> 'w) option" where
  "run K buf (EXEC as) w =
    (if as = [] then uexit 1 w
     else
       let argv = map (\<lambda>(q, eq). str_at buf q) as in
       ubind (uexec K (hd argv) argv w) (\<lambda>_ w.
       ubind (fprintf K 2 (''exec %s failed'' @ [NL]) [UStr (Some (hd argv))] w) (\<lambda>_ w. uexit 0 w)))"
| "run K buf (REDIR c f ef mode fd) w =
    ubind (ucall (k_close K fd) w) (\<lambda>_ w.
    ubind (ucall (k_open K (str_at buf f) mode) w) (\<lambda>r w.
    if sint r < 0 then ubind (fprintf K 2 (''open %s failed'' @ [NL]) [UStr (Some (str_at buf f))] w) (\<lambda>_ w. uexit 1 w)
    else ubind (run K buf c w) (\<lambda>_ w. uexit 0 w)))"
| "run K buf (LIST l r) w =
    ubind (fork1 K w) (\<lambda>pid w.
    ubind (if pid = 0 then run K buf l w else Some (Ret (), w)) (\<lambda>_ w.
    ubind (ucall (k_wait K) w) (\<lambda>_ w.
    ubind (run K buf r w) (\<lambda>_ w. uexit 0 w))))"
| "run K buf (PIPE l r) w =
    ubind (ucall (k_pipe K) w) (\<lambda>p w.
    case p of
      None \<Rightarrow> panic K ''pipe'' w
    | Some (p0, p1) \<Rightarrow>
        ubind (fork1 K w) (\<lambda>pid w.
        ubind (if pid = 0 then
                 ubind (ucall (k_close K 1) w) (\<lambda>_ w.
                 ubind (ucall (k_dup K p1) w) (\<lambda>_ w.
                 ubind (ucall (k_close K p0) w) (\<lambda>_ w.
                 ubind (ucall (k_close K p1) w) (\<lambda>_ w. run K buf l w))))
               else Some (Ret (), w)) (\<lambda>_ w.
        ubind (fork1 K w) (\<lambda>pid w.
        ubind (if pid = 0 then
                 ubind (ucall (k_close K 0) w) (\<lambda>_ w.
                 ubind (ucall (k_dup K p0) w) (\<lambda>_ w.
                 ubind (ucall (k_close K p0) w) (\<lambda>_ w.
                 ubind (ucall (k_close K p1) w) (\<lambda>_ w. run K buf r w))))
               else Some (Ret (), w)) (\<lambda>_ w.
        ubind (ucall (k_close K p0) w) (\<lambda>_ w.
        ubind (ucall (k_close K p1) w) (\<lambda>_ w.
        ubind (ucall (k_wait K) w) (\<lambda>_ w.
        ubind (ucall (k_wait K) w) (\<lambda>_ w. uexit 0 w)))))))))"
| "run K buf (BACK c) w =
    ubind (fork1 K w) (\<lambda>pid w.
    ubind (if pid = 0 then run K buf c w else Some (Ret (), w)) (\<lambda>_ w. uexit 0 w))"

definition runcmd :: "'w kern \<Rightarrow> string \<Rightarrow> cmd option \<Rightarrow> 'w \<Rightarrow> (unit ures \<times> 'w) option" where
  "runcmd K buf cmd w = (case cmd of None \<Rightarrow> uexit 1 w | Some c \<Rightarrow> run K buf c w)"

text \<open>The line, or \<open>None\<close> at the end of the input.\<close>

definition getcmd :: "'w kern \<Rightarrow> int32 \<Rightarrow> 'w \<Rightarrow> (string option ures \<times> 'w) option" where
  "getcmd K nbuf w =
    ubind (fprintf K 2 ''$ '' [] w) (\<lambda>_ w.
    ubind (gets K nbuf w) (\<lambda>buf w. Some (Ret (if hd0 buf = CHR 0x00 then None else Some buf), w)))"

partial_function (option) sh_console :: "'w kern \<Rightarrow> 'w \<Rightarrow> (unit ures \<times> 'w) option" where
  "sh_console K w =
    (case k_open K ''console'' O_RDWR w of
       (fd, w) \<Rightarrow>
         if sint fd < 0 then Some (Ret (), w)
         else if 3 \<le> sint fd then ubind (ucall (k_close K fd) w) (\<lambda>_ w. Some (Ret (), w))
         else sh_console K w)"

partial_function (option) sh_loop :: "'w kern \<Rightarrow> 'w \<Rightarrow> (unit ures \<times> 'w) option" where
  "sh_loop K w =
    ubind (getcmd K 100 w) (\<lambda>line w.
    case line of
      None \<Rightarrow> uexit 0 w
    | Some buf \<Rightarrow>
        let s = till_nul buf in
        if char_at buf 0 = CHR ''c'' \<and> char_at buf 1 = CHR ''d'' \<and> char_at buf 2 = CHR '' '' then
          let dir = drop 3 (butlast s) in
          (case k_chdir K dir w of
             (r, w) \<Rightarrow>
               ubind (if sint r < 0 then fprintf K 2 (''cannot cd %s'' @ [NL]) [UStr (Some dir)] w else Some (Ret (), w)) (\<lambda>_ w. sh_loop K w))
        else
          ubind (fork1 K w) (\<lambda>pid w.
          ubind (if pid = 0 then ubind (parsecmd K s w) (\<lambda>(c, b) w. runcmd K b (Some c) w) else Some (Ret (), w)) (\<lambda>_ w.
          ubind (ucall (k_wait K) w) (\<lambda>_ w. sh_loop K w))))"

definition sh_main :: "'w kern \<Rightarrow> 'w \<Rightarrow> (unit ures \<times> 'w) option" where
  "sh_main K w = ubind (sh_console K w) (\<lambda>_ w. sh_loop K w)"

end
