(* ===== verification/Shell_Parse.thy ===== *)
theory Shell_Parse
  imports Shell
begin

text \<open>
  The parser of the shell: it returns on every line, it parses the lines of a grammar as their meaning says, and after \<open>nulterminate\<close> the
  words of a command are C strings. A command that runs never returns to its caller.
\<close>

section \<open>The parser returns\<close>

lemma peek_ge: "peek buf ps toks = (b, p) \<Longrightarrow> ps \<le> p"
  using skip_white_ge(1) [of ps buf] by (auto simp: peek_def Let_def)

lemma pbind_Parsed: "pbind m f = Parsed b t \<longleftrightarrow> (\<exists>a s. m = Parsed a s \<and> f a s = Parsed b t)"
  by (cases m) auto

lemma pbind_NoFuel: "pbind m f = NoFuel \<longleftrightarrow> m = NoFuel \<or> (\<exists>a s. m = Parsed a s \<and> f a s = NoFuel)"
  by (cases m) auto

text \<open>The node for a redirection.\<close>

definition redir_node :: "char \<Rightarrow> nat \<Rightarrow> nat \<Rightarrow> cmd \<Rightarrow> cmd" where
  "redir_node tok q e cmd =
    (if tok = CHR ''<'' then redircmd cmd q e O_RDONLY 0
     else if tok = CHR ''>'' then redircmd cmd q e (O_WRONLY OR O_CREATE OR O_TRUNC) 1
     else if tok = CHR ''+'' then redircmd cmd q e (O_WRONLY OR O_CREATE) 1
     else cmd)"

lemma parseredirs_unfold:
  assumes "peek buf ps ''<>'' = (b, p1)" "gettoken buf p1 = (tok, q1, e1, p2)" "gettoken buf p2 = (t, q, e, p3)"
  shows "parseredirs buf cmd ps =
    (if \<not> b then Parsed cmd p1
     else if t \<noteq> CHR ''a'' then Panicked ''missing file for redirection''
     else parseredirs buf (redir_node tok q e cmd) p3)"
  using assms by (subst parseredirs.simps) (simp add: redir_node_def)

lemma parsebacks_unfold:
  assumes "peek buf ps ''&'' = (b, p1)" "gettoken buf p1 = (tok, q1, e1, p2)"
  shows "parsebacks buf cmd ps = (if \<not> b then (cmd, p1) else parsebacks buf (BACK cmd) p2)"
  using assms by (subst parsebacks.simps) (simp add: backcmd_def)

lemma parseredirs_ge: "(parseredirs buf cmd ps = Parsed c p \<longrightarrow> ps \<le> p) \<and> parseredirs buf cmd ps \<noteq> NoFuel"
proof (induction "length buf - ps" arbitrary: cmd ps rule: less_induct)
  case less
  obtain b p1 where p1: "peek buf ps ''<>'' = (b, p1)" by (cases "peek buf ps ''<>''")
  obtain tok q1 e1 p2 where p2: "gettoken buf p1 = (tok, q1, e1, p2)" by (cases "gettoken buf p1") auto
  obtain t q e p3 where p3: "gettoken buf p2 = (t, q, e, p3)" by (cases "gettoken buf p2") auto
  have g: "ps \<le> p1" "p1 \<le> p3" using peek_ge [OF p1] gettoken_ge [OF p2] gettoken_ge [OF p3] by simp_all
  have "b \<Longrightarrow> length buf - p3 < length buf - ps"
    using redir_decreases [of p1 buf ps tok q1 e1 p2 t q e p3] p1 p2 p3 by simp
  then show ?case using less [of p3 "redir_node tok q e cmd"] g by (auto simp: parseredirs_unfold [OF p1 p2 p3])
qed

lemma parsebacks_ge: "parsebacks buf cmd ps = (c, p) \<Longrightarrow> ps \<le> p"
proof (induction "length buf - ps" arbitrary: cmd ps rule: less_induct)
  case less
  obtain b p1 where p1: "peek buf ps ''&'' = (b, p1)" by (cases "peek buf ps ''&''")
  obtain tok q1 e1 p2 where p2: "gettoken buf p1 = (tok, q1, e1, p2)" by (cases "gettoken buf p1") auto
  have g: "ps \<le> p1" "p1 \<le> p2" using peek_ge [OF p1] gettoken_ge [OF p2] by simp_all
  have "b \<Longrightarrow> length buf - p2 < length buf - ps" using back_decreases [of p1 buf ps tok q1 e1 p2] p1 p2 by simp
  then show ?case using less(1) [of p2 "BACK cmd"] less(2) g by (cases b) (auto simp: parsebacks_unfold [OF p1 p2])
qed

lemma parseargs_ge: "(parseargs k buf ret ps = Parsed c p \<longrightarrow> ps \<le> p) \<and> parseargs k buf ret ps \<noteq> NoFuel"
proof (induction k arbitrary: ret ps)
  case (Suc k)
  obtain b p1 where p1: "peek buf ps ''|)&;'' = (b, p1)" by (cases "peek buf ps ''|)&;''")
  obtain t q e p2 where p2: "gettoken buf p1 = (t, q, e, p2)" by (cases "gettoken buf p1") auto
  have g: "ps \<le> p1" "p1 \<le> p2" using peek_ge [OF p1] gettoken_ge [OF p2] by simp_all
  show ?case
  proof (cases "parseredirs buf (add_arg ret q e) p2")
    case (Parsed r p3)
    then have "p2 \<le> p3" using parseredirs_ge by blast
    then show ?thesis using Suc [of r p3] p1 p2 Parsed g by auto
  next
    case NoFuel
    then show ?thesis using parseredirs_ge by blast
  qed (use p1 p2 g in auto)
qed simp

lemma token_cases:
  obtains b p1 t q e p2 where "peek buf ps toks = (b, p1)" "gettoken buf p1 = (t, q, e, p2)" "ps \<le> p1" "p1 \<le> p2"
proof -
  obtain b p1 where p1: "peek buf ps toks = (b, p1)" by (cases "peek buf ps toks")
  obtain t q e p2 where p2: "gettoken buf p1 = (t, q, e, p2)" by (cases "gettoken buf p1") auto
  show ?thesis using that [OF p1 p2] peek_ge [OF p1] gettoken_ge [OF p2] by simp
qed

lemma parse_ge:
  "parseline n buf ps = Parsed c p \<Longrightarrow> ps \<le> p" "parsepipe n buf ps = Parsed c p \<Longrightarrow> ps \<le> p"
  "parseblock n buf ps = Parsed c p \<Longrightarrow> ps \<le> p" "parseexec n buf ps = Parsed c p \<Longrightarrow> ps \<le> p"
proof (induction n arbitrary: ps c p)
  case (Suc n)
  {
    case 1
    then obtain c1 p1 where a: "parsepipe n buf ps = Parsed c1 p1" by (auto simp: pbind_Parsed)
    obtain c2 p2 where b: "parsebacks buf c1 p1 = (c2, p2)" by (cases "parsebacks buf c1 p1")
    obtain d p3 t q e p4 where t: "peek buf p2 '';'' = (d, p3)" "gettoken buf p3 = (t, q, e, p4)" "p2 \<le> p3" "p3 \<le> p4" by (rule token_cases)
    have "p3 \<le> p" using 1 a b t Suc.IH(1) [of p4] by (cases d) (auto simp: pbind_Parsed)
    then show ?case using Suc.IH(2) [OF a] parsebacks_ge [OF b] t(3) by linarith
  next
    case 2
    then obtain c1 p1 where a: "parseexec n buf ps = Parsed c1 p1" by (auto simp: pbind_Parsed)
    obtain d p3 t q e p4 where t: "peek buf p1 ''|'' = (d, p3)" "gettoken buf p3 = (t, q, e, p4)" "p1 \<le> p3" "p3 \<le> p4" by (rule token_cases)
    have "p3 \<le> p" using 2 a t Suc.IH(2) [of p4] by (cases d) (auto simp: pbind_Parsed)
    then show ?case using Suc.IH(4) [OF a] t(3) by linarith
  next
    case 3
    obtain d p1 t q e p2 where t: "peek buf ps ''('' = (d, p1)" "gettoken buf p1 = (t, q, e, p2)" "ps \<le> p1" "p1 \<le> p2" by (rule token_cases)
    then obtain c1 p3 where a: "parseline n buf p2 = Parsed c1 p3" using 3 by (auto simp: pbind_Parsed split: if_splits)
    obtain d' p4 t' q' e' p5 where u: "peek buf p3 '')'' = (d', p4)" "gettoken buf p4 = (t', q', e', p5)" "p3 \<le> p4" "p4 \<le> p5" by (rule token_cases)
    have "p5 \<le> p" using 3 t a u parseredirs_ge by (auto split: if_splits)
    then show ?case using Suc.IH(1) [OF a] t u by linarith
  next
    case 4
    obtain d p1 t q e p2 where t: "peek buf ps ''('' = (d, p1)" "gettoken buf p1 = (t, q, e, p2)" "ps \<le> p1" "p1 \<le> p2" by (rule token_cases)
    show ?case
    proof (cases d)
      case True
      then show ?thesis using 4 t Suc.IH(3) [of p1] by auto
    next
      case False
      then obtain r p3 where "parseredirs buf execcmd p1 = Parsed r p3" "parseargs MAXARGS buf r p3 = Parsed c p" using 4 t by (auto simp: pbind_Parsed)
      then show ?thesis using t(3) parseredirs_ge parseargs_ge le_trans by metis
    qed
  }
qed simp_all

text \<open>Enough fuel for the rest of the line.\<close>

lemma parse_fuel_enough:
  "4 * (length buf - ps) + 4 \<le> n \<Longrightarrow> parseline n buf ps \<noteq> NoFuel" "4 * (length buf - ps) + 3 \<le> n \<Longrightarrow> parsepipe n buf ps \<noteq> NoFuel"
  "4 * (length buf - ps) + 1 \<le> n \<Longrightarrow> parseblock n buf ps \<noteq> NoFuel" "4 * (length buf - ps) + 2 \<le> n \<Longrightarrow> parseexec n buf ps \<noteq> NoFuel"
proof (induction n arbitrary: ps)
  case (Suc n)
  have gt: "p < p2 \<and> ps \<le> p \<and> p < length buf" if "peek buf ps [c] = (True, p)" "gettoken buf p = (t, q, e, p2)" "c \<in> set symbols" for c ps p t q e p2
    using peek_gettoken [OF that(1) _ that(2)] that(3) by simp
  {
    case 1
    show ?case
    proof (cases "parsepipe n buf ps")
      case (Parsed c1 p1)
      obtain c2 p2 where b: "parsebacks buf c1 p1 = (c2, p2)" by (cases "parsebacks buf c1 p1")
      obtain d p3 t q e p4 where t: "peek buf p2 '';'' = (d, p3)" "gettoken buf p3 = (t, q, e, p4)" "p2 \<le> p3" "p3 \<le> p4" by (rule token_cases)
      have "ps \<le> p2" using parse_ge(2) [OF Parsed] parsebacks_ge [OF b] by simp
      then have "d \<Longrightarrow> length buf - p4 < length buf - ps" using gt [OF _ t(2), of p2 "CHR '';''"] t(1) by (simp add: symbols_def) arith
      then have "d \<Longrightarrow> parseline n buf p4 \<noteq> NoFuel" using Suc.IH(1) [of p4] 1 by linarith
      then show ?thesis using Parsed b t by (auto simp: pbind_NoFuel)
    qed (use Suc.IH(2) [of ps] 1 in auto)
  next
    case 2
    show ?case
    proof (cases "parseexec n buf ps")
      case (Parsed c1 p1)
      obtain d p3 t q e p4 where t: "peek buf p1 ''|'' = (d, p3)" "gettoken buf p3 = (t, q, e, p4)" "p1 \<le> p3" "p3 \<le> p4" by (rule token_cases)
      have "ps \<le> p1" using parse_ge(4) [OF Parsed] .
      then have "d \<Longrightarrow> length buf - p4 < length buf - ps" using gt [OF _ t(2), of p1 "CHR ''|''"] t(1) by (simp add: symbols_def) arith
      then have "d \<Longrightarrow> parsepipe n buf p4 \<noteq> NoFuel" using Suc.IH(2) [of p4] 2 by linarith
      then show ?thesis using Parsed t by (auto simp: pbind_NoFuel)
    qed (use Suc.IH(4) [of ps] 2 in auto)
  next
    case 3
    obtain d p1 t q e p2 where t: "peek buf ps ''('' = (d, p1)" "gettoken buf p1 = (t, q, e, p2)" "ps \<le> p1" "p1 \<le> p2" by (rule token_cases)
    have "d \<Longrightarrow> length buf - p2 < length buf - ps" using gt [OF _ t(2), of ps "CHR ''(''"] t(1) by (simp add: symbols_def) arith
    then have "d \<Longrightarrow> parseline n buf p2 \<noteq> NoFuel" using Suc.IH(1) [of p2] 3 by linarith
    then show ?case using t parseredirs_ge by (auto simp: pbind_NoFuel split: prod.splits)
  next
    case 4
    obtain d p1 t q e p2 where t: "peek buf ps ''('' = (d, p1)" "gettoken buf p1 = (t, q, e, p2)" "ps \<le> p1" "p1 \<le> p2" by (rule token_cases)
    have "parseblock n buf p1 \<noteq> NoFuel" using Suc.IH(3) [of p1] t(3) 4 by simp
    then show ?case using t parseredirs_ge parseargs_ge by (auto simp: pbind_NoFuel)
  }
qed simp_all

section \<open>Ends of programs\<close>

text \<open>A program ends without returning to its caller.\<close>

definition leaves :: "('a ures \<times> 'w) option \<Rightarrow> bool" where
  "leaves r \<longleftrightarrow> (\<exists>c v. r = Some (Exit c, v)) \<or> (\<exists>v. r = Some (Execd, v))"

lemma leaves_bind [simp]: "leaves r \<Longrightarrow> leaves (ubind r f)"
  by (auto simp: leaves_def)

lemma leaves_bind_right: "r = Some (Ret a, v) \<Longrightarrow> leaves (f a v) \<Longrightarrow> leaves (ubind r f)"
  by simp

lemma leaves_exit [simp]: "leaves (uexit c w)"
  by (simp add: leaves_def uexit_def)

text \<open>A call is followed by the rest of the program.\<close>

lemma leaves_call [simp]: "leaves (ubind (ucall f w) g) = (case f w of (r, v) \<Rightarrow> leaves (g r v))"
  by (simp add: ucall_def split: prod.splits)

lemma print_str [simp]:
  "c \<noteq> CHR ''%'' \<Longrightarrow> vprintf K False fd (c # fmt) ap w = vprintf K False fd fmt ap (putc K fd c w)"
  "vprintf K False fd (CHR ''%'' # CHR ''s'' # fmt) (UStr (Some s) # ap) w = vprintf K False fd fmt ap (puts K fd s w)"
  by simp_all

lemma panic_leaves [simp]: "leaves (panic K s w)"
  by (simp add: panic_def fprintf_def)

lemma fork1_bind: "(\<And>pid v. leaves (f pid v)) \<Longrightarrow> leaves (ubind (fork1 K w) f)"
proof -
  assume a: "\<And>pid v. leaves (f pid v)"
  obtain pid v where "k_fork K w = (pid, v)" by (cases "k_fork K w")
  then have "fork1 K w = (if pid = -1 then panic K ''fork'' v else Some (Ret pid, v))" by (simp add: fork1_def)
  then show ?thesis using a by (cases "pid = -1") simp_all
qed

lemma run_leaves: "leaves (run K buf c w)"
proof (induction c arbitrary: w)
  case (EXEC as)
  show ?case by (auto simp: Let_def uexec_def fprintf_def leaves_def uexit_def split: prod.splits option.splits)
next
  case (REDIR c f ef mode fd)
  then show ?case by (auto simp: fprintf_def split: prod.splits)
next
  case (LIST l r)
  have "leaves (ubind (if pid = 0 then run K buf l v else Some (Ret (), v)) (\<lambda>_ w. ubind (ucall (k_wait K) w) (\<lambda>_ w. ubind (run K buf r w) (\<lambda>_ w. uexit 0 w))))"
    for pid and v using LIST by (auto split: prod.splits)
  then show ?case unfolding run.simps by (intro fork1_bind)
next
  case (BACK c)
  have "leaves (ubind (if pid = 0 then run K buf c v else Some (Ret (), v)) (\<lambda>_ w. uexit 0 w))" for pid and v using BACK by simp
  then show ?case unfolding run.simps by (intro fork1_bind)
next
  case (PIPE l r)
  show ?case using PIPE by (auto split: prod.splits option.splits intro!: fork1_bind)
qed

text \<open>C25: \<open>runcmd\<close> never returns, as its comment says: under every behaviour of the system calls the process that executes a command ends by \<open>exit\<close> or by
  a successful \<open>exec\<close>.\<close>

theorem runcmd_never_returns:
  "(\<exists>status v. runcmd K buf cmd w = Some (Exit status, v)) \<or> (\<exists>v. runcmd K buf cmd w = Some (Execd, v))"
  using run_leaves [of K buf _ w] by (cases cmd) (auto simp: runcmd_def leaves_def uexit_def)

text \<open>C24: The parser of the shell returns on every line: it finds a command or it reports a syntax error and exits with status 1.\<close>

theorem parsecmd_returns:
  "(\<exists>c buf. parsecmd K s w = Some (Ret (c, buf), w)) \<or> (\<exists>v. parsecmd K s w = Some (Exit 1, v))"
proof (cases "parseline (parse_fuel s) s 0")
  case NoFuel
  then show ?thesis using parse_fuel_enough(1) [of s 0 "parse_fuel s"] by (simp add: parse_fuel_def)
qed (auto simp: parsecmd_def panic_def fprintf_def uexit_def split: prod.splits)

section \<open>The grammar and its meaning\<close>

text \<open>
  Lines of the shell: commands in sequence, a pipeline with any number of \<open>&\<close> behind it, and at the bottom a simple command or a block in
  parentheses. Redirections may stand before the words of a simple command, behind each of them, and behind a block.
\<close>

datatype rop = RIn | ROut | RAppend

type_synonym redir = "rop \<times> string"

datatype line = Last pipeline nat | Then pipeline nat line
  and pipeline = Single command | Bar command pipeline
  and command = Simple "redir list" "(string \<times> redir list) list" | Block line "redir list"

fun show_rop :: "rop \<Rightarrow> string" where
  "show_rop RIn = ''< ''"
| "show_rop ROut = ''> ''"
| "show_rop RAppend = ''>> ''"

definition show_redirs :: "redir list \<Rightarrow> string" where
  "show_redirs rs = concat (map (\<lambda>(r, f). show_rop r @ f @ '' '') rs)"

definition show_args :: "(string \<times> redir list) list \<Rightarrow> string" where
  "show_args gs = concat (map (\<lambda>(w, rs). w @ '' '' @ show_redirs rs) gs)"

definition show_backs :: "nat \<Rightarrow> string" where
  "show_backs m = concat (replicate m ''& '')"

primrec show_line :: "line \<Rightarrow> string" and show_pipeline :: "pipeline \<Rightarrow> string" and show_command :: "command \<Rightarrow> string" where
  "show_line (Last p m) = show_pipeline p @ show_backs m"
| "show_line (Then p m l) = show_pipeline p @ show_backs m @ ''; '' @ show_line l"
| "show_pipeline (Single c) = show_command c"
| "show_pipeline (Bar c p) = show_command c @ ''| '' @ show_pipeline p"
| "show_command (Simple rs gs) = show_redirs rs @ show_args gs"
| "show_command (Block l rs) = ''( '' @ show_line l @ '') '' @ show_redirs rs"

text \<open>The meaning of a line is a command with the words in place.\<close>

datatype tree = TExec "string list" | TRedir tree string int32 int32 | TPipe tree tree | TList tree tree | TBack tree

fun add_redir :: "tree \<Rightarrow> redir \<Rightarrow> tree" where
  "add_redir t (RIn, f) = TRedir t f O_RDONLY 0"
| "add_redir t (ROut, f) = TRedir t f (O_WRONLY OR O_CREATE OR O_TRUNC) 1"
| "add_redir t (RAppend, f) = TRedir t f (O_WRONLY OR O_CREATE) 1"

fun add_word :: "tree \<Rightarrow> string \<Rightarrow> tree" where
  "add_word (TExec ws) w = TExec (ws @ [w])"
| "add_word (TRedir t f mode fd) w = TRedir (add_word t w) f mode fd"
| "add_word t w = t"

definition add_group :: "tree \<Rightarrow> string \<times> redir list \<Rightarrow> tree" where
  "add_group t g = foldl add_redir (add_word t (fst g)) (snd g)"

primrec mean_line :: "line \<Rightarrow> tree" and mean_pipeline :: "pipeline \<Rightarrow> tree" and mean_command :: "command \<Rightarrow> tree" where
  "mean_line (Last p m) = (TBack ^^ m) (mean_pipeline p)"
| "mean_line (Then p m l) = TList ((TBack ^^ m) (mean_pipeline p)) (mean_line l)"
| "mean_pipeline (Single c) = mean_command c"
| "mean_pipeline (Bar c p) = TPipe (mean_command c) (mean_pipeline p)"
| "mean_command (Simple rs gs) = foldl add_group (foldl add_redir (TExec []) rs) gs"
| "mean_command (Block l rs) = foldl add_redir (mean_line l) rs"

definition word_char :: "char \<Rightarrow> bool" where
  "word_char c \<longleftrightarrow> c \<notin> set whitespace \<and> c \<notin> set symbols \<and> c \<noteq> CHR 0x00"

definition is_word :: "string \<Rightarrow> bool" where
  "is_word w \<longleftrightarrow> w \<noteq> [] \<and> (\<forall>c \<in> set w. word_char c)"

definition ok_redirs :: "redir list \<Rightarrow> bool" where
  "ok_redirs rs \<longleftrightarrow> (\<forall>r \<in> set rs. is_word (snd r))"

primrec ok_line :: "line \<Rightarrow> bool" and ok_pipeline :: "pipeline \<Rightarrow> bool" and ok_command :: "command \<Rightarrow> bool" where
  "ok_line (Last p m) = ok_pipeline p"
| "ok_line (Then p m l) = (ok_pipeline p \<and> ok_line l)"
| "ok_pipeline (Single c) = ok_command c"
| "ok_pipeline (Bar c p) = (ok_command c \<and> ok_pipeline p)"
| "ok_command (Simple rs gs) = (ok_redirs rs \<and> length gs < MAXARGS \<and> (\<forall>g \<in> set gs. is_word (fst g) \<and> ok_redirs (snd g)))"
| "ok_command (Block l rs) = (ok_line l \<and> ok_redirs rs)"

section \<open>Tokens at a position\<close>

text \<open>The rest of the line from the index \<open>ps\<close> on is \<open>x\<close>.\<close>

definition rest_is :: "string \<Rightarrow> nat \<Rightarrow> string \<Rightarrow> bool" where
  "rest_is buf ps x \<longleftrightarrow> ps \<le> length buf \<and> drop ps buf = x"

lemma rest_nth: "rest_is buf ps (c # x) \<Longrightarrow> ps < length buf \<and> buf ! ps = c \<and> rest_is buf (Suc ps) x"
  unfolding rest_is_def
  by (metis Cons_nth_drop_Suc Suc_leI drop_eq_Nil le_neq_implies_less list.distinct(1) list.inject order_refl)

lemma rest_Nil: "rest_is buf ps [] \<longleftrightarrow> ps = length buf"
  by (auto simp: rest_is_def)

lemma rest_char: "rest_is buf ps (c # x) \<Longrightarrow> char_at buf ps = c" "rest_is buf ps [] \<Longrightarrow> char_at buf ps = CHR 0x00"
  using rest_nth by (auto simp: char_at_def rest_Nil)

lemma rest_skip: "rest_is buf ps (u @ x) \<Longrightarrow> rest_is buf (ps + length u) x \<and> take (length u) (drop ps buf) = u"
proof -
  assume a: "rest_is buf ps (u @ x)"
  have "length (drop ps buf) = length u + length x" "drop (length u) (drop ps buf) = x" using a by (simp_all add: rest_is_def)
  then show ?thesis using a by (auto simp: rest_is_def add.commute)
qed

text \<open>A text that does not start with white space.\<close>

definition dense :: "string \<Rightarrow> bool" where
  "dense x \<longleftrightarrow> (case x of [] \<Rightarrow> True | c # _ \<Rightarrow> c \<notin> set whitespace \<and> c \<noteq> CHR 0x00)"

lemma skip_white_dense: "rest_is buf ps x \<Longrightarrow> dense x \<Longrightarrow> skip_white buf ps = ps"
  using rest_nth by (subst skip_white.simps) (cases x; force simp: dense_def strchr_iff rest_Nil)

lemma skip_white_space: "rest_is buf ps (CHR '' '' # x) \<Longrightarrow> dense x \<Longrightarrow> skip_white buf ps = Suc ps"
proof -
  assume a: "rest_is buf ps (CHR '' '' # x)" "dense x"
  note r = rest_nth [OF a(1)]
  have "skip_white buf ps = skip_white buf (Suc ps)" using r by (subst skip_white.simps) (simp add: whitespace_def)
  then show ?thesis using skip_white_dense [OF _ a(2)] r by simp
qed

lemma peek_rest:
  assumes "rest_is buf ps x" "dense x"
  shows "peek buf ps toks = (x \<noteq> [] \<and> hd x \<in> set toks, ps)"
proof (cases x)
  case Nil
  then show ?thesis using assms skip_white_dense [OF assms] by (simp add: peek_def rest_char)
next
  case (Cons c y)
  then show ?thesis using assms skip_white_dense [OF assms] rest_char(1) [of buf ps c y] by (simp add: peek_def dense_def strchr_iff)
qed

lemma skip_word_rest:
  "rest_is buf ps (w @ CHR '' '' # x) \<Longrightarrow> (\<forall>c \<in> set w. word_char c) \<Longrightarrow> skip_word buf ps = ps + length w"
proof (induction w arbitrary: ps)
  case Nil
  then show ?case using rest_nth [of buf ps "CHR '' ''" x] by (subst skip_word.simps) (simp add: whitespace_def)
next
  case (Cons c w)
  then have r: "ps < length buf" "buf ! ps = c" "rest_is buf (Suc ps) (w @ CHR '' '' # x)" using rest_nth [of buf ps c] by simp_all
  then show ?case using Cons.IH [OF r(3)] Cons.prems(2) by (subst skip_word.simps) (simp add: word_char_def strchr_iff)
qed

lemma gettoken_word:
  assumes "rest_is buf ps (w @ CHR '' '' # x)" "is_word w" "dense x"
  shows "gettoken buf ps = (CHR ''a'', ps, ps + length w, Suc (ps + length w))" "rest_is buf (Suc (ps + length w)) x"
proof -
  obtain c v where w: "w = c # v" "word_char c" using assms(2) by (cases w) (auto simp: is_word_def)
  then have d: "dense (w @ CHR '' '' # x)" by (simp add: dense_def word_char_def)
  have s: "rest_is buf (ps + length w) (CHR '' '' # x)" using rest_skip [OF assms(1)] by simp
  show "rest_is buf (Suc (ps + length w)) x" using rest_nth [OF s] by simp
  have "char_at buf ps = c" using rest_char(1) [of buf ps c] assms(1) w by simp
  moreover have "c \<notin> set ''|();&<''" "c \<noteq> CHR ''>''" "c \<noteq> CHR 0x00" using w(2) by (auto simp: word_char_def symbols_def)
  moreover have "skip_word buf ps = ps + length w" using skip_word_rest [OF assms(1)] assms(2) by (simp add: is_word_def)
  ultimately show "gettoken buf ps = (CHR ''a'', ps, ps + length w, Suc (ps + length w))"
    using skip_white_dense [OF assms(1) d] skip_white_space [OF s assms(3)] by (simp add: gettoken_def)
qed

lemma gettoken_symbol:
  assumes "rest_is buf ps (c # CHR '' '' # x)" "c \<in> set symbols" "dense x"
  shows "gettoken buf ps = (c, ps, Suc ps, Suc (Suc ps))" "rest_is buf (Suc (Suc ps)) x"
proof -
  have s: "rest_is buf (Suc ps) (CHR '' '' # x)" using rest_nth [OF assms(1)] by simp
  show "rest_is buf (Suc (Suc ps)) x" using rest_nth [OF s] by simp
  have d: "dense (c # CHR '' '' # x)" using assms(2) by (auto simp: dense_def symbols_def whitespace_def)
  show "gettoken buf ps = (c, ps, Suc ps, Suc (Suc ps))"
    using skip_white_dense [OF assms(1) d] skip_white_space [OF s assms(3)] rest_char(1) [OF assms(1)] rest_char(1) [OF s] assms(2)
    by (auto simp: gettoken_def symbols_def)
qed

lemma gettoken_append:
  assumes "rest_is buf ps (''>> '' @ x)" "dense x"
  shows "gettoken buf ps = (CHR ''+'', ps, Suc (Suc ps), Suc (Suc (Suc ps)))" "rest_is buf (Suc (Suc (Suc ps))) x"
proof -
  have s: "rest_is buf (Suc ps) (''> '' @ x)" using rest_nth [of buf ps "CHR ''>''" "''> '' @ x"] assms(1) by simp
  have t: "rest_is buf (Suc (Suc ps)) (CHR '' '' # x)" using rest_nth [of buf "Suc ps" "CHR ''>''" "CHR '' '' # x"] s by simp
  show "rest_is buf (Suc (Suc (Suc ps))) x" using rest_nth [OF t] by simp
  have d: "dense (''>> '' @ x)" by (simp add: dense_def whitespace_def)
  show "gettoken buf ps = (CHR ''+'', ps, Suc (Suc ps), Suc (Suc (Suc ps)))"
    using skip_white_dense [OF assms(1) d] skip_white_space [OF t assms(2)] rest_char(1) [of buf ps "CHR ''>''" "''> '' @ x"]
      rest_char(1) [of buf "Suc ps" "CHR ''>''" "CHR '' '' # x"] s assms(1)
    by (simp add: gettoken_def)
qed

section \<open>Words in place\<close>

definition word_slice :: "string \<Rightarrow> nat \<Rightarrow> nat \<Rightarrow> string" where
  "word_slice buf q e = take (e - q) (drop q buf)"

primrec tree_of :: "string \<Rightarrow> cmd \<Rightarrow> tree" where
  "tree_of buf (EXEC as) = TExec (map (\<lambda>(q, e). word_slice buf q e) as)"
| "tree_of buf (REDIR c q e mode fd) = TRedir (tree_of buf c) (word_slice buf q e) mode fd"
| "tree_of buf (PIPE l r) = TPipe (tree_of buf l) (tree_of buf r)"
| "tree_of buf (LIST l r) = TList (tree_of buf l) (tree_of buf r)"
| "tree_of buf (BACK c) = TBack (tree_of buf c)"

text \<open>The words of a command and that they are words of the line, from their first character to the blank behind them.\<close>

primrec words_of :: "cmd \<Rightarrow> (nat \<times> nat) set" where
  "words_of (EXEC as) = set as"
| "words_of (REDIR c q e mode fd) = insert (q, e) (words_of c)"
| "words_of (PIPE l r) = words_of l \<union> words_of r"
| "words_of (LIST l r) = words_of l \<union> words_of r"
| "words_of (BACK c) = words_of c"

definition placed :: "string \<Rightarrow> nat \<times> nat \<Rightarrow> bool" where
  "placed buf w \<longleftrightarrow> (case w of (q, e) \<Rightarrow> q \<le> e \<and> e < length buf \<and> (\<forall>i. q \<le> i \<and> i < e \<longrightarrow> word_char (buf ! i)) \<and> \<not> word_char (buf ! e))"

definition good :: "string \<Rightarrow> cmd \<Rightarrow> bool" where
  "good buf c \<longleftrightarrow> (\<forall>w \<in> words_of c. placed buf w)"

lemma placed_word:
  assumes "rest_is buf ps (w @ CHR '' '' # x)" "is_word w"
  shows "placed buf (ps, ps + length w)" "word_slice buf ps (ps + length w) = w"
proof -
  note r = rest_skip [OF assms(1)]
  then have e: "ps + length w < length buf" "buf ! (ps + length w) = CHR '' ''" using rest_nth by blast+
  have "buf ! i = w ! (i - ps)" if "ps \<le> i" "i < ps + length w" for i
    using r that e(1) nth_take [of "i - ps" "length w" "drop ps buf"] by auto
  then have "word_char (buf ! i)" if "ps \<le> i" "i < ps + length w" for i using that assms(2) by (simp add: is_word_def)
  then show "placed buf (ps, ps + length w)" using e by (simp add: placed_def word_char_def whitespace_def)
  show "word_slice buf ps (ps + length w) = w" using r by (simp add: word_slice_def)
qed

lemma words_add_arg: "words_of (add_arg c q e) \<subseteq> insert (q, e) (words_of c)"
  by (induction c) auto

lemma tree_add_arg: "tree_of buf (add_arg c q e) = add_word (tree_of buf c) (word_slice buf q e)"
  by (induction c) auto

section \<open>Parsing what the grammar prints\<close>

lemma dense_word: "is_word w \<Longrightarrow> dense (w @ x)"
  by (cases w) (auto simp: is_word_def dense_def word_char_def)

lemma dense_redirs: "dense k \<Longrightarrow> dense (show_redirs rs @ k)"
proof (cases rs)
  case (Cons r rs')
  then show ?thesis by (cases r; cases "fst r") (auto simp: show_redirs_def dense_def whitespace_def)
qed (simp add: show_redirs_def)

fun rop_token :: "rop \<Rightarrow> char" where
  "rop_token RIn = CHR ''<''"
| "rop_token ROut = CHR ''>''"
| "rop_token RAppend = CHR ''+''"

lemma gettoken_rop:
  assumes "rest_is buf ps (show_rop r @ x)" "dense x"
  obtains e p where "gettoken buf ps = (rop_token r, ps, e, p)" "rest_is buf p x"
  using gettoken_symbol [of buf ps _ x] gettoken_append [of buf ps x] assms that by (cases r) (auto simp: symbols_def)

lemma parseredirs_show:
  assumes "rest_is buf ps (show_redirs rs @ k)" "ok_redirs rs" "dense k" "k = [] \<or> hd k \<notin> set ''<>''" "good buf c"
  shows "\<exists>c' p. parseredirs buf c ps = Parsed c' p \<and> rest_is buf p k \<and> tree_of buf c' = foldl add_redir (tree_of buf c) rs \<and> good buf c'"
  using assms(1,2,5)
proof (induction rs arbitrary: ps c)
  case Nil
  then have r: "rest_is buf ps k" by (simp add: show_redirs_def)
  have "peek buf ps ''<>'' = (False, ps)" using peek_rest [OF r assms(3)] assms(4) by simp
  then have "parseredirs buf c ps = Parsed c ps" by (subst parseredirs.simps) simp
  then show ?case using r Nil.prems by simp
next
  case (Cons rf rs)
  obtain r f where rf: "rf = (r, f)" by (cases rf)
  have f: "is_word f" "ok_redirs rs" using Cons.prems(2) rf by (simp_all add: ok_redirs_def)
  let ?x = "f @ CHR '' '' # show_redirs rs @ k"
  have r: "rest_is buf ps (show_rop r @ ?x)" using Cons.prems(1) rf by (simp add: show_redirs_def)
  have "dense (show_rop r @ ?x)" "hd (show_rop r @ ?x) \<in> set ''<>''" "show_rop r @ ?x \<noteq> []" by (cases r; simp add: dense_def whitespace_def)+
  then have pk: "peek buf ps ''<>'' = (True, ps)" using peek_rest [OF r] by simp
  obtain e p where g: "gettoken buf ps = (rop_token r, ps, e, p)" "rest_is buf p ?x" using gettoken_rop [OF r dense_word [OF f(1)]] .
  note w = gettoken_word [OF g(2) f(1) dense_redirs [OF assms(3)]] and pl = placed_word [OF g(2) f(1)]
  let ?c = "redir_node (rop_token r) p (p + length f) c"
  have t: "tree_of buf ?c = add_redir (tree_of buf c) rf" "good buf ?c"
    using pl Cons.prems(3) rf by (cases r; simp add: redir_node_def redircmd_def good_def)+
  have "parseredirs buf c ps = parseredirs buf ?c (Suc (p + length f))" by (simp add: parseredirs_unfold [OF pk g(1) w(1)])
  then show ?case using Cons.IH [OF w(2) f(2) t(2)] t(1) by simp
qed

lemma parsebacks_show:
  assumes "rest_is buf ps (show_backs m @ k)" "dense k" "k = [] \<or> hd k \<noteq> CHR ''&''"
  shows "\<exists>p. parsebacks buf c ps = ((BACK ^^ m) c, p) \<and> rest_is buf p k"
  using assms(1)
proof (induction m arbitrary: ps c)
  case 0
  then have r: "rest_is buf ps k" by (simp add: show_backs_def)
  have "peek buf ps ''&'' = (False, ps)" using peek_rest [OF r assms(2)] assms(3) by auto
  then have "parsebacks buf c ps = (c, ps)" by (subst parsebacks.simps) simp
  then show ?case using r by simp
next
  case (Suc m)
  have r: "rest_is buf ps (CHR ''&'' # CHR '' '' # show_backs m @ k)" using Suc.prems by (simp add: show_backs_def)
  have d: "dense (show_backs m @ k)" using assms(2) by (cases m) (simp_all add: show_backs_def dense_def whitespace_def)
  note g = gettoken_symbol [OF r _ d]
  have pk: "peek buf ps ''&'' = (True, ps)" using peek_rest [OF r] by (simp add: dense_def whitespace_def)
  have "parsebacks buf c ps = parsebacks buf (BACK c) (Suc (Suc ps))" using parsebacks_unfold [OF pk g(1)] by (simp add: symbols_def)
  then show ?case using Suc.IH [of "Suc (Suc ps)" "BACK c"] g(2) by (simp add: symbols_def funpow_swap1)
qed

lemma show_args_head:
  assumes "\<forall>g \<in> set gs. is_word (fst g)" "k = [] \<or> hd k \<in> set ''|)&;''"
  shows "show_args gs @ k = [] \<or> hd (show_args gs @ k) \<notin> set ''<>(''"
proof (cases gs)
  case Nil
  then show ?thesis using assms(2) by (auto simp: show_args_def)
next
  case (Cons g gs')
  then obtain c w where "fst g = c # w" "word_char c" using assms(1) by (cases "fst g") (auto simp: is_word_def)
  then show ?thesis using Cons by (cases g) (auto simp: show_args_def word_char_def symbols_def)
qed

lemma parseargs_show:
  assumes "rest_is buf ps (show_args gs @ k)" "\<forall>g \<in> set gs. is_word (fst g) \<and> ok_redirs (snd g)" "length gs < n"
    "dense k" "k = [] \<or> hd k \<in> set ''|)&;''" "good buf c"
  shows "\<exists>c' p. parseargs n buf c ps = Parsed c' p \<and> rest_is buf p k \<and> tree_of buf c' = foldl add_group (tree_of buf c) gs \<and> good buf c'"
  using assms(1-3,6)
proof (induction gs arbitrary: ps c n)
  case Nil
  then have r: "rest_is buf ps k" by (simp add: show_args_def)
  obtain n' where n: "n = Suc n'" using Nil.prems(3) by (cases n) auto
  have pk: "peek buf ps ''|)&;'' = (k \<noteq> [], ps)" using peek_rest [OF r assms(4)] assms(5) by auto
  have "k = [] \<Longrightarrow> gettoken buf ps = (CHR 0x00, ps, ps, ps)"
    using r rest_char(2) skip_white_dense [OF r assms(4)] by (simp add: gettoken_def)
  then have "parseargs n buf c ps = Parsed c ps" using pk n by simp
  then show ?case using r Nil.prems by simp
next
  case (Cons g gs)
  obtain w rs where g: "g = (w, rs)" by (cases g)
  obtain n' where n: "n = Suc n'" "length gs < n'" using Cons.prems(3) by (cases n) auto
  have w: "is_word w" "ok_redirs rs" using Cons.prems(2) g by simp_all
  let ?x = "show_redirs rs @ show_args gs @ k"
  have da: "dense (show_args gs @ k)" using assms(4) Cons.prems(2)
    by (cases gs) (auto simp: show_args_def intro: dense_word)
  have r: "rest_is buf ps (w @ CHR '' '' # ?x)" using Cons.prems(1) g by (simp add: show_args_def)
  have hw: "hd (w @ CHR '' '' # ?x) \<notin> set ''|)&;''" using w(1) by (cases w) (auto simp: is_word_def word_char_def symbols_def)
  have pk: "peek buf ps ''|)&;'' = (False, ps)" using peek_rest [OF r dense_word [OF w(1)]] hw by simp
  note t = gettoken_word [OF r w(1) dense_redirs [OF da]] and pl = placed_word [OF r w(1)]
  let ?c = "add_arg c ps (ps + length w)"
  have gd: "good buf ?c" using words_add_arg [of c ps "ps + length w"] pl(1) Cons.prems(4) by (auto simp: good_def)
  have "show_args gs @ k = [] \<or> hd (show_args gs @ k) \<notin> set ''<>''"
    using show_args_head [of gs k] Cons.prems(2) assms(5) by auto
  then obtain c2 p2 where c2: "parseredirs buf ?c (Suc (ps + length w)) = Parsed c2 p2" "rest_is buf p2 (show_args gs @ k)"
    "tree_of buf c2 = foldl add_redir (tree_of buf ?c) rs" "good buf c2"
    using parseredirs_show [OF t(2) w(2) da _ gd] by blast
  have "parseargs n buf c ps = parseargs n' buf c2 p2" using n pk t(1) c2(1) by simp
  then show ?case using Cons.IH [OF c2(2) _ n(2) c2(4)] Cons.prems(2) c2(3) pl(2) g by (simp add: add_group_def tree_add_arg)
qed

lemma dense_backs: "dense k \<Longrightarrow> dense (show_backs m @ k)"
  by (cases m) (simp_all add: show_backs_def dense_def whitespace_def)

lemma dense_symbol: "c \<in> set symbols \<Longrightarrow> dense (c # k)"
  by (auto simp: dense_def symbols_def whitespace_def)

lemma backs_head: "k = [] \<or> hd k \<in> set '');'' \<Longrightarrow> show_backs m @ k = [] \<or> hd (show_backs m @ k) \<in> set '')&;''"
  by (cases m) (auto simp: show_backs_def)

lemma dense_show:
  "ok_line l \<Longrightarrow> dense k \<Longrightarrow> dense (show_line l @ k)"
  "ok_pipeline pl \<Longrightarrow> dense k \<Longrightarrow> dense (show_pipeline pl @ k)"
  "ok_command cm \<Longrightarrow> dense k \<Longrightarrow> dense (show_command cm @ k)"
proof (induction l and pl and cm arbitrary: k and k and k)
  case (Simple rs gs)
  have "dense (show_args gs @ k)" using Simple by (cases gs) (auto simp: show_args_def intro: dense_word)
  then show ?case by (simp add: dense_redirs)
qed (simp_all add: dense_backs dense_symbol symbols_def)

lemma parse_simple:
  assumes "parseexec n buf ps \<noteq> NoFuel" "rest_is buf ps (show_command (Simple rs gs) @ k)" "ok_command (Simple rs gs)" "dense k"
    "k = [] \<or> hd k \<in> set ''|)&;''"
  shows "\<exists>c p. parseexec n buf ps = Parsed c p \<and> rest_is buf p k \<and> tree_of buf c = mean_command (Simple rs gs) \<and> good buf c"
proof -
  obtain n' where n: "n = Suc n'" using assms(1) by (cases n) auto
  let ?k = "show_args gs @ k"
  have gs: "\<forall>g \<in> set gs. is_word (fst g) \<and> ok_redirs (snd g)" "length gs < MAXARGS" "ok_redirs rs" using assms(3) by simp_all
  have dk: "dense ?k" using assms(4) gs by (cases gs) (auto simp: show_args_def intro: dense_word)
  have hd: "?k = [] \<or> hd ?k \<notin> set ''<>(''" using show_args_head [of gs k] gs(1) assms(5) by auto
  have r: "rest_is buf ps (show_redirs rs @ ?k)" using assms(2) by simp
  have "hd (show_redirs rs @ ?k) \<noteq> CHR ''('' \<or> show_redirs rs @ ?k = []"
  proof (cases rs)
    case (Cons rf rs')
    then show ?thesis by (cases rf; cases "fst rf") (auto simp: show_redirs_def)
  qed (use hd in \<open>auto simp: show_redirs_def\<close>)
  then have pk: "peek buf ps ''('' = (False, ps)" using peek_rest [OF r dense_redirs [OF dk]] by auto
  have e: "good buf execcmd" "tree_of buf execcmd = TExec []" by (simp_all add: execcmd_def good_def)
  obtain c p where c: "parseredirs buf execcmd ps = Parsed c p" "rest_is buf p ?k" "tree_of buf c = foldl add_redir (TExec []) rs" "good buf c"
    using parseredirs_show [OF r gs(3) dk _ e(1)] hd e(2) by auto
  obtain c' p' where "parseargs MAXARGS buf c p = Parsed c' p'" "rest_is buf p' k" "tree_of buf c' = foldl add_group (tree_of buf c) gs" "good buf c'"
    using parseargs_show [OF c(2) gs(1,2) assms(4,5) c(4)] by blast
  then show ?thesis using n pk c by simp
qed

lemma parse_show:
  "parseline n buf ps \<noteq> NoFuel \<Longrightarrow> rest_is buf ps (show_line l @ k) \<Longrightarrow> ok_line l \<Longrightarrow> dense k \<Longrightarrow> k = [] \<or> hd k = CHR '')'' \<Longrightarrow>
    \<exists>c p. parseline n buf ps = Parsed c p \<and> rest_is buf p k \<and> tree_of buf c = mean_line l \<and> good buf c"
  "parsepipe n buf ps \<noteq> NoFuel \<Longrightarrow> rest_is buf ps (show_pipeline pl @ k) \<Longrightarrow> ok_pipeline pl \<Longrightarrow> dense k \<Longrightarrow> k = [] \<or> hd k \<in> set '')&;'' \<Longrightarrow>
    \<exists>c p. parsepipe n buf ps = Parsed c p \<and> rest_is buf p k \<and> tree_of buf c = mean_pipeline pl \<and> good buf c"
  "parseexec n buf ps \<noteq> NoFuel \<Longrightarrow> rest_is buf ps (show_command cm @ k) \<Longrightarrow> ok_command cm \<Longrightarrow> dense k \<Longrightarrow> k = [] \<or> hd k \<in> set ''|)&;'' \<Longrightarrow>
    \<exists>c p. parseexec n buf ps = Parsed c p \<and> rest_is buf p k \<and> tree_of buf c = mean_command cm \<and> good buf c"
proof (induction l and pl and cm arbitrary: n ps k and n ps k and n ps k)
  case (Last pl m)
  obtain n' where n: "n = Suc n'" using Last.prems(1) by (cases n) auto
  have "parsepipe n' buf ps \<noteq> NoFuel" using Last.prems(1) n by auto
  then obtain c p where c: "parsepipe n' buf ps = Parsed c p" "rest_is buf p (show_backs m @ k)" "tree_of buf c = mean_pipeline pl" "good buf c"
    using Last.IH [of n' ps "show_backs m @ k"] Last.prems backs_head [of k m] dense_backs by auto
  obtain p2 where p2: "parsebacks buf c p = ((BACK ^^ m) c, p2)" "rest_is buf p2 k" using parsebacks_show [OF c(2) Last.prems(4), of c] Last.prems(5) by auto
  have pk: "peek buf p2 '';'' = (False, p2)" using peek_rest [OF p2(2) Last.prems(4)] Last.prems(5) by auto
  have "parseline n buf ps = Parsed ((BACK ^^ m) c) p2" using n c(1) p2(1) pk by simp
  moreover have "tree_of buf ((BACK ^^ m) c) = (TBack ^^ m) (tree_of buf c)" "words_of ((BACK ^^ m) c) = words_of c" by (induction m) simp_all
  ultimately show ?case using p2(2) c(3,4) by (simp add: good_def)
next
  case (Then pl m l)
  obtain n' where n: "n = Suc n'" using Then.prems(1) by (cases n) auto
  let ?k = "CHR '';'' # CHR '' '' # show_line l @ k"
  have dk: "dense ?k" by (simp add: dense_symbol symbols_def)
  have "parsepipe n' buf ps \<noteq> NoFuel" using Then.prems(1) n by auto
  then obtain c p where c: "parsepipe n' buf ps = Parsed c p" "rest_is buf p (show_backs m @ ?k)" "tree_of buf c = mean_pipeline pl" "good buf c"
    using Then.IH(1) [of n' ps "show_backs m @ ?k"] Then.prems backs_head [of ?k m] dense_backs [OF dk] by auto
  obtain p2 where p2: "parsebacks buf c p = ((BACK ^^ m) c, p2)" "rest_is buf p2 ?k" using parsebacks_show [OF c(2) dk, of c] by auto
  have pk: "peek buf p2 '';'' = (True, p2)" using peek_rest [OF p2(2) dk] by simp
  note g = gettoken_symbol [OF p2(2) _ dense_show(1) [OF _ Then.prems(4)]]
  have g1: "gettoken buf p2 = (CHR '';'', p2, Suc p2, Suc (Suc p2))" "rest_is buf (Suc (Suc p2)) (show_line l @ k)"
    using g Then.prems(3) by (simp_all add: symbols_def)
  have run: "parseline n buf ps = pbind (parseline n' buf (Suc (Suc p2))) (\<lambda>right p. Parsed (listcmd ((BACK ^^ m) c) right) p)"
    using n c(1) p2(1) pk g1(1) by simp
  then have nf: "parseline n' buf (Suc (Suc p2)) \<noteq> NoFuel" using Then.prems(1) by auto
  obtain c3 p3 where "parseline n' buf (Suc (Suc p2)) = Parsed c3 p3" "rest_is buf p3 k" "tree_of buf c3 = mean_line l" "good buf c3"
    using Then.IH(2) [OF nf g1(2)] Then.prems by auto
  moreover have "tree_of buf ((BACK ^^ m) c) = (TBack ^^ m) (tree_of buf c)" "words_of ((BACK ^^ m) c) = words_of c" by (induction m) simp_all
  ultimately show ?case using run c(3,4) by (auto simp: good_def listcmd_def)
next
  case (Single cm)
  obtain n' where n: "n = Suc n'" using Single.prems(1) by (cases n) auto
  then have "parseexec n' buf ps \<noteq> NoFuel" using Single.prems(1) by auto
  then obtain c p where c: "parseexec n' buf ps = Parsed c p" "rest_is buf p k" "tree_of buf c = mean_command cm" "good buf c"
    using Single.IH [of n' ps k] Single.prems by auto
  have "peek buf p ''|'' = (False, p)" using peek_rest [OF c(2) Single.prems(4)] Single.prems(5) by auto
  then show ?case using n c by simp
next
  case (Bar cm pl)
  obtain n' where n: "n = Suc n'" using Bar.prems(1) by (cases n) auto
  let ?k = "CHR ''|'' # CHR '' '' # show_pipeline pl @ k"
  have dk: "dense ?k" by (simp add: dense_symbol symbols_def)
  have "parseexec n' buf ps \<noteq> NoFuel" using Bar.prems(1) n by auto
  then obtain c p where c: "parseexec n' buf ps = Parsed c p" "rest_is buf p ?k" "tree_of buf c = mean_command cm" "good buf c"
    using Bar.IH(1) [of n' ps ?k] Bar.prems dk by auto
  have pk: "peek buf p ''|'' = (True, p)" using peek_rest [OF c(2) dk] by simp
  have g: "gettoken buf p = (CHR ''|'', p, Suc p, Suc (Suc p))" "rest_is buf (Suc (Suc p)) (show_pipeline pl @ k)"
    using gettoken_symbol [OF c(2) _ dense_show(2) [OF _ Bar.prems(4)]] Bar.prems(3) by (simp_all add: symbols_def)
  have run: "parsepipe n buf ps = pbind (parsepipe n' buf (Suc (Suc p))) (\<lambda>right p. Parsed (pipecmd c right) p)"
    using n c(1) pk g(1) by simp
  then have nf: "parsepipe n' buf (Suc (Suc p)) \<noteq> NoFuel" using Bar.prems(1) by auto
  obtain c3 p3 where "parsepipe n' buf (Suc (Suc p)) = Parsed c3 p3" "rest_is buf p3 k" "tree_of buf c3 = mean_pipeline pl" "good buf c3"
    using Bar.IH(2) [OF nf g(2)] Bar.prems by auto
  then show ?case using run c(3,4) by (auto simp: good_def pipecmd_def)
next
  case (Simple rs gs)
  then show ?case by (rule parse_simple)
next
  case (Block l rs)
  obtain n' where n: "n = Suc n'" using Block.prems(1) by (cases n) auto
  let ?r = "show_redirs rs @ k" let ?k = "CHR '')'' # CHR '' '' # ?r"
  have dr: "dense ?r" and dk: "dense ?k" using Block.prems(4) by (simp_all add: dense_redirs dense_symbol symbols_def)
  have r: "rest_is buf ps (CHR ''('' # CHR '' '' # show_line l @ ?k)" using Block.prems(2) by simp
  have pk: "peek buf ps ''('' = (True, ps)" using peek_rest [OF r] by (simp add: dense_symbol symbols_def)
  have g: "gettoken buf ps = (CHR ''('', ps, Suc ps, Suc (Suc ps))" "rest_is buf (Suc (Suc ps)) (show_line l @ ?k)"
    using gettoken_symbol [OF r _ dense_show(1) [OF _ dk]] Block.prems(3) by (simp_all add: symbols_def)
  have "parseexec n buf ps = parseblock n' buf ps" using n pk by simp
  moreover then obtain n2 where n2: "n' = Suc n2" using Block.prems(1) by (cases n') auto
  ultimately have nf: "parseline n2 buf (Suc (Suc ps)) \<noteq> NoFuel" and
    run: "parseexec n buf ps = pbind (parseline n2 buf (Suc (Suc ps))) (\<lambda>cmd ps. case peek buf ps '')'' of (b, ps) \<Rightarrow>
       if \<not> b then Panicked ''syntax - missing )'' else (case gettoken buf ps of (_, _, _, ps) \<Rightarrow> parseredirs buf cmd ps))"
    using pk g(1) Block.prems(1) by auto
  obtain c p where c: "parseline n2 buf (Suc (Suc ps)) = Parsed c p" "rest_is buf p ?k" "tree_of buf c = mean_line l" "good buf c"
    using Block.IH [OF nf g(2) _ dk] Block.prems(3) by auto
  have pk2: "peek buf p '')'' = (True, p)" using peek_rest [OF c(2) dk] by simp
  have g2: "gettoken buf p = (CHR '')'', p, Suc p, Suc (Suc p))" "rest_is buf (Suc (Suc p)) ?r"
    using gettoken_symbol [OF c(2) _ dr] by (simp_all add: symbols_def)
  have "parseexec n buf ps = parseredirs buf c (Suc (Suc p))" using run c(1) pk2 g2(1) by simp
  then show ?case using parseredirs_show [OF g2(2) _ Block.prems(4) _ c(4)] Block.prems(3,5) c(3) by auto
qed

section \<open>Words as C strings\<close>

lemma nul_fold:
  "length (fold (\<lambda>(q, e) b. b[e := CHR 0x00]) as b) = length b \<and>
    (\<forall>i < length b. fold (\<lambda>(q, e) b. b[e := CHR 0x00]) as b ! i = (if i \<in> snd ` set as then CHR 0x00 else b ! i))"
  by (induction as arbitrary: b) (auto simp: nth_list_update split: prod.splits)

lemma nulterminate_nth:
  "length (nulterminate c b) = length b \<and>
    (\<forall>i < length b. nulterminate c b ! i = (if i \<in> snd ` words_of c then CHR 0x00 else b ! i))"
proof (induction c arbitrary: b)
  case (EXEC as)
  then show ?case using nul_fold [of as b] by simp
next
  case (REDIR c f ef mode fd)
  have "(nulterminate c b)[ef := CHR 0x00] ! i = (if i = ef then CHR 0x00 else nulterminate c b ! i)" if "i < length b" for i
    using that REDIR.IH [of b] by (cases "i = ef") simp_all
  then show ?case using REDIR.IH [of b] by simp
qed auto

primrec tree_str :: "string \<Rightarrow> cmd \<Rightarrow> tree" where
  "tree_str buf (EXEC as) = TExec (map (\<lambda>(q, e). str_at buf q) as)"
| "tree_str buf (REDIR c q e mode fd) = TRedir (tree_str buf c) (str_at buf q) mode fd"
| "tree_str buf (PIPE l r) = TPipe (tree_str buf l) (tree_str buf r)"
| "tree_str buf (LIST l r) = TList (tree_str buf l) (tree_str buf r)"
| "tree_str buf (BACK c) = TBack (tree_str buf c)"

lemma till_nul_take: "n < length x \<Longrightarrow> x ! n = CHR 0x00 \<Longrightarrow> (\<forall>i < n. x ! i \<noteq> CHR 0x00) \<Longrightarrow> till_nul x = take n x"
  unfolding till_nul_def by (rule takeWhile_eq_take_P_nth) auto

lemma str_at_nulterminate:
  assumes "good buf c" "(q, e) \<in> words_of c"
  shows "str_at (nulterminate c buf) q = word_slice buf q e"
proof -
  let ?b = "nulterminate c buf"
  have p: "q \<le> e" "e < length buf" "\<And>i. q \<le> i \<Longrightarrow> i < e \<Longrightarrow> word_char (buf ! i)"
    using assms by (auto simp: good_def placed_def)
  note n = nulterminate_nth [of c buf]
  have "?b ! e = CHR 0x00" using n p(2) assms(2) by force
  have same: "?b ! i = buf ! i" if "q \<le> i" "i < e" for i
  proof -
    have "i \<notin> snd ` words_of c" using p(3) [OF that] assms(1) by (auto simp: good_def placed_def)
    then show ?thesis using n that p(2) by simp
  qed
  then have "?b ! i \<noteq> CHR 0x00" if "q \<le> i" "i < e" for i using that p(3) by (simp add: word_char_def)
  then have "str_at ?b q = take (e - q) (drop q ?b)"
    unfolding str_at_def using \<open>?b ! e = CHR 0x00\<close> p(1,2) n by (intro till_nul_take) auto
  also have "\<dots> = word_slice buf q e"
    unfolding word_slice_def by (rule nth_equalityI) (use n p same in auto)
  finally show ?thesis .
qed

lemma tree_str_eq: "words_of c' \<subseteq> words_of c \<Longrightarrow> good buf c \<Longrightarrow> tree_str (nulterminate c buf) c' = tree_of buf c'"
  by (induction c') (auto simp: str_at_nulterminate)



end
