(* ===== verification/Spec2Isabelle.thy ===== *)
theory Spec2Isabelle
  imports Prelude Machine Kprintf Cstring Kalloc Vm Vm_Map Vm_User Proc_State Sched Sched_Run Sleeplock Bio Bio_Boot Bytes Log Log_Crash Log_Tx Log_Op Fs Fs_Block Fs_Inode Fs_Map Fs_Content File_Write
    Ring Uart Console Pipe File Uart_Out User_Mem Pipe_Fifo Console_Edit
    Proc_Life Exec Sysfile Syscall Virtio Trap Start
    User_Lib User_Grep User_Tools Shell Shell_Parse
begin

text \<open>
  A verification development for the kernel of this repository: xv6 for RISC-V (\<open>src/kernel\<close>) with a lottery and a stride
  scheduler added to \<open>src/kernel/proc.c\<close>, and for the parts of \<open>src/user\<close> that compute.

  \<^bold>\<open>How the program is modelled.\<close> A C function is a HOL function from a state to an outcome (\<open>res\<close> in \<open>Prelude\<close>): it
  returns a value and a state (\<open>Ok\<close>), it switches to the scheduler (\<open>Swtch\<close>), it panics with a message (\<open>Panic\<close>), it spins
  for ever (\<open>Spin\<close>), or C gives it no meaning (\<open>Undef\<close>: a null pointer, an index out of range, a division by zero). Outcomes are
  sequenced by \<open>bind\<close>. The state is one record that grows along the theories, a field for each variable of the C files: \<open>machine\<close>
  (harts, spin locks), \<open>kcons\<close> (console output), \<open>kmem\<close> (physical memory, free list), \<open>vm\<close>, \<open>kproc\<close> (process table), \<open>ksleep\<close>, \<open>kbio\<close>
  (buffers, disk), \<open>klog\<close>, \<open>kfs\<close> (superblock, inode table), \<open>kuart\<close>, \<open>kconsole\<close>, \<open>kfile\<close>, \<open>kvirtio\<close>, \<open>ktrap\<close>. A function is polymorphic
  in the fields it does not know, so a later component calls an earlier one directly. Integers have the width of their C type (words
  of \<open>HOL-Library.Word\<close>); a pointer into an array is an index, a pointer to a page is an address of the byte memory. A process
  that has to wait leaves its function through \<open>Swtch\<close>; what it does when the scheduler runs it again is a second definition with the suffix
  \<open>_resume\<close>. A loop is a recursive function whose recursion is shown to end by a measure; a loop over an array of fixed size counts the
  elements left. The status register of the serial line is a
  stream of values, and the loop that waits for the device is a \<open>partial_function (option)\<close> on it whose value \<open>None\<close> is the outcome \<open>Spin\<close>. Fuel is
  used for the parser of the shell only.

  \<^bold>\<open>Theories.\<close>
  \<^item> \<open>Prelude\<close>: C types, outcomes, words. \<open>Bytes\<close>: integers inside byte arrays. \<open>Ring\<close>: ring buffers, with the
    interface \<open>fifo\<close>.
  \<^item> \<open>Machine\<close> (\<open>spinlock.c\<close>, \<open>cpuid\<close>, \<open>mycpu\<close>): \<open>push_off\<close>, \<open>pop_off\<close>, \<open>acquire\<close>, \<open>release\<close>; the interleaved lock \<open>smp_step\<close>
    over any number of harts, its mutual exclusion, and that the atomic operations are runs of it.
  \<^item> \<open>Kprintf\<close> (\<open>printf.c\<close>), \<open>Cstring\<close> (\<open>string.c\<close>), \<open>Kalloc\<close> (\<open>kalloc.c\<close>): number printing is exact; \<open>memmove\<close> copies overlapping
    ranges; the free list through the free pages is a set of distinct pages.
  \<^item> \<open>Vm\<close>, \<open>Vm_Map\<close>, \<open>Vm_User\<close> (\<open>vm.c\<close>): page tables as bytes in memory, their reading as a map from pages to entries, and user address
    spaces: allocation is all or nothing, copying between kernel and user checks the access of every byte.
  \<^item> \<open>Proc_State\<close>, \<open>Sched\<close>, \<open>Sched_Run\<close>, \<open>Proc_Life\<close> (\<open>proc.c\<close>): sleep and wakeup without lost wakeups; the lottery and the stride
    scheduler, their fairness; creation and end of processes.
  \<^item> \<open>Sleeplock\<close> (\<open>sleeplock.c\<close>), \<open>Bio\<close>, \<open>Bio_Boot\<close> (\<open>bio.c\<close>): waiting locks; the LRU list of buffers and the reading of the cache as a map from
    block numbers to blocks.
  \<^item> \<open>Log\<close>, \<open>Log_Crash\<close>, \<open>Log_Tx\<close>, \<open>Log_Op\<close> (\<open>log.c\<close>): transactions; commit is atomic under a crash after any disk write; \<open>Log_Tx\<close> has the
    interface \<open>block_store\<close> through which the file system uses the log and the cache.
  \<^item> \<open>Fs\<close>, \<open>Fs_Block\<close>, \<open>Fs_Inode\<close>, \<open>Fs_Map\<close>, \<open>Fs_Content\<close>, \<open>File_Write\<close> (\<open>fs.c\<close>): all of the file system; the block allocator, inodes on the disk, the block map and
    the contents of files as byte sequences, with the interface \<open>io_source\<close> for the origin of the bytes; \<open>File_Write\<close> puts transactions, locks
    and \<open>writei\<close> together for \<open>filewrite\<close> of \<open>file.c\<close>.
  \<^item> \<open>Uart\<close> (\<open>uart.c\<close>), \<open>Console\<close> (\<open>console.c\<close>), \<open>Pipe\<close> (\<open>pipe.c\<close>), \<open>File\<close> (\<open>file.c\<close>), \<open>Virtio\<close> (\<open>virtio_disk.c\<close>): the devices and open files.
    \<open>Uart_Out\<close>, \<open>Pipe_Fifo\<close>, \<open>Console_Edit\<close>: the buffers of the serial line and of pipes are queues (interpretations of \<open>fifo\<close>), the console is a line
    editor; \<open>User_Mem\<close>: the bytes of a process as \<open>copyin\<close> and \<open>copyout\<close> see them.
  \<^item> \<open>Exec\<close> (\<open>exec.c\<close>), \<open>Sysfile\<close> (\<open>sysfile.c\<close>), \<open>Syscall\<close> (\<open>syscall.c\<close>, \<open>sysproc.c\<close>), \<open>Trap\<close> (\<open>trap.c\<close>, \<open>plic.c\<close>, \<open>main.c\<close>), \<open>Start\<close> (\<open>start.c\<close>): the
    system calls, traps and the boot.
  \<^item> \<open>User_Lib\<close> (\<open>user/ulib.c\<close>, \<open>user/printf.c\<close>), \<open>User_Grep\<close> (\<open>grep.c\<close>), \<open>User_Tools\<close> (\<open>wc.c\<close>, \<open>cat.c\<close>, \<open>echo.c\<close>, \<open>kill.c\<close>, \<open>ln.c\<close>, \<open>mkdir.c\<close>, \<open>rm.c\<close>, \<open>ls.c\<close>,
    \<open>init.c\<close>), \<open>Shell\<close> and \<open>Shell_Parse\<close> (\<open>sh.c\<close>): user programs. The system calls are a parameter, the record \<open>kern\<close>; what a program relies on is a
    hypothesis of its theorem (\<open>stream_io\<close>). A program that does not end has the value \<open>None\<close> (\<open>partial_function (option)\<close>). The pattern matcher decides a
    declarative meaning of patterns; \<open>grep\<close>, \<open>wc\<close> and \<open>cat\<close> treat a file as one text whatever pieces \<open>read\<close> returns. The parser of the shell
    returns on every line (its recursion has fuel four times the length of the line and four more, which is shown to be enough), parses the lines of a
    grammar as their meaning, and leaves their words as C strings; a command that runs never returns.

  \<^bold>\<open>Concurrency.\<close> The spin lock is modelled with every interleaving of the harts. Above it, a function runs on one hart as one step between
  the points where it can lose the processor; the predicate \<open>calm\<close> describes the states between such steps, in which no spin lock is held.
  What other processes do while one is asleep is an arbitrary change of state between \<open>Swtch\<close> and the resumption; the theorems on
  \<open>sleep\<close>, sleep locks and time slices are about these sequences.

  \<^bold>\<open>Parameters.\<close> The values of device registers are fields of the state. The disk of \<open>Bio\<close> is the image with the list of the block writes
  done, newest first; \<open>Virtio\<close> models the driver, and the device changes the used ring and the status bytes between two calls of it. The system calls are a parameter of the user programs.

  \<^bold>\<open>Bounds.\<close> The file system theorems speak of a transaction of one process: \<open>txw p W n H\<close> says that the log and the cache have room
  for the blocks \<open>W\<close> and \<open>n\<close> more buffers. The example states are a disk of 1000 blocks with the layout of \<open>mkfs\<close>.

  \<^bold>\<open>Not modelled.\<close> The assembly (\<open>entry.S\<close>, \<open>swtch.S\<close>, \<open>trampoline.S\<close>, \<open>kernelvec.S\<close>, \<open>initcode.S\<close>): the model starts and ends where C
  does. The memory model of the hardware: memory is sequentially consistent, fences are no operations. \<open>ramdisk.c\<close> is not part of the
  build. The test programs (\<open>usertests.c\<close>, \<open>grind.c\<close>, \<open>forktest.c\<close>, \<open>stressfs.c\<close>, \<open>test.c\<close>, \<open>prog1.c\<close> to \<open>prog3.c\<close>, \<open>zombie.c\<close>) have no
  behaviour of their own to specify. \<open>mkfs.c\<close> runs on the host. The remaining user programs only call the system.
\<close>

end
